(* ===== verification/Prelude.thy ===== *)
theory Prelude
  imports Main "HOL-Library.Word" "HOL-Library.Sublist"
begin

text \<open>
  Shared vocabulary of the development: the machine types of the C++ sources
  (\<open>uint8_t\<close>, \<open>uint32_t\<close>, \<open>uint64_t\<close>), byte strings, string literals, and the
  generic facts on lists and words that the component theories use.

  \<^item> A \<open>std::string\<close> and a \<open>Slice\<close> (pointer and length) are the list of the bytes
    they refer to. A pointer pair \<open>p, limit\<close> is the list of the bytes in
    \<open>[p, limit)\<close>, so that advancing \<open>p\<close> drops bytes from the front of the list.
  \<^item> \<open>uint32_t\<close> and \<open>uint64_t\<close> are words of that width: their arithmetic wraps.
  \<^item> \<open>size_t\<close> lengths of byte strings are natural numbers.
\<close>

unbundle bit_operations_syntax

type_synonym byte = "8 word"
type_synonym u32 = "32 word"
type_synonym u64 = "64 word"
type_synonym bytes = "byte list"

named_theorems codec \<open>round-trip equations of encoders and decoders\<close>
named_theorems frame \<open>parts of a state that an operation leaves alone\<close>

section \<open>String literals\<close>

text \<open>The bytes of a C string literal.\<close>

definition cstr :: "string \<Rightarrow> bytes" where
  "cstr s = map of_char s"

lemma cstr_Nil [simp]: "cstr [] = []"
  by (simp add: cstr_def)

lemma cstr_Cons [simp]: "cstr (c # s) = of_char c # cstr s"
  by (simp add: cstr_def)

lemma length_cstr [simp]: "length (cstr s) = length s"
  by (simp add: cstr_def)

section \<open>Lists\<close>

lemma take_length_append [simp]: "length xs = n \<Longrightarrow> take n (xs @ ys) = xs"
  by simp

lemma drop_length_append [simp]: "length xs = n \<Longrightarrow> drop n (xs @ ys) = ys"
  by simp

lemma list_eq_take_drop_nth:
  "i < length xs \<Longrightarrow> xs = take i xs @ xs ! i # drop (Suc i) xs"
  by (rule id_take_nth_drop)

section \<open>Words\<close>

lemma word_less_numeral_unat:
  fixes x :: "'a::len word"
  assumes "n < 2 ^ LENGTH('a)"
  shows "(x < word_of_nat n) = (unat x < n)"
  using assms by (simp add: word_less_nat_alt unsigned_of_nat take_bit_nat_eq_self)

lemma unat_word_of_nat_small [simp]:
  "n < 2 ^ LENGTH('a) \<Longrightarrow> unat (word_of_nat n :: 'a::len word) = n"
  by (simp add: unsigned_of_nat take_bit_nat_eq_self)

lemma word_of_nat_eq_small:
  fixes m n :: nat
  assumes "m < 2 ^ LENGTH('a)" "n < 2 ^ LENGTH('a)"
  shows "(word_of_nat m :: 'a::len word) = word_of_nat n \<longleftrightarrow> m = n"
proof
  assume "(word_of_nat m :: 'a word) = word_of_nat n"
  then have "unat (word_of_nat m :: 'a word) = unat (word_of_nat n :: 'a word)" by simp
  with assms show "m = n" by simp
qed simp

lemma word_of_nat_less_small:
  fixes m n :: nat
  assumes "m < 2 ^ LENGTH('a)" "n < 2 ^ LENGTH('a)"
  shows "(word_of_nat m :: 'a::len word) < word_of_nat n \<longleftrightarrow> m < n"
    and "(word_of_nat m :: 'a::len word) \<le> word_of_nat n \<longleftrightarrow> m \<le> n"
  using assms by (simp_all add: word_less_nat_alt word_le_nat_alt)

text \<open>A shifted field merged with the bits below it.\<close>

lemma push_bit_split:
  fixes v :: "'a::len word"
  shows "push_bit s (take_bit k v) OR push_bit (s + k) (drop_bit k v) = push_bit s v"
proof (rule bit_word_eqI)
  fix n
  show "bit (push_bit s (take_bit k v) OR push_bit (s + k) (drop_bit k v)) n
      = bit (push_bit s v) n"
    by (cases "n < s + k") (auto simp: bit_simps)
qed

lemma ucast_ucast_AND_byte:
  fixes v :: "'a::len word"
  assumes "8 \<le> LENGTH('a)"
  shows "(ucast (ucast v :: byte) :: 'a word) = take_bit 8 v"
  using assms by (intro bit_word_eqI) (auto simp: bit_simps)

lemma AND_255: "v AND 255 = take_bit 8 (v :: 'a::len word)"
  and AND_127: "v AND 127 = take_bit 7 (v :: 'a::len word)"
  by (simp_all add: take_bit_eq_mask mask_eq_exp_minus_1)

lemma AND_128_eq_0: "v AND 128 = 0 \<longleftrightarrow> \<not> bit (v :: 'a::len word) 7"
  using and_exp_eq_0_iff_not_bit [of v 7] by simp

lemma byte_join:
  fixes x :: "'a::len word"
  assumes "8 \<le> LENGTH('a)"
  shows "ucast (ucast x :: byte) OR push_bit 8 (drop_bit 8 x) = x"
  using push_bit_split [of 0 8 x] assms by (simp add: ucast_ucast_AND_byte)

lemma ucast_take_byte [simp]: "(ucast (take_bit 8 x) :: byte) = ucast (x :: 'a::len word)"
  by (rule bit_word_eqI) (auto simp: bit_simps)

lemma OR_128: "v OR 128 = set_bit 7 (v :: 'a::len word)"
  by (simp add: set_bit_eq_or)

lemma take_bit_self_less:
  fixes v :: "'a::len word"
  assumes "unat v < 2 ^ n"
  shows "take_bit n v = v"
proof (rule bit_word_eqI)
  fix m assume "m < LENGTH('a)"
  show "bit (take_bit n v) m = bit v m"
  proof (cases "m < n")
    case False
    with assms have "unat v < 2 ^ m"
      by (meson le_less_trans less_le_trans not_less one_le_numeral power_increasing)
    then have "\<not> bit (unat v) m" by (simp add: bit_iff_odd)
    then show ?thesis using False by (simp add: bit_simps)
  qed (simp add: bit_simps)
qed

lemma unat_byte_less: "unat (b :: byte) < 256"
  using unsigned_less [of b] by simp

lemma unat_u32_less: "unat (v :: u32) < 2 ^ 32"
  using unsigned_less [of v] by simp

lemma unat_u64_less: "unat (v :: u64) < 2 ^ 64"
  using unsigned_less [of v] by simp

lemma unat_ucast_u32 [simp]: "unat (ucast (v :: u32) :: u64) = unat v"
  using unat_u32_less [of v] by (simp add: unsigned_ucast_eq take_bit_nat_eq_self)

lemma ucast_ucast_u32 [simp]: "(ucast (ucast (v :: u32) :: u64) :: u32) = v"
  by (rule bit_word_eqI) (auto simp: bit_simps)

end
