(* ===== verification/Slice.thy ===== *)
theory Slice
  imports Prelude
begin

text \<open>
  \<open>include/leveldb/slice.h\<close>: a \<open>Slice\<close> is the list of the bytes it refers to.
  \<open>memcmp\<close> is the C library's comparison of two byte ranges of the same length; only
  the sign of its result is documented and only the sign is used.
\<close>

section \<open>Operations\<close>

fun memcmp :: "bytes \<Rightarrow> bytes \<Rightarrow> int" where
  "memcmp (a # as) (b # bs) = (if a < b then -1 else if b < a then 1 else memcmp as bs)"
| "memcmp _ _ = 0"

definition Slice_empty :: "bytes \<Rightarrow> bool" where
  "Slice_empty s = (length s = 0)"

definition remove_prefix :: "bytes \<Rightarrow> nat \<Rightarrow> bytes" where
  "remove_prefix s n = drop n s"

definition starts_with :: "bytes \<Rightarrow> bytes \<Rightarrow> bool" where
  "starts_with s x = (length s \<ge> length x \<and> memcmp (take (length x) s) x = 0)"

definition Slice_eq :: "bytes \<Rightarrow> bytes \<Rightarrow> bool" where
  "Slice_eq x y = (length x = length y \<and> memcmp x y = 0)"

definition Slice_compare :: "bytes \<Rightarrow> bytes \<Rightarrow> int" where
  "Slice_compare s b =
     (let min_len = (if length s < length b then length s else length b);
          r = memcmp (take min_len s) (take min_len b)
      in if r = 0 then (if length s < length b then -1 else if length s > length b then 1 else r)
         else r)"

text \<open>
  A read through a pointer: \<open>n\<close> bytes from \<open>off\<close> on in a buffer, no result if they are not all inside.
\<close>

definition read_mem :: "bytes \<Rightarrow> nat \<Rightarrow> nat \<Rightarrow> bytes option" where
  "read_mem data off n = (if off + n \<le> length data then Some (take n (drop off data)) else None)"

section \<open>Equality and prefixes\<close>

lemma memcmp_eq_0_iff: "length x = length y \<Longrightarrow> memcmp x y = 0 \<longleftrightarrow> x = y"
  by (induction x y rule: memcmp.induct) auto

lemma memcmp_range: "memcmp x y \<in> {-1, 0, 1}"
  by (induction x y rule: memcmp.induct) auto

lemma Slice_eq_iff [simp]: "Slice_eq x y \<longleftrightarrow> x = y"
  by (auto simp: Slice_eq_def memcmp_eq_0_iff)

lemma starts_with_iff_prefix [simp]: "starts_with s x \<longleftrightarrow> prefix x s"
proof -
  have "length s \<ge> length x \<Longrightarrow> memcmp (take (length x) s) x = 0 \<longleftrightarrow> take (length x) s = x"
    by (rule memcmp_eq_0_iff) simp
  moreover have "take (length x) s = x \<longleftrightarrow> prefix x s"
    by (metis append_eq_conv_conj prefix_def)
  ultimately show ?thesis
    by (auto simp: starts_with_def dest: prefix_length_le)
qed

lemma remove_prefix_append [simp]: "remove_prefix (x @ y) (length x) = y"
  by (simp add: remove_prefix_def)

section \<open>The order of the bytewise comparison\<close>

text \<open>
  The reference order: the lexicographic order of the byte lists.
\<close>

fun lex_less :: "bytes \<Rightarrow> bytes \<Rightarrow> bool" where
  "lex_less [] [] = False"
| "lex_less [] (b # bs) = True"
| "lex_less (a # as) [] = False"
| "lex_less (a # as) (b # bs) = (a < b \<or> (a = b \<and> lex_less as bs))"

lemma Slice_compare_Cons:
  "Slice_compare (a # as) (b # bs) =
     (if a < b then -1 else if b < a then 1 else Slice_compare as bs)"
  by (auto simp: Slice_compare_def Let_def)

lemma Slice_compare_Nil [simp]:
  "Slice_compare [] [] = 0"
  "Slice_compare [] (b # bs) = -1"
  "Slice_compare (a # as) [] = 1"
  by (auto simp: Slice_compare_def)

lemma Slice_compare_refl [simp]: "Slice_compare a a = 0"
  by (induction a) (auto simp: Slice_compare_Cons)

lemma Slice_compare_eq_0: "Slice_compare a b = 0 \<longleftrightarrow> a = b"
  by (induction a b rule: lex_less.induct) (auto simp: Slice_compare_Cons)

lemma Slice_compare_less_0: "Slice_compare a b < 0 \<longleftrightarrow> lex_less a b"
  by (induction a b rule: lex_less.induct) (auto simp: Slice_compare_Cons)

lemma Slice_compare_swap: "Slice_compare b a = - Slice_compare a b"
  by (induction a b rule: lex_less.induct) (auto simp: Slice_compare_Cons)

lemma Slice_compare_greater_0: "Slice_compare a b > 0 \<longleftrightarrow> lex_less b a"
  using Slice_compare_less_0 [of b a] Slice_compare_swap [of a b] by simp

lemma lex_less_trans: "lex_less a b \<Longrightarrow> lex_less b c \<Longrightarrow> lex_less a c"
proof (induction a b arbitrary: c rule: lex_less.induct)
  case (4 a as b bs)
  then show ?case by (cases c) auto
next
  case (2 b bs)
  then show ?case by (cases c) auto
qed auto

lemma lex_less_append: "lex_less (p @ a) (p @ b) \<longleftrightarrow> lex_less a b"
  by (induction p) auto

lemma Slice_compare_trans:
  assumes "Slice_compare a b \<le> 0" "Slice_compare b c \<le> 0"
  shows "Slice_compare a c \<le> 0"
  using assms lex_less_trans [of a b c]
  by (auto simp: le_less Slice_compare_less_0 Slice_compare_eq_0)

end
