(* ===== verification/Coding.thy ===== *)
theory Coding
  imports Slice
begin

text \<open>
  \<open>util/coding.h\<close> and \<open>util/coding.cc\<close>: fixed-width and variable-length integers and
  length-prefixed strings.

  Writers (\<open>Encode\<dots>\<close>, \<open>Put\<dots>\<close>) return the bytes they store or append. Readers
  (\<open>Get\<dots>\<close>) take the bytes in \<open>[p, limit)\<close> and return the value with the bytes left,
  or \<open>None\<close> where the code returns \<open>NULL\<close> or \<open>false\<close>.
\<close>

section \<open>Fixed-width integers\<close>

text \<open>
  How a host stores a \<open>uint32_t\<close> or \<open>uint64_t\<close> object in memory, which is what
  \<open>memcpy\<close> from and to the object sees.
\<close>

definition le_bytes32 :: "u32 \<Rightarrow> bytes" where
  "le_bytes32 v = [ucast v, ucast (drop_bit 8 v), ucast (drop_bit 16 v), ucast (drop_bit 24 v)]"

definition le_bytes64 :: "u64 \<Rightarrow> bytes" where
  "le_bytes64 v =
     [ucast v, ucast (drop_bit 8 v), ucast (drop_bit 16 v), ucast (drop_bit 24 v),
      ucast (drop_bit 32 v), ucast (drop_bit 40 v), ucast (drop_bit 48 v), ucast (drop_bit 56 v)]"

definition store32 :: "bool \<Rightarrow> u32 \<Rightarrow> bytes" where
  "store32 little v = (if little then le_bytes32 v else rev (le_bytes32 v))"

definition store64 :: "bool \<Rightarrow> u64 \<Rightarrow> bytes" where
  "store64 little v = (if little then le_bytes64 v else rev (le_bytes64 v))"

fun of_le_bytes :: "bytes \<Rightarrow> 'a::len word" where
  "of_le_bytes [] = 0"
| "of_le_bytes (b # bs) = ucast b OR push_bit 8 (of_le_bytes bs)"

definition load32 :: "bool \<Rightarrow> bytes \<Rightarrow> u32" where
  "load32 little bs = of_le_bytes (if little then take 4 bs else rev (take 4 bs))"

definition load64 :: "bool \<Rightarrow> bytes \<Rightarrow> u64" where
  "load64 little bs = of_le_bytes (if little then take 8 bs else rev (take 8 bs))"

text \<open>The encoders and decoders, with \<open>port::kLittleEndian\<close> as their first argument.\<close>

definition EncodeFixed32_port :: "bool \<Rightarrow> u32 \<Rightarrow> bytes" where
  "EncodeFixed32_port kLittleEndian value =
     (if kLittleEndian then store32 kLittleEndian value
      else [ucast (value AND 0xff),
            ucast (drop_bit 8 value AND 0xff),
            ucast (drop_bit 16 value AND 0xff),
            ucast (drop_bit 24 value AND 0xff)])"

definition EncodeFixed64_port :: "bool \<Rightarrow> u64 \<Rightarrow> bytes" where
  "EncodeFixed64_port kLittleEndian value =
     (if kLittleEndian then store64 kLittleEndian value
      else [ucast (value AND 0xff),
            ucast (drop_bit 8 value AND 0xff),
            ucast (drop_bit 16 value AND 0xff),
            ucast (drop_bit 24 value AND 0xff),
            ucast (drop_bit 32 value AND 0xff),
            ucast (drop_bit 40 value AND 0xff),
            ucast (drop_bit 48 value AND 0xff),
            ucast (drop_bit 56 value AND 0xff)])"

definition DecodeFixed32_port :: "bool \<Rightarrow> bytes \<Rightarrow> u32" where
  "DecodeFixed32_port kLittleEndian ptr =
     (if kLittleEndian then load32 kLittleEndian ptr
      else ucast (ptr ! 0) OR push_bit 8 (ucast (ptr ! 1))
             OR push_bit 16 (ucast (ptr ! 2)) OR push_bit 24 (ucast (ptr ! 3)))"

definition DecodeFixed64_port :: "bool \<Rightarrow> bytes \<Rightarrow> u64" where
  "DecodeFixed64_port kLittleEndian ptr =
     (if kLittleEndian then load64 kLittleEndian ptr
      else (let lo = ucast (DecodeFixed32_port kLittleEndian ptr);
                hi = ucast (DecodeFixed32_port kLittleEndian (drop 4 ptr))
            in push_bit 32 hi OR lo))"

text \<open>The functions as built for a little-endian host, which the components below call.\<close>

definition EncodeFixed32 :: "u32 \<Rightarrow> bytes" where
  "EncodeFixed32 value = EncodeFixed32_port True value"

definition EncodeFixed64 :: "u64 \<Rightarrow> bytes" where
  "EncodeFixed64 value = EncodeFixed64_port True value"

definition DecodeFixed32 :: "bytes \<Rightarrow> u32" where
  "DecodeFixed32 ptr = DecodeFixed32_port True ptr"

definition DecodeFixed64 :: "bytes \<Rightarrow> u64" where
  "DecodeFixed64 ptr = DecodeFixed64_port True ptr"

definition PutFixed32 :: "bytes \<Rightarrow> u32 \<Rightarrow> bytes" where
  "PutFixed32 dst value = dst @ EncodeFixed32 value"

definition PutFixed64 :: "bytes \<Rightarrow> u64 \<Rightarrow> bytes" where
  "PutFixed64 dst value = dst @ EncodeFixed64 value"

section \<open>Variable-length integers\<close>

text \<open>
  Storing to an \<open>unsigned char\<close> keeps the low eight bits, which is \<open>ucast\<close>.
\<close>

definition EncodeVarint32 :: "u32 \<Rightarrow> bytes" where
  "EncodeVarint32 v =
     (let B = 128 in
      if v < push_bit 7 1 then [ucast v]
      else if v < push_bit 14 1 then [ucast (v OR B), ucast (drop_bit 7 v)]
      else if v < push_bit 21 1 then
        [ucast (v OR B), ucast (drop_bit 7 v OR B), ucast (drop_bit 14 v)]
      else if v < push_bit 28 1 then
        [ucast (v OR B), ucast (drop_bit 7 v OR B), ucast (drop_bit 14 v OR B),
         ucast (drop_bit 21 v)]
      else
        [ucast (v OR B), ucast (drop_bit 7 v OR B), ucast (drop_bit 14 v OR B),
         ucast (drop_bit 21 v OR B), ucast (drop_bit 28 v)])"

definition PutVarint32 :: "bytes \<Rightarrow> u32 \<Rightarrow> bytes" where
  "PutVarint32 dst v = dst @ EncodeVarint32 v"

lemma drop_bit_7_less: "(128::u64) \<le> v \<Longrightarrow> unat (drop_bit 7 v) < unat v"
  by (simp add: drop_bit_eq_div unat_div word_le_nat_alt)

function EncodeVarint64 :: "u64 \<Rightarrow> bytes" where
  "EncodeVarint64 v =
     (if v \<ge> 128 then ucast ((v AND (128 - 1)) OR 128) # EncodeVarint64 (drop_bit 7 v)
      else [ucast v])"
  by pat_completeness auto
termination
  by (relation "measure unat") (use drop_bit_7_less in auto)

declare EncodeVarint64.simps [simp del]

definition PutVarint64 :: "bytes \<Rightarrow> u64 \<Rightarrow> bytes" where
  "PutVarint64 dst v = dst @ EncodeVarint64 v"

text \<open>\<open>value.size()\<close> is a \<open>size_t\<close> passed as a \<open>uint32_t\<close>: it is taken modulo \<open>2^32\<close>.\<close>

definition PutLengthPrefixedSlice :: "bytes \<Rightarrow> bytes \<Rightarrow> bytes" where
  "PutLengthPrefixedSlice dst value = PutVarint32 dst (word_of_nat (length value)) @ value"

function VarintLength_loop :: "u64 \<Rightarrow> nat \<Rightarrow> nat" where
  "VarintLength_loop v len =
     (if v \<ge> 128 then VarintLength_loop (drop_bit 7 v) (len + 1) else len)"
  by pat_completeness auto
termination
  by (relation "measure (\<lambda>(v, len). unat v)") (use drop_bit_7_less in auto)

declare VarintLength_loop.simps [simp del]

definition VarintLength :: "u64 \<Rightarrow> nat" where
  "VarintLength v = VarintLength_loop v 1"

fun GetVarint32PtrFallback_loop :: "nat \<Rightarrow> u32 \<Rightarrow> bytes \<Rightarrow> (u32 \<times> bytes) option" where
  "GetVarint32PtrFallback_loop shift result [] = None"
| "GetVarint32PtrFallback_loop shift result (c # p) =
     (if shift \<le> 28 then
        (let byte = ucast c in
         if byte AND 128 \<noteq> 0
         then GetVarint32PtrFallback_loop (shift + 7) (result OR push_bit shift (byte AND 127)) p
         else Some (result OR push_bit shift byte, p))
      else None)"

definition GetVarint32PtrFallback :: "bytes \<Rightarrow> (u32 \<times> bytes) option" where
  "GetVarint32PtrFallback p = GetVarint32PtrFallback_loop 0 0 p"

definition GetVarint32Ptr :: "bytes \<Rightarrow> (u32 \<times> bytes) option" where
  "GetVarint32Ptr p =
     (case p of
        c # p' \<Rightarrow>
          (let result = ucast c in
           if result AND 128 = 0 then Some (result, p') else GetVarint32PtrFallback p)
      | [] \<Rightarrow> GetVarint32PtrFallback p)"

definition GetVarint32 :: "bytes \<Rightarrow> (u32 \<times> bytes) option" where
  "GetVarint32 input =
     (case GetVarint32Ptr input of None \<Rightarrow> None | Some (value, q) \<Rightarrow> Some (value, q))"

fun GetVarint64Ptr_loop :: "nat \<Rightarrow> u64 \<Rightarrow> bytes \<Rightarrow> (u64 \<times> bytes) option" where
  "GetVarint64Ptr_loop shift result [] = None"
| "GetVarint64Ptr_loop shift result (c # p) =
     (if shift \<le> 63 then
        (let byte = ucast c in
         if byte AND 128 \<noteq> 0
         then GetVarint64Ptr_loop (shift + 7) (result OR push_bit shift (byte AND 127)) p
         else Some (result OR push_bit shift byte, p))
      else None)"

definition GetVarint64Ptr :: "bytes \<Rightarrow> (u64 \<times> bytes) option" where
  "GetVarint64Ptr p = GetVarint64Ptr_loop 0 0 p"

definition GetVarint64 :: "bytes \<Rightarrow> (u64 \<times> bytes) option" where
  "GetVarint64 input =
     (case GetVarint64Ptr input of None \<Rightarrow> None | Some (value, q) \<Rightarrow> Some (value, q))"

definition GetLengthPrefixedSlicePtr :: "bytes \<Rightarrow> (bytes \<times> bytes) option" where
  "GetLengthPrefixedSlicePtr p =
     (case GetVarint32Ptr p of
        None \<Rightarrow> None
      | Some (len, p') \<Rightarrow>
          if unat len > length p' then None
          else Some (take (unat len) p', drop (unat len) p'))"

definition GetLengthPrefixedSlice :: "bytes \<Rightarrow> (bytes \<times> bytes) option" where
  "GetLengthPrefixedSlice input =
     (case GetVarint32 input of
        None \<Rightarrow> None
      | Some (len, input') \<Rightarrow>
          if length input' \<ge> unat len
          then Some (take (unat len) input', remove_prefix input' (unat len))
          else None)"

section \<open>Fixed-width round trips\<close>

lemma length_le_bytes [simp]: "length (le_bytes32 v) = 4" "length (le_bytes64 w) = 8"
  by (simp_all add: le_bytes32_def le_bytes64_def)

lemma of_le_bytes32: "(of_le_bytes (le_bytes32 v) :: u32) = v"
proof -
  have top: "(ucast (ucast (drop_bit 24 v) :: byte) :: u32) = drop_bit 24 v"
    by (rule bit_word_eqI) (auto simp: bit_simps dest: bit_imp_le_length)
  note join = byte_join [where 'a = 32, simplified]
  show ?thesis
    using join [of "drop_bit 16 v"] join [of "drop_bit 8 v"] join [of v]
    by (simp add: le_bytes32_def top)
qed

lemma of_le_bytes64: "(of_le_bytes (le_bytes64 v) :: u64) = v"
proof -
  have top: "(ucast (ucast (drop_bit 56 v) :: byte) :: u64) = drop_bit 56 v"
    by (rule bit_word_eqI) (auto simp: bit_simps dest: bit_imp_le_length)
  note join = byte_join [where 'a = 64, simplified]
  show ?thesis
    using join [of "drop_bit 48 v"] join [of "drop_bit 40 v"] join [of "drop_bit 32 v"]
      join [of "drop_bit 24 v"] join [of "drop_bit 16 v"] join [of "drop_bit 8 v"] join [of v]
    by (simp add: le_bytes64_def top)
qed

lemma bit_of_le_bytes:
  "bit (of_le_bytes bs :: 'a::len word) n \<longleftrightarrow>
     n < LENGTH('a) \<and> n div 8 < length bs \<and> bit (bs ! (n div 8)) (n mod 8)"
proof (induction bs arbitrary: n)
  case (Cons b bs)
  show ?case
  proof (cases "n < 8")
    case True
    then show ?thesis by (simp add: bit_simps)
  next
    case False
    then have "n div 8 = Suc ((n - 8) div 8)" "n mod 8 = (n - 8) mod 8" 
      by (simp_all add: le_div_geq le_mod_geq)
    moreover have "\<not> bit b n" using False by (auto dest: bit_imp_le_length)
    ultimately show ?thesis using False Cons.IH [of "n - 8"] by (auto simp: bit_simps)
  qed
qed simp

lemma of_le_bytes_append:
  "(of_le_bytes (xs @ ys) :: 'a::len word) =
     of_le_bytes xs OR push_bit (8 * length xs) (of_le_bytes ys)"
  by (induction xs) (simp_all add: push_bit_or or.assoc)

lemma ucast_of_le_bytes:
  "length bs \<le> 4 \<Longrightarrow> (ucast (of_le_bytes bs :: u32) :: u64) = of_le_bytes bs"
  by (rule bit_word_eqI) (auto simp: bit_simps bit_of_le_bytes)

lemma EncodeFixed32_port_eq: "EncodeFixed32_port h v = le_bytes32 v"
  by (auto simp: EncodeFixed32_port_def store32_def le_bytes32_def AND_255)

lemma EncodeFixed64_port_eq: "EncodeFixed64_port h v = le_bytes64 v"
  by (auto simp: EncodeFixed64_port_def store64_def le_bytes64_def AND_255)

lemma four_bytes: "4 \<le> length p \<Longrightarrow> \<exists>a b c d r. p = a # b # c # d # r"
  by (auto simp: numeral_eq_Suc Suc_le_length_iff)

lemma DecodeFixed32_port_eq: "4 \<le> length p \<Longrightarrow> DecodeFixed32_port h p = of_le_bytes (take 4 p)"
  by (auto dest!: four_bytes simp: DecodeFixed32_port_def load32_def push_bit_or or.assoc)

lemma DecodeFixed64_port_eq: 
  assumes "8 \<le> length p" shows "DecodeFixed64_port h p = of_le_bytes (take 8 p)"
proof -
  have split: "take 8 p = take 4 p @ take 4 (drop 4 p)"
    by (simp add: take_add [of 4 4, symmetric])
  from assms have "4 \<le> length p" "4 \<le> length (drop 4 p)" by simp_all
  then show ?thesis
    by (simp add: DecodeFixed64_port_def load64_def DecodeFixed32_port_eq ucast_of_le_bytes
        split of_le_bytes_append or.commute)
qed

lemma length_EncodeFixed [simp]: "length (EncodeFixed32 v) = 4" "length (EncodeFixed64 w) = 8"
  by (simp_all add: EncodeFixed32_def EncodeFixed64_def EncodeFixed32_port_eq EncodeFixed64_port_eq)

lemma DecodeFixed32_EncodeFixed32 [codec, simp]: "DecodeFixed32 (EncodeFixed32 v @ rest) = v"
  by (simp add: DecodeFixed32_def EncodeFixed32_def DecodeFixed32_port_eq EncodeFixed32_port_eq
      of_le_bytes32)

lemma DecodeFixed64_EncodeFixed64 [codec, simp]: "DecodeFixed64 (EncodeFixed64 v @ rest) = v"
  by (simp add: DecodeFixed64_def EncodeFixed64_def DecodeFixed64_port_eq EncodeFixed64_port_eq
      of_le_bytes64)

lemma DecodeFixed_EncodeFixed_exact [simp]:
  "DecodeFixed32 (EncodeFixed32 v) = v" "DecodeFixed64 (EncodeFixed64 w) = w"
  using DecodeFixed32_EncodeFixed32 [of v "[]"] DecodeFixed64_EncodeFixed64 [of w "[]"] by simp_all

lemma nth_le_bytes32: "i < 4 \<Longrightarrow> le_bytes32 v ! i = ucast (drop_bit (8 * i) v)"
  by (auto simp: le_bytes32_def less_Suc_eq numeral_eq_Suc nth_Cons')

lemma nth_le_bytes64: "i < 8 \<Longrightarrow> le_bytes64 v ! i = ucast (drop_bit (8 * i) v)"
  by (auto simp: le_bytes64_def less_Suc_eq numeral_eq_Suc nth_Cons')

lemma le_bytes32_of_le_bytes:
  assumes "length p = 4"
  shows "le_bytes32 (of_le_bytes p) = p"
proof (rule nth_equalityI)
  fix i assume "i < length (le_bytes32 (of_le_bytes p))"
  then have "i < 4" by simp
  then show "le_bytes32 (of_le_bytes p) ! i = p ! i"
    using assms by (intro bit_word_eqI) (auto simp: nth_le_bytes32 bit_simps bit_of_le_bytes)
qed (simp add: assms)

lemma le_bytes64_of_le_bytes:
  assumes "length p = 8"
  shows "le_bytes64 (of_le_bytes p) = p"
proof (rule nth_equalityI)
  fix i assume "i < length (le_bytes64 (of_le_bytes p))"
  then have "i < 8" by simp
  then show "le_bytes64 (of_le_bytes p) ! i = p ! i"
    using assms by (intro bit_word_eqI) (auto simp: nth_le_bytes64 bit_simps bit_of_le_bytes)
qed (simp add: assms)

lemma EncodeFixed32_DecodeFixed32 [codec]: "length p = 4 \<Longrightarrow> EncodeFixed32 (DecodeFixed32 p) = p"
  by (simp add: EncodeFixed32_def DecodeFixed32_def EncodeFixed32_port_eq DecodeFixed32_port_eq
      le_bytes32_of_le_bytes)

lemma EncodeFixed64_DecodeFixed64 [codec]: "length p = 8 \<Longrightarrow> EncodeFixed64 (DecodeFixed64 p) = p"
  by (simp add: EncodeFixed64_def DecodeFixed64_def EncodeFixed64_port_eq DecodeFixed64_port_eq
      le_bytes64_of_le_bytes)
section \<open>Varint round trips and bounds\<close>

lemma EncodeVarint64_small: "v < 128 \<Longrightarrow> EncodeVarint64 v = [ucast v]"
  by (subst EncodeVarint64.simps) (simp add: not_le [symmetric])

lemma EncodeVarint64_large:
  "128 \<le> v \<Longrightarrow> EncodeVarint64 v = ucast ((v AND 127) OR 128) # EncodeVarint64 (drop_bit 7 v)"
  by (subst EncodeVarint64.simps) simp

lemma more_byte:
  fixes v :: u64
  shows "bit ((v AND 127) OR 128) 7"
    and "ucast (ucast ((v AND 127) OR 128) :: byte) AND 127 = (take_bit 7 (ucast v) :: 'a::len word)"
  subgoal by (simp add: bit_simps OR_128)
  subgoal by (rule bit_word_eqI) (auto simp: bit_simps AND_127 OR_128)
  done

lemma last_byte:
  fixes v :: u64
  assumes "v < 128"
  shows "\<not> bit v 7" and "ucast (ucast v :: byte) = (ucast v :: 'a::len word)"
proof -
  have eq: "v = take_bit 7 v"
    by (rule sym, rule take_bit_self_less) (use assms in \<open>simp add: word_less_nat_alt\<close>)
  show "\<not> bit v 7" by (subst eq) (simp add: bit_simps)
  show "ucast (ucast v :: byte) = (ucast v :: 'a::len word)"
    by (subst (1 2) eq, rule bit_word_eqI) (auto simp: bit_simps)
qed

lemma unat_drop_bit_7: "unat (v :: u64) < 2 ^ k \<Longrightarrow> 128 \<le> v \<Longrightarrow>
   7 < k \<and> unat (drop_bit 7 v) < 2 ^ (k - 7)"
proof -
  assume k: "unat v < 2 ^ k" and v: "128 \<le> v"
  then have "2 ^ 7 < (2 ^ k :: nat)" by (simp add: word_le_nat_alt)
  then have "7 < k" by (rule power_less_imp_less_exp [rotated]) simp
  moreover from this have "(2::nat) ^ k = 2 ^ (k - 7) * 128"
    using power_add [of "2::nat" "k - 7" 7] by simp
  ultimately show ?thesis using k by (simp add: drop_bit_eq_div unat_div)
qed

lemma GetVarint64Ptr_loop_EncodeVarint64:
  assumes "shift \<le> 63" "unat v < 2 ^ (64 - shift)"
  shows "GetVarint64Ptr_loop shift res (EncodeVarint64 v @ rest) = Some (res OR push_bit shift v, rest)"
  using assms
proof (induction v arbitrary: shift res rule: EncodeVarint64.induct)
  case (1 v)
  show ?case
  proof (cases "128 \<le> v")
    case False
    then show ?thesis using 1 last_byte(2) [of v, where 'a = 64]
      by (simp add: EncodeVarint64_small not_le AND_128_eq_0 last_byte bit_simps Let_def)
  next
    case True
    from unat_drop_bit_7 [OF 1(3) True] have k: "shift + 7 \<le> 63" "unat (drop_bit 7 v) < 2 ^ (64 - (shift + 7))"
      by (auto simp: diff_diff_left)
    from more_byte(2) [of v, where 'a = 64] 1(1) [OF True k] 1(2) True show ?thesis
      by (simp add: EncodeVarint64_large AND_128_eq_0 more_byte bit_unsigned_iff Let_def or.assoc push_bit_split)
  qed
qed

lemma GetVarint32_loop_EncodeVarint64:
  assumes "shift \<le> 28" "7 dvd shift" "unat v < 2 ^ (32 - shift)"
  shows "GetVarint32PtrFallback_loop shift res (EncodeVarint64 v @ rest) = Some (res OR push_bit shift (ucast v), rest)"
  using assms
proof (induction v arbitrary: shift res rule: EncodeVarint64.induct)
  case (1 v)
  show ?case
  proof (cases "128 \<le> v")
    case False
    then show ?thesis using 1 last_byte(2) [of v, where 'a = 32]
      by (simp add: EncodeVarint64_small not_le AND_128_eq_0 last_byte bit_simps Let_def)
  next
    case True
    from unat_drop_bit_7 [OF 1(4) True] have k: "shift + 7 < 32" "unat (drop_bit 7 v) < 2 ^ (32 - (shift + 7))"
      by (auto simp: diff_diff_left)
    from k(1) 1(3) have s: "shift + 7 \<le> 28" "7 dvd shift + 7" by (auto elim!: dvdE)
    have "push_bit (shift + 7) (ucast (drop_bit 7 v)) = (push_bit (shift + 7) (drop_bit 7 (ucast v)) :: u32)"
      by (rule bit_word_eqI) (auto simp: bit_simps)
    then have eq: "push_bit shift (take_bit 7 (ucast v :: u32)) OR push_bit (shift + 7) (ucast (drop_bit 7 v))
        = push_bit shift (ucast v)"
      by (simp add: push_bit_split)
    from more_byte(2) [of v, where 'a = 32] 1(1) [OF True s k(2)] 1(2) True show ?thesis
      by (simp add: EncodeVarint64_large AND_128_eq_0 more_byte bit_unsigned_iff Let_def or.assoc eq)
  qed
qed

lemma EncodeVarint64_drop_bit_ucast:
  fixes v :: u32
  shows "EncodeVarint64 (drop_bit k (ucast v)) =
    (if 2 ^ (k + 7) \<le> unat v
     then ucast (drop_bit k v OR 128) # EncodeVarint64 (drop_bit (k + 7) (ucast v))
     else [ucast (drop_bit k v)])"
proof -
  have b: "ucast (drop_bit k v OR 128) = (ucast ((drop_bit k (ucast v :: u64) AND 127) OR 128) :: byte)"
    by (rule bit_word_eqI) (auto simp: bit_simps AND_127 OR_128 dest: bit_imp_le_length)
  have c: "ucast (drop_bit k (ucast v :: u64)) = (ucast (drop_bit k v) :: byte)"
    by (rule bit_word_eqI) (auto simp: bit_simps dest: bit_imp_le_length)
  have "unat v < 2 ^ 32" by (rule unat_u32_less)
  then have "take_bit 64 (unat v) = unat v" by (simp add: take_bit_nat_eq_self)
  then have "unat (drop_bit k (ucast v :: u64)) = unat v div 2 ^ k"
    by (simp add: unsigned_drop_bit_eq unat_drop_bit_eq flip: drop_bit_eq_div)
  then have "128 \<le> drop_bit k (ucast v :: u64) \<longleftrightarrow> 2 ^ (k + 7) \<le> unat v"
    by (simp add: word_le_nat_alt power_add less_eq_div_iff_mult_less_eq mult.commute)
  then show ?thesis
    by (subst EncodeVarint64.simps) (simp add: b c add.commute)
qed

lemma EncodeVarint32_eq: "EncodeVarint32 v = EncodeVarint64 (ucast v)"
proof -
  note step = EncodeVarint64_drop_bit_ucast [of _ v]
  have "unat v < 2 ^ 32" by (rule unat_u32_less)
  then show ?thesis
    using step [of 0] step [of 7] step [of 14] step [of 21] step [of 28]
    by (auto simp: EncodeVarint32_def Let_def word_less_nat_alt)
qed

lemma GetVarint32Ptr_eq: "GetVarint32Ptr p = GetVarint32PtrFallback p"
  by (auto simp: GetVarint32Ptr_def GetVarint32PtrFallback_def Let_def split: list.splits)

lemma GetVarint32_EncodeVarint32 [codec, simp]:
  "GetVarint32 (EncodeVarint32 v @ rest) = Some (v, rest)"
proof -
  have "unat (ucast v :: u64) < 2 ^ (32 - 0)"
    using unat_u32_less [of v] by (simp add: unsigned_ucast_eq take_bit_nat_eq_self)
  from GetVarint32_loop_EncodeVarint64 [OF _ _ this, of 0 rest]
  show ?thesis
    by (simp add: GetVarint32_def GetVarint32Ptr_eq GetVarint32PtrFallback_def EncodeVarint32_eq)
qed

lemma GetVarint64_EncodeVarint64 [codec, simp]:
  "GetVarint64 (EncodeVarint64 v @ rest) = Some (v, rest)"
  using GetVarint64Ptr_loop_EncodeVarint64 [of 0 v 0 rest] unat_u64_less [of v]
  by (simp add: GetVarint64_def GetVarint64Ptr_def)

lemma length_EncodeVarint64_le:
  "unat v < 2 ^ (7 * n) \<Longrightarrow> 0 < n \<Longrightarrow> length (EncodeVarint64 v) \<le> n"
proof (induction v arbitrary: n rule: EncodeVarint64.induct)
  case (1 v)
  show ?case
  proof (cases "128 \<le> v")
    case True
    from unat_drop_bit_7 [OF 1(2) True] obtain m where n: "n = Suc m" and m: "0 < m"
      by (cases n) auto
    with unat_drop_bit_7 [OF 1(2) True] 1(1) [OF True _ m] True show ?thesis
      by (simp add: EncodeVarint64_large)
  qed (use 1 in \<open>simp add: EncodeVarint64_small not_le\<close>)
qed

lemma EncodeVarint64_not_Nil [simp]: "EncodeVarint64 v \<noteq> []"
  by (subst EncodeVarint64.simps) simp

lemma length_EncodeVarint64: "length (EncodeVarint64 v) \<in> {1..10}"
  using length_EncodeVarint64_le [of v 10] unat_u64_less [of v]
  by (simp add: Suc_le_eq)

lemma length_EncodeVarint32: "length (EncodeVarint32 v) \<in> {1..5}"
  by (simp add: EncodeVarint32_def Let_def)

lemma VarintLength_loop_eq: "VarintLength_loop v len + 1 = length (EncodeVarint64 v) + len"
proof (induction v len rule: VarintLength_loop.induct)
  case (1 v len)
  then show ?case
    by (subst VarintLength_loop.simps, subst EncodeVarint64.simps) simp
qed

lemma VarintLength_eq: "VarintLength v = length (EncodeVarint64 v)"
  using VarintLength_loop_eq [of v 1] by (simp add: VarintLength_def)

lemma GetVarint32_loop_prefix:
  "GetVarint32PtrFallback_loop shift res p = Some (v, q) \<Longrightarrow>
   \<exists>c. p = c @ q \<and> 0 < length c \<and> shift + 7 * length c \<le> 35"
proof (induction shift res p rule: GetVarint32PtrFallback_loop.induct)
  case (2 shift res c p)
  then show ?case
    by (fastforce simp: Let_def split: if_splits intro: exI [of _ "[c]"] dest: Cons_eq_appendI)
qed simp

lemma GetVarint64_loop_prefix:
  "GetVarint64Ptr_loop shift res p = Some (v, q) \<Longrightarrow>
   \<exists>c. p = c @ q \<and> 0 < length c \<and> shift + 7 * length c \<le> 70"
proof (induction shift res p rule: GetVarint64Ptr_loop.induct)
  case (2 shift res c p)
  then show ?case
    by (fastforce simp: Let_def split: if_splits intro: exI [of _ "[c]"] dest: Cons_eq_appendI)
qed simp

lemma GetVarint32_loop_None:
  "shift + 7 * n = 35 \<Longrightarrow>
   GetVarint32PtrFallback_loop shift res p = None \<longleftrightarrow> (\<forall>b\<in>set (take n p). bit b 7)"
proof (induction shift res p arbitrary: n rule: GetVarint32PtrFallback_loop.induct)
  case (2 shift res c p)
  show ?case
  proof (cases n)
    case 0 then show ?thesis using 2(2) by simp
  next
    case (Suc m)
    then show ?thesis using 2(1) [of "ucast c" m] 2(2)
      by (auto simp: Let_def AND_128_eq_0 bit_simps)
  qed
qed simp

lemma GetVarint64_loop_None:
  "shift + 7 * n = 70 \<Longrightarrow>
   GetVarint64Ptr_loop shift res p = None \<longleftrightarrow> (\<forall>b\<in>set (take n p). bit b 7)"
proof (induction shift res p arbitrary: n rule: GetVarint64Ptr_loop.induct)
  case (2 shift res c p)
  show ?case
  proof (cases n)
    case 0 then show ?thesis using 2(2) by simp
  next
    case (Suc m)
    then show ?thesis using 2(1) [of "ucast c" m] 2(2)
      by (auto simp: Let_def AND_128_eq_0 bit_simps)
  qed
qed simp

lemma GetLengthPrefixedSlice_Put [codec]:
  assumes "length v < 2 ^ 32"
  shows "GetLengthPrefixedSlice (PutLengthPrefixedSlice [] v @ rest) = Some (v, rest)"
  using assms
  by (simp add: GetLengthPrefixedSlice_def PutLengthPrefixedSlice_def PutVarint32_def remove_prefix_def)

lemma GetLengthPrefixedSlicePtr_eq: "GetLengthPrefixedSlicePtr p = GetLengthPrefixedSlice p"
  by (auto simp: GetLengthPrefixedSlicePtr_def GetLengthPrefixedSlice_def GetVarint32_def
      remove_prefix_def split: option.splits)

section \<open>Correctness of the codec\<close>

text \<open>
  C40. Fixed-width integers written on a host of either byte order are read back
  unchanged on a host of either byte order, whatever bytes follow them, and take
  exactly 4 and 8 bytes.
\<close>

theorem fixed_roundtrip_any_host:
  "DecodeFixed32_port h (EncodeFixed32_port h' v @ rest) = v \<and>
   DecodeFixed64_port h (EncodeFixed64_port h' w @ rest) = w \<and>
   length (EncodeFixed32_port h' v) = 4 \<and> length (EncodeFixed64_port h' w) = 8"
  by (simp add: DecodeFixed32_port_eq DecodeFixed64_port_eq EncodeFixed32_port_eq
      EncodeFixed64_port_eq of_le_bytes32 of_le_bytes64)

text \<open>
  C32. Every 32-bit and every 64-bit value appended as a varint is read back
  unchanged by the matching reader, which stops exactly at the bytes that follow.
  The unrolled 32-bit encoder writes the same bytes as the 64-bit loop, so the
  64-bit reader accepts them too.
\<close>

theorem varint_roundtrip:
  "GetVarint32 (PutVarint32 [] v @ rest) = Some (v, rest) \<and>
   GetVarint64 (PutVarint64 [] w @ rest) = Some (w, rest) \<and>
   GetVarint64 (PutVarint32 [] v @ rest) = Some (ucast v, rest)"
  by (simp add: PutVarint32_def PutVarint64_def) (simp add: EncodeVarint32_eq)

text \<open>
  The encoders stay inside their stack buffers \<open>char buf[5]\<close> and \<open>char buf[10]\<close>,
  and \<open>VarintLength\<close> predicts the number of bytes written.
\<close>

theorem varint_buffer_bounds:
  "length (EncodeVarint32 v) \<in> {1..5} \<and> length (EncodeVarint64 w) \<in> {1..10} \<and>
   VarintLength w = length (EncodeVarint64 w) \<and>
   VarintLength (ucast v) = length (EncodeVarint32 v)"
  using length_EncodeVarint32 [of v] length_EncodeVarint64 [of w]
  by (simp add: VarintLength_eq EncodeVarint32_eq)

text \<open>
  C33. On arbitrary input a varint reader either consumes between one and five
  (ten) leading bytes, never more than there are, or fails, and it fails exactly
  when every one of the first five (ten) available bytes has its continuation bit set.
\<close>

theorem varint_decoder_safe:
  "(case GetVarint32 p of
      None \<Rightarrow> list_all (\<lambda>b. bit b 7) (take 5 p)
    | Some (v, q) \<Rightarrow> \<not> list_all (\<lambda>b. bit b 7) (take 5 p) \<and>
        (\<exists>c. p = c @ q \<and> length c \<in> {1..5})) \<and>
   (case GetVarint64 p of
      None \<Rightarrow> list_all (\<lambda>b. bit b 7) (take 10 p)
    | Some (w, q) \<Rightarrow> \<not> list_all (\<lambda>b. bit b 7) (take 10 p) \<and>
        (\<exists>c. p = c @ q \<and> length c \<in> {1..10}))"
  using GetVarint32_loop_None [of 0 5 0 p] GetVarint64_loop_None [of 0 10 0 p]
  by (fastforce simp: GetVarint32_def GetVarint64_def GetVarint32Ptr_eq GetVarint32PtrFallback_def
      GetVarint64Ptr_def list_all_iff Suc_le_eq split: option.splits
      dest: GetVarint32_loop_prefix GetVarint64_loop_prefix)

text \<open>
  C34. A length-prefixed slice shorter than 4 GiB is read back unchanged and the
  reader stops at the bytes that follow.
\<close>

theorem length_prefixed_roundtrip:
  assumes "length v < 2 ^ 32"
  shows "GetLengthPrefixedSlice (PutLengthPrefixedSlice [] v @ rest) = Some (v, rest) \<and>
    GetLengthPrefixedSlicePtr (PutLengthPrefixedSlice [] v @ rest) = Some (v, rest)"
  using assms by (simp add: GetLengthPrefixedSlicePtr_eq GetLengthPrefixedSlice_Put)

theorem length_prefixed_roundtrip_witness:
  "GetLengthPrefixedSlice (PutLengthPrefixedSlice [] (cstr ''key'') @ [0xff]) = Some (cstr ''key'', [0xff])"
  using length_prefixed_roundtrip [of "cstr ''key''" "[0xff]"] by simp

end
