(* ===== verification/Logging.thy ===== *)
theory Logging
  imports Coding
begin

text \<open>
  \<open>util/logging.cc\<close>: printing and parsing of numbers, escaping of keys for messages,
  with the formats of the C library's \<open>snprintf\<close> that the sources use. \<open>snprintf\<close>
  with a buffer of \<open>n\<close> bytes keeps at most \<open>n - 1\<close> of them.
\<close>

section \<open>The formats of snprintf\<close>

definition snprintf :: "nat \<Rightarrow> bytes \<Rightarrow> bytes" where
  "snprintf n s = take (n - 1) s"

text \<open>\<open>%llu\<close>, \<open>%06llu\<close>, \<open>%d\<close> and \<open>%02x\<close>.\<close>

fun fmt_u :: "nat \<Rightarrow> bytes" where
  "fmt_u n = (if n < 10 then [48 + word_of_nat n]
              else fmt_u (n div 10) @ [48 + word_of_nat (n mod 10)])"

declare fmt_u.simps [simp del]

definition fmt_06u :: "nat \<Rightarrow> bytes" where
  "fmt_06u n = replicate (6 - length (fmt_u n)) 48 @ fmt_u n"

definition fmt_d :: "int \<Rightarrow> bytes" where
  "fmt_d i = (if i < 0 then 45 # fmt_u (nat (- i)) else fmt_u (nat i))"

definition hex_digit :: "byte \<Rightarrow> byte" where
  "hex_digit d = (if d < 10 then 48 + d else 87 + d)"

definition fmt_02x :: "byte \<Rightarrow> bytes" where
  "fmt_02x b = [hex_digit (drop_bit 4 b), hex_digit (b AND 15)]"

section \<open>Operations\<close>

definition AppendNumberTo :: "bytes \<Rightarrow> u64 \<Rightarrow> bytes" where
  "AppendNumberTo str num = str @ snprintf 30 (fmt_u (unat num))"

text \<open>\<open>char\<close> is signed: the comparisons with \<open>' '\<close> and \<open>'~'\<close> are comparisons of ints.\<close>

fun AppendEscapedStringTo :: "bytes \<Rightarrow> bytes \<Rightarrow> bytes" where
  "AppendEscapedStringTo str [] = str"
| "AppendEscapedStringTo str (c # value) =
     (if sint c \<ge> 32 \<and> sint c \<le> 126 then AppendEscapedStringTo (str @ [c]) value
      else AppendEscapedStringTo (str @ snprintf 10 (cstr [CHR 92, CHR ''x''] @ fmt_02x c)) value)"

definition NumberToString :: "u64 \<Rightarrow> bytes" where
  "NumberToString num = AppendNumberTo [] num"

definition EscapeString :: "bytes \<Rightarrow> bytes" where
  "EscapeString value = AppendEscapedStringTo [] value"

text \<open>
  \<open>ConsumeDecimalNumber\<close> returns whether it succeeded, the rest of the input and
  \<open>*val\<close>, which an overflow leaves alone. Its counter \<open>int digits\<close> has 32 bits and wraps.
\<close>

definition kMaxUint64 :: u64 where
  "kMaxUint64 = NOT 0"

fun ConsumeDecimalNumber_loop ::
  "u64 \<Rightarrow> 32 word \<Rightarrow> bytes \<Rightarrow> u64 \<Rightarrow> bool \<times> bytes \<times> u64" where
  "ConsumeDecimalNumber_loop v digits [] val = (sint digits > 0, [], v)"
| "ConsumeDecimalNumber_loop v digits (c # rest) val =
     (if sint c \<ge> 48 \<and> sint c \<le> 57 then
        (let delta = (scast c - 48 :: u64) in
         if v > kMaxUint64 div 10 \<or> (v = kMaxUint64 div 10 \<and> delta > kMaxUint64 mod 10)
         then (False, c # rest, val)
         else ConsumeDecimalNumber_loop (v * 10 + delta) (digits + 1) rest val)
      else (sint digits > 0, c # rest, v))"

definition ConsumeDecimalNumber :: "bytes \<Rightarrow> u64 \<Rightarrow> bool \<times> bytes \<times> u64" where
  "ConsumeDecimalNumber inp val = ConsumeDecimalNumber_loop 0 0 inp val"

section \<open>Decimal numbers\<close>

definition is_digit :: "byte \<Rightarrow> bool" where
  "is_digit c \<longleftrightarrow> 48 \<le> c \<and> c \<le> 57"

text \<open>The number a string of digits denotes, read from the value \<open>v\<close> on.\<close>

fun dec_value :: "nat \<Rightarrow> bytes \<Rightarrow> nat" where
  "dec_value v [] = v"
| "dec_value v (c # cs) = dec_value (v * 10 + unat (c - 48)) cs"

lemma dec_value_append: "dec_value v (xs @ ys) = dec_value (dec_value v xs) ys"
  by (induction xs arbitrary: v) auto

lemma dec_value_mono: "v \<le> dec_value v cs"
proof (induction cs arbitrary: v)
  case (Cons c cs)
  have "v \<le> v * 10 + unat (c - 48)" by simp
  also have "\<dots> \<le> dec_value v (c # cs)" using Cons.IH by simp
  finally show ?case .
qed simp

lemma unat_from_uint: "uint x = i \<Longrightarrow> unat x = nat i"
  by (drule arg_cong [of _ _ nat]) simp

lemma sint_byte: "sint (c :: byte) = (if uint c < 128 then uint c else uint c - 256)"
proof -
  have *: "sint c = (uint c + 128) mod 256 - 128"
    by (simp add: sint_uint signed_take_bit_eq_take_bit_shift take_bit_eq_mod)
  show ?thesis
  proof (cases "uint c < 128")
    case False
    have "(uint c + 128) mod 256 = (uint c - 128) mod 256"
      using mod_add_self2 [of "uint c - 128" 256] by (simp add: add.commute)
    with * False uint_lt2p [of c] show ?thesis by simp
  qed (simp add: *)
qed

lemma is_digit_sint: "48 \<le> sint c \<and> sint c \<le> 57 \<longleftrightarrow> is_digit c"
  using uint_lt2p [of c] by (auto simp: is_digit_def sint_byte word_le_def)

lemma digit_delta:
  assumes "is_digit c"
  shows "unat (scast c - 48 :: u64) = unat (c - 48)" "unat (c - 48) < 10"
proof -
  have c: "sint c = uint c" "48 \<le> uint c" "uint c \<le> 57"
    using assms by (auto simp: is_digit_def sint_byte word_le_def)
  have "uint (word_of_int (uint c - 48) :: u64) = uint c - 48"
    using c by (simp only: uint_word_of_int take_bit_eq_mod) simp
  from unat_from_uint [OF this]
  have 1: "unat (word_of_int (uint c - 48) :: u64) = unat c - 48"
    by (simp only: nat_diff_distrib' c unat_from_uint [OF refl])
  have "(48 :: byte) \<le> c" using assms by (simp add: is_digit_def)
  then have 2: "unat (c - 48) = unat c - 48" by (simp add: unat_sub)
  have "scast c - 48 = (word_of_int (sint c - 48) :: u64)" by simp
  with 1 2 show "unat (scast c - 48 :: u64) = unat (c - 48)" by (simp only: c)
  from 2 assms show "unat (c - 48) < 10" by (auto simp: is_digit_def word_le_nat_alt)
qed

lemma kMaxUint64_numeral: "kMaxUint64 = 18446744073709551615"
  by (simp add: kMaxUint64_def)

lemma unat_eq_iff_u64: "(v :: u64) = w \<longleftrightarrow> unat v = unat w"
  by (rule word_unat_eq_iff)

lemma overflow_check:
  assumes "unat d < 10"
  shows "(v > kMaxUint64 div 10 \<or> (v = kMaxUint64 div 10 \<and> d > kMaxUint64 mod 10))
    \<longleftrightarrow> \<not> unat v * 10 + unat d < 2 ^ 64"
proof -
  have "kMaxUint64 div 10 = 1844674407370955161" "kMaxUint64 mod 10 = 5"
    by (simp_all add: kMaxUint64_numeral)
  moreover have "v = 1844674407370955161 \<longleftrightarrow> unat v = 1844674407370955161"
    by (subst unat_eq_iff_u64) simp
  ultimately show ?thesis using assms
    by (auto simp: word_less_nat_alt)
qed

lemma unat_step:
  fixes v d :: u64
  assumes "unat v * 10 + unat d < 2 ^ 64"
  shows "unat (v * 10 + d) = unat v * 10 + unat d"
  using assms by (simp add: unat_word_ariths)

lemma ConsumeDecimalNumber_loop_ok:
  "dec_value (unat v) (takeWhile is_digit inp) < 2 ^ 64 \<Longrightarrow>
   ConsumeDecimalNumber_loop v n inp val =
     (0 < sint (n + word_of_nat (length (takeWhile is_digit inp))), dropWhile is_digit inp,
      word_of_nat (dec_value (unat v) (takeWhile is_digit inp)))"
proof (induction v n inp val rule: ConsumeDecimalNumber_loop.induct)
  case (2 v n c rest val)
  show ?case
  proof (cases "is_digit c")
    case True
    note d = digit_delta [OF True]
    from 2(2) True dec_value_mono [of "unat v * 10 + unat (c - 48)" "takeWhile is_digit rest"]
    have small: "unat v * 10 + unat (scast c - 48 :: u64) < 2 ^ 64"
      by (simp add: d)
    from 2(1) [OF _ refl] 2(2) True small show ?thesis
      by (simp add: is_digit_sint Let_def overflow_check d unat_step [OF small, unfolded d] add.assoc)
  qed (simp add: is_digit_sint)
qed simp

lemma sint_count: "n < 2 ^ 31 \<Longrightarrow> sint (word_of_nat n :: 32 word) = int n"
  by (simp add: sint_uint unsigned_of_nat signed_take_bit_int_eq_self take_bit_nat_eq_self)

lemma ConsumeDecimalNumber_loop_overflow:
  "\<not> dec_value (unat v) (takeWhile is_digit inp) < 2 ^ 64 \<Longrightarrow>
   \<exists>r. ConsumeDecimalNumber_loop v n inp val = (False, r, val)"
proof (induction v n inp val rule: ConsumeDecimalNumber_loop.induct)
  case (1 v n val)
  then show ?case using unat_u64_less [of v] by simp
next
  case (2 v n c rest val)
  show ?case
  proof (cases "is_digit c")
    case True
    note d = digit_delta [OF True]
    show ?thesis
    proof (cases "unat v * 10 + unat (scast c - 48 :: u64) < 2 ^ 64")
      case small: True
      from 2(1) [OF _ refl] 2(2) True small show ?thesis
        by (simp add: is_digit_sint Let_def overflow_check d unat_step [OF small, unfolded d])
    qed (use True d in \<open>simp add: is_digit_sint Let_def overflow_check\<close>)
  next
    case False
    then show ?thesis using 2(2) unat_u64_less [of v] by (simp add: is_digit_sint)
  qed
qed

section \<open>Printed numbers\<close>

lemma digit_char:
  assumes "n < 10"
  shows "is_digit (48 + word_of_nat n)" "unat (48 + word_of_nat n - 48 :: byte) = n"
  using assms by (simp_all add: is_digit_def word_le_nat_alt unat_word_ariths)

lemma fmt_u_digits: "list_all is_digit (fmt_u n)"
proof (induction n rule: fmt_u.induct)
  case (1 n)
  then show ?case
    by (subst fmt_u.simps) (simp add: digit_char)
qed

lemma fmt_u_not_Nil [simp]: "fmt_u n \<noteq> []"
  by (subst fmt_u.simps) simp

lemma dec_value_fmt_u [simp]: "dec_value 0 (fmt_u n) = n"
proof (induction n rule: fmt_u.induct)
  case (1 n)
  then show ?case
    by (subst fmt_u.simps) (simp add: dec_value_append digit_char)
qed

lemma length_fmt_u: "n < 10 ^ k \<Longrightarrow> 0 < k \<Longrightarrow> length (fmt_u n) \<le> k"
proof (induction n arbitrary: k rule: fmt_u.induct)
  case (1 n)
  show ?case
  proof (cases "n < 10")
    case False
    then obtain j where k: "k = Suc j" "0 < j" using 1(2,3) by (cases k; cases "k - 1") auto
    then show ?thesis using 1(1) [OF False, of j] 1(2) False
      by (subst fmt_u.simps) (simp add: less_mult_imp_div_less mult.commute)
  qed (use 1 in \<open>subst fmt_u.simps, simp\<close>)
qed

lemma length_fmt_u64: "length (fmt_u (unat (v :: u64))) \<le> 20"
  using unat_u64_less [of v] by (intro length_fmt_u) simp_all

lemma snprintf_fits [simp]: "length s < n \<Longrightarrow> snprintf n s = s"
  by (simp add: snprintf_def)

lemma NumberToString_eq: "NumberToString v = fmt_u (unat v)"
  using length_fmt_u64 [of v] by (simp add: NumberToString_def AppendNumberTo_def)

lemma dec_value_zeros [simp]: "dec_value 0 (replicate k 48 @ cs) = dec_value 0 cs"
  by (induction k) simp_all

lemma fmt_06u_props: "list_all is_digit (fmt_06u n)" "dec_value 0 (fmt_06u n) = n" "fmt_06u n \<noteq> []"
  using fmt_u_digits [of n] by (auto simp: fmt_06u_def list_all_iff is_digit_def)

lemma takeWhile_digits:
  assumes "list_all is_digit ds" "rest = [] \<or> \<not> is_digit (hd rest)"
  shows "takeWhile is_digit (ds @ rest) = ds" "dropWhile is_digit (ds @ rest) = rest"
  using assms by (cases rest; simp add: list_all_iff takeWhile_append2 dropWhile_append2)+

lemma ConsumeDecimalNumber_digits:
  assumes "list_all is_digit ds" "ds \<noteq> []" "rest = [] \<or> \<not> is_digit (hd rest)"
    and "dec_value 0 ds = unat v" "length ds < 2 ^ 31"
  shows "ConsumeDecimalNumber (ds @ rest) val = (True, rest, v)"
  using assms ConsumeDecimalNumber_loop_ok [of 0 "ds @ rest" 0 val] unat_u64_less [of v]
  by (simp add: ConsumeDecimalNumber_def takeWhile_digits sint_count)

section \<open>Correctness\<close>

text \<open>
  C38. \<open>ConsumeDecimalNumber\<close> reads exactly the leading decimal digits of its input, if they are
  fewer than \<open>2^31\<close>, so that the counter does not overflow: it succeeds when there is at least one
  and their value is below \<open>2^64\<close>, stores that value and leaves the rest of the input; on a value
  of \<open>2^64\<close> or more it detects the overflow, fails and leaves \<open>*val\<close> alone.
\<close>

theorem ConsumeDecimalNumber_spec:
  assumes "length (takeWhile is_digit inp) < 2 ^ 31"
  shows "(let ds = takeWhile is_digit inp; n = dec_value 0 ds; (ok, rest, v) = ConsumeDecimalNumber inp val
    in if n < 2 ^ 64
       then ok = (ds \<noteq> []) \<and> rest = dropWhile is_digit inp \<and> unat v = n
       else \<not> ok \<and> v = val)"
  using ConsumeDecimalNumber_loop_ok [of 0 inp 0 val] ConsumeDecimalNumber_loop_overflow [of 0 inp 0 val]
    sint_count [OF assms]
  by (auto simp: ConsumeDecimalNumber_def Let_def)

theorem ConsumeDecimalNumber_spec_witness:
  "ConsumeDecimalNumber (cstr ''0042.log'') 7 = (True, cstr ''.log'', 42) \<and>
   (let (ok, rest, v) = ConsumeDecimalNumber (cstr ''18446744073709551616'') 7 in \<not> ok \<and> v = 7)"
proof -
  have "takeWhile is_digit (cstr ''0042.log'') = cstr ''0042''" "dropWhile is_digit (cstr ''0042.log'') = cstr ''.log''"
    by (simp_all add: is_digit_def)
  with ConsumeDecimalNumber_spec [of "cstr ''0042.log''" 7]
  have 1: "ConsumeDecimalNumber (cstr ''0042.log'') 7 = (True, cstr ''.log'', 42)"
    by (auto simp: unat_eq_iff_u64 split: prod.splits)
  have "takeWhile is_digit (cstr ''18446744073709551616'') = cstr ''18446744073709551616''"
    by (simp add: is_digit_def)
  with ConsumeDecimalNumber_spec [of "cstr ''18446744073709551616''" 7]
  have "let (ok, rest, v) = ConsumeDecimalNumber (cstr ''18446744073709551616'') 7 in \<not> ok \<and> v = 7"
    by (simp add: Let_def split: prod.splits)
  with 1 show ?thesis by blast
qed

end
