(* ===== verification/Status.thy ===== *)
theory Status
  imports Logging
begin

text \<open>
  \<open>include/leveldb/status.h\<close> and \<open>util/status.cc\<close>. A status is its \<open>state_\<close> pointer:
  \<open>None\<close> for \<open>NULL\<close> (success), otherwise the bytes of the array
  \<open>length (4 bytes) | code (1 byte) | message\<close>.
\<close>

section \<open>Operations\<close>

type_synonym Status = "bytes option"

datatype Code = kOk | kNotFound | kCorruption | kNotSupported | kInvalidArgument | kIOError

primrec Code_val :: "Code \<Rightarrow> byte" where
  "Code_val kOk = 0"
| "Code_val kNotFound = 1"
| "Code_val kCorruption = 2"
| "Code_val kNotSupported = 3"
| "Code_val kInvalidArgument = 4"
| "Code_val kIOError = 5"

definition OK :: Status where
  "OK = None"

text \<open>
  The constructor \<open>Status(code, msg, msg2)\<close>. The sizes are truncated to \<open>uint32_t\<close>;
  the \<open>memcpy\<close>s copy that many bytes.
\<close>

definition mkStatus :: "Code \<Rightarrow> bytes \<Rightarrow> bytes \<Rightarrow> Status" where
  "mkStatus code msg msg2 =
     (let len1 = (word_of_nat (length msg) :: u32);
          len2 = (word_of_nat (length msg2) :: u32);
          size = len1 + (if len2 \<noteq> 0 then 2 + len2 else 0)
      in Some (store32 True size @ [Code_val code] @ take (unat len1) msg @
               (if len2 \<noteq> 0 then cstr '': '' @ take (unat len2) msg2 else [])))"

definition NotFound :: "bytes \<Rightarrow> bytes \<Rightarrow> Status" where
  "NotFound msg msg2 = mkStatus kNotFound msg msg2"

definition Corruption :: "bytes \<Rightarrow> bytes \<Rightarrow> Status" where
  "Corruption msg msg2 = mkStatus kCorruption msg msg2"

definition NotSupported :: "bytes \<Rightarrow> bytes \<Rightarrow> Status" where
  "NotSupported msg msg2 = mkStatus kNotSupported msg msg2"

definition InvalidArgument :: "bytes \<Rightarrow> bytes \<Rightarrow> Status" where
  "InvalidArgument msg msg2 = mkStatus kInvalidArgument msg msg2"

definition IOError :: "bytes \<Rightarrow> bytes \<Rightarrow> Status" where
  "IOError msg msg2 = mkStatus kIOError msg msg2"

definition Status_ok :: "Status \<Rightarrow> bool" where
  "Status_ok s = (s = None)"

definition Status_code :: "Status \<Rightarrow> byte" where
  "Status_code s = (case s of None \<Rightarrow> Code_val kOk | Some st \<Rightarrow> st ! 4)"

definition IsNotFound :: "Status \<Rightarrow> bool" where
  "IsNotFound s = (Status_code s = Code_val kNotFound)"

definition IsCorruption :: "Status \<Rightarrow> bool" where
  "IsCorruption s = (Status_code s = Code_val kCorruption)"

definition IsIOError :: "Status \<Rightarrow> bool" where
  "IsIOError s = (Status_code s = Code_val kIOError)"

text \<open>\<open>CopyState\<close> and the copy constructor and assignment that call it.\<close>

definition CopyState :: "bytes \<Rightarrow> bytes" where
  "CopyState state = (let size = (load32 True state) in take (unat size + 5) state)"

definition Status_copy :: "Status \<Rightarrow> Status" where
  "Status_copy s = (case s of None \<Rightarrow> None | Some st \<Rightarrow> Some (CopyState st))"

definition Status_ToString :: "Status \<Rightarrow> bytes" where
  "Status_ToString s =
     (case s of
        None \<Rightarrow> cstr ''OK''
      | Some st \<Rightarrow>
          (let c = Status_code s;
               type =
                 (if c = Code_val kOk then cstr ''OK''
                  else if c = Code_val kNotFound then cstr ''NotFound: ''
                  else if c = Code_val kCorruption then cstr ''Corruption: ''
                  else if c = Code_val kNotSupported then cstr ''Not implemented: ''
                  else if c = Code_val kInvalidArgument then cstr ''Invalid argument: ''
                  else if c = Code_val kIOError then cstr ''IO error: ''
                  else snprintf 30 (cstr ''Unknown code('' @ fmt_d (sint c) @ cstr ''): ''))
           in type @ take (unat (load32 True st)) (drop 5 st)))"

section \<open>Lemmas\<close>

lemma load32_store32 [simp]: "load32 True (store32 True v @ rest) = v"
  by (simp add: load32_def store32_def of_le_bytes32)

lemma length_store32 [simp]: "length (store32 True v) = 4"
  by (simp add: store32_def)

lemma Status_ok_simps [simp]:
  "Status_ok OK" "\<not> Status_ok (mkStatus c m1 m2)"
  by (simp_all add: Status_ok_def OK_def mkStatus_def Let_def)

lemma Status_code_mkStatus [simp]: "Status_code (mkStatus c m1 m2) = Code_val c"
  by (simp add: Status_code_def mkStatus_def Let_def nth_append)

lemma Code_val_inject [simp]: "Code_val c = Code_val d \<longleftrightarrow> c = d"
  by (cases c; cases d) simp_all

lemma not_ok_constructors [simp]:
  "\<not> Status_ok (NotFound a b)" "\<not> Status_ok (Corruption a b)" "\<not> Status_ok (NotSupported a b)"
  "\<not> Status_ok (InvalidArgument a b)" "\<not> Status_ok (IOError a b)"
  by (simp_all add: NotFound_def Corruption_def NotSupported_def InvalidArgument_def IOError_def)

text \<open>The message a status built from two parts carries.\<close>

definition join_msg :: "bytes \<Rightarrow> bytes \<Rightarrow> bytes" where
  "join_msg m1 m2 = (if m2 = [] then m1 else m1 @ cstr '': '' @ m2)"

lemma mkStatus_small:
  assumes "length m1 + length m2 + 2 < 2 ^ 32"
  shows "mkStatus c m1 m2 =
    Some (store32 True (word_of_nat (length (join_msg m1 m2))) @ [Code_val c] @ join_msg m1 m2)"
proof -
  have "(word_of_nat (length m2) :: u32) = 0 \<longleftrightarrow> m2 = []"
    using assms word_of_nat_eq_small [where 'a = 32, of "length m2" 0] by simp
  then show ?thesis
    using assms by (auto simp: mkStatus_def join_msg_def Let_def add.left_commute)
qed

lemma length_join_msg: "length m1 + length m2 + 2 < 2 ^ 32 \<Longrightarrow> length (join_msg m1 m2) < 2 ^ 32"
  by (auto simp: join_msg_def)

lemma Status_copy_mkStatus:
  "length m1 + length m2 + 2 < 2 ^ 32 \<Longrightarrow> Status_copy (mkStatus c m1 m2) = mkStatus c m1 m2"
  using length_join_msg [of m1 m2] by (simp add: mkStatus_small Status_copy_def CopyState_def)

primrec Code_prefix :: "Code \<Rightarrow> bytes" where
  "Code_prefix kOk = cstr ''OK''"
| "Code_prefix kNotFound = cstr ''NotFound: ''"
| "Code_prefix kCorruption = cstr ''Corruption: ''"
| "Code_prefix kNotSupported = cstr ''Not implemented: ''"
| "Code_prefix kInvalidArgument = cstr ''Invalid argument: ''"
| "Code_prefix kIOError = cstr ''IO error: ''"

lemma Status_ToString_mkStatus:
  assumes "length m1 + length m2 + 2 < 2 ^ 32"
  shows "Status_ToString (mkStatus c m1 m2) = Code_prefix c @ join_msg m1 m2"
  using assms length_join_msg [OF assms]
  by (cases c) (simp_all add: mkStatus_small Status_ToString_def Status_code_def nth_append
      del: cstr_Cons Code_val.simps)

section \<open>Correctness\<close>

text \<open>
  A status keeps its code and the whole message (joined with a colon and a
  blank when there are two parts), \<open>ToString\<close> prints the name of the code
  followed by that message, and copying a status loses nothing, for messages whose total
  size fits the 32-bit length field.
\<close>

theorem Status_keeps_message:
  assumes "length m1 + length m2 + 2 < 2 ^ 32"
  shows "Status_ToString (mkStatus c m1 m2) =
      Code_prefix c @ (if m2 = [] then m1 else m1 @ cstr '': '' @ m2) \<and>
    Status_copy (mkStatus c m1 m2) = mkStatus c m1 m2 \<and>
    IsNotFound (mkStatus c m1 m2) = (c = kNotFound) \<and>
    IsCorruption (mkStatus c m1 m2) = (c = kCorruption) \<and>
    IsIOError (mkStatus c m1 m2) = (c = kIOError)"
  using assms
  by (simp add: Status_ToString_mkStatus Status_copy_mkStatus join_msg_def IsNotFound_def
      IsCorruption_def IsIOError_def del: Code_val.simps)

theorem Status_keeps_message_witness:
  "Status_copy (Corruption (cstr ''bad block'') (cstr ''000005.ldb'')) =
     Corruption (cstr ''bad block'') (cstr ''000005.ldb'')"
  using Status_keeps_message [of "cstr ''bad block''" "cstr ''000005.ldb''" kCorruption]
  by (simp add: Corruption_def del: cstr_Cons)

end
