(* ===== verification/Comparator.thy ===== *)
theory Comparator
  imports Slice
begin

text \<open>
  \<open>include/leveldb/comparator.h\<close> and \<open>util/comparator.cc\<close>. The abstract class
  \<open>Comparator\<close> is a record of its virtual functions, \<open>BytewiseComparator\<close> one such
  record. The contract of the class comments is the locale \<open>key_order\<close> (a total order on
  the keys that are valid for it) and its extension \<open>separator_order\<close> (the two functions that
  shorten keys).
\<close>

section \<open>The interface\<close>

record Comparator =
  Comparator_Name :: bytes
  Compare :: "bytes \<Rightarrow> bytes \<Rightarrow> int"
  FindShortestSeparator :: "bytes \<Rightarrow> bytes \<Rightarrow> bytes"
  FindShortSuccessor :: "bytes \<Rightarrow> bytes"

locale key_order =
  fixes cmp :: "'c Comparator_scheme" and valid :: "bytes \<Rightarrow> bool"
  assumes compare_eq: "valid a \<Longrightarrow> valid b \<Longrightarrow> Compare cmp a b = 0 \<longleftrightarrow> a = b"
    and compare_swap: "valid a \<Longrightarrow> valid b \<Longrightarrow> Compare cmp a b < 0 \<longleftrightarrow> 0 < Compare cmp b a"
    and compare_trans: "valid a \<Longrightarrow> valid b \<Longrightarrow> valid c \<Longrightarrow>
      Compare cmp a b < 0 \<Longrightarrow> Compare cmp b c < 0 \<Longrightarrow> Compare cmp a c < 0"
begin

lemma compare_refl [simp]: "valid a \<Longrightarrow> Compare cmp a a = 0"
  by (simp add: compare_eq)

lemma compare_le_iff:
  "valid a \<Longrightarrow> valid b \<Longrightarrow> Compare cmp a b \<le> 0 \<longleftrightarrow> a = b \<or> Compare cmp a b < 0"
  using compare_eq [of a b] by auto

lemma compare_not_less:
  "valid a \<Longrightarrow> valid b \<Longrightarrow> \<not> Compare cmp a b < 0 \<longleftrightarrow> Compare cmp b a \<le> 0"
  using compare_eq [of a b] compare_eq [of b a] compare_swap [of a b] compare_swap [of b a] by auto

lemma compare_ge_iff:
  "valid a \<Longrightarrow> valid b \<Longrightarrow> 0 \<le> Compare cmp a b \<longleftrightarrow> Compare cmp b a \<le> 0"
  using compare_not_less [of a b] by auto

lemma compare_le_trans:
  "valid a \<Longrightarrow> valid b \<Longrightarrow> valid c \<Longrightarrow>
   Compare cmp a b \<le> 0 \<Longrightarrow> Compare cmp b c \<le> 0 \<Longrightarrow> Compare cmp a c \<le> 0"
  using compare_trans [of a b c] by (auto simp: compare_le_iff)

lemma compare_le_less_trans:
  "valid a \<Longrightarrow> valid b \<Longrightarrow> valid c \<Longrightarrow>
   Compare cmp a b \<le> 0 \<Longrightarrow> Compare cmp b c < 0 \<Longrightarrow> Compare cmp a c < 0"
  using compare_trans [of a b c] by (auto simp: compare_le_iff)

lemma compare_less_le_trans:
  "valid a \<Longrightarrow> valid b \<Longrightarrow> valid c \<Longrightarrow>
   Compare cmp a b < 0 \<Longrightarrow> Compare cmp b c \<le> 0 \<Longrightarrow> Compare cmp a c < 0"
  using compare_trans [of a b c] by (auto simp: compare_le_iff)

lemma compare_less_irrefl: "valid a \<Longrightarrow> \<not> Compare cmp a a < 0"
  by simp

lemma compare_less_asym:
  "valid a \<Longrightarrow> valid b \<Longrightarrow> Compare cmp a b < 0 \<Longrightarrow> \<not> Compare cmp b a < 0"
  using compare_swap [of a b] by auto

end

text \<open>
  \<open>FindShortestSeparator\<close> changes \<open>start\<close> only when \<open>start < limit\<close>, to a key in
  \<open>[start, limit)\<close>; \<open>FindShortSuccessor\<close> returns a key that is not smaller.
\<close>

locale separator_order = key_order cmp valid
  for cmp :: "'c Comparator_scheme" and valid :: "bytes \<Rightarrow> bool" +
  assumes separator_valid: "valid a \<Longrightarrow> valid b \<Longrightarrow> valid (FindShortestSeparator cmp a b)"
    and separator_ge: "valid a \<Longrightarrow> valid b \<Longrightarrow> Compare cmp a b < 0 \<Longrightarrow>
      Compare cmp a (FindShortestSeparator cmp a b) \<le> 0"
    and separator_less: "valid a \<Longrightarrow> valid b \<Longrightarrow> Compare cmp a b < 0 \<Longrightarrow>
      Compare cmp (FindShortestSeparator cmp a b) b < 0"
    and separator_unchanged: "valid a \<Longrightarrow> valid b \<Longrightarrow> \<not> Compare cmp a b < 0 \<Longrightarrow>
      FindShortestSeparator cmp a b = a"
    and successor_valid: "valid a \<Longrightarrow> valid (FindShortSuccessor cmp a)"
    and successor_ge: "valid a \<Longrightarrow> Compare cmp a (FindShortSuccessor cmp a) \<le> 0"
begin

text \<open>A separator of two keys sorts every key up to \<open>a\<close> before every key from \<open>b\<close> on.\<close>

lemma separator_splits:
  assumes "valid a" "valid b" "valid x" "valid y" "Compare cmp a b < 0"
    and "Compare cmp x a \<le> 0" "Compare cmp b y \<le> 0"
  shows "Compare cmp x (FindShortestSeparator cmp a b) \<le> 0 \<and>
    Compare cmp (FindShortestSeparator cmp a b) y < 0"
  using assms separator_valid [of a b] separator_ge [of a b] separator_less [of a b]
    compare_le_trans [of x a "FindShortestSeparator cmp a b"]
    compare_less_le_trans [of "FindShortestSeparator cmp a b" b y] by auto

end

section \<open>The bytewise comparator\<close>

function diff_index_loop :: "bytes \<Rightarrow> bytes \<Rightarrow> nat \<Rightarrow> nat" where
  "diff_index_loop start limit diff_index =
     (if diff_index < min (length start) (length limit) \<and> start ! diff_index = limit ! diff_index
      then diff_index_loop start limit (diff_index + 1) else diff_index)"
  by pat_completeness auto
termination
  by (relation "measure (\<lambda>(s, l, i). min (length s) (length l) - i)") auto

declare diff_index_loop.simps [simp del]

definition Bytewise_FindShortestSeparator :: "bytes \<Rightarrow> bytes \<Rightarrow> bytes" where
  "Bytewise_FindShortestSeparator start limit =
     (let min_length = min (length start) (length limit);
          diff_index = diff_index_loop start limit 0
      in if diff_index \<ge> min_length then start
         else (let diff_byte = start ! diff_index in
               if diff_byte < 0xff \<and> unat diff_byte + 1 < unat (limit ! diff_index)
               then take (diff_index + 1) (start[diff_index := start ! diff_index + 1])
               else start))"

function FindShortSuccessor_loop :: "bytes \<Rightarrow> nat \<Rightarrow> bytes" where
  "FindShortSuccessor_loop key i =
     (if i < length key then
        (let byte = key ! i in
         if byte \<noteq> 0xff then take (i + 1) (key[i := byte + 1])
         else FindShortSuccessor_loop key (i + 1))
      else key)"
  by pat_completeness auto
termination
  by (relation "measure (\<lambda>(k, i). length k - i)") auto

declare FindShortSuccessor_loop.simps [simp del]

definition Bytewise_FindShortSuccessor :: "bytes \<Rightarrow> bytes" where
  "Bytewise_FindShortSuccessor key = FindShortSuccessor_loop key 0"

definition BytewiseComparator :: Comparator where
  "BytewiseComparator =
     \<lparr> Comparator_Name = cstr ''leveldb.BytewiseComparator'',
       Compare = Slice_compare,
       FindShortestSeparator = Bytewise_FindShortestSeparator,
       FindShortSuccessor = Bytewise_FindShortSuccessor \<rparr>"

lemma BytewiseComparator_simps [simp]:
  "Compare BytewiseComparator = Slice_compare"
  "FindShortestSeparator BytewiseComparator = Bytewise_FindShortestSeparator"
  "FindShortSuccessor BytewiseComparator = Bytewise_FindShortSuccessor"
  by (simp_all add: BytewiseComparator_def)

section \<open>Shortened keys\<close>

lemma diff_index_loop_common:
  "take i start = take i limit \<Longrightarrow> i \<le> min (length start) (length limit) \<Longrightarrow>
   (let j = diff_index_loop start limit i in
      take j start = take j limit \<and> j \<le> min (length start) (length limit) \<and>
      (j < min (length start) (length limit) \<longrightarrow> start ! j \<noteq> limit ! j))"
proof (induction start limit i rule: diff_index_loop.induct)
  case (1 start limit i)
  show ?case
  proof (cases "i < min (length start) (length limit) \<and> start ! i = limit ! i")
    case True
    then have "take (i + 1) start = take (i + 1) limit"
      using 1(2) by (simp add: take_Suc_conv_app_nth)
    with 1 True show ?thesis
      by (subst diff_index_loop.simps) (simp add: Let_def)
  qed (use 1 in \<open>subst diff_index_loop.simps, auto simp: Let_def\<close>)
qed

text \<open>What the separator does: the first differing byte is raised when there is room.\<close>

lemma Bytewise_FindShortestSeparator_cases:
  obtains "Bytewise_FindShortestSeparator start limit = start"
  | p a b s l where "start = p @ a # s" "limit = p @ b # l" "unat a + 1 < unat b"
      "Bytewise_FindShortestSeparator start limit = p @ [a + 1]"
proof -
  define j where "j = diff_index_loop start limit 0"
  have j: "take j start = take j limit" "j \<le> min (length start) (length limit)"
    using diff_index_loop_common [of 0 start limit] by (simp_all add: j_def Let_def)
  show thesis
  proof (cases "j < min (length start) (length limit) \<and> unat (start ! j) + 1 < unat (limit ! j)")
    case False
    then show thesis
      using that(1) by (auto simp: Bytewise_FindShortestSeparator_def j_def [symmetric] Let_def)
  next
    case True
    have s: "start = take j start @ start ! j # drop (Suc j) start"
      using True by (intro id_take_nth_drop) simp
    moreover have "limit = take j start @ limit ! j # drop (Suc j) limit"
      unfolding j(1) using True by (intro id_take_nth_drop) simp
    moreover have "Bytewise_FindShortestSeparator start limit = take j start @ [start ! j + 1]"
      using True unat_byte_less [of "limit ! j"]
      by (auto simp: Bytewise_FindShortestSeparator_def j_def [symmetric] Let_def
          take_Suc_conv_app_nth word_less_nat_alt)
    ultimately show thesis using that(2) True by blast
  qed
qed

lemma byte_succ_less: "unat (a :: byte) + 1 < unat b \<Longrightarrow> a < a + 1 \<and> a + 1 < b"
  using unat_byte_less [of b] by (simp add: word_less_nat_alt unat_word_ariths)

lemma byte_succ_greater: "(a :: byte) \<noteq> 0xff \<Longrightarrow> a < a + 1"
proof -
  assume "a \<noteq> 0xff"
  then have "unat a \<noteq> 255" by (simp add: word_unat_eq_iff)
  then show ?thesis
    using unat_byte_less [of a] by (simp add: word_less_nat_alt unat_word_ariths)
qed

lemma Bytewise_separator:
  "lex_less start limit \<Longrightarrow>
   (start = Bytewise_FindShortestSeparator start limit \<or>
    lex_less start (Bytewise_FindShortestSeparator start limit)) \<and>
   lex_less (Bytewise_FindShortestSeparator start limit) limit"
  by (rule Bytewise_FindShortestSeparator_cases [of start limit])
    (auto simp: lex_less_append byte_succ_less)

lemma Bytewise_separator_unchanged:
  "\<not> lex_less start limit \<Longrightarrow> Bytewise_FindShortestSeparator start limit = start"
  by (rule Bytewise_FindShortestSeparator_cases [of start limit])
    (auto simp: lex_less_append word_less_nat_alt)

lemma FindShortSuccessor_loop_ge:
  "FindShortSuccessor_loop key i = key \<or> lex_less key (FindShortSuccessor_loop key i)"
proof (induction key i rule: FindShortSuccessor_loop.induct)
  case (1 key i)
  show ?case
  proof (cases "i < length key \<and> key ! i \<noteq> 0xff")
    case True
    then have "key = take i key @ key ! i # drop (Suc i) key"
      by (intro id_take_nth_drop) simp
    moreover have "take (i + 1) (key[i := key ! i + 1]) = take i key @ [key ! i + 1]"
      using True by (simp add: take_Suc_conv_app_nth)
    ultimately have "lex_less key (take (i + 1) (key[i := key ! i + 1]))"
      using True by (metis byte_succ_greater lex_less.simps(4) lex_less_append)
    with True show ?thesis by (subst (2) FindShortSuccessor_loop.simps) (simp add: Let_def)
  next
    case False
    with 1 show ?thesis
      by (subst (1 2) FindShortSuccessor_loop.simps) (auto simp: Let_def)
  qed
qed

interpretation bytewise: separator_order BytewiseComparator "\<lambda>_. True"
proof unfold_locales
  fix a b c :: bytes
  show "Compare BytewiseComparator a b = 0 \<longleftrightarrow> a = b" by (simp add: Slice_compare_eq_0)
  show "Compare BytewiseComparator a b < 0 \<longleftrightarrow> 0 < Compare BytewiseComparator b a"
    using Slice_compare_swap [of a b] by simp
  show "Compare BytewiseComparator a b < 0 \<Longrightarrow> Compare BytewiseComparator b c < 0 \<Longrightarrow>
      Compare BytewiseComparator a c < 0"
    using lex_less_trans by (simp add: Slice_compare_less_0)
  show "Compare BytewiseComparator a b < 0 \<Longrightarrow>
      Compare BytewiseComparator a (FindShortestSeparator BytewiseComparator a b) \<le> 0"
    using Bytewise_separator [of a b]
    by (auto simp: Slice_compare_less_0 Slice_compare_eq_0 le_less)
  show "Compare BytewiseComparator a b < 0 \<Longrightarrow>
      Compare BytewiseComparator (FindShortestSeparator BytewiseComparator a b) b < 0"
    using Bytewise_separator [of a b] by (simp add: Slice_compare_less_0)
  show "\<not> Compare BytewiseComparator a b < 0 \<Longrightarrow> FindShortestSeparator BytewiseComparator a b = a"
    using Bytewise_separator_unchanged [of a b] by (simp add: Slice_compare_less_0)
  show "Compare BytewiseComparator a (FindShortSuccessor BytewiseComparator a) \<le> 0"
    using FindShortSuccessor_loop_ge [of a 0]
    by (auto simp: Bytewise_FindShortSuccessor_def Slice_compare_less_0 Slice_compare_eq_0 le_less)
qed simp_all

end
