(* ===== verification/Dbformat.thy ===== *)
theory Dbformat
  imports Logging Comparator
begin

text \<open>
  \<open>db/dbformat.h\<close> and \<open>db/dbformat.cc\<close>: internal keys (a user key followed by eight bytes
  that pack a sequence number and a value type), their comparator, and the lookup keys of the
  memtable.
\<close>

section \<open>Internal keys\<close>

datatype ValueType = kTypeDeletion | kTypeValue

primrec ValueType_val :: "ValueType \<Rightarrow> byte" where
  "ValueType_val kTypeDeletion = 0"
| "ValueType_val kTypeValue = 1"

definition ValueType_of :: "byte \<Rightarrow> ValueType option" where
  "ValueType_of c = (if c = 0 then Some kTypeDeletion else if c = 1 then Some kTypeValue else None)"

definition kValueTypeForSeek :: ValueType where
  "kValueTypeForSeek = kTypeValue"

definition kMaxSequenceNumber :: u64 where
  "kMaxSequenceNumber = push_bit 56 1 - 1"

record ParsedInternalKey =
  pk_user_key :: bytes
  pk_sequence :: u64
  pk_type :: ValueType

definition InternalKeyEncodingLength :: "ParsedInternalKey \<Rightarrow> nat" where
  "InternalKeyEncodingLength key = length (pk_user_key key) + 8"

definition PackSequenceAndType :: "u64 \<Rightarrow> ValueType \<Rightarrow> u64" where
  "PackSequenceAndType seq t = (push_bit 8 seq) OR ucast (ValueType_val t)"

definition AppendInternalKey :: "bytes \<Rightarrow> ParsedInternalKey \<Rightarrow> bytes" where
  "AppendInternalKey result key =
     PutFixed64 (result @ pk_user_key key) (PackSequenceAndType (pk_sequence key) (pk_type key))"

definition ExtractUserKey :: "bytes \<Rightarrow> bytes" where
  "ExtractUserKey internal_key = take (length internal_key - 8) internal_key"

text \<open>The number packed into the last eight bytes: \<open>DecodeFixed64(key.data() + key.size() - 8)\<close>.\<close>

definition ExtractNum :: "bytes \<Rightarrow> u64" where
  "ExtractNum internal_key = DecodeFixed64 (drop (length internal_key - 8) internal_key)"

definition ExtractValueType :: "bytes \<Rightarrow> byte" where
  "ExtractValueType internal_key = ucast (ExtractNum internal_key AND 0xff)"

definition ParseInternalKey :: "bytes \<Rightarrow> ParsedInternalKey option" where
  "ParseInternalKey internal_key =
     (let n = length internal_key in
      if n < 8 then None
      else
        (let num = DecodeFixed64 (drop (n - 8) internal_key);
             c = ucast (num AND 0xff) :: byte
         in case ValueType_of c of
              None \<Rightarrow> None
            | Some t \<Rightarrow>
                Some \<lparr> pk_user_key = take (n - 8) internal_key, pk_sequence = drop_bit 8 num,
                       pk_type = t \<rparr>))"

text \<open>The class \<open>InternalKey\<close> is its string \<open>rep_\<close>.\<close>

definition InternalKey :: "bytes \<Rightarrow> u64 \<Rightarrow> ValueType \<Rightarrow> bytes" where
  "InternalKey user_key s t =
     AppendInternalKey [] \<lparr> pk_user_key = user_key, pk_sequence = s, pk_type = t \<rparr>"

definition InternalKey_SetFrom :: "ParsedInternalKey \<Rightarrow> bytes" where
  "InternalKey_SetFrom p = AppendInternalKey [] p"

definition ParsedInternalKey_DebugString :: "ParsedInternalKey \<Rightarrow> bytes" where
  "ParsedInternalKey_DebugString k =
     [39] @ EscapeString (pk_user_key k) @
     snprintf 50 ([39] @ cstr '' @ '' @ fmt_u (unat (pk_sequence k)) @ cstr '' : '' @
                  fmt_d (uint (ValueType_val (pk_type k))))"

definition InternalKey_DebugString :: "bytes \<Rightarrow> bytes" where
  "InternalKey_DebugString rep =
     (case ParseInternalKey rep of
        Some parsed \<Rightarrow> ParsedInternalKey_DebugString parsed
      | None \<Rightarrow> cstr ''(bad)'' @ EscapeString rep)"

section \<open>The internal key comparator\<close>

definition InternalKeyComparator_Compare :: "Comparator \<Rightarrow> bytes \<Rightarrow> bytes \<Rightarrow> int" where
  "InternalKeyComparator_Compare user_comparator akey bkey =
     (let r = Compare user_comparator (ExtractUserKey akey) (ExtractUserKey bkey) in
      if r = 0 then
        (let anum = ExtractNum akey; bnum = ExtractNum bkey in
         if anum > bnum then -1 else if anum < bnum then 1 else r)
      else r)"

definition InternalKeyComparator_FindShortestSeparator ::
  "Comparator \<Rightarrow> bytes \<Rightarrow> bytes \<Rightarrow> bytes" where
  "InternalKeyComparator_FindShortestSeparator user_comparator start limit =
     (let user_start = ExtractUserKey start;
          user_limit = ExtractUserKey limit;
          tmp = FindShortestSeparator user_comparator user_start user_limit
      in if length tmp < length user_start \<and> Compare user_comparator user_start tmp < 0
         then PutFixed64 tmp (PackSequenceAndType kMaxSequenceNumber kValueTypeForSeek)
         else start)"

definition InternalKeyComparator_FindShortSuccessor :: "Comparator \<Rightarrow> bytes \<Rightarrow> bytes" where
  "InternalKeyComparator_FindShortSuccessor user_comparator key =
     (let user_key = ExtractUserKey key;
          tmp = FindShortSuccessor user_comparator user_key
      in if length tmp < length user_key \<and> Compare user_comparator user_key tmp < 0
         then PutFixed64 tmp (PackSequenceAndType kMaxSequenceNumber kValueTypeForSeek)
         else key)"

definition InternalKeyComparator :: "Comparator \<Rightarrow> Comparator" where
  "InternalKeyComparator user_comparator =
     \<lparr> Comparator_Name = cstr ''leveldb.InternalKeyComparator'',
       Compare = InternalKeyComparator_Compare user_comparator,
       FindShortestSeparator = InternalKeyComparator_FindShortestSeparator user_comparator,
       FindShortSuccessor = InternalKeyComparator_FindShortSuccessor user_comparator \<rparr>"

section \<open>Lookup keys\<close>

text \<open>
  The buffer \<open>[start_, end_)\<close> of a \<open>LookupKey\<close> and the offset of \<open>kstart_\<close> in it.
  The buffer is \<open>space_\<close> (200 bytes) or a fresh array of \<open>needed\<close> bytes.
\<close>

record LookupKey =
  lk_needed :: nat
  lk_start :: bytes
  lk_kstart :: nat

definition mkLookupKey :: "bytes \<Rightarrow> u64 \<Rightarrow> LookupKey" where
  "mkLookupKey user_key s =
     (let usize = length user_key;
          needed = usize + 13;
          klength = EncodeVarint32 (word_of_nat (usize + 8))
      in \<lparr> lk_needed = (if needed \<le> 200 then 200 else needed),
           lk_start = klength @ user_key @ EncodeFixed64 (PackSequenceAndType s kValueTypeForSeek),
           lk_kstart = length klength \<rparr>)"

definition LookupKey_memtable_key :: "LookupKey \<Rightarrow> bytes" where
  "LookupKey_memtable_key k = lk_start k"

definition LookupKey_internal_key :: "LookupKey \<Rightarrow> bytes" where
  "LookupKey_internal_key k = drop (lk_kstart k) (lk_start k)"

definition LookupKey_user_key :: "LookupKey \<Rightarrow> bytes" where
  "LookupKey_user_key k =
     take (length (lk_start k) - lk_kstart k - 8) (drop (lk_kstart k) (lk_start k))"

section \<open>Packing\<close>

lemma InternalKeyComparator_simps [simp]:
  "Compare (InternalKeyComparator u) = InternalKeyComparator_Compare u"
  "FindShortestSeparator (InternalKeyComparator u) = InternalKeyComparator_FindShortestSeparator u"
  "FindShortSuccessor (InternalKeyComparator u) = InternalKeyComparator_FindShortSuccessor u"
  by (simp_all add: InternalKeyComparator_def)

lemma ExtractUserKey_append8 [simp]: "length t = 8 \<Longrightarrow> ExtractUserKey (u @ t) = u"
  by (simp add: ExtractUserKey_def)

lemma ExtractNum_append8 [simp]: "ExtractNum (u @ EncodeFixed64 v) = v"
  by (simp add: ExtractNum_def)

lemma internal_key_split:
  "8 \<le> length k \<Longrightarrow> k = ExtractUserKey k @ EncodeFixed64 (ExtractNum k)"
  by (simp add: ExtractUserKey_def ExtractNum_def EncodeFixed64_DecodeFixed64)

lemma internal_key_eq_iff:
  "8 \<le> length a \<Longrightarrow> 8 \<le> length b \<Longrightarrow>
   a = b \<longleftrightarrow> ExtractUserKey a = ExtractUserKey b \<and> ExtractNum a = ExtractNum b"
  using internal_key_split [of a] internal_key_split [of b] by auto

lemma ValueType_of_val [simp]: "ValueType_of (ValueType_val t) = Some t"
  by (cases t) (simp_all add: ValueType_of_def)

lemma unat_kMaxSequenceNumber: "unat kMaxSequenceNumber = 2 ^ 56 - 1"
  by (simp add: kMaxSequenceNumber_def)

lemma bit_ValueType_val: "bit (ValueType_val t) n \<longleftrightarrow> t = kTypeValue \<and> n = 0"
  by (cases t) (auto simp: bit_1_iff)

lemma PackSequenceAndType_low: "ucast (PackSequenceAndType s t AND 0xff) = ValueType_val t"
  by (rule bit_word_eqI) (auto simp: PackSequenceAndType_def AND_255 bit_simps bit_ValueType_val)

lemma PackSequenceAndType_high:
  assumes "s \<le> kMaxSequenceNumber"
  shows "drop_bit 8 (PackSequenceAndType s t) = s"
proof -
  have s: "take_bit 56 s = s"
    using assms by (intro take_bit_self_less) (simp add: word_le_nat_alt unat_kMaxSequenceNumber)
  have "drop_bit 8 (PackSequenceAndType s t) = take_bit 56 s"
    by (rule bit_word_eqI) (auto simp: PackSequenceAndType_def bit_simps bit_ValueType_val)
  with s show ?thesis by simp
qed

lemma unat_PackSequenceAndType:
  assumes "s \<le> kMaxSequenceNumber"
  shows "unat (PackSequenceAndType s t) = 256 * unat s + unat (ValueType_val t)"
proof -
  let ?p = "PackSequenceAndType s t"
  have "unat (drop_bit 8 ?p) = unat ?p div 256" by (simp add: drop_bit_eq_div unat_div)
  moreover have "unat (?p AND 0xff) = unat ?p mod 256"
    by (simp add: AND_255 take_bit_eq_mod unat_mod)
  moreover have "unat (ucast (?p AND 0xff) :: byte) = unat (?p AND 0xff)"
    by (simp add: AND_255 unsigned_ucast_eq unsigned_take_bit_eq)
  ultimately show ?thesis
    using PackSequenceAndType_high [OF assms, of t] PackSequenceAndType_low [of s t] by simp
qed

lemma ParseInternalKey_InternalKey [codec]:
  "s \<le> kMaxSequenceNumber \<Longrightarrow> ParseInternalKey (InternalKey u s t) =
     Some \<lparr> pk_user_key = u, pk_sequence = s, pk_type = t \<rparr>"
  by (simp add: ParseInternalKey_def InternalKey_def AppendInternalKey_def PutFixed64_def
      PackSequenceAndType_low PackSequenceAndType_high Let_def)

section \<open>The order of internal keys\<close>

definition internal_valid :: "(bytes \<Rightarrow> bool) \<Rightarrow> bytes \<Rightarrow> bool" where
  "internal_valid uvalid k \<longleftrightarrow> 8 \<le> length k \<and> uvalid (ExtractUserKey k)"

locale internal_key_order = separator_order ucmp uvalid
  for ucmp :: Comparator and uvalid :: "bytes \<Rightarrow> bool"
begin

lemma internal_less_iff:
  assumes "internal_valid uvalid a" "internal_valid uvalid b"
  shows "InternalKeyComparator_Compare ucmp a b < 0 \<longleftrightarrow>
    Compare ucmp (ExtractUserKey a) (ExtractUserKey b) < 0 \<or>
    ExtractUserKey a = ExtractUserKey b \<and> ExtractNum b < ExtractNum a"
  using assms compare_eq [of "ExtractUserKey a" "ExtractUserKey b"]
  by (auto simp: InternalKeyComparator_Compare_def internal_valid_def Let_def)

lemma internal_greater_iff:
  assumes "internal_valid uvalid a" "internal_valid uvalid b"
  shows "0 < InternalKeyComparator_Compare ucmp a b \<longleftrightarrow>
    0 < Compare ucmp (ExtractUserKey a) (ExtractUserKey b) \<or>
    ExtractUserKey a = ExtractUserKey b \<and> ExtractNum a < ExtractNum b"
  using assms compare_eq [of "ExtractUserKey a" "ExtractUserKey b"]
  by (auto simp: InternalKeyComparator_Compare_def internal_valid_def Let_def)

lemma internal_eq_iff:
  assumes "internal_valid uvalid a" "internal_valid uvalid b"
  shows "InternalKeyComparator_Compare ucmp a b = 0 \<longleftrightarrow> a = b"
  using assms internal_key_eq_iff [of a b] compare_eq [of "ExtractUserKey a" "ExtractUserKey b"]
  by (auto simp: internal_valid_def InternalKeyComparator_Compare_def Let_def)

lemma internal_shorter:
  assumes "internal_valid uvalid k" "uvalid tmp" "Compare ucmp (ExtractUserKey k) tmp < 0"
  shows "internal_valid uvalid (PutFixed64 tmp num)"
    and "InternalKeyComparator_Compare ucmp k (PutFixed64 tmp num) < 0"
proof -
  show v: "internal_valid uvalid (PutFixed64 tmp num)"
    using assms(2) by (simp add: internal_valid_def PutFixed64_def)
  show "InternalKeyComparator_Compare ucmp k (PutFixed64 tmp num) < 0"
    using assms internal_less_iff [OF assms(1) v] by (simp add: PutFixed64_def)
qed

end

sublocale internal_key_order \<subseteq> internal: separator_order "InternalKeyComparator ucmp" "internal_valid uvalid"
proof unfold_locales
  fix a b c
  assume a: "internal_valid uvalid a"
  then have ua: "uvalid (ExtractUserKey a)" by (simp add: internal_valid_def)
  show "internal_valid uvalid (FindShortSuccessor (InternalKeyComparator ucmp) a)"
    and "Compare (InternalKeyComparator ucmp) a (FindShortSuccessor (InternalKeyComparator ucmp) a) \<le> 0"
    using a internal_shorter [OF a successor_valid [OF ua]] internal_eq_iff [OF a a]
    by (auto simp: InternalKeyComparator_FindShortSuccessor_def Let_def less_imp_le)
  assume b: "internal_valid uvalid b"
  then have ub: "uvalid (ExtractUserKey b)" by (simp add: internal_valid_def)
  show "Compare (InternalKeyComparator ucmp) a b = 0 \<longleftrightarrow> a = b"
    using internal_eq_iff [OF a b] by simp
  show "Compare (InternalKeyComparator ucmp) a b < 0 \<longleftrightarrow> 0 < Compare (InternalKeyComparator ucmp) b a"
    using internal_less_iff [OF a b] internal_greater_iff [OF b a] compare_swap [OF ua ub] by auto
  show v: "internal_valid uvalid (FindShortestSeparator (InternalKeyComparator ucmp) a b)"
    using a internal_shorter(1) [OF a separator_valid [OF ua ub]]
    by (auto simp: InternalKeyComparator_FindShortestSeparator_def Let_def)
  show "\<not> Compare (InternalKeyComparator ucmp) a b < 0 \<Longrightarrow>
      FindShortestSeparator (InternalKeyComparator ucmp) a b = a"
    using internal_less_iff [OF a b] separator_unchanged [OF ua ub]
    by (auto simp: InternalKeyComparator_FindShortestSeparator_def Let_def)
  show "Compare (InternalKeyComparator ucmp) a (FindShortestSeparator (InternalKeyComparator ucmp) a b) \<le> 0"
    using a internal_shorter(2) [OF a separator_valid [OF ua ub]] internal_eq_iff [OF a a]
    by (auto simp: InternalKeyComparator_FindShortestSeparator_def Let_def less_imp_le)
  show "Compare (InternalKeyComparator ucmp) (FindShortestSeparator (InternalKeyComparator ucmp) a b) b < 0"
    if less: "Compare (InternalKeyComparator ucmp) a b < 0"
  proof (cases "Compare ucmp (ExtractUserKey a) (ExtractUserKey b) < 0")
    case True
    then show ?thesis
      using less v separator_less [OF ua ub] internal_less_iff [OF v b]
      by (auto simp: InternalKeyComparator_FindShortestSeparator_def Let_def PutFixed64_def
          split: if_splits)
  next
    case False
    then show ?thesis
      using less separator_unchanged [OF ua ub]
      by (auto simp: InternalKeyComparator_FindShortestSeparator_def Let_def)
  qed
  assume c: "internal_valid uvalid c"
  then have uc: "uvalid (ExtractUserKey c)" by (simp add: internal_valid_def)
  show "Compare (InternalKeyComparator ucmp) a c < 0"
    if "Compare (InternalKeyComparator ucmp) a b < 0" "Compare (InternalKeyComparator ucmp) b c < 0"
    using that internal_less_iff [OF a b] internal_less_iff [OF b c] internal_less_iff [OF a c]
      compare_trans [OF ua ub uc] by auto
qed

interpretation bytewise_internal: internal_key_order BytewiseComparator "\<lambda>_. True"
  by unfold_locales

section \<open>Correctness\<close>

lemma internal_valid_True [simp]: "internal_valid (\<lambda>_. True) k \<longleftrightarrow> 8 \<le> length k"
  by (simp add: internal_valid_def)

lemma InternalKey_simps [simp]:
  "ExtractUserKey (InternalKey u s t) = u"
  "ExtractNum (InternalKey u s t) = PackSequenceAndType s t"
  "length (InternalKey u s t) = length u + 8"
  by (simp_all add: InternalKey_def AppendInternalKey_def PutFixed64_def)

lemma Pack_less_iff:
  assumes "s \<le> kMaxSequenceNumber" "s' \<le> kMaxSequenceNumber"
  shows "PackSequenceAndType s t < PackSequenceAndType s' t' \<longleftrightarrow>
    s < s' \<or> s = s' \<and> ValueType_val t < ValueType_val t'"
  using assms by (cases t; cases t')
    (auto simp: word_less_nat_alt word_unat_eq_iff unat_PackSequenceAndType)

text \<open>
  C20. Internal keys order by increasing user key, then by decreasing sequence number,
  then by decreasing type, and parsing an encoded internal key gives back its three
  parts, for every sequence number up to \<open>kMaxSequenceNumber\<close>.
\<close>

theorem internal_key_order_spec:
  assumes "s1 \<le> kMaxSequenceNumber" "s2 \<le> kMaxSequenceNumber"
  shows "(Compare (InternalKeyComparator BytewiseComparator)
        (InternalKey u1 s1 t1) (InternalKey u2 s2 t2) < 0 \<longleftrightarrow>
      lex_less u1 u2 \<or> u1 = u2 \<and> (s2 < s1 \<or> s1 = s2 \<and> ValueType_val t2 < ValueType_val t1)) \<and>
    ParseInternalKey (InternalKey u1 s1 t1) =
      Some \<lparr> pk_user_key = u1, pk_sequence = s1, pk_type = t1 \<rparr>"
  using assms
  by (auto simp: bytewise_internal.internal_less_iff Slice_compare_less_0 Pack_less_iff
      ParseInternalKey_InternalKey)

theorem internal_key_order_spec_witness:
  "Compare (InternalKeyComparator BytewiseComparator)
     (InternalKey (cstr ''k'') 7 kTypeValue) (InternalKey (cstr ''k'') 3 kTypeDeletion) < 0"
  using internal_key_order_spec [of 7 3 "cstr ''k''" kTypeValue "cstr ''k''" kTypeDeletion]
  by (simp add: kMaxSequenceNumber_def)

text \<open>
  C24. The keys the internal comparator computes for index blocks are correct: a
  separator of \<open>start < limit\<close> lies in \<open>[start, limit)\<close>, a successor is not smaller
  than its key, and neither is longer than the key it replaces.
\<close>

theorem internal_separators_correct:
  assumes "8 \<le> length start" "8 \<le> length limit"
    and "Compare (InternalKeyComparator BytewiseComparator) start limit < 0"
  shows "let c = InternalKeyComparator BytewiseComparator;
             sep = FindShortestSeparator c start limit;
             succ = FindShortSuccessor c start
         in Compare c start sep \<le> 0 \<and> Compare c sep limit < 0 \<and>
            8 \<le> length sep \<and> length sep \<le> length start \<and>
            Compare c start succ \<le> 0 \<and> 8 \<le> length succ \<and> length succ \<le> length start"
proof -
  have "length (InternalKeyComparator_FindShortestSeparator BytewiseComparator start limit) \<le> length start"
    "length (InternalKeyComparator_FindShortSuccessor BytewiseComparator start) \<le> length start"
    by (auto simp: InternalKeyComparator_FindShortestSeparator_def
        InternalKeyComparator_FindShortSuccessor_def ExtractUserKey_def PutFixed64_def Let_def)
  then show ?thesis
    using assms bytewise_internal.internal.separator_ge [of start limit]
      bytewise_internal.internal.separator_less [of start limit]
      bytewise_internal.internal.separator_valid [of start limit]
      bytewise_internal.internal.successor_ge [of start]
      bytewise_internal.internal.successor_valid [of start]
    by (simp add: Let_def)
qed

theorem internal_separators_correct_witness:
  "let c = InternalKeyComparator BytewiseComparator;
       start = InternalKey (cstr ''foo'') 100 kTypeValue;
       limit = InternalKey (cstr ''hello'') 200 kTypeValue;
       sep = FindShortestSeparator c start limit
   in Compare c start sep \<le> 0 \<and> Compare c sep limit < 0"
  using internal_separators_correct
    [of "InternalKey (cstr ''foo'') 100 kTypeValue" "InternalKey (cstr ''hello'') 200 kTypeValue"]
  by (simp add: Let_def bytewise_internal.internal_less_iff Slice_compare_less_0 word_less_nat_alt)

text \<open>
  C23. A \<open>LookupKey\<close> for user key \<open>u\<close> at sequence number \<open>s\<close> fits the buffer
  its constructor allocates, its parts are the length-prefixed and the plain internal key,
  and it sorts at or before exactly those entries of \<open>u\<close> whose sequence number is
  at most \<open>s\<close>: a forward seek to it lands on the newest entry visible at \<open>s\<close>.
\<close>

theorem LookupKey_correct:
  assumes "length u + 8 < 2 ^ 32" "s \<le> kMaxSequenceNumber" "s' \<le> kMaxSequenceNumber"
  shows "let k = mkLookupKey u s in
    length (lk_start k) \<le> lk_needed k \<and>
    LookupKey_user_key k = u \<and>
    LookupKey_internal_key k = InternalKey u s kValueTypeForSeek \<and>
    GetLengthPrefixedSlice (LookupKey_memtable_key k @ rest) = Some (LookupKey_internal_key k, rest) \<and>
    (Compare (InternalKeyComparator BytewiseComparator) (LookupKey_internal_key k) (InternalKey u s' t) \<le> 0
      \<longleftrightarrow> s' \<le> s)"
proof -
  have int: "LookupKey_internal_key (mkLookupKey u s) = InternalKey u s kValueTypeForSeek"
    by (simp add: LookupKey_internal_key_def mkLookupKey_def Let_def InternalKey_def
        AppendInternalKey_def PutFixed64_def)
  have "LookupKey_user_key (mkLookupKey u s) = u"
    by (simp add: LookupKey_user_key_def mkLookupKey_def Let_def)
  moreover have "0 < Compare (InternalKeyComparator BytewiseComparator)
      (InternalKey u s kValueTypeForSeek) (InternalKey u s' t) \<longleftrightarrow> s < s'"
    using assms by (cases t) (auto simp: bytewise_internal.internal_greater_iff Pack_less_iff
        kValueTypeForSeek_def)
  moreover have "length (lk_start (mkLookupKey u s)) \<le> lk_needed (mkLookupKey u s)"
    using length_EncodeVarint32 [of "word_of_nat (length u + 8)"]
    by (simp add: mkLookupKey_def Let_def)
  moreover have "lk_start (mkLookupKey u s) = PutLengthPrefixedSlice [] (InternalKey u s kValueTypeForSeek)"
    by (simp add: mkLookupKey_def Let_def PutLengthPrefixedSlice_def PutVarint32_def)
      (simp add: InternalKey_def AppendInternalKey_def PutFixed64_def)
  ultimately show ?thesis
    using assms
    by (simp add: Let_def int LookupKey_memtable_key_def GetLengthPrefixedSlice_Put not_less [symmetric])
qed

theorem LookupKey_correct_witness:
  "LookupKey_user_key (mkLookupKey (cstr ''key'') 9) = cstr ''key''"
  using LookupKey_correct [of "cstr ''key''" 9 9 "[]" kTypeValue]
  by (simp add: kMaxSequenceNumber_def Let_def)

end
