(* ===== verification/Filename.thy ===== *)
theory Filename
  imports Logging
begin

text \<open>
  \<open>db/filename.h\<close> and \<open>db/filename.cc\<close>: the names of the files of a database and
  their parser.
\<close>

section \<open>Operations\<close>

datatype FileType =
  kLogFile | kDBLockFile | kTableFile | kDescriptorFile | kCurrentFile | kTempFile | kInfoLogFile

definition MakeFileName :: "bytes \<Rightarrow> u64 \<Rightarrow> bytes \<Rightarrow> bytes" where
  "MakeFileName name number suf =
     name @ snprintf 100 (cstr ''/'' @ fmt_06u (unat number) @ cstr ''.'' @ suf)"

definition LogFileName :: "bytes \<Rightarrow> u64 \<Rightarrow> bytes" where
  "LogFileName name number = MakeFileName name number (cstr ''log'')"

definition TableFileName :: "bytes \<Rightarrow> u64 \<Rightarrow> bytes" where
  "TableFileName name number = MakeFileName name number (cstr ''ldb'')"

definition SSTTableFileName :: "bytes \<Rightarrow> u64 \<Rightarrow> bytes" where
  "SSTTableFileName name number = MakeFileName name number (cstr ''sst'')"

definition DescriptorFileName :: "bytes \<Rightarrow> u64 \<Rightarrow> bytes" where
  "DescriptorFileName dbname number =
     dbname @ snprintf 100 (cstr ''/MANIFEST-'' @ fmt_06u (unat number))"

definition CurrentFileName :: "bytes \<Rightarrow> bytes" where
  "CurrentFileName dbname = dbname @ cstr ''/CURRENT''"

definition LockFileName :: "bytes \<Rightarrow> bytes" where
  "LockFileName dbname = dbname @ cstr ''/LOCK''"

definition TempFileName :: "bytes \<Rightarrow> u64 \<Rightarrow> bytes" where
  "TempFileName dbname number = MakeFileName dbname number (cstr ''dbtmp'')"

definition InfoLogFileName :: "bytes \<Rightarrow> bytes" where
  "InfoLogFileName dbname = dbname @ cstr ''/LOG''"

definition OldInfoLogFileName :: "bytes \<Rightarrow> bytes" where
  "OldInfoLogFileName dbname = dbname @ cstr ''/LOG.old''"

definition ParseFileName :: "bytes \<Rightarrow> (u64 \<times> FileType) option" where
  "ParseFileName fname =
     (let rest = fname in
      if Slice_eq rest (cstr ''CURRENT'') then Some (0, kCurrentFile)
      else if Slice_eq rest (cstr ''LOCK'') then Some (0, kDBLockFile)
      else if Slice_eq rest (cstr ''LOG'') \<or> Slice_eq rest (cstr ''LOG.old'')
        then Some (0, kInfoLogFile)
      else if starts_with rest (cstr ''MANIFEST-'') then
        (case ConsumeDecimalNumber (remove_prefix rest (length (cstr ''MANIFEST-''))) 0 of
           (ok, rest, num) \<Rightarrow>
             if \<not> ok then None
             else if \<not> Slice_empty rest then None
             else Some (num, kDescriptorFile))
      else
        (case ConsumeDecimalNumber rest 0 of
           (ok, suf, num) \<Rightarrow>
             if \<not> ok then None
             else if Slice_eq suf (cstr ''.log'') then Some (num, kLogFile)
             else if Slice_eq suf (cstr ''.sst'') \<or> Slice_eq suf (cstr ''.ldb'')
               then Some (num, kTableFile)
             else if Slice_eq suf (cstr ''.dbtmp'') then Some (num, kTempFile)
             else None))"

section \<open>Names\<close>

lemma length_fmt_06u: "length (fmt_06u (unat (v :: u64))) \<le> 20"
  using length_fmt_u64 [of v] by (simp add: fmt_06u_def)

lemma MakeFileName_eq:
  assumes "length suf \<le> 5"
  shows "MakeFileName name number suf = name @ cstr ''/'' @ fmt_06u (unat number) @ cstr ''.'' @ suf"
  using length_fmt_06u [of number] assms by (simp add: MakeFileName_def)

lemma DescriptorFileName_eq:
  "DescriptorFileName dbname number = dbname @ cstr ''/MANIFEST-'' @ fmt_06u (unat number)"
  using length_fmt_06u [of number] by (simp add: DescriptorFileName_def)

text \<open>The base name of a file of the database \<open>dbname\<close>.\<close>

definition base_name :: "bytes \<Rightarrow> bytes \<Rightarrow> bytes" where
  "base_name dbname f = remove_prefix f (length dbname + 1)"

lemma base_name_append [simp]: "base_name d (d @ c # s) = s"
  by (simp add: base_name_def remove_prefix_def)

lemma Consume_fmt_06u:
  assumes "s = [] \<or> \<not> is_digit (hd s)"
  shows "ConsumeDecimalNumber (fmt_06u (unat n) @ s) val = (True, s, n)"
  using fmt_06u_props [of "unat n"] length_fmt_06u [of n] assms by (intro ConsumeDecimalNumber_digits) simp_all

lemma fmt_06u_hd: "\<exists>d ds. fmt_06u n = d # ds \<and> is_digit d"
  using fmt_06u_props [of n] by (cases "fmt_06u n") auto

lemma digit_not_keyword:
  assumes "is_digit d"
  shows "d # s \<noteq> cstr ''CURRENT''" "d # s \<noteq> cstr ''LOCK''" "d # s \<noteq> cstr ''LOG''"
    "d # s \<noteq> cstr ''LOG.old''" "\<not> prefix (cstr ''MANIFEST-'') (d # s)"
  using assms by (auto simp: is_digit_def)

lemma suffixes_distinct:
  "distinct [cstr ''.log'', cstr ''.sst'', cstr ''.ldb'', cstr ''.dbtmp'']"
  by simp

lemma ParseFileName_number:
  assumes "s = cstr ''.log'' \<or> s = cstr ''.sst'' \<or> s = cstr ''.ldb'' \<or> s = cstr ''.dbtmp''"
  shows "ParseFileName (fmt_06u (unat n) @ s) = Some (n,
    if s = cstr ''.log'' then kLogFile else if s = cstr ''.dbtmp'' then kTempFile else kTableFile)"
proof -
  obtain d ds where d: "fmt_06u (unat n) = d # ds" "is_digit d" using fmt_06u_hd by blast
  have "ConsumeDecimalNumber (d # ds @ s) 0 = (True, s, n)"
    using Consume_fmt_06u [of s n 0] assms d(1) by (auto simp: is_digit_def)
  then show ?thesis
    using assms digit_not_keyword [OF d(2)] suffixes_distinct
    by (auto simp: ParseFileName_def d(1) simp del: cstr_Cons) 
qed

lemma ParseFileName_manifest:
  "ParseFileName (cstr ''MANIFEST-'' @ fmt_06u (unat n)) = Some (n, kDescriptorFile)"
  using Consume_fmt_06u [of "[]" n 0]
  by (simp add: ParseFileName_def remove_prefix_def Slice_empty_def)

lemma ConsumeDecimalNumber_True:
  assumes "ConsumeDecimalNumber inp val = (True, rest, n)"
  obtains ds where "inp = ds @ rest" "list_all is_digit ds" "ds \<noteq> []" "dec_value 0 ds = unat n"
proof (rule that [of "takeWhile is_digit inp"])
  have small: "dec_value 0 (takeWhile is_digit inp) < 2 ^ 64"
    using assms ConsumeDecimalNumber_loop_overflow [of 0 inp 0 val]
    by (fastforce simp: ConsumeDecimalNumber_def)
  with assms ConsumeDecimalNumber_loop_ok [of 0 inp 0 val]
  have eq: "rest = dropWhile is_digit inp" "n = word_of_nat (dec_value 0 (takeWhile is_digit inp))"
    "takeWhile is_digit inp \<noteq> []"
    by (auto simp: ConsumeDecimalNumber_def)
  then show "inp = takeWhile is_digit inp @ rest" "takeWhile is_digit inp \<noteq> []" by simp_all
  show "list_all is_digit (takeWhile is_digit inp)" by (auto simp: list_all_iff dest: set_takeWhileD)
  show "dec_value 0 (takeWhile is_digit inp) = unat n" using small eq(2) by simp
qed

section \<open>Correctness\<close>

text \<open>
  C37. The name of every file the database creates parses back to its number and
  kind, for every 64-bit file number.
\<close>

theorem ParseFileName_roundtrip:
  "ParseFileName (base_name d (LogFileName d n)) = Some (n, kLogFile) \<and>
   ParseFileName (base_name d (TableFileName d n)) = Some (n, kTableFile) \<and>
   ParseFileName (base_name d (SSTTableFileName d n)) = Some (n, kTableFile) \<and>
   ParseFileName (base_name d (TempFileName d n)) = Some (n, kTempFile) \<and>
   ParseFileName (base_name d (DescriptorFileName d n)) = Some (n, kDescriptorFile) \<and>
   ParseFileName (base_name d (CurrentFileName d)) = Some (0, kCurrentFile) \<and>
   ParseFileName (base_name d (LockFileName d)) = Some (0, kDBLockFile) \<and>
   ParseFileName (base_name d (InfoLogFileName d)) = Some (0, kInfoLogFile) \<and>
   ParseFileName (base_name d (OldInfoLogFileName d)) = Some (0, kInfoLogFile)"
proof -
  note number = ParseFileName_number [of _ n, simplified]
  show ?thesis
    using number [of "cstr ''.log''"] number [of "cstr ''.ldb''"] number [of "cstr ''.sst''"]
      number [of "cstr ''.dbtmp''"] ParseFileName_manifest [of n]
    by (simp add: LogFileName_def TableFileName_def SSTTableFileName_def TempFileName_def
        MakeFileName_eq DescriptorFileName_eq CurrentFileName_def LockFileName_def
        InfoLogFileName_def OldInfoLogFileName_def)
      (simp add: ParseFileName_def)
qed

text \<open>
  C39. The parser accepts nothing else: a name it accepts is one of the four fixed
  names, or \<open>MANIFEST-\<close> and decimal digits, or decimal digits and one of the four
  suffixes, and the digits denote the number it returns.
\<close>

theorem ParseFileName_only_owned:
  assumes "ParseFileName f = Some (n, t)"
  shows "(t = kCurrentFile \<and> f = cstr ''CURRENT'') \<or> (t = kDBLockFile \<and> f = cstr ''LOCK'') \<or>
    (t = kInfoLogFile \<and> (f = cstr ''LOG'' \<or> f = cstr ''LOG.old'')) \<or>
    (\<exists>ds. list_all is_digit ds \<and> ds \<noteq> [] \<and> dec_value 0 ds = unat n \<and>
      (t = kDescriptorFile \<and> f = cstr ''MANIFEST-'' @ ds \<or>
       t = kLogFile \<and> f = ds @ cstr ''.log'' \<or>
       t = kTableFile \<and> (f = ds @ cstr ''.sst'' \<or> f = ds @ cstr ''.ldb'') \<or>
       t = kTempFile \<and> f = ds @ cstr ''.dbtmp''))"
proof -
  consider (fixed) "f = cstr ''CURRENT''" | (lock) "f = cstr ''LOCK''"
    | (log) "f = cstr ''LOG'' \<or> f = cstr ''LOG.old''"
    | (manifest) r where "f = cstr ''MANIFEST-'' @ r" "t = kDescriptorFile"
        "ConsumeDecimalNumber r 0 = (True, [], n)"
    | (number) s where "ConsumeDecimalNumber f 0 = (True, s, n)"
        "t = kLogFile \<and> s = cstr ''.log'' \<or> t = kTableFile \<and> (s = cstr ''.sst'' \<or> s = cstr ''.ldb'') \<or>
         t = kTempFile \<and> s = cstr ''.dbtmp''"
    using assms
    by (auto simp: ParseFileName_def Let_def remove_prefix_def Slice_empty_def
        simp del: cstr_Cons split: if_splits prod.splits elim!: prefixE)
  then show ?thesis
  proof cases
    case manifest
    from manifest(3) obtain ds where "r = ds @ []" "list_all is_digit ds" "ds \<noteq> []"
      "dec_value 0 ds = unat n" by (rule ConsumeDecimalNumber_True)
    with manifest show ?thesis by auto
  next
    case number
    from number(1) obtain ds where "f = ds @ s" "list_all is_digit ds" "ds \<noteq> []"
      "dec_value 0 ds = unat n" by (rule ConsumeDecimalNumber_True)
    with number(2) show ?thesis by blast
  qed (use assms in \<open>auto simp: ParseFileName_def\<close>)
qed

theorem ParseFileName_only_owned_witness:
  "\<exists>ds. list_all is_digit ds \<and> dec_value 0 ds = 100 \<and> cstr ''100.log'' = ds @ cstr ''.log''"
proof -
  have "ParseFileName (cstr ''100.log'') = Some (100, kLogFile)"
    by (simp add: ParseFileName_def ConsumeDecimalNumber_def kMaxUint64_numeral)
  from ParseFileName_only_owned [OF this] show ?thesis by (auto simp del: cstr_Cons)
qed

end
