(* ===== verification/Env.thy ===== *)
theory Env
  imports Status
begin

text \<open>
  \<open>include/leveldb/env.h\<close>: the file interfaces. A class of virtual functions is a
  record of functions on the state \<open>'f\<close> of the object; its documented behaviour is a
  locale, which the in-memory environment interprets (theory \<open>Memenv\<close>) and on which the log
  writer and reader are verified (theory \<open>Log\<close>).

  A read stores what it read in \<open>*result\<close>; the last argument but one is the old value
  of \<open>*result\<close>, which an implementation may leave alone on errors.
\<close>

section \<open>Interfaces\<close>

record 'f WritableFile =
  Append :: "bytes \<Rightarrow> 'f \<Rightarrow> 'f \<times> Status"
  Close :: "'f \<Rightarrow> 'f \<times> Status"
  Flush :: "'f \<Rightarrow> 'f \<times> Status"
  Sync :: "'f \<Rightarrow> 'f \<times> Status"

record 'f SequentialFile =
  Read :: "nat \<Rightarrow> bytes \<Rightarrow> 'f \<Rightarrow> 'f \<times> bytes \<times> Status"
  Skip :: "u64 \<Rightarrow> 'f \<Rightarrow> 'f \<times> Status"

record 'f RandomAccessFile =
  ReadAt :: "u64 \<Rightarrow> nat \<Rightarrow> bytes \<Rightarrow> 'f \<Rightarrow> bytes \<times> Status"

section \<open>Contracts\<close>

text \<open>Appending to a file that does not reach \<open>2^64\<close> bytes succeeds and appends.\<close>

locale writable_file =
  fixes wf :: "'f WritableFile" and wcontents :: "'f \<Rightarrow> bytes" and wok :: "'f \<Rightarrow> bool"
  assumes append_ok: "wok f \<Longrightarrow> length (wcontents f) + length d < 2 ^ 64 \<Longrightarrow>
      \<exists>f'. Append wf d f = (f', OK) \<and> wok f' \<and> wcontents f' = wcontents f @ d"
    and flush_ok: "wok f \<Longrightarrow> \<exists>f'. Flush wf f = (f', OK) \<and> wok f' \<and> wcontents f' = wcontents f"

text \<open>
  Reading consumes up to \<open>n\<close> of the bytes that remain, fewer only at the end of the
  file; skipping stops at the end of the file.
\<close>

locale sequential_file =
  fixes sf :: "'f SequentialFile" and remaining :: "'f \<Rightarrow> bytes" and sok :: "'f \<Rightarrow> bool"
  assumes read_ok: "sok f \<Longrightarrow>
      \<exists>f'. Read sf n r f = (f', take n (remaining f), OK) \<and> sok f' \<and> remaining f' = drop n (remaining f)"
    and skip_ok: "sok f \<Longrightarrow>
      \<exists>f'. Skip sf k f = (f', OK) \<and> sok f' \<and> remaining f' = drop (unat k) (remaining f)"

locale random_access_file =
  fixes rf :: "'f RandomAccessFile" and rcontents :: "'f \<Rightarrow> bytes" and rok :: "'f \<Rightarrow> bool"
  assumes read_at_ok: "rok f \<Longrightarrow> unat off \<le> length (rcontents f) \<Longrightarrow>
      ReadAt rf off n r f = (take n (drop (unat off) (rcontents f)), OK)"

end
