(* ===== verification/Memenv.thy ===== *)
theory Memenv
  imports Env
begin

text \<open>
  \<open>helpers/memenv/memenv.cc\<close>: the in-memory environment.

  A \<open>FileState\<close> keeps its data in blocks of 8 KiB. A block is the list of the bytes
  written to it so far: the rest of the array is uninitialised, and the bytes are written in
  order. The theory shows that the block structure implements a flat byte string, which makes
  the three file classes instances of the contracts of theory \<open>Env\<close>.
\<close>

section \<open>File states\<close>

text \<open>The count \<open>int refs_\<close> has 32 bits; its comparisons are signed.\<close>

record FileState =
  fs_refs :: "32 word"
  fs_blocks :: "bytes list"
  fs_size :: u64

definition FileState_new :: FileState where
  "FileState_new = \<lparr> fs_refs = 0, fs_blocks = [], fs_size = 0 \<rparr>"

definition mem_kBlockSize :: nat where
  "mem_kBlockSize = 8 * 1024"

lemma mem_kBlockSize_pos [simp]: "0 < mem_kBlockSize"
  by (simp add: mem_kBlockSize_def)

definition FileState_Ref :: "FileState \<Rightarrow> FileState" where
  "FileState_Ref fs = fs\<lparr> fs_refs := fs_refs fs + 1 \<rparr>"

text \<open>\<open>Unref\<close> returns \<open>None\<close> when it deletes the object.\<close>

definition FileState_Unref :: "FileState \<Rightarrow> FileState option" where
  "FileState_Unref fs =
     (let refs = fs_refs fs - 1 in
      if sint refs \<le> 0 then None else Some (fs\<lparr> fs_refs := refs \<rparr>))"

definition FileState_Size :: "FileState \<Rightarrow> u64" where
  "FileState_Size fs = fs_size fs"

text \<open>\<open>memcpy(dst + off, src, len)\<close> into an array whose written prefix is \<open>blk\<close>.\<close>

definition memcpy_at :: "bytes \<Rightarrow> nat \<Rightarrow> bytes \<Rightarrow> bytes" where
  "memcpy_at blk off src = take off blk @ src @ drop (off + length src) blk"

function FileState_Read_loop :: "bytes list \<Rightarrow> nat \<Rightarrow> nat \<Rightarrow> nat \<Rightarrow> bytes \<Rightarrow> bytes" where
  "FileState_Read_loop blocks block block_offset bytes_to_copy dst =
     (if bytes_to_copy > 0 then
        (let avail = mem_kBlockSize - block_offset;
             avail = (if avail > bytes_to_copy then bytes_to_copy else avail)
         in FileState_Read_loop blocks (block + 1) 0 (bytes_to_copy - avail)
              (dst @ take avail (drop block_offset (blocks ! block))))
      else dst)"
  by pat_completeness auto
termination
  by (relation "measures [\<lambda>(bs, b, off, n, d). n, \<lambda>(bs, b, off, n, d). off]")
    (auto simp: Let_def mem_kBlockSize_def split: if_splits)

declare FileState_Read_loop.simps [simp del]

definition FileState_Read :: "FileState \<Rightarrow> u64 \<Rightarrow> nat \<Rightarrow> bytes \<Rightarrow> bytes \<times> Status" where
  "FileState_Read fs offset n result =
     (if offset > fs_size fs then (result, IOError (cstr ''Offset greater than file size.'') [])
      else
        (let available = fs_size fs - offset;
             n = (if n > unat available then unat available else n)
         in if n = 0 then ([], OK)
            else
              (let block = unat offset div mem_kBlockSize;
                   block_offset = unat offset mod mem_kBlockSize
               in if n \<le> mem_kBlockSize - block_offset
                  then (take n (drop block_offset (fs_blocks fs ! block)), OK)
                  else (FileState_Read_loop (fs_blocks fs) block block_offset n [], OK))))"

text \<open>One round of the loop of \<open>Append\<close>: the new state and the number of bytes copied.\<close>

definition FileState_Append_round :: "FileState \<Rightarrow> bytes \<Rightarrow> FileState \<times> nat" where
  "FileState_Append_round fs src =
     (let offset = unat (fs_size fs) mod mem_kBlockSize;
          (blocks, avail) =
            (if offset \<noteq> 0 then (fs_blocks fs, mem_kBlockSize - offset)
             else (fs_blocks fs @ [[]], mem_kBlockSize));
          avail = (if avail > length src then length src else avail);
          blocks = butlast blocks @ [memcpy_at (last blocks) offset (take avail src)]
      in (fs\<lparr> fs_blocks := blocks, fs_size := fs_size fs + word_of_nat avail \<rparr>, avail))"

lemma FileState_Append_round_avail:
  "(fs', avail) = FileState_Append_round fs src \<Longrightarrow> src \<noteq> [] \<Longrightarrow> 0 < avail"
  by (auto simp: FileState_Append_round_def Let_def split: if_splits)

function FileState_Append_loop :: "FileState \<Rightarrow> bytes \<Rightarrow> FileState" where
  "FileState_Append_loop fs src =
     (if length src > 0 then
        (let (fs', avail) = FileState_Append_round fs src
         in FileState_Append_loop fs' (drop avail src))
      else fs)"
  by pat_completeness auto
termination
  by (relation "measure (\<lambda>(fs, src). length src)")
    (auto dest: FileState_Append_round_avail)

declare FileState_Append_loop.simps [simp del]

definition FileState_Append :: "bytes \<Rightarrow> FileState \<Rightarrow> FileState \<times> Status" where
  "FileState_Append data fs = (FileState_Append_loop fs data, OK)"

section \<open>The file classes\<close>

record SequentialFileImpl =
  sf_file :: FileState
  sf_pos :: u64

definition SequentialFileImpl_new :: "FileState \<Rightarrow> SequentialFileImpl" where
  "SequentialFileImpl_new file = \<lparr> sf_file = FileState_Ref file, sf_pos = 0 \<rparr>"

definition SequentialFileImpl_Read ::
  "nat \<Rightarrow> bytes \<Rightarrow> SequentialFileImpl \<Rightarrow> SequentialFileImpl \<times> bytes \<times> Status" where
  "SequentialFileImpl_Read n result f =
     (let (result', s) = FileState_Read (sf_file f) (sf_pos f) n result
      in if Status_ok s
         then (f\<lparr> sf_pos := sf_pos f + word_of_nat (length result') \<rparr>, result', s)
         else (f, result', s))"

definition SequentialFileImpl_Skip :: "u64 \<Rightarrow> SequentialFileImpl \<Rightarrow> SequentialFileImpl \<times> Status" where
  "SequentialFileImpl_Skip n f =
     (if sf_pos f > FileState_Size (sf_file f)
      then (f, IOError (cstr ''pos_ > file_->Size()'') [])
      else
        (let available = FileState_Size (sf_file f) - sf_pos f;
             n = (if n > available then available else n)
         in (f\<lparr> sf_pos := sf_pos f + n \<rparr>, OK)))"

definition SequentialFileImpl_ops :: "SequentialFileImpl SequentialFile" where
  "SequentialFileImpl_ops = \<lparr> Read = SequentialFileImpl_Read, Skip = SequentialFileImpl_Skip \<rparr>"

definition RandomAccessFileImpl_ops :: "FileState RandomAccessFile" where
  "RandomAccessFileImpl_ops = \<lparr> ReadAt = (\<lambda>offset n result f. FileState_Read f offset n result) \<rparr>"

definition WritableFileImpl_ops :: "FileState WritableFile" where
  "WritableFileImpl_ops =
     \<lparr> Append = FileState_Append, Close = (\<lambda>f. (f, OK)), Flush = (\<lambda>f. (f, OK)), Sync = (\<lambda>f. (f, OK)) \<rparr>"

section \<open>Blocks as a flat string\<close>

fun blocks_ok :: "bytes list \<Rightarrow> bool" where
  "blocks_ok [] = True"
| "blocks_ok [b] = (0 < length b \<and> length b \<le> mem_kBlockSize)"
| "blocks_ok (b # c # bs) = (length b = mem_kBlockSize \<and> blocks_ok (c # bs))"

definition fs_contents :: "FileState \<Rightarrow> bytes" where
  "fs_contents fs = concat (fs_blocks fs)"

definition fs_ok :: "FileState \<Rightarrow> bool" where
  "fs_ok fs \<longleftrightarrow> blocks_ok (fs_blocks fs) \<and> length (fs_contents fs) = unat (fs_size fs)"

lemma blocks_ok_snoc:
  "blocks_ok (bs @ [b]) \<longleftrightarrow> (\<forall>c\<in>set bs. length c = mem_kBlockSize) \<and> 0 < length b \<and> length b \<le> mem_kBlockSize"
  by (induction bs rule: blocks_ok.induct) auto

lemma length_concat_full:
  "\<forall>c\<in>set bs. length c = mem_kBlockSize \<Longrightarrow> length (concat bs) = length bs * mem_kBlockSize"
  by (induction bs) auto

lemma blocks_ok_last:
  assumes "blocks_ok bs" "length (concat bs) mod mem_kBlockSize = off" "off \<noteq> 0"
  obtains ds d where "bs = ds @ [d]" "length d = off" "\<forall>c\<in>set ds. length c = mem_kBlockSize"
proof -
  have "bs \<noteq> []" using assms(2,3) by auto
  then obtain ds d where bs: "bs = ds @ [d]" by (metis append_butlast_last_id)
  with assms(1) have d: "\<forall>c\<in>set ds. length c = mem_kBlockSize" "length d \<le> mem_kBlockSize"
    by (simp_all add: blocks_ok_snoc)
  then have "length (concat bs) mod mem_kBlockSize = length d mod mem_kBlockSize"
    by (simp add: bs length_concat_full)
  with assms(2,3) d(2) have "length d = off" by (cases "length d = mem_kBlockSize") auto
  with bs d that show thesis by blast
qed

lemma blocks_ok_full:
  assumes "blocks_ok bs" "length (concat bs) mod mem_kBlockSize = 0"
  shows "\<forall>c\<in>set bs. length c = mem_kBlockSize"
proof (cases bs rule: rev_cases)
  case (snoc ds d)
  with assms(1) have d: "\<forall>c\<in>set ds. length c = mem_kBlockSize" "0 < length d" "length d \<le> mem_kBlockSize"
    by (simp_all add: blocks_ok_snoc)
  then have "length (concat bs) mod mem_kBlockSize = length d mod mem_kBlockSize"
    by (simp add: snoc length_concat_full)
  with assms(2) d have "length d = mem_kBlockSize" by (cases "length d = mem_kBlockSize") auto
  with d snoc show ?thesis by auto
qed simp

lemma drop_concat:
  "blocks_ok bs \<Longrightarrow> i < length bs \<Longrightarrow> drop (i * mem_kBlockSize) (concat bs) = concat (drop i bs)"
proof (induction bs arbitrary: i rule: blocks_ok.induct)
  case (3 b c bs)
  then show ?case by (cases i) auto
qed auto

lemma length_concat_le: "blocks_ok bs \<Longrightarrow> length (concat bs) \<le> length bs * mem_kBlockSize"
  by (induction bs rule: blocks_ok.induct) auto

lemma blocks_ok_nth: "blocks_ok bs \<Longrightarrow> i < length bs \<Longrightarrow> length (bs ! i) \<le> mem_kBlockSize"
  by (induction bs arbitrary: i rule: blocks_ok.induct) (auto simp: nth_Cons split: nat.splits)

lemma blocks_ok_nth_full: "blocks_ok bs \<Longrightarrow> Suc i < length bs \<Longrightarrow> length (bs ! i) = mem_kBlockSize"
  by (induction bs arbitrary: i rule: blocks_ok.induct) (auto simp: nth_Cons split: nat.splits)

text \<open>The bytes of one block are the bytes of the flat string at its position.\<close>

lemma block_bytes:
  assumes "blocks_ok bs" "off < mem_kBlockSize" "n \<le> mem_kBlockSize - off" "0 < n"
    and "i * mem_kBlockSize + off + n \<le> length (concat bs)"
  shows "take n (drop off (bs ! i)) = take n (drop (i * mem_kBlockSize + off) (concat bs))"
proof -
  have "i * mem_kBlockSize < length bs * mem_kBlockSize"
    using assms length_concat_le [of bs] by linarith
  then have i: "i < length bs" by simp
  then have d: "drop (i * mem_kBlockSize + off) (concat bs) = drop off (bs ! i @ concat (drop (Suc i) bs))"
    using drop_concat [OF assms(1) i]
    by (simp add: add.commute [of _ off] drop_drop [symmetric] Cons_nth_drop_Suc [symmetric])
  have "off + n \<le> length (bs ! i)"
  proof (cases "Suc i < length bs")
    case True
    then show ?thesis using blocks_ok_nth_full [OF assms(1)] assms(2,3) by simp
  next
    case False
    with i have "drop i bs = [bs ! i]" by (simp add: Cons_nth_drop_Suc [symmetric])
    with arg_cong [OF drop_concat [OF assms(1) i], of length] assms(5) show ?thesis by simp
  qed
  then show ?thesis by (simp add: d)
qed

lemma FileState_Read_loop_ok:
  assumes "blocks_ok bs" "off < mem_kBlockSize"
    and "i * mem_kBlockSize + off + n \<le> length (concat bs)"
  shows "FileState_Read_loop bs i off n dst = dst @ take n (drop (i * mem_kBlockSize + off) (concat bs))"
  using assms
proof (induction bs i off n dst rule: FileState_Read_loop.induct)
  case (1 bs i off n dst)
  show ?case
  proof (cases "n \<le> mem_kBlockSize - off")
    case True
    with 1(2-4) show ?thesis
      using block_bytes [of bs off n i]
      by (subst FileState_Read_loop.simps) (auto simp: Let_def FileState_Read_loop.simps [where bytes_to_copy = 0])
  next
    case False
    define a where "a = mem_kBlockSize - off"
    have a: "0 < a" "a < n" "Suc i * mem_kBlockSize = i * mem_kBlockSize + off + a"
      using False 1(3) by (auto simp: a_def)
    have "FileState_Read_loop bs i off n dst =
        FileState_Read_loop bs (i + 1) 0 (n - a) (dst @ take a (drop off (bs ! i)))"
      using a by (subst FileState_Read_loop.simps) (simp add: a_def [symmetric])
    also have "\<dots> = (dst @ take a (drop off (bs ! i))) @ take (n - a) (drop (Suc i * mem_kBlockSize) (concat bs))"
      using 1(1) [OF _ refl refl] 1(2,4) a by (simp add: a_def [symmetric])
    also have "take a (drop off (bs ! i)) = take a (drop (i * mem_kBlockSize + off) (concat bs))"
      using 1(2-4) a by (intro block_bytes) (simp_all add: a_def)
    also have "Suc i * mem_kBlockSize = a + (i * mem_kBlockSize + off)"
      using a(3) by simp
    finally show ?thesis
      using take_add [of a "n - a" "drop (i * mem_kBlockSize + off) (concat bs)"] a(2) by simp
  qed
qed

lemma FileState_Read_ok:
  assumes "fs_ok fs" "unat off \<le> length (fs_contents fs)"
  shows "FileState_Read fs off n r = (take n (drop (unat off) (fs_contents fs)), OK)"
proof -
  define m where "m = min n (length (fs_contents fs) - unat off)"
  from assms have off: "\<not> fs_size fs < off" "unat (fs_size fs - off) = length (fs_contents fs) - unat off"
    by (simp_all add: fs_ok_def word_less_nat_alt unat_sub word_le_nat_alt)
  have m: "m = (if n > unat (fs_size fs - off) then unat (fs_size fs - off) else n)"
    by (simp add: m_def off)
  have t: "take n (drop (unat off) (fs_contents fs)) = take m (drop (unat off) (fs_contents fs))"
    by (auto simp: m_def min_def)
  have pos: "unat off div mem_kBlockSize * mem_kBlockSize + unat off mod mem_kBlockSize = unat off"
    by simp
  have le: "unat off + m \<le> length (concat (fs_blocks fs))"
    using assms(2) by (simp add: m_def fs_contents_def)
  show ?thesis
    using assms(1) off(1) le
      block_bytes [of "fs_blocks fs" "unat off mod mem_kBlockSize" m "unat off div mem_kBlockSize"]
      FileState_Read_loop_ok [of "fs_blocks fs" "unat off mod mem_kBlockSize" "unat off div mem_kBlockSize" m "[]"]
    unfolding FileState_Read_def t by (auto simp: m [symmetric] Let_def pos fs_ok_def fs_contents_def)
qed

lemma memcpy_at_end: "length blk = off \<Longrightarrow> memcpy_at blk off src = blk @ src"
  by (simp add: memcpy_at_def)

lemma FileState_Append_round_ok:
  assumes "fs_ok fs" "length (fs_contents fs) + length src < 2 ^ 64" "src \<noteq> []"
    and r: "FileState_Append_round fs src = (fs', avail)"
  shows "fs_ok fs'" "fs_contents fs' = fs_contents fs @ take avail src" "fs_refs fs' = fs_refs fs"
    "avail \<le> length src"
proof -
  define off where "off = unat (fs_size fs) mod mem_kBlockSize"
  define bs where "bs = (if off \<noteq> 0 then fs_blocks fs else fs_blocks fs @ [[]])"
  have avail: "avail = min (mem_kBlockSize - off) (length src)"
    and fs': "fs' = fs\<lparr> fs_blocks := butlast bs @ [memcpy_at (last bs) off (take avail src)],
        fs_size := fs_size fs + word_of_nat avail \<rparr>"
    using r by (auto simp: FileState_Append_round_def Let_def off_def [symmetric] bs_def min_def
        split: if_splits)
  then show refs: "fs_refs fs' = fs_refs fs" and le: "avail \<le> length src" by simp_all
  have len: "length (concat (fs_blocks fs)) mod mem_kBlockSize = off"
    using assms(1) by (simp add: off_def fs_ok_def fs_contents_def)
  have ok: "blocks_ok (fs_blocks fs)" using assms(1) by (simp add: fs_ok_def)
  have "off < mem_kBlockSize" by (simp add: off_def)
  then have pos: "0 < avail" "off + avail \<le> mem_kBlockSize"
    using assms(3) by (auto simp: avail)
  obtain ds d where bs: "bs = ds @ [d]" "length d = off"
    "\<forall>c\<in>set ds. length c = mem_kBlockSize" "concat bs = concat (fs_blocks fs)"
  proof (cases "off = 0")
    case True
    have "\<forall>c\<in>set (fs_blocks fs). length c = mem_kBlockSize"
      by (rule blocks_ok_full [OF ok]) (simp only: len True)
    with True show thesis using that [of "fs_blocks fs" "[]"] by (simp add: bs_def)
  next
    case False
    then obtain ds d where "fs_blocks fs = ds @ [d]" "length d = off"
      "\<forall>c\<in>set ds. length c = mem_kBlockSize" by (rule blocks_ok_last [OF ok len])
    then show thesis using that [of ds d] False by (simp add: bs_def)
  qed
  have blk: "fs_blocks fs' = ds @ [d @ take avail src]"
    using bs by (simp add: fs' memcpy_at_end)
  then show c: "fs_contents fs' = fs_contents fs @ take avail src"
    using bs by (simp add: fs_contents_def)
  have "unat (fs_size fs') = unat (fs_size fs) + avail"
    using assms(1,2) le by (simp add: fs' unat_word_ariths fs_ok_def)
  then show "fs_ok fs'"
    using assms(1) bs pos blk c le by (simp add: fs_ok_def blocks_ok_snoc min_def)
qed

lemma FileState_Append_loop_ok:
  assumes "fs_ok fs" "length (fs_contents fs) + length src < 2 ^ 64"
  shows "fs_ok (FileState_Append_loop fs src) \<and>
    fs_contents (FileState_Append_loop fs src) = fs_contents fs @ src \<and>
    fs_refs (FileState_Append_loop fs src) = fs_refs fs"
  using assms
proof (induction fs src rule: FileState_Append_loop.induct)
  case (1 fs src)
  show ?case
  proof (cases "src = []")
    case True
    then show ?thesis using 1(2) by (simp add: FileState_Append_loop.simps [of fs "[]"])
  next
    case False
    obtain fs' avail where r: "FileState_Append_round fs src = (fs', avail)" by fastforce
    note s = FileState_Append_round_ok [OF 1(2,3) False r]
    have "length (fs_contents fs') + length (drop avail src) < 2 ^ 64"
      using 1(3) s by simp
    with 1(1) [OF _ r [symmetric] refl] False s show ?thesis
      by (simp add: FileState_Append_loop.simps [of fs src] r)
  qed
qed

section \<open>The contracts hold\<close>

definition sf_remaining :: "SequentialFileImpl \<Rightarrow> bytes" where
  "sf_remaining f = drop (unat (sf_pos f)) (fs_contents (sf_file f))"

definition sf_ok :: "SequentialFileImpl \<Rightarrow> bool" where
  "sf_ok f \<longleftrightarrow> fs_ok (sf_file f) \<and> unat (sf_pos f) \<le> length (fs_contents (sf_file f))"

lemma fs_size_bound: "fs_ok fs \<Longrightarrow> length (fs_contents fs) < 2 ^ 64"
  using unat_u64_less [of "fs_size fs"] by (simp add: fs_ok_def)

interpretation mem_writable: writable_file WritableFileImpl_ops fs_contents fs_ok
  by unfold_locales
    (use FileState_Append_loop_ok in \<open>simp_all add: WritableFileImpl_ops_def FileState_Append_def\<close>)

interpretation mem_random: random_access_file RandomAccessFileImpl_ops fs_contents fs_ok
  by unfold_locales (simp add: RandomAccessFileImpl_ops_def FileState_Read_ok)

lemma sf_advance:
  assumes "sf_ok f" "k \<le> length (sf_remaining f)"
  shows "sf_ok (f\<lparr> sf_pos := sf_pos f + word_of_nat k \<rparr>)"
    "sf_remaining (f\<lparr> sf_pos := sf_pos f + word_of_nat k \<rparr>) = drop k (sf_remaining f)"
proof -
  have "unat (sf_pos f) + k < 2 ^ 64"
    using assms fs_size_bound [of "sf_file f"] unfolding sf_ok_def sf_remaining_def length_drop
    by linarith
  then have "unat (sf_pos f + word_of_nat k) = unat (sf_pos f) + k"
    by (simp add: unat_word_ariths)
  then show "sf_ok (f\<lparr> sf_pos := sf_pos f + word_of_nat k \<rparr>)"
    "sf_remaining (f\<lparr> sf_pos := sf_pos f + word_of_nat k \<rparr>) = drop k (sf_remaining f)"
    using assms by (auto simp: sf_ok_def sf_remaining_def add.commute le_diff_conv2)
qed

interpretation mem_sequential: sequential_file SequentialFileImpl_ops sf_remaining sf_ok
proof unfold_locales
  fix f n r
  assume f: "sf_ok f"
  have "SequentialFileImpl_Read n r f =
      (f\<lparr> sf_pos := sf_pos f + word_of_nat (length (take n (sf_remaining f))) \<rparr>, take n (sf_remaining f), OK)"
    using f by (simp add: SequentialFileImpl_Read_def FileState_Read_ok sf_ok_def sf_remaining_def)
  then show "\<exists>f'. Read SequentialFileImpl_ops n r f = (f', take n (sf_remaining f), OK) \<and>
      sf_ok f' \<and> sf_remaining f' = drop n (sf_remaining f)"
    using sf_advance [OF f, of "length (take n (sf_remaining f))"]
    by (auto simp: SequentialFileImpl_ops_def min_def)
next
  fix f and k :: u64
  assume f: "sf_ok f"
  define m where "m = min (unat k) (length (sf_remaining f))"
  have "\<not> FileState_Size (sf_file f) < sf_pos f"
    "unat (FileState_Size (sf_file f) - sf_pos f) = length (sf_remaining f)"
    using f by (auto simp: sf_ok_def fs_ok_def FileState_Size_def sf_remaining_def
        word_less_nat_alt word_le_nat_alt unat_sub)
  moreover from this have "unat (if k > FileState_Size (sf_file f) - sf_pos f
      then FileState_Size (sf_file f) - sf_pos f else k) = m"
    by (auto simp: m_def word_less_nat_alt min_def)
  from arg_cong [OF this, of "word_of_nat :: nat \<Rightarrow> u64"] have "(if k > FileState_Size (sf_file f) - sf_pos f
      then FileState_Size (sf_file f) - sf_pos f else k) = word_of_nat m" by simp
  ultimately have "SequentialFileImpl_Skip k f = (f\<lparr> sf_pos := sf_pos f + word_of_nat m \<rparr>, OK)"
    by (simp add: SequentialFileImpl_Skip_def Let_def)
  then show "\<exists>f'. Skip SequentialFileImpl_ops k f = (f', OK) \<and> sf_ok f' \<and>
      sf_remaining f' = drop (unat k) (sf_remaining f)"
    using sf_advance [OF f, of m] by (auto simp: SequentialFileImpl_ops_def m_def min_def)
qed

end
