(* ===== verification/InMemoryEnv.thy ===== *)
theory InMemoryEnv
  imports Memenv Filename
begin

text \<open>
  The class \<open>InMemoryEnv\<close> of \<open>helpers/memenv/memenv.cc\<close>, and the helpers of
  \<open>util/env.cc\<close> and \<open>SetCurrentFile\<close> of \<open>db/filename.cc\<close> on top of it.

  File states are heap objects with reference counts: the file map holds one
  reference, every open file object another. The heap maps addresses to live objects; address 0
  is \<open>NULL\<close>. \<open>std::map\<close> keeps its keys in order: it is an association list sorted by key.
\<close>

section \<open>std::map\<close>

type_synonym FileSystem = "(bytes \<times> nat) list"

definition fm_find :: "FileSystem \<Rightarrow> bytes \<Rightarrow> nat option" where
  "fm_find m k = map_of m k"

fun fm_set :: "bytes \<Rightarrow> nat \<Rightarrow> FileSystem \<Rightarrow> FileSystem" where
  "fm_set k v [] = [(k, v)]"
| "fm_set k v ((k', v') # m) =
     (if k = k' then (k, v) # m
      else if lex_less k k' then (k, v) # (k', v') # m else (k', v') # fm_set k v m)"

definition fm_erase :: "bytes \<Rightarrow> FileSystem \<Rightarrow> FileSystem" where
  "fm_erase k m = filter (\<lambda>e. fst e \<noteq> k) m"

text \<open>\<open>operator[]\<close> of a key that is absent yields a null pointer.\<close>

definition fm_index :: "FileSystem \<Rightarrow> bytes \<Rightarrow> nat" where
  "fm_index m k = (case fm_find m k of Some p \<Rightarrow> p | None \<Rightarrow> 0)"

section \<open>The environment\<close>

record InMemoryEnv =
  me_heap :: "nat \<Rightarrow> FileState option"
  me_next :: nat
  me_map :: FileSystem

definition NewMemEnv :: InMemoryEnv where
  "NewMemEnv = \<lparr> me_heap = (\<lambda>_. None), me_next = 1, me_map = [] \<rparr>"

definition heap_Ref :: "nat \<Rightarrow> InMemoryEnv \<Rightarrow> InMemoryEnv" where
  "heap_Ref p e = e\<lparr> me_heap := (me_heap e)(p := map_option FileState_Ref (me_heap e p)) \<rparr>"

definition heap_Unref :: "nat \<Rightarrow> InMemoryEnv \<Rightarrow> InMemoryEnv" where
  "heap_Unref p e =
     e\<lparr> me_heap := (me_heap e)(p := Option.bind (me_heap e p) FileState_Unref) \<rparr>"

definition heap_new :: "InMemoryEnv \<Rightarrow> InMemoryEnv \<times> nat" where
  "heap_new e =
     (e\<lparr> me_heap := (me_heap e)(me_next e \<mapsto> FileState_new), me_next := me_next e + 1 \<rparr>, me_next e)"

definition not_found :: "bytes \<Rightarrow> Status" where
  "not_found fname = IOError fname (cstr ''File not found'')"

text \<open>The file objects: a pointer to the file state, and a position for sequential files.\<close>

definition NewSequentialFile ::
  "bytes \<Rightarrow> InMemoryEnv \<Rightarrow> InMemoryEnv \<times> (nat \<times> u64) option \<times> Status" where
  "NewSequentialFile fname e =
     (case fm_find (me_map e) fname of
        None \<Rightarrow> (e, None, not_found fname)
      | Some p \<Rightarrow> (heap_Ref p e, Some (p, 0), OK))"

definition NewRandomAccessFile :: "bytes \<Rightarrow> InMemoryEnv \<Rightarrow> InMemoryEnv \<times> nat option \<times> Status" where
  "NewRandomAccessFile fname e =
     (case fm_find (me_map e) fname of
        None \<Rightarrow> (e, None, not_found fname)
      | Some p \<Rightarrow> (heap_Ref p e, Some p, OK))"

definition DeleteFileInternal :: "bytes \<Rightarrow> InMemoryEnv \<Rightarrow> InMemoryEnv" where
  "DeleteFileInternal fname e =
     (case fm_find (me_map e) fname of
        None \<Rightarrow> e
      | Some p \<Rightarrow> (heap_Unref p e)\<lparr> me_map := fm_erase fname (me_map e) \<rparr>)"

definition NewWritableFile :: "bytes \<Rightarrow> InMemoryEnv \<Rightarrow> InMemoryEnv \<times> nat option \<times> Status" where
  "NewWritableFile fname e =
     (let e1 = (if fm_find (me_map e) fname \<noteq> None then DeleteFileInternal fname e else e);
          (e2, p) = heap_new e1;
          e3 = heap_Ref p e2;
          e4 = e3\<lparr> me_map := fm_set fname p (me_map e3) \<rparr>
      in (heap_Ref p e4, Some p, OK))"

definition FileExists :: "bytes \<Rightarrow> InMemoryEnv \<Rightarrow> bool" where
  "FileExists fname e = (fm_find (me_map e) fname \<noteq> None)"

definition GetChildren :: "bytes \<Rightarrow> InMemoryEnv \<Rightarrow> bytes list" where
  "GetChildren dir e =
     map (\<lambda>(filename, _). drop (length dir + 1) filename)
       (filter (\<lambda>(filename, _). length filename \<ge> length dir + 1 \<and> filename ! length dir = 47 \<and>
          starts_with filename dir) (me_map e))"

definition DeleteFile :: "bytes \<Rightarrow> InMemoryEnv \<Rightarrow> InMemoryEnv \<times> Status" where
  "DeleteFile fname e =
     (if fm_find (me_map e) fname = None then (e, not_found fname)
      else (DeleteFileInternal fname e, OK))"

definition GetFileSize :: "bytes \<Rightarrow> InMemoryEnv \<Rightarrow> u64 option \<times> Status" where
  "GetFileSize fname e =
     (case fm_find (me_map e) fname of
        None \<Rightarrow> (None, not_found fname)
      | Some p \<Rightarrow> (map_option FileState_Size (me_heap e p), OK))"

definition RenameFile :: "bytes \<Rightarrow> bytes \<Rightarrow> InMemoryEnv \<Rightarrow> InMemoryEnv \<times> Status" where
  "RenameFile src target e =
     (if fm_find (me_map e) src = None then (e, not_found src)
      else
        (let e1 = DeleteFileInternal target e;
             m = fm_set target (fm_index (me_map e1) src) (me_map e1)
         in (e1\<lparr> me_map := fm_erase src m \<rparr>, OK)))"

text \<open>Operations on open file objects, and their destructors.\<close>

definition file_Append :: "nat \<Rightarrow> bytes \<Rightarrow> InMemoryEnv \<Rightarrow> InMemoryEnv \<times> Status" where
  "file_Append p data e =
     (case me_heap e p of
        None \<Rightarrow> (e, OK)
      | Some fs \<Rightarrow>
          (let (fs', s) = FileState_Append data fs
           in (e\<lparr> me_heap := (me_heap e)(p \<mapsto> fs') \<rparr>, s)))"

definition file_Sync :: "nat \<Rightarrow> InMemoryEnv \<Rightarrow> InMemoryEnv \<times> Status" where
  "file_Sync p e = (e, OK)"

definition file_Close :: "nat \<Rightarrow> InMemoryEnv \<Rightarrow> InMemoryEnv \<times> Status" where
  "file_Close p e = (e, OK)"

definition file_Read ::
  "nat \<times> u64 \<Rightarrow> nat \<Rightarrow> bytes \<Rightarrow> InMemoryEnv \<Rightarrow> (nat \<times> u64) \<times> bytes \<times> Status" where
  "file_Read h n result e =
     (case me_heap e (fst h) of
        None \<Rightarrow> (h, result, OK)
      | Some fs \<Rightarrow>
          (let (f', result', s) = SequentialFileImpl_Read n result \<lparr> sf_file = fs, sf_pos = snd h \<rparr>
           in ((fst h, sf_pos f'), result', s)))"

definition file_delete :: "nat \<Rightarrow> InMemoryEnv \<Rightarrow> InMemoryEnv" where
  "file_delete p e = heap_Unref p e"

text \<open>The destructor of the environment gives up the reference of each name.\<close>

definition InMemoryEnv_destroy :: "InMemoryEnv \<Rightarrow> InMemoryEnv" where
  "InMemoryEnv_destroy e = (fold (\<lambda>(_, p). heap_Unref p) (me_map e) e)\<lparr> me_map := [] \<rparr>"

section \<open>util/env.cc and SetCurrentFile\<close>

definition DoWriteStringToFile ::
  "bytes \<Rightarrow> bytes \<Rightarrow> bool \<Rightarrow> InMemoryEnv \<Rightarrow> InMemoryEnv \<times> Status" where
  "DoWriteStringToFile data fname should_sync e =
     (case NewWritableFile fname e of
        (e1, None, s) \<Rightarrow> (e1, s)
      | (e1, Some file, s) \<Rightarrow>
          if \<not> Status_ok s then (e1, s)
          else
            (let (e2, s2) = file_Append file data e1;
                 (e3, s3) = (if Status_ok s2 \<and> should_sync then file_Sync file e2 else (e2, s2));
                 (e4, s4) = (if Status_ok s3 then file_Close file e3 else (e3, s3));
                 e5 = file_delete file e4
             in if \<not> Status_ok s4 then (fst (DeleteFile fname e5), s4) else (e5, s4)))"

definition WriteStringToFile :: "bytes \<Rightarrow> bytes \<Rightarrow> InMemoryEnv \<Rightarrow> InMemoryEnv \<times> Status" where
  "WriteStringToFile data fname e = DoWriteStringToFile data fname False e"

definition WriteStringToFileSync :: "bytes \<Rightarrow> bytes \<Rightarrow> InMemoryEnv \<Rightarrow> InMemoryEnv \<times> Status" where
  "WriteStringToFileSync data fname e = DoWriteStringToFile data fname True e"

partial_function (option) ReadFileToString_loop ::
  "nat \<times> u64 \<Rightarrow> bytes \<Rightarrow> InMemoryEnv \<Rightarrow> (bytes \<times> Status) option" where
  "ReadFileToString_loop h data e =
     (let (h', fragment, s) = file_Read h 8192 [] e
      in if \<not> Status_ok s then Some (data, s)
         else if Slice_empty fragment then Some (data @ fragment, s)
         else ReadFileToString_loop h' (data @ fragment) e)"

definition ReadFileToString ::
  "bytes \<Rightarrow> InMemoryEnv \<Rightarrow> (InMemoryEnv \<times> bytes \<times> Status) option" where
  "ReadFileToString fname e =
     (case NewSequentialFile fname e of
        (e1, None, s) \<Rightarrow> Some (e1, [], s)
      | (e1, Some h, s) \<Rightarrow>
          (case ReadFileToString_loop h [] e1 of
             None \<Rightarrow> None
           | Some (data, s) \<Rightarrow> Some (file_delete (fst h) e1, data, s)))"

definition SetCurrentFile :: "bytes \<Rightarrow> u64 \<Rightarrow> InMemoryEnv \<Rightarrow> InMemoryEnv \<times> Status" where
  "SetCurrentFile dbname descriptor_number e =
     (let manifest = DescriptorFileName dbname descriptor_number;
          contents = remove_prefix manifest (length dbname + 1);
          tmp = TempFileName dbname descriptor_number;
          (e1, s1) = WriteStringToFileSync (contents @ [10]) tmp e;
          (e2, s2) = (if Status_ok s1 then RenameFile tmp (CurrentFileName dbname) e1 else (e1, s1))
      in if \<not> Status_ok s2 then (fst (DeleteFile tmp e2), s2) else (e2, s2))"

section \<open>The file map\<close>

definition fm_ok :: "FileSystem \<Rightarrow> bool" where
  "fm_ok m \<longleftrightarrow> sorted_wrt (\<lambda>a b. lex_less (fst a) (fst b)) m"

lemma lex_less_irrefl [simp]: "\<not> lex_less k k"
  by (induction k) auto

lemma lex_less_total: "lex_less a b \<or> a = b \<or> lex_less b a"
  by (induction a b rule: lex_less.induct) auto

lemma fm_set_fst: "e \<in> set (fm_set k v m) \<Longrightarrow> fst e = k \<or> e \<in> set m"
  by (induction k v m rule: fm_set.induct) (auto split: if_splits)

lemma fm_ok_set: "fm_ok m \<Longrightarrow> fm_ok (fm_set k v m)"
  unfolding fm_ok_def
proof (induction k v m rule: fm_set.induct)
  case (2 k v k' v' m)
  then show ?case
    using lex_less_total [of k k'] by (auto dest: fm_set_fst lex_less_trans)
qed simp

lemma fm_ok_erase: "fm_ok m \<Longrightarrow> fm_ok (fm_erase k m)"
  by (simp add: fm_ok_def fm_erase_def sorted_wrt_filter)

lemma fm_find_set [simp]: "fm_find (fm_set k v m) = (fm_find m)(k \<mapsto> v)" if "fm_ok m"
  using that unfolding fm_find_def fm_ok_def
proof (induction k v m rule: fm_set.induct)
  case (2 k v k' v' m)
  then have "map_of m k = None" if "lex_less k k'"
    using that by (auto simp: map_of_eq_None_iff dest: lex_less_trans)
  with 2 show ?case by auto
qed auto

lemma fm_find_erase [simp]: "fm_find (fm_erase k m) = (fm_find m)(k := None)"
  by (induction m) (auto simp: fm_find_def fm_erase_def)

section \<open>Reference counts\<close>

definition named :: "InMemoryEnv \<Rightarrow> nat \<Rightarrow> bool" where
  "named e p \<longleftrightarrow> (\<exists>k. fm_find (me_map e) k = Some p)"

text \<open>
  The invariant, for the file objects \<open>hs\<close> that are open: a file state is live exactly as
  long as a name or an open file object refers to it, and its count is the number of both.
\<close>

definition state_ok :: "InMemoryEnv \<Rightarrow> nat list \<Rightarrow> nat \<Rightarrow> bool" where
  "state_ok e hs p \<longleftrightarrow>
     (case me_heap e p of
        None \<Rightarrow> \<not> named e p \<and> p \<notin> set hs
      | Some fs \<Rightarrow> fs_ok fs \<and> 0 < p \<and> p < me_next e \<and> 0 < sint (fs_refs fs) \<and>
          sint (fs_refs fs) = (if named e p then 1 else 0) + int (count_list hs p))"

definition env_ok :: "InMemoryEnv \<Rightarrow> nat list \<Rightarrow> bool" where
  "env_ok e hs \<longleftrightarrow> fm_ok (me_map e) \<and> 0 < me_next e \<and>
     (\<forall>k k' p. fm_find (me_map e) k = Some p \<longrightarrow> fm_find (me_map e) k' = Some p \<longrightarrow> k = k') \<and>
     (\<forall>p. state_ok e hs p)"

text \<open>The contents of the named files, and of the file state behind a file object.\<close>

definition object_bytes :: "InMemoryEnv \<Rightarrow> nat \<Rightarrow> bytes option" where
  "object_bytes e p = map_option fs_contents (me_heap e p)"

definition file_bytes :: "InMemoryEnv \<Rightarrow> bytes \<Rightarrow> bytes option" where
  "file_bytes e fname = Option.bind (fm_find (me_map e) fname) (object_bytes e)"

lemma env_okD:
  assumes "env_ok e hs"
  shows "fm_ok (me_map e)" "0 < me_next e"
    and "fm_find (me_map e) k = Some p \<Longrightarrow> fm_find (me_map e) k' = Some p \<Longrightarrow> k = k'"
    and "state_ok e hs p"
  using assms unfolding env_ok_def by blast+

lemma named_live:
  assumes "env_ok e hs" "fm_find (me_map e) k = Some p"
  obtains fs where "me_heap e p = Some fs" "fs_ok fs" "0 < sint (fs_refs fs)"
    "sint (fs_refs fs) = 1 + int (count_list hs p)" "p < me_next e" "0 < p"
proof -
  have "named e p" using assms(2) by (auto simp: named_def)
  with env_okD(4) [OF assms(1), of p] that show thesis
    by (auto simp: state_ok_def split: option.splits)
qed

lemma handle_live:
  assumes "env_ok e hs" "p \<in> set hs"
  obtains fs where "me_heap e p = Some fs" "fs_ok fs" "p < me_next e" "0 < p"
  using env_okD(4) [OF assms(1), of p] assms(2) that
  by (auto simp: state_ok_def split: option.splits)

lemma file_bytes_Some:
  assumes "env_ok e hs" "fm_find (me_map e) k = Some p"
  shows "file_bytes e k = object_bytes e p" "object_bytes e p \<noteq> None"
  using named_live [OF assms] assms(2) by (auto simp: file_bytes_def object_bytes_def)

lemma FileState_Ref_simps [simp]:
  "fs_ok (FileState_Ref fs) = fs_ok fs" "fs_contents (FileState_Ref fs) = fs_contents fs"
  "fs_refs (FileState_Ref fs) = fs_refs fs + 1"
  by (simp_all add: FileState_Ref_def fs_ok_def fs_contents_def)

lemma sint_succ: "sint r < 2 ^ 31 - 1 \<Longrightarrow> sint (r + 1) = sint r + 1" for r :: "32 word"
  using sint_ge [of r] by (simp add: sint_word_ariths signed_take_bit_int_eq_self)

lemma sint_pred: "0 < sint r \<Longrightarrow> sint (r - 1) = sint r - 1" for r :: "32 word"
  using sint_lt [of r] by (simp add: sint_word_ariths signed_take_bit_int_eq_self)

lemma heap_Ref_ok:
  assumes "env_ok e hs" "me_heap e p \<noteq> None" "count_list hs p < 2 ^ 31 - 2"
  shows "env_ok (heap_Ref p e) (p # hs)" "object_bytes (heap_Ref p e) = object_bytes e"
    "me_map (heap_Ref p e) = me_map e"
proof -
  have "state_ok (heap_Ref p e) (p # hs) q" for q
    using env_okD(4) [OF assms(1), of q] assms(2,3)
    by (auto simp: state_ok_def heap_Ref_def named_def sint_succ split: option.splits if_splits)
  then show "env_ok (heap_Ref p e) (p # hs)"
    using assms(1) by (simp add: env_ok_def heap_Ref_def)
  show "object_bytes (heap_Ref p e) = object_bytes e" "me_map (heap_Ref p e) = me_map e"
    by (auto simp: object_bytes_def heap_Ref_def option.map_comp comp_def)
qed

lemma count_list_remove1: "count_list (remove1 p hs) q = count_list hs q - (if q = p then 1 else 0)"
  by (induction hs) auto

lemma in_set_count: "p \<in> set hs \<longleftrightarrow> 0 < count_list hs p"
  by (metis count_list_0_iff gr0I less_numeral_extra(3))

lemma heap_Unref_simps [simp]:
  "me_map (heap_Unref p e) = me_map e" "me_next (heap_Unref p e) = me_next e"
  "q \<noteq> p \<Longrightarrow> me_heap (heap_Unref p e) q = me_heap e q"
  by (simp_all add: heap_Unref_def)

lemma FileState_Unref_simps:
  "0 < sint (fs_refs fs) \<Longrightarrow>
   FileState_Unref fs = (if sint (fs_refs fs) \<le> 1 then None else Some (fs\<lparr> fs_refs := fs_refs fs - 1 \<rparr>))"
  by (simp add: FileState_Unref_def Let_def sint_pred)

lemma fs_refs_update [simp]:
  "fs_ok (fs\<lparr> fs_refs := r \<rparr>) = fs_ok fs" "fs_contents (fs\<lparr> fs_refs := r \<rparr>) = fs_contents fs"
  by (simp_all add: fs_ok_def fs_contents_def)

lemma named_heap_update [simp]: "named (e\<lparr> me_heap := h \<rparr>) = named e"
  by (simp add: named_def fun_eq_iff)

text \<open>Closing a file object.\<close>

lemma file_delete_ok:
  assumes "env_ok e hs" "p \<in> set hs"
  shows "env_ok (file_delete p e) (remove1 p hs)"
    and "named e q \<or> q \<in> set (remove1 p hs) \<Longrightarrow> object_bytes (file_delete p e) q = object_bytes e q"
    and "me_map (file_delete p e) = me_map e"
proof -
  have named: "named (heap_Unref p e) q = named e q" for q by (simp add: named_def)
  have st: "state_ok (heap_Unref p e) (remove1 p hs) q" for q
    using env_okD(4) [OF assms(1), of q] assms(2)
    by (cases "q = p")
      (auto simp: state_ok_def named count_list_remove1 in_set_count heap_Unref_def
        FileState_Unref_simps sint_pred split: option.splits)
  then show "env_ok (file_delete p e) (remove1 p hs)"
    using assms(1) by (simp add: env_ok_def file_delete_def)
  show "object_bytes (file_delete p e) q = object_bytes e q" if "named e q \<or> q \<in> set (remove1 p hs)"
    using that st [of q] named [of q] env_okD(4) [OF assms(1), of q]
    by (cases "q = p") (auto simp: state_ok_def object_bytes_def file_delete_def heap_Unref_def
        FileState_Unref_simps split: option.splits if_splits)
  show "me_map (file_delete p e) = me_map e" by (simp add: file_delete_def)
qed

text \<open>Removing a name: open file objects keep the file state alive.\<close>

lemma DeleteFileInternal_ok:
  assumes "env_ok e hs"
  shows "env_ok (DeleteFileInternal f e) hs"
    and "fm_find (me_map (DeleteFileInternal f e)) = (fm_find (me_map e))(f := None)"
    and "(\<exists>k. k \<noteq> f \<and> fm_find (me_map e) k = Some q) \<or> q \<in> set hs \<Longrightarrow>
      object_bytes (DeleteFileInternal f e) q = object_bytes e q"
    and "me_next (DeleteFileInternal f e) = me_next e"
proof -
  show find: "fm_find (me_map (DeleteFileInternal f e)) = (fm_find (me_map e))(f := None)"
    by (auto simp: DeleteFileInternal_def split: option.splits)
  show next': "me_next (DeleteFileInternal f e) = me_next e"
    by (auto simp: DeleteFileInternal_def split: option.splits)
  have heap: "me_heap (DeleteFileInternal f e) q =
      (if fm_find (me_map e) f = Some q then Option.bind (me_heap e q) FileState_Unref else me_heap e q)" for q
    by (auto simp: DeleteFileInternal_def heap_Unref_def split: option.splits)
  have named: "named (DeleteFileInternal f e) q \<longleftrightarrow> named e q \<and> fm_find (me_map e) f \<noteq> Some q" for q
    using env_okD(3) [OF assms, of f q] by (auto simp: named_def find)
  have st: "state_ok (DeleteFileInternal f e) hs q" for q
  proof (cases "fm_find (me_map e) f = Some q")
    case True
    then obtain fs where "me_heap e q = Some fs" "fs_ok fs" "sint (fs_refs fs) = 1 + int (count_list hs q)"
        "q < me_next e" "0 < q" by (rule named_live [OF assms])
    then show ?thesis using True
      by (auto simp: state_ok_def heap named next' FileState_Unref_simps sint_pred in_set_count)
  next
    case False
    then show ?thesis using env_okD(4) [OF assms, of q]
      by (auto simp: state_ok_def heap named next' split: option.splits)
  qed
  have "fm_ok (me_map (DeleteFileInternal f e))"
    using env_okD(1) [OF assms] by (auto simp: DeleteFileInternal_def fm_ok_erase split: option.splits)
  with st show "env_ok (DeleteFileInternal f e) hs"
    using assms by (auto simp: env_ok_def find next')
  show "object_bytes (DeleteFileInternal f e) q = object_bytes e q"
    if "(\<exists>k. k \<noteq> f \<and> fm_find (me_map e) k = Some q) \<or> q \<in> set hs"
  proof (cases "fm_find (me_map e) f = Some q")
    case True
    then obtain fs where "me_heap e q = Some fs" "sint (fs_refs fs) = 1 + int (count_list hs q)"
      by (rule named_live [OF assms])
    moreover have "q \<in> set hs" using that True env_okD(3) [OF assms, of f q] by blast
    ultimately show ?thesis
      by (simp add: object_bytes_def heap FileState_Unref_simps in_set_count)
  qed (simp add: object_bytes_def heap)
qed

lemma fs_ok_new [simp]: "fs_ok FileState_new" "fs_contents FileState_new = []" "fs_refs FileState_new = 0"
  by (simp_all add: FileState_new_def fs_ok_def fs_contents_def)

text \<open>Creating a file: a fresh, empty file state behind the name and the new file object.\<close>

lemma NewWritableFile_ok:
  assumes "env_ok e hs"
  obtains e' where "NewWritableFile f e = (e', Some (me_next e), OK)" "env_ok e' (me_next e # hs)"
    "fm_find (me_map e') = (fm_find (me_map e))(f \<mapsto> me_next e)" "object_bytes e' (me_next e) = Some []"
    "\<forall>q. (\<exists>k. k \<noteq> f \<and> fm_find (me_map e) k = Some q) \<or> q \<in> set hs \<longrightarrow> object_bytes e' q = object_bytes e q"
proof -
  define e1 where "e1 = DeleteFileInternal f e"
  define p where "p = me_next e"
  define e' where "e' = e1\<lparr> me_heap := (me_heap e1)(p \<mapsto> FileState_Ref (FileState_Ref FileState_new)),
      me_next := p + 1, me_map := fm_set f p (me_map e1) \<rparr>"
  note e1 = DeleteFileInternal_ok [OF assms, of f, folded e1_def]
  have e1': "(if fm_find (me_map e) f \<noteq> None then DeleteFileInternal f e else e) = e1"
    by (auto simp: e1_def DeleteFileInternal_def)
  have new: "NewWritableFile f e = (e', Some p, OK)"
    unfolding NewWritableFile_def e1' Let_def
    by (simp add: heap_new_def heap_Ref_def e'_def e1(4) p_def)
  have fresh: "me_heap e1 p = None" "p \<notin> set hs" "fm_find (me_map e1) k \<noteq> Some p" for k
    using env_okD(4) [OF e1(1), of p] by (auto simp: state_ok_def p_def e1(4) named_def split: option.splits)
  have find: "fm_find (me_map e') = (fm_find (me_map e))(f \<mapsto> p)"
    using env_okD(1) [OF e1(1)] by (simp add: e'_def e1(2))
  have named: "named e' q \<longleftrightarrow> q = p \<or> named e1 q" for q
    using env_okD(1) [OF e1(1)] by (auto simp: named_def e'_def e1(2))
  have heap: "me_heap e' = (me_heap e1)(p \<mapsto> FileState_Ref (FileState_Ref FileState_new))"
    and next': "me_next e' = Suc p" by (simp_all add: e'_def)
  have "state_ok e' (p # hs) q" for q
    using env_okD(4) [OF e1(1), of q] env_okD(2) [OF assms] fresh
    by (cases "q = p")
      (auto simp: state_ok_def named heap next' e1(4) p_def in_set_count split: option.splits)
  moreover have "fm_ok (me_map e')" "0 < me_next e'"
    using env_okD(1) [OF e1(1)] by (simp_all add: e'_def fm_ok_set)
  moreover have "k = k'" if "fm_find (me_map e') k = Some q" "fm_find (me_map e') k' = Some q" for k k' q
    using that env_okD(3) [OF assms, of k q k'] fresh(3) [of k] fresh(3) [of k']
    by (auto simp: find e1(2) split: if_splits)
  ultimately have "env_ok e' (p # hs)" by (auto simp: env_ok_def)
  moreover have "object_bytes e' q = object_bytes e q"
    if "(\<exists>k. k \<noteq> f \<and> fm_find (me_map e) k = Some q) \<or> q \<in> set hs" for q
  proof -
    have "fm_find (me_map e) k \<noteq> Some p" if "k \<noteq> f" for k
      using fresh(3) [of k] that by (simp add: e1(2))
    with that fresh(2) have "q \<noteq> p" by blast
    then show ?thesis using e1(3) [OF that] by (simp add: object_bytes_def heap)
  qed
  then have "\<forall>q. (\<exists>k. k \<noteq> f \<and> fm_find (me_map e) k = Some q) \<or> q \<in> set hs \<longrightarrow>
      object_bytes e' q = object_bytes e q" by blast
  moreover have "object_bytes e' p = Some []" by (simp add: object_bytes_def heap)
  ultimately show thesis
    using new find by (intro that [of e']) (simp_all only: p_def)
qed

text \<open>Renaming.\<close>

lemma RenameFile_ok:
  assumes "env_ok e hs" "fm_find (me_map e) src \<noteq> None"
  obtains e' where "RenameFile src target e = (e', OK)" "env_ok e' hs"
    "fm_find (me_map e') = (fm_find (me_map e))(target := fm_find (me_map e) src, src := None)"
    "\<forall>q. named e' q \<or> q \<in> set hs \<longrightarrow> object_bytes e' q = object_bytes e q"
proof -
  define e1 where "e1 = DeleteFileInternal target e"
  define m where "m = fm_set target (fm_index (me_map e1) src) (me_map e1)"
  define e' where "e' = e1\<lparr> me_map := fm_erase src m \<rparr>"
  note e1 = DeleteFileInternal_ok [OF assms(1), of target, folded e1_def]
  have m: "fm_ok m" "fm_find m = (fm_find (me_map e1))(target \<mapsto> fm_index (me_map e1) src)"
    using env_okD(1) [OF e1(1)] by (simp_all add: m_def fm_ok_set)
  have find: "fm_find (me_map e') = (fm_find (me_map e))(target := fm_find (me_map e) src, src := None)"
    using assms(2) by (cases "src = target") (auto simp: e'_def m(2) e1(2) fm_index_def fun_eq_iff)
  have inj: "fm_find (me_map e) k = Some p \<Longrightarrow> fm_find (me_map e) k' = Some p \<Longrightarrow> k = k'" for k k' p
    using env_okD(3) [OF assms(1)] by blast
  have named: "named e' q \<longleftrightarrow> named e1 q" for q
  proof (cases "src = target")
    case False
    then have "named e' q \<longleftrightarrow> fm_find (me_map e) src = Some q \<or>
        (\<exists>k. k \<noteq> src \<and> k \<noteq> target \<and> fm_find (me_map e) k = Some q)"
      by (auto simp: named_def find)
    also have "\<dots> \<longleftrightarrow> named e1 q" using False by (auto simp: named_def e1(2))
    finally show ?thesis .
  qed (auto simp: named_def find e1(2))
  have "state_ok e' hs q" for q
    using env_okD(4) [OF e1(1), of q] named [of q]
    by (auto simp: state_ok_def e'_def split: option.splits)
  moreover have "fm_ok (me_map e')" "0 < me_next e'"
    using env_okD(2) [OF assms(1)] m(1) by (simp_all add: e'_def e1(4) fm_ok_erase)
  moreover have "k = k'" if "fm_find (me_map e') k = Some p" "fm_find (me_map e') k' = Some p" for k k' p
    using that inj [of k p k'] inj [of src p k'] inj [of k p src] by (auto simp: find split: if_splits)
  ultimately have ok: "env_ok e' hs" by (auto simp: env_ok_def)
  have obj: "object_bytes e' q = object_bytes e q" if "named e' q \<or> q \<in> set hs" for q
  proof -
    have "(\<exists>k. k \<noteq> target \<and> fm_find (me_map e) k = Some q) \<or> q \<in> set hs"
      using that unfolding named by (auto simp: named_def e1(2) split: if_splits)
    from e1(3) [OF this] show ?thesis by (simp add: object_bytes_def e'_def)
  qed
  have "RenameFile src target e = (e', OK)"
    using assms(2) by (auto simp: RenameFile_def Let_def e'_def m_def e1_def)
  moreover have "\<forall>q. named e' q \<or> q \<in> set hs \<longrightarrow> object_bytes e' q = object_bytes e q"
    using obj by blast
  ultimately show thesis using ok find by (intro that [of e'])
qed

text \<open>Appending through an open file object.\<close>

lemma file_Append_ok:
  assumes "env_ok e hs" "p \<in> set hs" "object_bytes e p = Some c" "length c + length d < 2 ^ 64"
  obtains e' where "file_Append p d e = (e', OK)" "env_ok e' hs" "me_map e' = me_map e"
    "object_bytes e' = (object_bytes e)(p \<mapsto> c @ d)"
proof -
  obtain fs where fs: "me_heap e p = Some fs" "fs_ok fs" by (rule handle_live [OF assms(1,2)])
  then have c: "c = fs_contents fs" using assms(3) by (simp add: object_bytes_def)
  note a = FileState_Append_loop_ok [OF fs(2), of d]
  define e' where "e' = e\<lparr> me_heap := (me_heap e)(p \<mapsto> FileState_Append_loop fs d) \<rparr>"
  have "state_ok e' hs q" for q
    using env_okD(4) [OF assms(1), of q] a assms(4) fs c
    by (cases "q = p") (auto simp: state_ok_def e'_def split: option.splits)
  then have "env_ok e' hs" using assms(1) by (simp add: env_ok_def e'_def)
  moreover have "object_bytes e' = (object_bytes e)(p \<mapsto> c @ d)"
    using a assms(4) c by (auto simp: object_bytes_def e'_def)
  moreover have "file_Append p d e = (e', OK)" "me_map e' = me_map e"
    using fs(1) by (simp_all add: file_Append_def FileState_Append_def e'_def)
  ultimately show thesis by (intro that [of e'])
qed

text \<open>Destroying the environment.\<close>

lemma heap_Unref_map: "heap_Unref p (e\<lparr> me_map := m \<rparr>) = (heap_Unref p e)\<lparr> me_map := m \<rparr>"
  by (simp add: heap_Unref_def)

lemma destroy_names:
  "env_ok (e\<lparr> me_map := m \<rparr>) hs \<Longrightarrow> env_ok ((fold (\<lambda>(_, p). heap_Unref p) m e)\<lparr> me_map := [] \<rparr>) hs"
proof (induction m arbitrary: e)
  case (Cons a m)
  obtain k p where a: "a = (k, p)" by (cases a)
  have "\<forall>b \<in> set m. fst b \<noteq> k"
    using env_okD(1) [OF Cons.prems] by (auto simp: a fm_ok_def)
  then have "fm_erase k (a # m) = m" by (simp add: a fm_erase_def filter_id_conv)
  then have "DeleteFileInternal k (e\<lparr> me_map := a # m \<rparr>) = (heap_Unref p e)\<lparr> me_map := m \<rparr>"
    by (simp add: DeleteFileInternal_def fm_find_def a heap_Unref_map)
  with DeleteFileInternal_ok(1) [OF Cons.prems, of k] Cons.IH [of "heap_Unref p e"] show ?case by (simp add: a)
qed simp

lemma InMemoryEnv_destroy_ok:
  assumes "env_ok e hs"
  shows "env_ok (InMemoryEnv_destroy e) hs"
    and "hs = [] \<Longrightarrow> me_heap (InMemoryEnv_destroy e) = (\<lambda>_. None)"
proof -
  show ok: "env_ok (InMemoryEnv_destroy e) hs"
    using destroy_names [of "me_map e" e hs] assms by (simp add: InMemoryEnv_destroy_def)
  show "me_heap (InMemoryEnv_destroy e) = (\<lambda>_. None)" if "hs = []"
  proof
    fix p
    have "me_map (InMemoryEnv_destroy e) = []" by (simp add: InMemoryEnv_destroy_def)
    then show "me_heap (InMemoryEnv_destroy e) p = None"
      using env_okD(4) [OF ok, of p] that by (auto simp: state_ok_def named_def fm_find_def split: option.splits)
  qed
qed

section \<open>Whole files\<close>

lemma file_Read_ok:
  assumes "me_heap e p = Some fs" "fs_ok fs" "unat pos \<le> length (fs_contents fs)"
  obtains pos' where "file_Read (p, pos) n r e = ((p, pos'), take n (drop (unat pos) (fs_contents fs)), OK)"
    "unat pos' = unat pos + length (take n (drop (unat pos) (fs_contents fs)))"
proof -
  define f where "f = \<lparr> sf_file = fs, sf_pos = pos \<rparr>"
  define t where "t = take n (drop (unat pos) (fs_contents fs))"
  have "sf_ok f" "length t \<le> length (sf_remaining f)"
    using assms by (simp_all add: f_def sf_ok_def sf_remaining_def t_def)
  then have "unat (pos + word_of_nat (length t)) = unat pos + length t"
    using assms(3) fs_size_bound [OF assms(2)]
    by (simp add: unat_word_ariths sf_remaining_def f_def)
  moreover have "file_Read (p, pos) n r e = ((p, pos + word_of_nat (length t)), t, OK)"
    using assms by (simp add: file_Read_def SequentialFileImpl_Read_def FileState_Read_ok t_def)
  ultimately show thesis using that [of "pos + word_of_nat (length t)"] by (simp add: t_def)
qed

lemma ReadFileToString_loop_ok:
  assumes "me_heap e p = Some fs" "fs_ok fs" "unat pos \<le> length (fs_contents fs)"
  shows "ReadFileToString_loop (p, pos) data e = Some (data @ drop (unat pos) (fs_contents fs), OK)"
  using assms(3)
proof (induction "length (fs_contents fs) - unat pos" arbitrary: pos data rule: less_induct)
  case less
  define t where "t = take 8192 (drop (unat pos) (fs_contents fs))"
  obtain pos' where r: "file_Read (p, pos) 8192 [] e = ((p, pos'), t, OK)" "unat pos' = unat pos + length t"
    by (rule file_Read_ok [OF assms(1,2) less(2), of 8192 "[]", folded t_def])
  show ?case
  proof (cases "t = []")
    case True
    then have "drop (unat pos) (fs_contents fs) = []" by (simp add: t_def)
    then show ?thesis using r True by (subst ReadFileToString_loop.simps) (simp add: Slice_empty_def)
  next
    case False
    then have "t \<noteq> []" "unat pos + length t \<le> length (fs_contents fs)"
      using less(2) by (auto simp: t_def)
    moreover from this have "length (fs_contents fs) - unat pos' < length (fs_contents fs) - unat pos"
      using r(2) by (cases t) auto
    ultimately have
      "ReadFileToString_loop (p, pos') (data @ t) e = Some (data @ t @ drop (unat pos + length t) (fs_contents fs), OK)"
      using less(1) [of pos' "data @ t"] r(2) by simp
    moreover have "t @ drop (unat pos + length t) (fs_contents fs) = drop (unat pos) (fs_contents fs)"
      using append_take_drop_id [of 8192 "drop (unat pos) (fs_contents fs)"]
      by (auto simp: t_def min_def add.commute)
    ultimately show ?thesis
      using r(1) False by (subst ReadFileToString_loop.simps) (simp add: Slice_empty_def)
  qed
qed

lemma env_ok_NewMemEnv: "env_ok NewMemEnv []"
  by (simp add: env_ok_def NewMemEnv_def fm_ok_def fm_find_def state_ok_def named_def)

lemma file_bytes_NewWritableFile:
  assumes "env_ok e hs" "NewWritableFile f e = (e', Some p, s)"
  shows "file_bytes e' = (file_bytes e)(f \<mapsto> [])" "env_ok e' (p # hs)" "object_bytes e' p = Some []"
    "fm_find (me_map e') f = Some p" "\<forall>q\<in>set hs. object_bytes e' q = object_bytes e q"
proof -
  obtain e'' where n: "NewWritableFile f e = (e'', Some (me_next e), OK)" "env_ok e'' (me_next e # hs)"
    "fm_find (me_map e'') = (fm_find (me_map e))(f \<mapsto> me_next e)" "object_bytes e'' (me_next e) = Some []"
    "\<forall>q. (\<exists>k. k \<noteq> f \<and> fm_find (me_map e) k = Some q) \<or> q \<in> set hs \<longrightarrow> object_bytes e'' q = object_bytes e q"
    by (rule NewWritableFile_ok [OF assms(1), of f])
  then have e: "e'' = e'" "me_next e = p" using assms(2) by simp_all
  have "file_bytes e' k = ((file_bytes e)(f \<mapsto> [])) k" for k
    using n(3,4) n(5) e by (cases "fm_find (me_map e) k") (auto simp: file_bytes_def)
  then show "file_bytes e' = (file_bytes e)(f \<mapsto> [])" by blast
  show "env_ok e' (p # hs)" "object_bytes e' p = Some []" "fm_find (me_map e') f = Some p"
    "\<forall>q\<in>set hs. object_bytes e' q = object_bytes e q"
    using n e by auto
qed

lemma file_bytes_DeleteFile:
  assumes "env_ok e hs"
  shows "file_bytes (DeleteFileInternal f e) = (file_bytes e)(f := None)"
proof -
  have "file_bytes (DeleteFileInternal f e) k = ((file_bytes e)(f := None)) k" for k
    using DeleteFileInternal_ok(2,3) [OF assms, of f]
    by (cases "fm_find (me_map e) k") (auto simp: file_bytes_def)
  then show ?thesis by blast
qed

lemma DeleteFile_cases:
  "DeleteFile f e = (if fm_find (me_map e) f = None then (e, not_found f) else (DeleteFileInternal f e, OK))"
  by (simp add: DeleteFile_def)

lemma file_bytes_None: "env_ok e hs \<Longrightarrow> file_bytes e f = None \<longleftrightarrow> fm_find (me_map e) f = None"
  using file_bytes_Some [of e hs f] by (cases "fm_find (me_map e) f") (auto simp: file_bytes_def)

lemma file_bytes_RenameFile:
  assumes "env_ok e hs" "file_bytes e f \<noteq> None"
  shows "file_bytes (fst (RenameFile f g e)) = (file_bytes e)(g := file_bytes e f, f := None)"
    and "snd (RenameFile f g e) = OK" and "env_ok (fst (RenameFile f g e)) hs"
    and "\<forall>q\<in>set hs. object_bytes (fst (RenameFile f g e)) q = object_bytes e q"
proof -
  have found: "fm_find (me_map e) f \<noteq> None" using assms by (simp add: file_bytes_None)
  obtain e' where r: "RenameFile f g e = (e', OK)" "env_ok e' hs"
    "fm_find (me_map e') = (fm_find (me_map e))(g := fm_find (me_map e) f, f := None)"
    "\<forall>q. named e' q \<or> q \<in> set hs \<longrightarrow> object_bytes e' q = object_bytes e q"
    by (rule RenameFile_ok [OF assms(1) found, of g])
  have "file_bytes e' k = ((file_bytes e)(g := file_bytes e f, f := None)) k" for k
  proof -
    have "object_bytes e' q = object_bytes e q" if "fm_find (me_map e') k = Some q" for q
      using that r(4) by (auto simp: named_def)
    then show ?thesis using r(3) by (auto simp: file_bytes_def bind_eq_None_conv
        intro!: bind_option_cong) 
  qed
  then show "file_bytes (fst (RenameFile f g e)) = (file_bytes e)(g := file_bytes e f, f := None)"
    using r(1) by auto
  show "snd (RenameFile f g e) = OK" "env_ok (fst (RenameFile f g e)) hs"
    "\<forall>q\<in>set hs. object_bytes (fst (RenameFile f g e)) q = object_bytes e q"
    using r by simp_all
qed

lemma DoWriteStringToFile_ok:
  assumes "env_ok e hs" "length data < 2 ^ 64"
  shows "snd (DoWriteStringToFile data f sync e) = OK"
    and "env_ok (fst (DoWriteStringToFile data f sync e)) hs"
    and "file_bytes (fst (DoWriteStringToFile data f sync e)) = (file_bytes e)(f \<mapsto> data)"
    and "\<exists>p. fm_find (me_map (fst (DoWriteStringToFile data f sync e))) f = Some p \<and> p \<notin> set hs"
proof -
  define p where "p = me_next e"
  obtain e1 where n: "NewWritableFile f e = (e1, Some p, OK)"
    unfolding p_def by (rule NewWritableFile_ok [OF assms(1), of f])
  have fresh: "p \<notin> set hs" using handle_live [OF assms(1), of p] by (auto simp: p_def)
  note e1 = file_bytes_NewWritableFile [OF assms(1) n]
  have "p \<in> set (p # hs)" by simp
  then obtain e2 where a: "file_Append p data e1 = (e2, OK)" "env_ok e2 (p # hs)" "me_map e2 = me_map e1"
      "object_bytes e2 = (object_bytes e1)(p \<mapsto> [] @ data)"
    by (rule file_Append_ok [OF e1(2) _ e1(3), of data]) (use assms(2) in simp_all)
  note d = file_delete_ok [OF a(2), of p]
  have w: "DoWriteStringToFile data f sync e = (file_delete p e2, OK)"
    by (simp add: DoWriteStringToFile_def n a(1) file_Sync_def file_Close_def)
  have "file_bytes (file_delete p e2) k = ((file_bytes e)(f \<mapsto> data)) k" for k
  proof -
    have "file_bytes (file_delete p e2) k = file_bytes e2 k"
      using d(2,3) by (auto simp: file_bytes_def named_def intro!: bind_option_cong)
    also have "\<dots> = ((file_bytes e1)(f \<mapsto> data)) k"
      using a(3,4) e1(4) env_okD(3) [OF e1(2), of f p k]
      by (cases "k = f") (auto simp: file_bytes_def intro!: bind_option_cong)
    finally show ?thesis using e1(1) by simp
  qed
  then show "snd (DoWriteStringToFile data f sync e) = OK"
    "env_ok (fst (DoWriteStringToFile data f sync e)) hs"
    "file_bytes (fst (DoWriteStringToFile data f sync e)) = (file_bytes e)(f \<mapsto> data)"
    "\<exists>p. fm_find (me_map (fst (DoWriteStringToFile data f sync e))) f = Some p \<and> p \<notin> set hs"
    using d(1,3) a(3) e1(4) fresh by (auto simp: w)
qed

lemma ReadFileToString_ok:
  assumes "env_ok e hs" "file_bytes e f = Some c" "\<exists>p. fm_find (me_map e) f = Some p \<and> count_list hs p < 2 ^ 31 - 2"
  shows "\<exists>e'. ReadFileToString f e = Some (e', c, OK) \<and> env_ok e' hs \<and> file_bytes e' = file_bytes e"
proof -
  obtain p where p: "fm_find (me_map e) f = Some p" "count_list hs p < 2 ^ 31 - 2" using assms(3) by blast
  obtain fs where fs: "me_heap e p = Some fs" "fs_ok fs" by (rule named_live [OF assms(1) p(1)])
  have c: "fs_contents fs = c"
    using assms(2) p(1) fs(1) by (simp add: file_bytes_def object_bytes_def)
  have "me_heap e p \<noteq> None" using fs(1) by simp
  note ref = heap_Ref_ok [OF assms(1) this p(2)]
  note del = file_delete_ok [OF ref(1), of p]
  have "ReadFileToString_loop (p, 0) [] (heap_Ref p e) = Some (c, OK)"
    using ReadFileToString_loop_ok [of "heap_Ref p e" p "FileState_Ref fs" 0 "[]"] fs
    by (simp add: heap_Ref_def c)
  then have "ReadFileToString f e = Some (file_delete p (heap_Ref p e), c, OK)"
    by (simp add: ReadFileToString_def NewSequentialFile_def p)
  moreover have "file_bytes (file_delete p (heap_Ref p e)) k = file_bytes e k" for k
    using del(2,3) ref(2,3) by (auto simp: file_bytes_def named_def intro!: bind_option_cong)
  ultimately show ?thesis using del(1) by auto
qed

section \<open>Correctness\<close>

text \<open>
  C21. The environment implements a map from names to byte strings: creating,
  deleting and renaming a file change exactly that map entry, and never what an open file
  object reads, even when its name is deleted, replaced or renamed. Renaming a file to itself
  removes it.
\<close>

theorem memenv_file_map:
  assumes "env_ok e hs"
  shows "file_bytes (fst (NewWritableFile f e)) = (file_bytes e)(f \<mapsto> []) \<and>
    (\<forall>q\<in>set hs. object_bytes (fst (NewWritableFile f e)) q = object_bytes e q) \<and>
    file_bytes (fst (DeleteFile f e)) = (file_bytes e)(f := None) \<and>
    Status_ok (snd (DeleteFile f e)) = (file_bytes e f \<noteq> None) \<and>
    (\<forall>q\<in>set hs. object_bytes (fst (DeleteFile f e)) q = object_bytes e q) \<and>
    (file_bytes e f \<noteq> None \<longrightarrow>
       file_bytes (fst (RenameFile f g e)) = (file_bytes e)(g := file_bytes e f, f := None) \<and>
       (\<forall>q\<in>set hs. object_bytes (fst (RenameFile f g e)) q = object_bytes e q)) \<and>
    (file_bytes e f = None \<longrightarrow> fst (RenameFile f g e) = e \<and> \<not> Status_ok (snd (RenameFile f g e)))"
proof -
  obtain e1 p where n: "NewWritableFile f e = (e1, Some p, OK)"
    by (rule NewWritableFile_ok [OF assms, of f])
  have "file_bytes (fst (DeleteFile f e)) = (file_bytes e)(f := None)"
    using file_bytes_DeleteFile [OF assms, of f] file_bytes_None [OF assms, of f]
    by (auto simp: DeleteFile_def fun_upd_idem)
  moreover have "\<forall>q\<in>set hs. object_bytes (fst (DeleteFile f e)) q = object_bytes e q"
    using DeleteFileInternal_ok(3) [OF assms] by (auto simp: DeleteFile_def)
  moreover have "Status_ok (snd (DeleteFile f e)) = (file_bytes e f \<noteq> None)"
    using file_bytes_None [OF assms, of f] by (auto simp: DeleteFile_def not_found_def)
  moreover have "file_bytes e f = None \<Longrightarrow> fst (RenameFile f g e) = e \<and> \<not> Status_ok (snd (RenameFile f g e))"
    using file_bytes_None [OF assms, of f] by (simp add: RenameFile_def not_found_def)
  ultimately show ?thesis
    using file_bytes_NewWritableFile [OF assms n] n file_bytes_RenameFile [OF assms, of f g] by simp
qed

theorem memenv_file_map_witness:
  "file_bytes (fst (NewWritableFile (cstr ''/a'') NewMemEnv)) (cstr ''/a'') = Some []"
  using memenv_file_map [OF env_ok_NewMemEnv, of "cstr ''/a''"] by simp

text \<open>
  C28. Reference counting is exact. With fewer than \<open>2^31 - 2\<close> file objects open, every operation
  that creates, deletes or renames a file, opens, writes or closes a file object, and the destructor
  of the environment keep the invariant that a file state is live exactly while a name or an open
  file object refers to it, with a count equal to their number: nothing that is still referenced
  is freed and nothing is leaked. When no file object is open, the destructor frees everything.
\<close>

theorem memenv_refcounts:
  assumes "env_ok e hs" "length hs < 2 ^ 31 - 2"
  shows "(case NewSequentialFile f e of (e', Some (p, _), _) \<Rightarrow> env_ok e' (p # hs) | (e', None, _) \<Rightarrow> e' = e) \<and>
    (case NewRandomAccessFile f e of (e', Some p, _) \<Rightarrow> env_ok e' (p # hs) | (e', None, _) \<Rightarrow> e' = e) \<and>
    (case NewWritableFile f e of (e', Some p, _) \<Rightarrow> env_ok e' (p # hs) | (e', None, _) \<Rightarrow> False) \<and>
    env_ok (fst (DeleteFile f e)) hs \<and> env_ok (fst (RenameFile f g e)) hs \<and>
    (\<forall>p\<in>set hs. env_ok (file_delete p e) (remove1 p hs) \<and>
      (\<forall>c. object_bytes e p = Some c \<and> length c + length data < 2 ^ 64 \<longrightarrow>
        env_ok (fst (file_Append p data e)) hs)) \<and>
    env_ok (InMemoryEnv_destroy e) hs \<and> (hs = [] \<longrightarrow> me_heap (InMemoryEnv_destroy e) = (\<lambda>_. None))"
proof -
  have live: "fm_find (me_map e) f = Some p \<Longrightarrow> me_heap e p \<noteq> None" for p
    by (auto elim: named_live [OF assms(1)])
  have count: "count_list hs p < 2 ^ 31 - 2" for p using count_le_length [of hs p] assms(2) by linarith
  obtain e1 p where n: "NewWritableFile f e = (e1, Some p, OK)"
    by (rule NewWritableFile_ok [OF assms(1), of f])
  have "env_ok (fst (RenameFile f g e)) hs"
    using file_bytes_RenameFile(3) [OF assms(1), of f g] file_bytes_None [OF assms(1), of f] assms(1)
    by (cases "fm_find (me_map e) f") (simp_all add: RenameFile_def)
  moreover have "env_ok (fst (file_Append p data e)) hs"
    if "p \<in> set hs" "object_bytes e p = Some c" "length c + length data < 2 ^ 64" for p c
    by (rule file_Append_ok [OF assms(1) that]) simp
  ultimately show ?thesis
    using heap_Ref_ok(1) [OF assms(1) live count] n file_bytes_NewWritableFile(2) [OF assms(1) n]
      DeleteFileInternal_ok(1) [OF assms(1)] file_delete_ok(1) [OF assms(1)] InMemoryEnv_destroy_ok [OF assms(1)] assms(1)
    by (auto simp: NewSequentialFile_def NewRandomAccessFile_def DeleteFile_def split: option.splits)
qed

text \<open>A file with an open file object: the count is 2, then 1 without the name, and closing the object frees it.\<close>

theorem memenv_refcounts_witness:
  "let e = fst (NewWritableFile (cstr ''/a'') NewMemEnv); d = fst (DeleteFile (cstr ''/a'') e) in
     map_option fs_refs (me_heap e 1) = Some 2 \<and> env_ok (fst (RenameFile (cstr ''/a'') (cstr ''/b'') e)) [1] \<and>
     env_ok (fst (file_Append 1 (cstr ''xyz'') e)) [1] \<and> env_ok (InMemoryEnv_destroy e) [1] \<and>
     env_ok d [1] \<and> map_option fs_refs (me_heap d 1) = Some 1 \<and> env_ok (file_delete 1 e) [] \<and>
     me_heap (file_delete 1 d) 1 = None"
proof -
  let ?e = "fst (NewWritableFile (cstr ''/a'') NewMemEnv)"
  have "NewWritableFile (cstr ''/a'') NewMemEnv = (?e, Some 1, OK)"
    by (simp add: NewWritableFile_def NewMemEnv_def fm_find_def heap_new_def heap_Ref_def)
  note new = file_bytes_NewWritableFile [OF env_ok_NewMemEnv this]
  have e: "me_heap ?e = [1 \<mapsto> \<lparr> fs_refs = 2, fs_blocks = [], fs_size = 0 \<rparr>]" "me_map ?e = [(cstr ''/a'', 1)]"
    by (simp_all add: NewWritableFile_def NewMemEnv_def fm_find_def heap_new_def heap_Ref_def FileState_new_def FileState_Ref_def)
  have "length [1] < 2 ^ 31 - 2" by simp
  from memenv_refcounts [OF new(2) this, of "cstr ''/a''" "cstr ''/b''" "cstr ''xyz''"] new(3) e show ?thesis
    by (simp add: Let_def DeleteFile_def DeleteFileInternal_def heap_Unref_def file_delete_def fm_find_def FileState_Unref_def)
qed

text \<open>
  C35. A string written to a file is read back unchanged by \<open>ReadFileToString\<close>,
  which returns, and no other file changes.
\<close>

theorem write_read_file:
  assumes "env_ok e hs" "length data < 2 ^ 64"
  shows "\<exists>e1 e2. WriteStringToFile data f e = (e1, OK) \<and>
    ReadFileToString f e1 = Some (e2, data, OK) \<and> env_ok e2 hs \<and>
    file_bytes e2 = (file_bytes e)(f \<mapsto> data)"
proof -
  note w = DoWriteStringToFile_ok [OF assms, of f False]
  obtain e1 where e1: "DoWriteStringToFile data f False e = (e1, OK)"
    using w(1) by (metis prod.collapse)
  with w have ok: "env_ok e1 hs" "file_bytes e1 f = Some data" "file_bytes e1 = (file_bytes e)(f \<mapsto> data)"
    "\<exists>p. fm_find (me_map e1) f = Some p \<and> count_list hs p < 2 ^ 31 - 2"
    by (auto simp: count_list_0_iff)
  from ReadFileToString_ok [OF ok(1,2,4)] ok(3) e1 show ?thesis by (auto simp: WriteStringToFile_def)
qed

theorem write_read_file_witness:
  "\<exists>e1 e2. WriteStringToFile (cstr ''hello'') (cstr ''/f'') NewMemEnv = (e1, OK) \<and>
    ReadFileToString (cstr ''/f'') e1 = Some (e2, cstr ''hello'', OK)"
  using write_read_file [OF env_ok_NewMemEnv, of "cstr ''hello''" "cstr ''/f''"] by auto

text \<open>
  C36. \<open>SetCurrentFile\<close> succeeds, makes \<open>CURRENT\<close> hold the name of the manifest and a
  newline, leaves no temporary file behind and changes no other file.
\<close>

theorem SetCurrentFile_correct:
  assumes "env_ok e hs"
  shows "snd (SetCurrentFile db n e) = OK \<and> env_ok (fst (SetCurrentFile db n e)) hs \<and>
    file_bytes (fst (SetCurrentFile db n e)) =
      (file_bytes e)(CurrentFileName db \<mapsto> cstr ''MANIFEST-'' @ fmt_06u (unat n) @ [10],
                     TempFileName db n := None)"
proof -
  define data where "data = cstr ''MANIFEST-'' @ fmt_06u (unat n) @ [10]"
  define tmp where "tmp = TempFileName db n"
  have len: "length data < 2 ^ 64" using length_fmt_06u [of n] by (simp add: data_def)
  note w = DoWriteStringToFile_ok [OF assms len, of tmp True]
  obtain e1 where e1: "DoWriteStringToFile data tmp True e = (e1, OK)"
    using w(1) by (metis prod.collapse)
  with w have ok: "env_ok e1 hs" "file_bytes e1 tmp \<noteq> None" "file_bytes e1 = (file_bytes e)(tmp \<mapsto> data)"
    by simp_all
  note r = file_bytes_RenameFile [OF ok(1,2), of "CurrentFileName db"]
  have "remove_prefix (DescriptorFileName db n) (length db + 1) @ [10] = data"
    by (simp add: DescriptorFileName_eq data_def remove_prefix_def)
  then have s: "SetCurrentFile db n e = RenameFile tmp (CurrentFileName db) e1"
    using r(2) by (cases "RenameFile tmp (CurrentFileName db) e1")
      (simp add: SetCurrentFile_def Let_def tmp_def [symmetric] WriteStringToFileSync_def e1)
  have "CurrentFileName db \<noteq> tmp"
    using MakeFileName_eq [of "cstr ''dbtmp''" db n] fmt_06u_hd [of "unat n"]
    by (auto simp: tmp_def TempFileName_def CurrentFileName_def is_digit_def)
  then show ?thesis
    using r(1-3) ok(3) unfolding s data_def [symmetric] tmp_def [symmetric] by (auto simp: fun_upd_twist)
qed

theorem SetCurrentFile_correct_witness:
  "file_bytes (fst (SetCurrentFile (cstr ''/db'') 5 NewMemEnv)) (cstr ''/db/CURRENT'') =
     Some (cstr ''MANIFEST-000005'' @ [10])"
proof -
  have "fmt_06u 5 = cstr ''000005''" by code_simp
  then have "CurrentFileName (cstr ''/db'') = cstr ''/db/CURRENT''"
    "TempFileName (cstr ''/db'') 5 = cstr ''/db/000005.dbtmp''"
    "cstr ''MANIFEST-'' @ fmt_06u (unat (5 :: u64)) @ [10] = cstr ''MANIFEST-000005'' @ [10]"
    by (simp_all add: CurrentFileName_def TempFileName_def MakeFileName_eq)
  with SetCurrentFile_correct [OF env_ok_NewMemEnv, of "cstr ''/db''" 5] show ?thesis by simp
qed

end
