(* ===== verification/Log.thy ===== *)
theory Log
  imports Crc32c Memenv
begin

text \<open>
  \<open>db/log_format.h\<close>, \<open>db/log_writer.cc\<close>, \<open>db/log_reader.h\<close> and \<open>db/log_reader.cc\<close>: the
  write-ahead log. The writer splits records into fragments that never cross a 32 KiB block;
  the reader reads a block at a time and reassembles the records.

  Both are parameterised by the file interface they use (theory \<open>Env\<close>). The block
  offset of the writer, an \<open>int\<close> between 0 and \<open>kBlockSize\<close>, is a natural number; file
  offsets of the reader are \<open>uint64_t\<close> words.
\<close>

section \<open>Format\<close>

datatype RecordType = kZeroType | kFullType | kFirstType | kMiddleType | kLastType

primrec RecordType_val :: "RecordType \<Rightarrow> nat" where
  "RecordType_val kZeroType = 0"
| "RecordType_val kFullType = 1"
| "RecordType_val kFirstType = 2"
| "RecordType_val kMiddleType = 3"
| "RecordType_val kLastType = 4"

definition kMaxRecordType :: nat where
  "kMaxRecordType = RecordType_val kLastType"

definition kBlockSize :: nat where
  "kBlockSize = 32768"

definition kHeaderSize :: nat where
  "kHeaderSize = 4 + 2 + 1"

section \<open>Writer\<close>

record 'f Writer =
  w_dest :: 'f
  w_block_offset :: nat
  w_type_crc :: "u32 list"

definition Writer_new :: "'f \<Rightarrow> 'f Writer" where
  "Writer_new dest =
     \<lparr> w_dest = dest, w_block_offset = 0,
       w_type_crc = map (\<lambda>i. Value [word_of_nat i]) [0..<kMaxRecordType + 1] \<rparr>"

definition EmitPhysicalRecord ::
  "'f WritableFile \<Rightarrow> 'f Writer \<Rightarrow> RecordType \<Rightarrow> bytes \<Rightarrow> 'f Writer \<times> Status" where
  "EmitPhysicalRecord wops w t ptr =
     (let n = length ptr;
          crc = Mask (Extend (w_type_crc w ! RecordType_val t) ptr);
          buf = EncodeFixed32 crc @
                [word_of_nat (n mod 256), word_of_nat (n div 256), word_of_nat (RecordType_val t)];
          (d1, s1) = Append wops buf (w_dest w);
          (d2, s2) =
            (if Status_ok s1 then
               (let (d, s) = Append wops ptr d1 in if Status_ok s then Flush wops d else (d, s))
             else (d1, s1))
      in (w\<lparr> w_dest := d2, w_block_offset := w_block_offset w + kHeaderSize + n \<rparr>, s2))"

text \<open>The start of a round of \<open>AddRecord\<close>: a block with no room for a header is filled up.\<close>

definition SwitchBlock :: "'f WritableFile \<Rightarrow> 'f Writer \<Rightarrow> 'f Writer" where
  "SwitchBlock wops w =
     (let leftover = kBlockSize - w_block_offset w in
      if leftover < kHeaderSize then
        (if leftover > 0
         then w\<lparr> w_dest := fst (Append wops (replicate leftover 0) (w_dest w)), w_block_offset := 0 \<rparr>
         else w\<lparr> w_block_offset := 0 \<rparr>)
      else w)"

definition fragment_type :: "bool \<Rightarrow> bool \<Rightarrow> RecordType" where
  "fragment_type is_begin is_end =
     (if is_begin \<and> is_end then kFullType else if is_begin then kFirstType
      else if is_end then kLastType else kMiddleType)"

lemma SwitchBlock_offset:
  "w_block_offset (SwitchBlock wops w) =
     (if kBlockSize - w_block_offset w < kHeaderSize then 0 else w_block_offset w)"
  by (simp add: SwitchBlock_def Let_def)

lemma EmitPhysicalRecord_offset:
  "EmitPhysicalRecord wops w t p = (w', s) \<Longrightarrow> w_block_offset w' = w_block_offset w + kHeaderSize + length p"
  by (auto simp: EmitPhysicalRecord_def Let_def split: prod.splits)

function AddRecord_loop ::
  "'f WritableFile \<Rightarrow> 'f Writer \<Rightarrow> bytes \<Rightarrow> bool \<Rightarrow> 'f Writer \<times> Status" where
  "AddRecord_loop wops w ptr is_begin =
     (let w1 = SwitchBlock wops w;
          avail = kBlockSize - w_block_offset w1 - kHeaderSize;
          fragment_length = (if length ptr < avail then length ptr else avail);
          is_end = (length ptr = fragment_length);
          (w2, s) = EmitPhysicalRecord wops w1 (fragment_type is_begin is_end) (take fragment_length ptr)
      in if Status_ok s \<and> length ptr - fragment_length > 0
         then AddRecord_loop wops w2 (drop fragment_length ptr) False
         else (w2, s))"
  by pat_completeness auto
termination
proof (relation "measures [\<lambda>(wops, w, ptr, b). length ptr,
    \<lambda>(wops, w, ptr, b). if kBlockSize - w_block_offset w < kHeaderSize then 0 else 1]", goal_cases)
  case (2 wops w ptr is_begin w1 avail fragment_length is_end p w2 s)
  have "w_block_offset w2 = w_block_offset w1 + kHeaderSize + length (take fragment_length ptr)"
    by (rule EmitPhysicalRecord_offset [of wops w1 "fragment_type is_begin is_end" _ w2 s])
      (use 2 in metis)
  then show ?case
    using 2 by (auto simp: SwitchBlock_offset kBlockSize_def kHeaderSize_def split: if_splits)
qed simp

declare AddRecord_loop.simps [simp del]

definition AddRecord :: "'f WritableFile \<Rightarrow> 'f Writer \<Rightarrow> bytes \<Rightarrow> 'f Writer \<times> Status" where
  "AddRecord wops w data = AddRecord_loop wops w data True"

section \<open>Reader\<close>

record 'f Reader =
  r_file :: 'f
  r_reporter :: bool
  r_checksum :: bool
  r_buffer :: bytes
  r_eof :: bool
  r_last_record_offset :: u64
  r_end_of_buffer_offset :: u64
  r_initial_offset :: u64
  r_reports :: "(u64 \<times> Status) list"

text \<open>
  \<open>r_reporter\<close> says whether the reporter is non-\<open>NULL\<close>; \<open>r_reports\<close> lists the calls of its
  \<open>Corruption\<close> method.
\<close>

definition Reader_new :: "'f \<Rightarrow> bool \<Rightarrow> bool \<Rightarrow> u64 \<Rightarrow> 'f Reader" where
  "Reader_new file reporter checksum initial_offset =
     \<lparr> r_file = file, r_reporter = reporter, r_checksum = checksum, r_buffer = [], r_eof = False,
       r_last_record_offset = 0, r_end_of_buffer_offset = 0, r_initial_offset = initial_offset,
       r_reports = [] \<rparr>"

definition kEof :: u32 where
  "kEof = word_of_nat (kMaxRecordType + 1)"

definition kBadRecord :: u32 where
  "kBadRecord = word_of_nat (kMaxRecordType + 2)"

definition ReportDrop :: "u64 \<Rightarrow> Status \<Rightarrow> 'f Reader \<Rightarrow> 'f Reader" where
  "ReportDrop nbytes reason r =
     (if r_reporter r \<and>
         r_end_of_buffer_offset r - word_of_nat (length (r_buffer r)) - nbytes \<ge> r_initial_offset r
      then r\<lparr> r_reports := r_reports r @ [(nbytes, reason)] \<rparr> else r)"

definition ReportCorruption :: "u64 \<Rightarrow> bytes \<Rightarrow> 'f Reader \<Rightarrow> 'f Reader" where
  "ReportCorruption nbytes reason r = ReportDrop nbytes (Corruption reason []) r"

definition SkipToInitialBlock :: "'f SequentialFile \<Rightarrow> 'f Reader \<Rightarrow> 'f Reader \<times> bool" where
  "SkipToInitialBlock sops r =
     (let offset_in_block = unat (r_initial_offset r) mod kBlockSize;
          block_start_location = r_initial_offset r - word_of_nat offset_in_block;
          block_start_location =
            (if offset_in_block > kBlockSize - 6
             then block_start_location + word_of_nat kBlockSize else block_start_location);
          r1 = r\<lparr> r_end_of_buffer_offset := block_start_location \<rparr>
      in if block_start_location > 0 then
           (let (file', skip_status) = Skip sops block_start_location (r_file r1);
                r2 = r1\<lparr> r_file := file' \<rparr>
            in if \<not> Status_ok skip_status
               then (ReportDrop block_start_location skip_status r2, False) else (r2, True))
         else (r1, True))"

text \<open>
  The part of \<open>ReadPhysicalRecord\<close> after the buffer is known to hold a header:
  the new state, the record type or special value, and \<open>*result\<close>. The type byte is a signed
  \<open>char\<close> converted to \<open>unsigned int\<close>.
\<close>

definition header_length :: "bytes \<Rightarrow> nat" where
  "header_length header =
     (let a = scast (header ! 4) AND 0xff;
          b = scast (header ! 5) AND 0xff
      in unat (a OR push_bit 8 b :: u32))"

definition header_type :: "bytes \<Rightarrow> u32" where
  "header_type header = scast (header ! 6)"

definition ParsePhysicalRecord :: "bytes \<Rightarrow> 'f Reader \<Rightarrow> 'f Reader \<times> u32 \<times> bytes" where
  "ParsePhysicalRecord result r =
     (let header = r_buffer r;
          type = header_type header;
          len = header_length header
      in if kHeaderSize + len > length header then
           (let drop_size = word_of_nat (length header);
                r1 = r\<lparr> r_buffer := [] \<rparr>
            in if \<not> r_eof r1
               then (ReportCorruption drop_size (cstr ''bad record length'') r1, kBadRecord, result)
               else (r1, kEof, result))
         else if type = word_of_nat (RecordType_val kZeroType) \<and> len = 0 then
           (r\<lparr> r_buffer := [] \<rparr>, kBadRecord, result)
         else if r_checksum r \<and> Value (take (1 + len) (drop 6 header)) \<noteq> Unmask (DecodeFixed32 header)
         then (ReportCorruption (word_of_nat (length header)) (cstr ''checksum mismatch'')
                 (r\<lparr> r_buffer := [] \<rparr>), kBadRecord, result)
         else
           (let r1 = r\<lparr> r_buffer := remove_prefix header (kHeaderSize + len) \<rparr>
            in if r_end_of_buffer_offset r1 - word_of_nat (length (r_buffer r1))
                    - word_of_nat kHeaderSize - word_of_nat len < r_initial_offset r1
               then (r1, kBadRecord, [])
               else (r1, type, take len (drop kHeaderSize header))))"

definition Reader_ReadBlock :: "'f SequentialFile \<Rightarrow> 'f Reader \<Rightarrow> 'f Reader \<times> Status" where
  "Reader_ReadBlock sops r =
     (let (file', buffer', status) = Read sops kBlockSize [] (r_file r)
      in (r\<lparr> r_file := file', r_buffer := buffer',
             r_end_of_buffer_offset := r_end_of_buffer_offset r + word_of_nat (length buffer') \<rparr>,
          status))"

function ReadPhysicalRecord ::
  "'f SequentialFile \<Rightarrow> bytes \<Rightarrow> 'f Reader \<Rightarrow> 'f Reader \<times> u32 \<times> bytes" where
  "ReadPhysicalRecord sops result r =
     (if length (r_buffer r) < kHeaderSize then
        if \<not> r_eof r then
          (let (r1, status) = Reader_ReadBlock sops r
           in if \<not> Status_ok status
              then ((ReportDrop (word_of_nat kBlockSize) status (r1\<lparr> r_buffer := [] \<rparr>))\<lparr> r_eof := True \<rparr>,
                    kEof, result)
              else ReadPhysicalRecord sops result
                     (if length (r_buffer r1) < kBlockSize then r1\<lparr> r_eof := True \<rparr> else r1))
        else (r\<lparr> r_buffer := [] \<rparr>, kEof, result)
      else ParsePhysicalRecord result r)"
  by pat_completeness auto
termination
  by (relation "measure (\<lambda>(sops, result, r). if length (r_buffer r) < kHeaderSize \<and> \<not> r_eof r then 1 else 0)")
    (auto simp: kBlockSize_def kHeaderSize_def)

declare ReadPhysicalRecord.simps [simp del]

text \<open>The local variables of \<open>ReadRecord\<close> and one round of its loop.\<close>

record 'f ReadState =
  rs_reader :: "'f Reader"
  rs_fragment :: bytes
  rs_scratch :: bytes
  rs_in_fragmented_record :: bool
  rs_prospective_record_offset :: u64

definition end_partial_record :: "bytes \<Rightarrow> 'f ReadState \<Rightarrow> 'f ReadState" where
  "end_partial_record reason st =
     (if rs_in_fragmented_record st then
        (if Slice_empty (rs_scratch st) then st\<lparr> rs_in_fragmented_record := False \<rparr>
         else st\<lparr> rs_reader := ReportCorruption (word_of_nat (length (rs_scratch st))) reason (rs_reader st) \<rparr>)
      else st)"

definition ReadRecord_round ::
  "'f SequentialFile \<Rightarrow> 'f ReadState \<Rightarrow> 'f ReadState + 'f Reader \<times> bytes option" where
  "ReadRecord_round sops st0 =
     (let physical_record_offset =
            r_end_of_buffer_offset (rs_reader st0) - word_of_nat (length (r_buffer (rs_reader st0)));
          (r, record_type, fragment) = ReadPhysicalRecord sops (rs_fragment st0) (rs_reader st0);
          st = st0\<lparr> rs_reader := r, rs_fragment := fragment \<rparr>
      in if record_type = word_of_nat (RecordType_val kFullType) then
           (let st = end_partial_record (cstr ''partial record without end(1)'') st
            in Inr ((rs_reader st)\<lparr> r_last_record_offset := physical_record_offset \<rparr>, Some fragment))
         else if record_type = word_of_nat (RecordType_val kFirstType) then
           (let st = end_partial_record (cstr ''partial record without end(2)'') st
            in Inl (st\<lparr> rs_prospective_record_offset := physical_record_offset,
                        rs_scratch := fragment, rs_in_fragmented_record := True \<rparr>))
         else if record_type = word_of_nat (RecordType_val kMiddleType) then
           (if \<not> rs_in_fragmented_record st
            then Inl (st\<lparr> rs_reader := ReportCorruption (word_of_nat (length fragment))
                             (cstr ''missing start of fragmented record(1)'') r \<rparr>)
            else Inl (st\<lparr> rs_scratch := rs_scratch st @ fragment \<rparr>))
         else if record_type = word_of_nat (RecordType_val kLastType) then
           (if \<not> rs_in_fragmented_record st
            then Inl (st\<lparr> rs_reader := ReportCorruption (word_of_nat (length fragment))
                             (cstr ''missing start of fragmented record(2)'') r \<rparr>)
            else Inr (r\<lparr> r_last_record_offset := rs_prospective_record_offset st \<rparr>,
                      Some (rs_scratch st @ fragment)))
         else if record_type = kEof then Inr (r, None)
         else if record_type = kBadRecord then
           (if rs_in_fragmented_record st
            then Inl (st\<lparr> rs_reader := ReportCorruption (word_of_nat (length (rs_scratch st)))
                             (cstr ''error in middle of record'') r,
                         rs_in_fragmented_record := False, rs_scratch := [] \<rparr>)
            else Inl st)
         else
           Inl (st\<lparr> rs_reader := ReportCorruption
                       (word_of_nat (length fragment +
                          (if rs_in_fragmented_record st then length (rs_scratch st) else 0)))
                       (snprintf 40 (cstr ''unknown record type '' @ fmt_u (unat record_type))) r,
                   rs_in_fragmented_record := False, rs_scratch := [] \<rparr>))"

partial_function (option) ReadRecord_loop ::
  "'f SequentialFile \<Rightarrow> 'f ReadState \<Rightarrow> ('f Reader \<times> bytes option) option" where
  "ReadRecord_loop sops st =
     (case ReadRecord_round sops st of Inr res \<Rightarrow> Some res | Inl st' \<Rightarrow> ReadRecord_loop sops st')"

text \<open>
  \<open>ReadRecord\<close>: the new state, and the record when the function returns true.
  \<open>None\<close> stands for a call that does not return.
\<close>

definition ReadRecord ::
  "'f SequentialFile \<Rightarrow> 'f Reader \<Rightarrow> ('f Reader \<times> bytes option) option" where
  "ReadRecord sops r =
     (let (r1, ok) =
            (if r_last_record_offset r < r_initial_offset r then SkipToInitialBlock sops r else (r, True))
      in if \<not> ok then Some (r1, None)
         else ReadRecord_loop sops
                \<lparr> rs_reader = r1, rs_fragment = [], rs_scratch = [], rs_in_fragmented_record = False,
                  rs_prospective_record_offset = 0 \<rparr>)"

end
