(* ===== verification/Log_Correctness.thy ===== *)
theory Log_Correctness
  imports Log
begin

text \<open>
  Correctness of the log: what the writer appends, and that the reader, whatever
  prefix of it survives a crash, returns exactly the records that are complete.
\<close>

section \<open>The bytes of a record\<close>

text \<open>
  For a block offset \<open>off\<close>: the padding written before the next physical record, the
  offset at which that record starts, and the bytes of a physical record.
\<close>

definition trailer :: "nat \<Rightarrow> bytes" where
  "trailer off = (if kBlockSize - off < kHeaderSize then replicate (kBlockSize - off) 0 else [])"

definition frag_start :: "nat \<Rightarrow> nat" where
  "frag_start off = (if kBlockSize - off < kHeaderSize then 0 else off)"

definition phys_header :: "RecordType \<Rightarrow> bytes \<Rightarrow> bytes" where
  "phys_header t p =
     EncodeFixed32 (Mask (Extend (Value [word_of_nat (RecordType_val t)]) p)) @
     [word_of_nat (length p mod 256), word_of_nat (length p div 256), word_of_nat (RecordType_val t)]"

type_synonym frag = "nat \<times> RecordType \<times> bytes"

fun frag_bytes :: "frag \<Rightarrow> bytes" where
  "frag_bytes (off, t, p) = trailer off @ phys_header t p @ p"

fun frag_end :: "frag \<Rightarrow> nat" where
  "frag_end (off, t, p) = frag_start off + kHeaderSize + length p"

fun frag_fits :: "frag \<Rightarrow> bool" where
  "frag_fits (off, t, p) \<longleftrightarrow> frag_start off + kHeaderSize + length p \<le> kBlockSize \<and> t \<noteq> kZeroType"

text \<open>
  The length of the next fragment of a record written from offset \<open>off\<close> on, and the
  fragments of the whole record.
\<close>

definition frag_len :: "nat \<Rightarrow> bytes \<Rightarrow> nat" where
  "frag_len off d = min (length d) (kBlockSize - (frag_start off + kHeaderSize))"

lemma kHeaderSize_pos: "0 < kHeaderSize"
  by (simp add: kHeaderSize_def)

lemma frag_start_le: "frag_start off + kHeaderSize \<le> kBlockSize"
  by (auto simp: frag_start_def kHeaderSize_def kBlockSize_def)

lemma frag_len_le: "frag_len off d \<le> length d" "frag_start off + kHeaderSize + frag_len off d \<le> kBlockSize"
  using frag_start_le [of off] by (simp_all add: frag_len_def)

lemma frag_len_less: "frag_len off d < length d \<Longrightarrow> frag_start off + kHeaderSize + frag_len off d = kBlockSize"
  using frag_start_le [of off] by (simp add: frag_len_def)

lemma frag_len_0: "frag_len off d < length d \<Longrightarrow> frag_len off d = 0 \<Longrightarrow> \<not> kBlockSize - off < kHeaderSize"
  by (auto simp: frag_len_def frag_start_def kBlockSize_def kHeaderSize_def)

function frags :: "nat \<Rightarrow> bool \<Rightarrow> bytes \<Rightarrow> frag list" where
  "frags off b d =
     (off, fragment_type b (length d = frag_len off d), take (frag_len off d) d) #
     (if frag_len off d < length d
      then frags (frag_start off + kHeaderSize + frag_len off d) False (drop (frag_len off d) d)
      else [])"
  by pat_completeness auto
termination
proof (relation "measures [\<lambda>(off, b, d). length d,
    \<lambda>(off, b, d). if kBlockSize - off < kHeaderSize then 0 else 1]", goal_cases)
  case (2 off b d)
  then show ?case
    using frag_len_less [of off d] frag_len_0 [of off d] kHeaderSize_pos
    by (cases "frag_len off d = 0") auto
qed simp

declare frags.simps [simp del]

definition record_bytes :: "nat \<Rightarrow> bool \<Rightarrow> bytes \<Rightarrow> bytes" where
  "record_bytes off b d = concat (map frag_bytes (frags off b d))"

definition record_end :: "nat \<Rightarrow> bool \<Rightarrow> bytes \<Rightarrow> nat" where
  "record_end off b d = frag_end (last (frags off b d))"

fun log_bytes :: "nat \<Rightarrow> bytes list \<Rightarrow> bytes" where
  "log_bytes off [] = []"
| "log_bytes off (d # ds) = record_bytes off True d @ log_bytes (record_end off True d) ds"

lemma frags_not_Nil [simp]: "frags off b d \<noteq> []"
  by (subst frags.simps) simp

definition first_frag :: "nat \<Rightarrow> bool \<Rightarrow> bytes \<Rightarrow> frag" where
  "first_frag off b d =
     (off, fragment_type b (length d = frag_len off d), take (frag_len off d) d)"

lemma first_frag_fits: "frag_fits (first_frag off b d)"
  using frag_len_le [of off d] by (simp add: first_frag_def fragment_type_def)

text \<open>The unfolding of the two functions for one fragment.\<close>

lemma frag_end_first: "frag_end (first_frag off b d) = frag_start off + kHeaderSize + frag_len off d"
  using frag_len_le [of off d] by (simp add: first_frag_def)

lemma record_bytes_unfold:
  "record_bytes off b d = frag_bytes (first_frag off b d) @
     (if frag_len off d < length d
      then record_bytes (frag_end (first_frag off b d)) False (drop (frag_len off d) d) else [])"
  unfolding record_bytes_def frag_end_first by (subst frags.simps) (simp add: first_frag_def)

lemma record_end_unfold:
  "record_end off b d =
     (if frag_len off d < length d
      then record_end (frag_end (first_frag off b d)) False (drop (frag_len off d) d)
      else frag_end (first_frag off b d))"
  unfolding record_end_def
  by (subst frags.simps) (simp add: frag_end_first first_frag_def [symmetric])

lemma frag_bytes_at_end: "frag_bytes (kBlockSize, t, p) = frag_bytes (0, t, p)"
  "frag_end (kBlockSize, t, p) = frag_end (0, t, p)" "frag_start kBlockSize = frag_start 0"
  by (simp_all add: trailer_def frag_start_def kBlockSize_def kHeaderSize_def)

text \<open>A full block and a fresh block are the same to the writer.\<close>

lemma record_at_end:
  "record_bytes kBlockSize b d = record_bytes 0 b d" "record_end kBlockSize b d = record_end 0 b d"
  by (simp_all only: record_bytes_unfold [of kBlockSize] record_bytes_unfold [of 0]
      record_end_unfold [of kBlockSize] record_end_unfold [of 0]
      first_frag_def frag_len_def frag_bytes_at_end)

lemma log_bytes_at_end: "log_bytes kBlockSize ds = log_bytes 0 ds"
  by (cases ds) (simp_all add: record_at_end)

lemma log_bytes_append:
  "log_bytes off (xs @ ys) = log_bytes off xs @ log_bytes (foldl (\<lambda>off d. record_end off True d) off xs) ys"
  by (induction xs arbitrary: off) simp_all

section \<open>The writer appends these bytes\<close>

definition type_crc_ok :: "'f Writer \<Rightarrow> bool" where
  "type_crc_ok w \<longleftrightarrow> w_type_crc w = map (\<lambda>i. Value [word_of_nat i]) [0..<kMaxRecordType + 1]"

lemma type_crc_nth: "type_crc_ok w \<Longrightarrow> w_type_crc w ! RecordType_val t = Value [word_of_nat (RecordType_val t)]"
  by (cases t) (simp_all add: type_crc_ok_def kMaxRecordType_def)

text \<open>The records of a list, added one after the other until one fails.\<close>

fun AddRecords :: "'f WritableFile \<Rightarrow> 'f Writer \<Rightarrow> bytes list \<Rightarrow> 'f Writer \<times> Status" where
  "AddRecords wops w [] = (w, OK)"
| "AddRecords wops w (d # ds) =
     (let (w', s) = AddRecord wops w d in if Status_ok s then AddRecords wops w' ds else (w', s))"

context writable_file
begin

definition writer_at :: "'f Writer \<Rightarrow> nat \<Rightarrow> bytes \<Rightarrow> bool" where
  "writer_at w off c \<longleftrightarrow> wok (w_dest w) \<and> type_crc_ok w \<and> w_block_offset w = off \<and> wcontents (w_dest w) = c"

lemma SwitchBlock_ok:
  assumes "writer_at w off c" "length c + kHeaderSize < 2 ^ 64"
  shows "writer_at (SwitchBlock wf w) (frag_start off) (c @ trailer off)"
proof (cases "kBlockSize - off < kHeaderSize \<and> 0 < kBlockSize - off")
  case True
  have "length (wcontents (w_dest w)) + length (replicate (kBlockSize - off) (0::byte)) < 2 ^ 64"
    using assms True by (simp add: writer_at_def) linarith
  with assms append_ok [of "w_dest w" "replicate (kBlockSize - off) 0"] True show ?thesis
    by (auto simp: writer_at_def SwitchBlock_def frag_start_def trailer_def Let_def type_crc_ok_def)
qed (use assms in \<open>auto simp: writer_at_def SwitchBlock_def frag_start_def trailer_def Let_def type_crc_ok_def\<close>)

lemma EmitPhysicalRecord_ok:
  assumes "writer_at w off c" "length c + kHeaderSize + length p < 2 ^ 64"
  obtains w' where "EmitPhysicalRecord wf w t p = (w', OK)"
    "writer_at w' (off + kHeaderSize + length p) (c @ phys_header t p @ p)"
proof -
  have w: "wok (w_dest w)" "type_crc_ok w" "wcontents (w_dest w) = c" "w_block_offset w = off"
    using assms(1) by (simp_all add: writer_at_def)
  have len: "length (phys_header t p) = kHeaderSize" by (simp add: phys_header_def kHeaderSize_def)
  obtain d1 where d1: "Append wf (phys_header t p) (w_dest w) = (d1, OK)" "wok d1"
      "wcontents d1 = c @ phys_header t p"
    using append_ok [OF w(1), of "phys_header t p"] assms(2) len w(3) by auto
  obtain d2 where d2: "Append wf p d1 = (d2, OK)" "wok d2" "wcontents d2 = wcontents d1 @ p"
    using append_ok [OF d1(2), of p] assms(2) d1(3) len by auto
  obtain d3 where d3: "Flush wf d2 = (d3, OK)" "wok d3" "wcontents d3 = wcontents d2"
    using flush_ok [OF d2(2)] by auto
  have "EmitPhysicalRecord wf w t p =
      (w\<lparr> w_dest := d3, w_block_offset := off + kHeaderSize + length p \<rparr>, OK)"
    using d1(1) d2(1) d3(1)
    by (simp add: EmitPhysicalRecord_def Let_def phys_header_def type_crc_nth [OF w(2)] w(4))
  then show thesis
    by (rule that) (use d1 d2 d3 w in \<open>simp add: writer_at_def type_crc_ok_def\<close>)
qed

lemma AddRecord_loop_ok:
  assumes "writer_at w off c" "length c + length (record_bytes off b d) < 2 ^ 64"
  shows "\<exists>w'. AddRecord_loop wf w d b = (w', OK) \<and>
    writer_at w' (record_end off b d) (c @ record_bytes off b d)"
  using assms
proof (induction off b d arbitrary: w c rule: frags.induct)
  case (1 off b d)
  define n where "n = frag_len off d"
  define t where "t = fragment_type b (length d = n)"
  define f where "f = first_frag off b d"
  have fb: "frag_bytes f = trailer off @ phys_header t (take n d) @ take n d"
    and fe: "frag_end f = frag_start off + kHeaderSize + length (take n d)"
    by (simp_all add: f_def first_frag_def t_def n_def)
  have le: "length (frag_bytes f) \<le> length (record_bytes off b d)"
    by (subst record_bytes_unfold) (simp add: f_def)
  have len: "length (phys_header t (take n d)) = kHeaderSize"
    by (simp add: phys_header_def kHeaderSize_def)
  have w1: "writer_at (SwitchBlock wf w) (frag_start off) (c @ trailer off)"
    using 1(2,3) le len by (intro SwitchBlock_ok) (simp_all add: fb)
  obtain w2 where w2: "EmitPhysicalRecord wf (SwitchBlock wf w) t (take n d) = (w2, OK)"
      "writer_at w2 (frag_end f) (c @ frag_bytes f)"
    using EmitPhysicalRecord_ok [OF w1, of "take n d" t] 1(3) le len
    by (auto simp: fb fe simp del: length_take)
  have "w_block_offset (SwitchBlock wf w) = frag_start off" using w1 by (simp add: writer_at_def)
  then have loop: "AddRecord_loop wf w d b =
      (if n < length d then AddRecord_loop wf w2 (drop n d) False else (w2, OK))"
    using w2(1) by (subst AddRecord_loop.simps) (auto simp: Let_def t_def n_def frag_len_def min_def)
  show ?case
  proof (cases "n < length d")
    case True
    then show ?thesis
      using 1(1) [of w2 "c @ frag_bytes f"] w2(2) 1(3)
      by (simp add: loop record_bytes_unfold [of off] record_end_unfold [of off] n_def [symmetric]
          f_def [symmetric] frag_end_first [of off b d, folded f_def n_def])
  qed (use w2 in \<open>simp add: loop record_bytes_unfold [of off] record_end_unfold [of off] n_def f_def\<close>)
qed

lemma AddRecord_ok:
  assumes "writer_at w off c" "length c + length (record_bytes off True d) < 2 ^ 64"
  shows "\<exists>w'. AddRecord wf w d = (w', OK) \<and> writer_at w' (record_end off True d) (c @ record_bytes off True d)"
  using AddRecord_loop_ok [OF assms] by (simp add: AddRecord_def)

lemma AddRecords_ok:
  assumes "writer_at w off c" "length c + length (log_bytes off ds) < 2 ^ 64"
  shows "\<exists>w'. AddRecords wf w ds = (w', OK) \<and> wok (w_dest w') \<and> wcontents (w_dest w') = c @ log_bytes off ds"
  using assms
proof (induction ds arbitrary: w off c)
  case Nil
  then show ?case by (simp add: writer_at_def)
next
  case (Cons d ds)
  then obtain w' where "AddRecord wf w d = (w', OK)"
      "writer_at w' (record_end off True d) (c @ record_bytes off True d)"
    using AddRecord_ok [of w off c d] by auto
  with Cons.IH [OF this(2)] Cons.prems(2) show ?case by simp
qed

end

section \<open>The reader parses one physical record\<close>

lemma scast_AND_byte: "(scast (b :: byte) AND 0xff :: u32) = ucast b"
proof (rule bit_word_eqI)
  fix n :: nat
  show "bit (scast b AND 0xff :: u32) n = bit (ucast b :: u32) n" if "n < LENGTH(32)"
    using that by (cases "n = 7") (auto simp: AND_255 bit_simps min_def dest: bit_imp_le_length)
qed

lemma length_field:
  assumes "n < 65536"
  shows "unat (ucast (word_of_nat (n mod 256) :: byte) OR push_bit 8 (ucast (word_of_nat (n div 256) :: byte)) :: u32) = n"
proof -
  define x :: u32 where "x = word_of_nat n"
  have "(ucast x :: byte) = word_of_nat (n mod 256)"
    by (rule bit_word_eqI) (auto simp: x_def bit_simps bit_take_bit_iff take_bit_eq_mod [of 8, simplified, symmetric])
  moreover have "drop_bit 8 x = ucast (word_of_nat (n div 256) :: byte)"
  proof -
    have "n div 256 < 256" using assms by (simp add: less_mult_imp_div_less)
    then show ?thesis using assms
      by (simp add: word_unat_eq_iff x_def drop_bit_eq_div unat_div unsigned_ucast_eq take_bit_nat_eq_self)
  qed
  ultimately have "ucast (word_of_nat (n mod 256) :: byte) OR push_bit 8 (ucast (word_of_nat (n div 256) :: byte)) = x"
    using byte_join [of x] by simp
  then show ?thesis using assms by (simp add: x_def)
qed

lemma type_field: "(scast (word_of_nat (RecordType_val t) :: byte) :: u32) = word_of_nat (RecordType_val t)"
  by (cases t) simp_all

lemma type_val_distinct:
  "word_of_nat (RecordType_val t) = (word_of_nat (RecordType_val t') :: u32) \<longleftrightarrow> t = t'"
  "word_of_nat (RecordType_val t) \<noteq> kEof" "word_of_nat (RecordType_val t) \<noteq> kBadRecord"
  "kEof \<noteq> word_of_nat (RecordType_val t)"
  by (cases t; cases t'; simp add: kEof_def kBadRecord_def kMaxRecordType_def)+
lemma length_phys_header [simp]: "length (phys_header t p) = kHeaderSize"
  by (simp add: phys_header_def kHeaderSize_def)

text \<open>A buffer that starts with the header of a physical record.\<close>

lemma header_fields:
  assumes "length p < 65536" "h = phys_header t p @ rest"
  shows "header_length h = length p"
    and "header_type h = word_of_nat (RecordType_val t)"
    and "Unmask (DecodeFixed32 h) = Value (word_of_nat (RecordType_val t) # p)"
  using assms crc.extend_append [of 0 "[word_of_nat (RecordType_val t)]" p]
  by (simp_all add: phys_header_def nth_append scast_AND_byte length_field type_field Value_def
      header_length_def header_type_def Let_def del: One_nat_def)

lemma ParsePhysicalRecord_complete:
  assumes b: "r_buffer r = phys_header t p @ p @ rest" and p: "length p < 65536"
    and t: "t \<noteq> kZeroType" and i: "r_initial_offset r = 0"
  shows "ParsePhysicalRecord res r = (r\<lparr> r_buffer := rest \<rparr>, word_of_nat (RecordType_val t), p)"
proof -
  note h = header_fields [OF p b]
  have parts: "take (1 + length p) (drop 6 (r_buffer r)) = word_of_nat (RecordType_val t) # p"
    "\<not> length (r_buffer r) < kHeaderSize + length p"
    "remove_prefix (r_buffer r) (kHeaderSize + length p) = rest"
    "take (length p) (drop kHeaderSize (r_buffer r)) = p"
    by (simp_all add: b remove_prefix_def) (simp add: phys_header_def kHeaderSize_def)
  have "(word_of_nat (RecordType_val t) :: u32) \<noteq> word_of_nat (RecordType_val kZeroType)"
    using t type_val_distinct(1) by blast
  then show ?thesis
    unfolding ParsePhysicalRecord_def Let_def h by (simp add: parts [simplified] i)
qed

lemma ParsePhysicalRecord_truncated:
  assumes "strict_prefix (r_buffer r) (phys_header t p @ p)" "kHeaderSize \<le> length (r_buffer r)"
    and "length p < 65536" "r_eof r"
  shows "ParsePhysicalRecord res r = (r\<lparr> r_buffer := [] \<rparr>, kEof, res)"
proof -
  from assms(1) obtain z where z: "phys_header t p @ p = r_buffer r @ z" "z \<noteq> []"
    by (auto simp: strict_prefix_def elim: prefixE)
  define q where "q = drop kHeaderSize (r_buffer r)"
  have "phys_header t p = take kHeaderSize (r_buffer r)" "p = drop kHeaderSize (r_buffer r @ z)"
    using assms(2) arg_cong [OF z(1), of "take kHeaderSize"] arg_cong [OF z(1), of "drop kHeaderSize"]
    by simp_all
  then have q: "r_buffer r = phys_header t p @ q" "p = q @ z"
    using assms(2) by (simp_all add: q_def)
  have "header_length (r_buffer r) = length p" by (rule header_fields(1) [OF assms(3) q(1)])
  moreover have "length (r_buffer r) < kHeaderSize + length p"
    using q z(2) by (metis add_less_cancel_left length_append length_greater_0_conv length_phys_header
        less_add_same_cancel1)
  ultimately show ?thesis
    using assms(4) by (simp add: ParsePhysicalRecord_def Let_def)
qed

lemma strict_prefix_append_cases:
  assumes "strict_prefix x (a @ b)"
  obtains "strict_prefix x a" | y where "x = a @ y" "strict_prefix y b"
proof (cases "prefix x a \<and> x \<noteq> a")
  case False
  with assms obtain y where "x = a @ y" "prefix y b"
    by (auto simp: strict_prefix_def prefix_append)
  with assms that(2) show thesis by (auto simp: strict_prefix_def)
qed (simp add: that(1) strict_prefix_def)

section \<open>The reader follows the blocks\<close>

text \<open>What reading one physical record leaves alone.\<close>

definition same_config :: "'f Reader \<Rightarrow> 'f Reader \<Rightarrow> bool" where
  "same_config r r' \<longleftrightarrow> r_reports r' = r_reports r \<and> r_initial_offset r' = r_initial_offset r"

lemma same_config_trans: "same_config r r' \<Longrightarrow> same_config r' r'' \<Longrightarrow> same_config r r''"
  by (simp add: same_config_def)

definition reader_done :: "'f Reader \<Rightarrow> bool" where
  "reader_done r \<longleftrightarrow> r_eof r \<and> r_buffer r = [] \<and> r_initial_offset r = 0"

context sequential_file
begin

text \<open>
  The reader stands at block offset \<open>off\<close> and the bytes \<open>x\<close> are still to be read:
  either the last read was a full block, or it hit the end of the file.
\<close>

definition reader_at :: "'f Reader \<Rightarrow> nat \<Rightarrow> bytes \<Rightarrow> bool" where
  "reader_at r off x \<longleftrightarrow> sok (r_file r) \<and> r_initial_offset r = 0 \<and>
     (if r_eof r then r_buffer r = x \<and> length x < kBlockSize - off
      else length (r_buffer r) = kBlockSize - off \<and> x = r_buffer r @ remaining (r_file r))"

lemma load_block:
  assumes "reader_at r off x" "kBlockSize - off < kHeaderSize" "\<not> r_eof r"
  obtains r1 where "ReadPhysicalRecord sf res r = ReadPhysicalRecord sf res r1"
    "reader_at r1 0 (drop (kBlockSize - off) x)" "same_config r r1"
proof -
  define y where "y = drop (kBlockSize - off) x"
  have y: "remaining (r_file r) = y" using assms by (simp add: reader_at_def y_def)
  obtain f' where f': "Read sf kBlockSize [] (r_file r) = (f', take kBlockSize y, OK)" "sok f'"
      "remaining f' = drop kBlockSize y"
    using read_ok [of "r_file r" kBlockSize "[]"] assms y by (auto simp: reader_at_def)
  define r1 where "r1 = r\<lparr> r_file := f', r_buffer := take kBlockSize y,
      r_end_of_buffer_offset := r_end_of_buffer_offset r + word_of_nat (length (take kBlockSize y)),
      r_eof := (length y < kBlockSize) \<rparr>"
  show thesis
  proof (rule that)
    show "ReadPhysicalRecord sf res r = ReadPhysicalRecord sf res r1"
      using assms f'(1) by (subst ReadPhysicalRecord.simps)
        (auto simp: reader_at_def Reader_ReadBlock_def Let_def r1_def min_def
          intro!: arg_cong [of _ _ "ReadPhysicalRecord sf res"])
    show "reader_at r1 0 (drop (kBlockSize - off) x)"
      unfolding y_def [symmetric] using assms f'(2,3) by (auto simp: reader_at_def r1_def)
    show "same_config r r1" by (simp add: same_config_def r1_def)
  qed
qed

lemma read_here_complete:
  assumes "reader_at r off (phys_header t p @ p @ x)" "off + kHeaderSize + length p \<le> kBlockSize"
    and "t \<noteq> kZeroType"
  shows "\<exists>r'. ReadPhysicalRecord sf res r = (r', word_of_nat (RecordType_val t), p) \<and>
    reader_at r' (off + kHeaderSize + length p) x \<and> same_config r r'"
proof -
  have p: "length p < 65536" using assms(2) by (simp add: kBlockSize_def)
  obtain rest where b: "r_buffer r = phys_header t p @ p @ rest"
    and rest: "reader_at (r\<lparr> r_buffer := rest \<rparr>) (off + kHeaderSize + length p) x"
  proof (cases "r_eof r")
    case True
    then show thesis using that [of x] assms by (auto simp: reader_at_def)
  next
    case False
    define rest where "rest = drop (kHeaderSize + length p) (r_buffer r)"
    have len: "kHeaderSize + length p \<le> length (r_buffer r)"
      and eq: "phys_header t p @ p @ x = r_buffer r @ remaining (r_file r)"
      using assms(1,2) False by (auto simp: reader_at_def)
    have "phys_header t p @ p = take (kHeaderSize + length p) (r_buffer r)"
      "x = rest @ remaining (r_file r)"
      using arg_cong [OF eq, of "take (kHeaderSize + length p)"] len
        arg_cong [OF eq, of "drop (kHeaderSize + length p)"] by (simp_all add: rest_def)
    then show thesis
      using that [of rest] len assms(1) False
      by (auto simp: reader_at_def rest_def append_assoc [symmetric] simp del: append_assoc)
  qed
  have "r_initial_offset r = 0" using assms(1) by (simp add: reader_at_def)
  note parse = ParsePhysicalRecord_complete [OF b p assms(3) this, of res]
  have "ReadPhysicalRecord sf res r = (r\<lparr> r_buffer := rest \<rparr>, word_of_nat (RecordType_val t), p)"
    by (subst ReadPhysicalRecord.simps) (simp add: parse, simp add: b)
  then show ?thesis using rest by (simp add: same_config_def)
qed

lemma read_here_truncated:
  assumes "reader_at r off x" "strict_prefix x (phys_header t p @ p)"
    and "off + kHeaderSize + length p \<le> kBlockSize"
  shows "\<exists>r'. ReadPhysicalRecord sf res r = (r', kEof, res) \<and> reader_done r' \<and> same_config r r'"
proof -
  have p: "length p < 65536" using assms(3) by (simp add: kBlockSize_def)
  have "length x < kHeaderSize + length p" using prefix_length_less [OF assms(2)] by simp
  with assms(1,3) have eof: "r_eof r" "r_buffer r = x" "r_initial_offset r = 0"
    by (auto simp: reader_at_def split: if_splits)
  have "ReadPhysicalRecord sf res r = (r\<lparr> r_buffer := [] \<rparr>, kEof, res)"
    using eof ParsePhysicalRecord_truncated [of r t p res] assms(2) p
    by (subst ReadPhysicalRecord.simps) simp
  then show ?thesis using eof by (simp add: reader_done_def same_config_def)
qed

lemma read_frag_complete:
  assumes "reader_at r off (frag_bytes (off, t, p) @ x)" "frag_fits (off, t, p)"
  shows "\<exists>r'. ReadPhysicalRecord sf res r = (r', word_of_nat (RecordType_val t), p) \<and>
    reader_at r' (frag_end (off, t, p)) x \<and> same_config r r'"
proof (cases "kBlockSize - off < kHeaderSize")
  case False
  then show ?thesis
    using assms read_here_complete [of r off t p x res] by (simp add: trailer_def frag_start_def)
next
  case True
  with assms have "\<not> r_eof r" by (auto simp: reader_at_def)
  with True assms(1) obtain r1 where r1: "ReadPhysicalRecord sf res r = ReadPhysicalRecord sf res r1"
      "reader_at r1 0 (drop (kBlockSize - off) (frag_bytes (off, t, p) @ x))" "same_config r r1"
    by (metis load_block)
  with True assms(2) read_here_complete [of r1 0 t p x res] show ?thesis
    by (auto simp: trailer_def frag_start_def intro: same_config_trans)
qed

lemma read_frag_truncated:
  assumes "reader_at r off x" "strict_prefix x (frag_bytes (off, t, p))" "frag_fits (off, t, p)"
  shows "\<exists>r'. ReadPhysicalRecord sf res r = (r', kEof, res) \<and> reader_done r' \<and> same_config r r'"
proof (cases "kBlockSize - off < kHeaderSize")
  case False
  then show ?thesis
    using assms read_here_truncated [of r off x t p res] by (simp add: trailer_def frag_start_def)
next
  case small: True
  show ?thesis
  proof (cases "r_eof r")
    case True
    with assms(1) small have "ReadPhysicalRecord sf res r = (r\<lparr> r_buffer := [] \<rparr>, kEof, res)"
      by (subst ReadPhysicalRecord.simps) (simp add: reader_at_def)
    with assms(1) True show ?thesis by (simp add: reader_at_def reader_done_def same_config_def)
  next
    case False
    with small assms(1) obtain r1 where r1: "ReadPhysicalRecord sf res r = ReadPhysicalRecord sf res r1"
        "reader_at r1 0 (drop (kBlockSize - off) x)" "same_config r r1"
      by (metis load_block)
    have "kBlockSize - off \<le> length x" using assms(1) False by (simp add: reader_at_def)
    moreover from assms(2) obtain z where z: "frag_bytes (off, t, p) = x @ z" "z \<noteq> []"
      by (auto simp: strict_prefix_def elim: prefixE)
    moreover have "phys_header t p @ p = drop (kBlockSize - off) (frag_bytes (off, t, p))"
      using small by (simp add: trailer_def)
    ultimately have "phys_header t p @ p = drop (kBlockSize - off) x @ z" by (simp only: drop_append) simp
    with z(2) have "strict_prefix (drop (kBlockSize - off) x) (phys_header t p @ p)"
      by (simp add: strict_prefix_def)
    with r1 small assms(3) read_here_truncated [of r1 0 _ t p res] show ?thesis
      by (auto simp: frag_start_def intro: same_config_trans)
  qed
qed

section \<open>The reader reassembles the records\<close>

lemma round_first:
  assumes "ReadPhysicalRecord sf (rs_fragment st) (rs_reader st) =
      (r, word_of_nat (RecordType_val (fragment_type (\<not> rs_in_fragmented_record st) e)), p)"
  shows "if e then \<exists>v. ReadRecord_round sf st =
      Inr (r\<lparr> r_last_record_offset := v \<rparr>, Some ((if rs_in_fragmented_record st then rs_scratch st else []) @ p))
    else \<exists>st'. ReadRecord_round sf st = Inl st' \<and> rs_reader st' = r \<and> rs_in_fragmented_record st' \<and>
      rs_scratch st' = (if rs_in_fragmented_record st then rs_scratch st else []) @ p"
  using assms
  by (cases e; cases "rs_in_fragmented_record st")
    (auto simp: ReadRecord_round_def Let_def fragment_type_def type_val_distinct end_partial_record_def
      simp del: RecordType_val.simps)

lemma ReadRecord_loop_complete:
  assumes "reader_at (rs_reader st) off (record_bytes off b d @ x)" "rs_in_fragmented_record st = (\<not> b)"
  shows "\<exists>r'. ReadRecord_loop sf st = Some (r', Some ((if b then [] else rs_scratch st) @ d)) \<and>
    reader_at r' (record_end off b d) x \<and> same_config (rs_reader st) r'"
  using assms
proof (induction off b d arbitrary: st rule: frags.induct)
  case (1 off b d)
  define f where "f = first_frag off b d"
  define rest where "rest = (if frag_len off d < length d
      then record_bytes (frag_end f) False (drop (frag_len off d) d) else [])"
  have f: "f = (off, fragment_type b (length d = frag_len off d), take (frag_len off d) d)"
    by (simp add: f_def first_frag_def)
  have "record_bytes off b d = frag_bytes f @ rest"
    by (subst record_bytes_unfold) (simp add: f_def rest_def)
  then have "reader_at (rs_reader st) off (frag_bytes f @ rest @ x)" using 1(2) by simp
  moreover have "frag_fits f" by (simp add: f_def first_frag_fits)
  ultimately obtain r where r: "ReadPhysicalRecord sf (rs_fragment st) (rs_reader st) =
        (r, word_of_nat (RecordType_val (fragment_type b (length d = frag_len off d))), take (frag_len off d) d)"
      "reader_at r (frag_end f) (rest @ x)" "same_config (rs_reader st) r"
    unfolding f by (metis read_frag_complete)
  note round = round_first [of st r "length d = frag_len off d" "take (frag_len off d) d"]
  show ?case
  proof (cases "frag_len off d < length d")
    case True
    with round r(1) 1(3) obtain st' where st': "ReadRecord_round sf st = Inl st'" "rs_reader st' = r"
        "rs_in_fragmented_record st'"
        "rs_scratch st' = (if b then [] else rs_scratch st) @ take (frag_len off d) d"
      by auto
    have "\<exists>r'. ReadRecord_loop sf st' = Some (r', Some (rs_scratch st' @ drop (frag_len off d) d)) \<and>
        reader_at r' (record_end off b d) x \<and> same_config r r'"
      using 1(1) [OF True, of st'] True st' r(2)
      by (simp add: rest_def record_end_unfold [of off] f_def [symmetric] frag_end_first [of off b d, folded f_def])
    then show ?thesis
      using st' r(3) by (subst ReadRecord_loop.simps) (auto intro: same_config_trans)
  next
    case False
    then have len: "length d = frag_len off d" using frag_len_le(1) [of off d] by simp
    with round r(1) 1(3) have "\<exists>v. ReadRecord_round sf st =
        Inr (r\<lparr> r_last_record_offset := v \<rparr>, Some ((if b then [] else rs_scratch st) @ d))"
      by (cases b) simp_all
    then obtain v where v: "ReadRecord_round sf st =
        Inr (r\<lparr> r_last_record_offset := v \<rparr>, Some ((if b then [] else rs_scratch st) @ d))" ..
    have "record_end off b d = frag_end f" using False by (simp add: record_end_unfold [of off] f_def)
    then show ?thesis
      using v r(2,3) False by (subst ReadRecord_loop.simps)
        (simp add: reader_at_def same_config_def rest_def)
  qed
qed

lemma ReadRecord_loop_truncated:
  assumes "reader_at (rs_reader st) off x" "strict_prefix x (record_bytes off b d)"
    and "rs_in_fragmented_record st = (\<not> b)"
  shows "\<exists>r'. ReadRecord_loop sf st = Some (r', None) \<and> reader_done r' \<and> same_config (rs_reader st) r'"
  using assms
proof (induction off b d arbitrary: st x rule: frags.induct)
  case (1 off b d)
  define f where "f = first_frag off b d"
  define rest where "rest = (if frag_len off d < length d
      then record_bytes (frag_end f) False (drop (frag_len off d) d) else [])"
  have f: "f = (off, fragment_type b (length d = frag_len off d), take (frag_len off d) d)"
    by (simp add: f_def first_frag_def)
  have fits: "frag_fits f" by (simp add: f_def first_frag_fits)
  have "record_bytes off b d = frag_bytes f @ rest"
    by (subst record_bytes_unfold) (simp add: f_def rest_def)
  with 1(3) have "strict_prefix x (frag_bytes f @ rest)" by simp
  then show ?case
  proof (cases rule: strict_prefix_append_cases)
    case 1
    with fits \<open>reader_at (rs_reader st) off x\<close> obtain r where
      r: "ReadPhysicalRecord sf (rs_fragment st) (rs_reader st) = (r, kEof, rs_fragment st)"
        "reader_done r" "same_config (rs_reader st) r"
      unfolding f by (metis read_frag_truncated)
    then have "ReadRecord_round sf st = Inr (r, None)"
      by (simp add: ReadRecord_round_def Let_def type_val_distinct del: RecordType_val.simps)
    then show ?thesis using r by (subst ReadRecord_loop.simps) simp
  next
    case (2 y)
    then have less: "frag_len off d < length d" by (auto simp: rest_def split: if_splits)
    then have f2: "f = (off, fragment_type b False, take (frag_len off d) d)" by (simp add: f)
    have "reader_at (rs_reader st) off (frag_bytes f @ y)" using 1(2) 2(1) by simp
    from read_frag_complete [OF this [unfolded f2] fits [unfolded f2], of "rs_fragment st"]
    obtain r where r: "ReadPhysicalRecord sf (rs_fragment st) (rs_reader st) =
          (r, word_of_nat (RecordType_val (fragment_type b False)), take (frag_len off d) d)"
        "reader_at r (frag_end f) y" "same_config (rs_reader st) r"
      unfolding f2 by blast
    with round_first [of st r False "take (frag_len off d) d"] 1(4) obtain st' where
      st': "ReadRecord_round sf st = Inl st'" "rs_reader st' = r" "rs_in_fragmented_record st'"
      by auto
    have "\<exists>r'. ReadRecord_loop sf st' = Some (r', None) \<and> reader_done r' \<and> same_config r r'"
      using 1(1) [OF less, of st' y] st' r(2) 2(2) less
      by (simp add: rest_def frag_end_first [of off b d, folded f_def])
    then show ?thesis
      using st' r(3) by (subst ReadRecord_loop.simps) (auto intro: same_config_trans)
  qed
qed

lemma reader_at_initial: "reader_at r off x \<Longrightarrow> r_initial_offset r = 0"
  by (simp add: reader_at_def)

lemma ReadRecord_start:
  "r_initial_offset r = 0 \<Longrightarrow> ReadRecord sf r = ReadRecord_loop sf
    \<lparr> rs_reader = r, rs_fragment = [], rs_scratch = [], rs_in_fragmented_record = False,
      rs_prospective_record_offset = 0 \<rparr>"
  by (simp add: ReadRecord_def)

lemma ReadRecord_complete:
  assumes "reader_at r off (record_bytes off True d @ x)"
  shows "\<exists>r'. ReadRecord sf r = Some (r', Some d) \<and> reader_at r' (record_end off True d) x \<and> same_config r r'"
  using ReadRecord_loop_complete [of "\<lparr> rs_reader = r, rs_fragment = [], rs_scratch = [],
      rs_in_fragmented_record = False, rs_prospective_record_offset = 0 \<rparr>" off True d x] assms
  by (simp add: ReadRecord_start [OF reader_at_initial [OF assms(1)]])

lemma ReadRecord_truncated:
  assumes "reader_at r off x" "strict_prefix x (record_bytes off True d)"
  shows "\<exists>r'. ReadRecord sf r = Some (r', None) \<and> reader_done r' \<and> same_config r r'"
  using ReadRecord_loop_truncated [of "\<lparr> rs_reader = r, rs_fragment = [], rs_scratch = [],
      rs_in_fragmented_record = False, rs_prospective_record_offset = 0 \<rparr>" off x True d] assms
  by (simp add: ReadRecord_start [OF reader_at_initial [OF assms(1)]])

lemma ReadRecord_done: "reader_done r \<Longrightarrow> ReadRecord sf r = Some (r, None)"
  by (simp add: reader_done_def ReadRecord_start, subst ReadRecord_loop.simps,
      simp add: ReadRecord_round_def Let_def ReadPhysicalRecord.simps [of sf "[]" r] kHeaderSize_def
        type_val_distinct del: RecordType_val.simps)

end

section \<open>Reading a whole log\<close>

text \<open>
  The loop of the users of the reader, for instance \<open>DBImpl::RecoverLogFile\<close>: read
  records until \<open>ReadRecord\<close> returns false.
\<close>

partial_function (option) ReadAll ::
  "'f SequentialFile \<Rightarrow> 'f Reader \<Rightarrow> (bytes list \<times> 'f Reader) option" where
  "ReadAll sops r =
     (case ReadRecord sops r of
        None \<Rightarrow> None
      | Some (r', res) \<Rightarrow>
          (case res of
             None \<Rightarrow> Some ([], r')
           | Some d \<Rightarrow> Option.bind (ReadAll sops r') (\<lambda>(ds, r''). Some (d # ds, r''))))"

text \<open>The records of which the first \<open>n\<close> bytes of a log hold every byte.\<close>

fun intact :: "nat \<Rightarrow> nat \<Rightarrow> bytes list \<Rightarrow> bytes list" where
  "intact off n [] = []"
| "intact off n (d # ds) =
     (if length (record_bytes off True d) \<le> n
      then d # intact (record_end off True d) (n - length (record_bytes off True d)) ds else [])"

lemma intact_prefix:
  "\<exists>k. intact off n ds = take k ds \<and> k \<le> length ds \<and> length (log_bytes off (take k ds)) \<le> n \<and>
     (k < length ds \<longrightarrow> n < length (log_bytes off (take (Suc k) ds)))"
proof (induction ds arbitrary: off n)
  case (Cons d ds)
  show ?case
  proof (cases "length (record_bytes off True d) \<le> n")
    case True
    from Cons.IH [of "record_end off True d" "n - length (record_bytes off True d)"] obtain k where
      "intact (record_end off True d) (n - length (record_bytes off True d)) ds = take k ds"
      "k \<le> length ds"
      "length (log_bytes (record_end off True d) (take k ds)) \<le> n - length (record_bytes off True d)"
      "k < length ds \<longrightarrow> n - length (record_bytes off True d) <
        length (log_bytes (record_end off True d) (take (Suc k) ds))" by blast
    then show ?thesis using True by (intro exI [of _ "Suc k"]) auto
  qed (auto intro!: exI [of _ 0])
qed simp

lemma record_bytes_not_Nil [simp]: "record_bytes off b d \<noteq> []"
proof -
  have "0 < length (frag_bytes (first_frag off b d))" by (simp add: first_frag_def kHeaderSize_def)
  then show ?thesis by (subst record_bytes_unfold) auto
qed

context sequential_file
begin

lemma ReadAll_intact:
  assumes "reader_at r off (take n (log_bytes off ds))"
  shows "\<exists>r'. ReadAll sf r = Some (intact off n ds, r') \<and> r_reports r' = r_reports r"
  using assms
proof (induction ds arbitrary: r off n)
  case Nil
  have "strict_prefix [] (record_bytes off True [])"
    by (simp add: strict_prefix_def not_sym [OF record_bytes_not_Nil])
  with Nil ReadRecord_truncated [of r off "[]" "[]"] show ?case
    by (subst ReadAll.simps) (auto simp: same_config_def)
next
  case (Cons d ds)
  show ?case
  proof (cases "length (record_bytes off True d) \<le> n")
    case True
    then have "reader_at r off (record_bytes off True d @
        take (n - length (record_bytes off True d)) (log_bytes (record_end off True d) ds))"
      using Cons.prems by simp
    from ReadRecord_complete [OF this] obtain r1 where r1: "ReadRecord sf r = Some (r1, Some d)"
        "reader_at r1 (record_end off True d)
          (take (n - length (record_bytes off True d)) (log_bytes (record_end off True d) ds))"
        "same_config r r1" by blast
    from Cons.IH [OF r1(2)] r1(1,3) True show ?thesis
      by (subst ReadAll.simps) (auto simp: same_config_def)
  next
    case False
    then have "reader_at r off (take n (record_bytes off True d))" using Cons.prems by simp
    moreover have "strict_prefix (take n (record_bytes off True d)) (record_bytes off True d)"
      using False by (simp add: strict_prefix_def take_is_prefix)
    ultimately obtain r1 where "ReadRecord sf r = Some (r1, None)" "same_config r r1"
      using ReadRecord_truncated by blast
    then show ?thesis using False by (subst ReadAll.simps) (simp add: same_config_def)
  qed
qed

lemma Reader_new_at:
  assumes "sok f" "remaining f = take n (log_bytes 0 ds)"
  shows "reader_at (Reader_new f rep chk 0) kBlockSize (take n (log_bytes kBlockSize ds))"
  using assms by (simp add: reader_at_def Reader_new_def log_bytes_at_end)

text \<open>
  Progress: every physical record consumes bytes, whatever the file holds.
\<close>

definition left_to_read :: "'f Reader \<Rightarrow> nat" where
  "left_to_read r = length (remaining (r_file r)) + length (r_buffer r) + (if r_eof r then 0 else 1)"

lemma ReportDrop_frame [simp]:
  "r_file (ReportDrop n s r) = r_file r" "r_buffer (ReportDrop n s r) = r_buffer r"
  "r_eof (ReportDrop n s r) = r_eof r" "left_to_read (ReportDrop n s r) = left_to_read r"
  by (simp_all add: ReportDrop_def left_to_read_def)

lemma ParsePhysicalRecord_progress:
  assumes "ParsePhysicalRecord res r = (r', ty, p)" "kHeaderSize \<le> length (r_buffer r)"
  shows "r_file r' = r_file r \<and> left_to_read r' < left_to_read r"
proof -
  have "r_buffer r \<noteq> []" using assms(2) kHeaderSize_pos by auto
  with assms kHeaderSize_pos show ?thesis
    by (auto simp: ParsePhysicalRecord_def Let_def ReportCorruption_def left_to_read_def
        remove_prefix_def split: if_splits)
qed

lemma load_any_block:
  assumes "sok (r_file r)" "length (r_buffer r) < kHeaderSize" "\<not> r_eof r"
  obtains r1 where "ReadPhysicalRecord sf res r = ReadPhysicalRecord sf res r1" "sok (r_file r1)"
    "left_to_read r1 \<le> left_to_read r" "r_eof r1 \<or> kHeaderSize \<le> length (r_buffer r1)"
proof -
  define y where "y = remaining (r_file r)"
  obtain f' where f': "Read sf kBlockSize [] (r_file r) = (f', take kBlockSize y, OK)" "sok f'"
      "remaining f' = drop kBlockSize y"
    using read_ok [OF assms(1), of kBlockSize "[]"] by (auto simp: y_def)
  define r1 where "r1 = r\<lparr> r_file := f', r_buffer := take kBlockSize y,
      r_end_of_buffer_offset := r_end_of_buffer_offset r + word_of_nat (length (take kBlockSize y)),
      r_eof := (length y < kBlockSize) \<rparr>"
  show thesis
  proof (rule that)
    show "ReadPhysicalRecord sf res r = ReadPhysicalRecord sf res r1"
      using assms f'(1) by (subst ReadPhysicalRecord.simps)
        (auto simp: Reader_ReadBlock_def Let_def r1_def min_def
          intro!: arg_cong [of _ _ "ReadPhysicalRecord sf res"])
    show "sok (r_file r1)" using f'(2) by (simp add: r1_def)
    show "left_to_read r1 \<le> left_to_read r"
      using assms(3) f'(3) by (simp add: left_to_read_def r1_def y_def)
    show "r_eof r1 \<or> kHeaderSize \<le> length (r_buffer r1)"
      by (auto simp: r1_def kHeaderSize_def kBlockSize_def)
  qed
qed

lemma ReadPhysicalRecord_progress:
  assumes "ReadPhysicalRecord sf res r = (r', ty, p)" "sok (r_file r)"
  shows "sok (r_file r') \<and> (ty = kEof \<or> left_to_read r' < left_to_read r)"
proof -
  have parse: "sok (r_file r2) \<and> (ty2 = kEof \<or> left_to_read r2 < left_to_read r1)"
    if "ReadPhysicalRecord sf res r1 = (r2, ty2, p2)" "sok (r_file r1)"
      "r_eof r1 \<or> kHeaderSize \<le> length (r_buffer r1)" for r1 r2 :: "'f Reader" and ty2 p2
    using that ParsePhysicalRecord_progress [of res r1 r2 ty2 p2]
    by (subst (asm) ReadPhysicalRecord.simps) (auto split: if_splits)
  show ?thesis
  proof (cases "r_eof r \<or> kHeaderSize \<le> length (r_buffer r)")
    case True
    then show ?thesis using parse assms by blast
  next
    case False
    then obtain r1 where r1: "ReadPhysicalRecord sf res r = ReadPhysicalRecord sf res r1" "sok (r_file r1)"
        "left_to_read r1 \<le> left_to_read r" "r_eof r1 \<or> kHeaderSize \<le> length (r_buffer r1)"
      using load_any_block [OF assms(2)] by (metis not_le)
    with parse [of r1 r' ty p] assms(1) show ?thesis by auto
  qed
qed

lemma ReadRecord_round_progress:
  assumes "sok (r_file (rs_reader st))"
  shows "case ReadRecord_round sf st of
      Inl st' \<Rightarrow> sok (r_file (rs_reader st')) \<and> left_to_read (rs_reader st') < left_to_read (rs_reader st)
    | Inr (r', res) \<Rightarrow> sok (r_file r') \<and> (res = None \<or> left_to_read r' < left_to_read (rs_reader st))"
proof -
  obtain r' ty p where r': "ReadPhysicalRecord sf (rs_fragment st) (rs_reader st) = (r', ty, p)"
    by (metis prod_cases3)
  have keep: "left_to_read (x\<lparr> r_last_record_offset := v \<rparr>) = left_to_read x" for x :: "'f Reader" and v
    by (simp add: left_to_read_def)
  from ReadPhysicalRecord_progress [OF r' assms] show ?thesis
    by (auto simp: ReadRecord_round_def Let_def r' keep ReportCorruption_def end_partial_record_def
        type_val_distinct split: sum.splits simp del: RecordType_val.simps)
qed

lemma ReadRecord_loop_returns:
  assumes "sok (r_file (rs_reader st))"
  shows "\<exists>r' res. ReadRecord_loop sf st = Some (r', res) \<and> sok (r_file r') \<and>
    (res = None \<or> left_to_read r' < left_to_read (rs_reader st))"
  using assms
proof (induction "left_to_read (rs_reader st)" arbitrary: st rule: less_induct)
  case less
  from ReadRecord_round_progress [OF less(2)] less(1) show ?case
    by (subst ReadRecord_loop.simps) (fastforce split: sum.splits)
qed

lemma SkipToInitialBlock_progress:
  assumes "sok (r_file r)"
  shows "\<exists>r1. SkipToInitialBlock sf r = (r1, True) \<and> sok (r_file r1) \<and> left_to_read r1 \<le> left_to_read r"
proof -
  have "\<exists>f'. Skip sf k (r_file r) = (f', OK) \<and> sok f' \<and> remaining f' = drop (unat k) (remaining (r_file r))" for k
    by (rule skip_ok [OF assms])
  then obtain g where g: "Skip sf k (r_file r) = (g k, OK)" "sok (g k)"
      "remaining (g k) = drop (unat k) (remaining (r_file r))" for k
    by metis
  show ?thesis
    using assms by (auto simp: SkipToInitialBlock_def Let_def g left_to_read_def)
qed

lemma ReadRecord_returns:
  assumes "sok (r_file r)"
  shows "\<exists>r' res. ReadRecord sf r = Some (r', res) \<and> sok (r_file r') \<and>
    (res = None \<or> left_to_read r' < left_to_read r)"
proof -
  obtain r1 where r1: "(if r_last_record_offset r < r_initial_offset r then SkipToInitialBlock sf r else (r, True))
      = (r1, True)" "sok (r_file r1)" "left_to_read r1 \<le> left_to_read r"
    using SkipToInitialBlock_progress [OF assms] assms
    by (cases "r_last_record_offset r < r_initial_offset r") auto
  have "ReadRecord sf r = ReadRecord_loop sf
      \<lparr> rs_reader = r1, rs_fragment = [], rs_scratch = [], rs_in_fragmented_record = False,
        rs_prospective_record_offset = 0 \<rparr>"
    unfolding ReadRecord_def r1(1) by simp
  with ReadRecord_loop_returns [of "\<lparr> rs_reader = r1, rs_fragment = [], rs_scratch = [],
      rs_in_fragmented_record = False, rs_prospective_record_offset = 0 \<rparr>"] r1(2,3)
  show ?thesis by (auto dest: less_le_trans)
qed

lemma ReadAll_returns: "sok (r_file r) \<Longrightarrow> \<exists>ds r'. ReadAll sf r = Some (ds, r')"
proof (induction "left_to_read r" arbitrary: r rule: less_induct)
  case less
  from ReadRecord_returns [OF less(2)] less(1) show ?case
    by (subst ReadAll.simps) (fastforce split: option.splits)
qed

end

section \<open>Correctness\<close>

text \<open>
  The log of the records \<open>ds\<close> written to a fresh in-memory file, and the file it leaves.
\<close>

definition write_log :: "bytes list \<Rightarrow> FileState Writer \<times> Status" where
  "write_log ds = AddRecords WritableFileImpl_ops (Writer_new FileState_new) ds"

definition log_file :: "bytes list \<Rightarrow> bytes" where
  "log_file ds = fs_contents (w_dest (fst (write_log ds)))"

lemma FileState_new_ok: "fs_ok FileState_new" "fs_contents FileState_new = []"
  by (simp_all add: FileState_new_def fs_ok_def fs_contents_def)

lemma write_log_ok:
  assumes "length (log_bytes 0 ds) < 2 ^ 64"
  shows "Status_ok (snd (write_log ds)) \<and> fs_ok (w_dest (fst (write_log ds))) \<and> log_file ds = log_bytes 0 ds"
proof -
  have "mem_writable.writer_at (Writer_new FileState_new) 0 []"
    by (simp add: mem_writable.writer_at_def Writer_new_def type_crc_ok_def FileState_new_ok)
  from mem_writable.AddRecords_ok [OF this, of ds] assms show ?thesis
    by (auto simp: write_log_def log_file_def)
qed

lemma log_bytes_take_le: "length (log_bytes off (take k ds)) \<le> length (log_bytes off ds)"
  using log_bytes_append [of off "take k ds" "drop k ds"] by simp

text \<open>
  C2. Crash recovery. Write any records to a log and keep any prefix of the file,
  as a crash or a torn write may leave it: the reader returns exactly the records that are
  completely inside the prefix, in order, and reports no corruption. In particular the whole
  file gives back all records. The file reached by the first \<open>k\<close> records has length
  \<open>length (log_file (take k ds))\<close>.
\<close>

theorem log_crash_recovery:
  assumes "length (log_bytes 0 ds) < 2 ^ 64"
    and "fs_ok fs" "fs_contents fs = take n (log_file ds)"
  shows "\<exists>k r'. ReadAll SequentialFileImpl_ops (Reader_new (SequentialFileImpl_new fs) True chk 0)
        = Some (take k ds, r') \<and> r_reports r' = [] \<and> k \<le> length ds \<and>
      length (log_file (take k ds)) \<le> n \<and>
      (k < length ds \<longrightarrow> n < length (log_file (take (Suc k) ds)))"
proof -
  let ?f = "SequentialFileImpl_new fs"
  have lf: "log_file (take j ds) = log_bytes 0 (take j ds)" for j
    using write_log_ok [of "take j ds"] log_bytes_take_le [of 0 j ds] assms(1) by simp
  have "sf_ok ?f" "sf_remaining ?f = take n (log_bytes 0 ds)"
    using assms write_log_ok [OF assms(1)]
    by (simp_all add: SequentialFileImpl_new_def sf_ok_def sf_remaining_def FileState_Ref_def
        fs_ok_def fs_contents_def)
  from mem_sequential.ReadAll_intact [OF mem_sequential.Reader_new_at [OF this, of True chk]]
  obtain r' where r': "ReadAll SequentialFileImpl_ops (Reader_new ?f True chk 0) = Some (intact kBlockSize n ds, r')"
      "r_reports r' = []" by (auto simp: Reader_new_def)
  obtain k where "intact kBlockSize n ds = take k ds" "k \<le> length ds"
      "length (log_bytes kBlockSize (take k ds)) \<le> n"
      "k < length ds \<longrightarrow> n < length (log_bytes kBlockSize (take (Suc k) ds))"
    using intact_prefix [of kBlockSize n ds] by blast
  with r' show ?thesis
    by (intro exI [of _ k] exI [of _ r']) (simp add: lf log_bytes_at_end)
qed

lemma log_bytes_single:
  "length d + kHeaderSize \<le> kBlockSize \<Longrightarrow> length (log_bytes 0 [d]) = kHeaderSize + length d"
  by (simp add: record_bytes_unfold [of 0] first_frag_def frag_len_def frag_start_def trailer_def
      kHeaderSize_def kBlockSize_def)

theorem log_crash_recovery_witness:
  "\<exists>r'. ReadAll SequentialFileImpl_ops
      (Reader_new (SequentialFileImpl_new (w_dest (fst (write_log [cstr ''ab''])))) True True 0)
    = Some ([cstr ''ab''], r') \<and> r_reports r' = []"
proof -
  have len: "length (log_bytes 0 [cstr ''ab'']) = 9"
    by (subst log_bytes_single) (simp_all add: kHeaderSize_def kBlockSize_def)
  then have ok: "log_file [cstr ''ab''] = log_bytes 0 [cstr ''ab'']"
      "fs_ok (w_dest (fst (write_log [cstr ''ab''])))"
    using write_log_ok [of "[cstr ''ab'']"] by simp_all
  with len have "fs_contents (w_dest (fst (write_log [cstr ''ab'']))) = take 9 (log_file [cstr ''ab''])"
    by (simp add: log_file_def)
  from log_crash_recovery [OF _ ok(2) this, of True] len obtain k r' where
    "ReadAll SequentialFileImpl_ops
        (Reader_new (SequentialFileImpl_new (w_dest (fst (write_log [cstr ''ab''])))) True True 0)
      = Some (take k [cstr ''ab''], r')" "r_reports r' = []" "k \<le> 1"
    "k < 1 \<longrightarrow> 9 < length (log_file (take (Suc k) [cstr ''ab'']))" by auto
  moreover from this have "k = 1" using ok(1) len by (cases k) (auto simp del: cstr_Cons)
  ultimately show ?thesis by auto
qed

text \<open>
  C29. Recovery never hangs. For every file content, valid or not, every initial
  offset and with checksums on or off, each call of \<open>ReadRecord\<close> returns, and so does
  reading until the end.
\<close>

theorem log_reader_terminates:
  assumes "sf_ok (r_file r)"
  shows "(\<exists>res. ReadRecord SequentialFileImpl_ops r = Some res) \<and>
    (\<exists>ds r'. ReadAll SequentialFileImpl_ops r = Some (ds, r'))"
  using mem_sequential.ReadRecord_returns [OF assms] mem_sequential.ReadAll_returns [OF assms] by blast

theorem log_reader_terminates_witness:
  "\<exists>ds r'. ReadAll SequentialFileImpl_ops
     (Reader_new (SequentialFileImpl_new \<lparr> fs_refs = 1, fs_blocks = [cstr ''garbage!''], fs_size = 8 \<rparr>) True True 3)
     = Some (ds, r')"
  using log_reader_terminates [of "Reader_new (SequentialFileImpl_new
      \<lparr> fs_refs = 1, fs_blocks = [cstr ''garbage!''], fs_size = 8 \<rparr>) True True 3"]
  by (simp add: Reader_new_def SequentialFileImpl_new_def FileState_Ref_def sf_ok_def fs_ok_def
      fs_contents_def mem_kBlockSize_def)

end
