(* ===== verification/Tracer.thy ===== *)
theory Tracer
  imports Logging
begin

text \<open>
  \<open>data_gen/lib\<close>: the preloaded library that traces the file accesses of a program.
  \<open>frontend.cpp\<close> interposes \<open>read\<close>, \<open>write\<close>, \<open>fread\<close> and \<open>fwrite\<close>: each performs the
  real call and then reports regular files to \<open>handler.cpp\<close>, which appends a line to
  \<open>ACCESS_LOG\<close> while it holds a named semaphore that all traced processes share.

  The calls into the C library and the kernel are a parameter (\<open>libc\<close>); so are the
  answers the host gives to \<open>fopen\<close>, \<open>sem_open\<close> and \<open>sem_wait\<close>. The semaphores and the
  log are the state. The second half runs any number of processes interleaved.
\<close>

type_synonym i32 = "32 word"
type_synonym off_t = "64 word"

section \<open>The state of the tracer\<close>

text \<open>
  Semaphore objects have identities; the name \<open>mysem\<close> is bound to at most one of them.
  \<open>mysemp\<close>, a global of each process, is \<open>None\<close> for \<open>SEM_FAILED\<close>.
\<close>

record tracer =
  sem_name :: "nat option"
  sem_val :: "nat \<Rightarrow> nat"
  sem_next :: nat
  ACCESS_LOG :: bytes
  t_stdout :: bytes

type_synonym mysemp = "nat option"

text \<open>
  A call returns, waits for a semaphore, or has no defined behaviour. The host decides whether
  \<open>fopen\<close> succeeds, how many bytes at the end of a line a write error in \<open>fclose\<close> loses, and whether a
  signal interrupts \<open>sem_wait\<close>.
\<close>

datatype 'a outcome = Returns 'a | Blocks | Undefined

record host =
  h_pid :: i32
  h_fopen_ok :: bool
  h_lost :: nat
  h_interrupted :: bool

section \<open>handler.cpp\<close>

text \<open>\<open>err\<close> is the host's message when \<open>sem_open\<close> fails.\<close>

definition open_sem :: "bytes option \<Rightarrow> tracer \<Rightarrow> tracer \<times> mysemp \<times> bool" where
  "open_sem err t =
     (case err of
        Some msg \<Rightarrow>
          (t\<lparr> t_stdout := t_stdout t @ cstr ''sem_open() failed '' @ msg @ [10] \<rparr>, None, False)
      | None \<Rightarrow>
          (case sem_name t of
             Some k \<Rightarrow> (t, Some k, True)
           | None \<Rightarrow>
               (let k = sem_next t
                in (t\<lparr> sem_name := Some k, sem_val := (sem_val t)(k := 1), sem_next := Suc k \<rparr>,
                    Some k, True))))"

text \<open>
  \<open>sem_wait\<close> fails with \<open>EINVAL\<close> for an invalid semaphore and with \<open>EINTR\<close> when a signal interrupts it,
  and otherwise waits for a positive value. \<open>sem_post\<close> fails for an invalid semaphore too, and then
  \<open>post_sem\<close> flows off its end without returning a value, which is undefined behaviour.
\<close>

definition get_sem :: "host \<Rightarrow> mysemp \<Rightarrow> tracer \<Rightarrow> (tracer \<times> bool) outcome" where
  "get_sem h semp t =
     (case semp of
        None \<Rightarrow> Returns (t, False)
      | Some k \<Rightarrow>
          if h_interrupted h then Returns (t, False)
          else if sem_val t k = 0 then Blocks
          else Returns (t\<lparr> sem_val := (sem_val t)(k := sem_val t k - 1) \<rparr>, True))"

definition post_sem :: "mysemp \<Rightarrow> tracer \<Rightarrow> (tracer \<times> bool) outcome" where
  "post_sem semp t =
     (case semp of
        None \<Rightarrow> Undefined
      | Some k \<Rightarrow> Returns (t\<lparr> sem_val := (sem_val t)(k := sem_val t k + 1) \<rparr>, True))"

text \<open>\<open>sem_unlink\<close> returns 0 when it removes the name and -1 otherwise, converted to \<open>bool\<close>.\<close>

definition dest_sem :: "tracer \<Rightarrow> tracer \<times> bool" where
  "dest_sem t = (t\<lparr> sem_name := None \<rparr>, sem_name t = None)"

text \<open>The format \<open>"%d,%d,%d,%lu,%zu\n"\<close>.\<close>

definition log_line :: "i32 \<Rightarrow> i32 \<Rightarrow> i32 \<Rightarrow> off_t \<Rightarrow> u64 \<Rightarrow> bytes" where
  "log_line type pid fd off n =
     fmt_d (sint type) @ [44] @ fmt_d (sint pid) @ [44] @ fmt_d (sint fd) @ [44] @
     fmt_u (unat off) @ [44] @ fmt_u (unat n) @ [10]"

text \<open>
  \<open>write_log\<close> opens the file for appending, puts the line into the buffer of the stream, and \<open>fclose\<close>
  writes the buffer to the end of the file. The results of the last two calls are ignored. The C
  values -1 and 0 become the booleans true and false.
\<close>

definition log_fopen :: "host \<Rightarrow> tracer \<Rightarrow> tracer \<times> bool" where
  "log_fopen h t =
     (if h_fopen_ok h then (t, True)
      else (t\<lparr> t_stdout := t_stdout t @ cstr ''Unable to open file'' @ [10] \<rparr>, False))"

definition log_write :: "bytes \<Rightarrow> tracer \<Rightarrow> tracer" where
  "log_write bs t = t\<lparr> ACCESS_LOG := ACCESS_LOG t @ bs \<rparr>"

definition write_log ::
  "host \<Rightarrow> i32 \<Rightarrow> i32 \<Rightarrow> i32 \<Rightarrow> off_t \<Rightarrow> u64 \<Rightarrow> tracer \<Rightarrow> tracer \<times> bool" where
  "write_log h type pid fd off n t =
     (case log_fopen h t of
        (t, False) \<Rightarrow> (t, True)
      | (t, True) \<Rightarrow>
          (let buffer = log_line type pid fd off n
           in (log_write (take (length buffer - h_lost h) buffer) t, False)))"

text \<open>The common sanity check, and the sequence of calls of the two handlers.\<close>

definition sane :: "i32 \<Rightarrow> off_t \<Rightarrow> u64 \<Rightarrow> bool" where
  "sane fd pos n \<longleftrightarrow> \<not> (sint pos < 0 \<or> n \<le> 0 \<or> sint fd \<le> 2)"

definition handle_access ::
  "i32 \<Rightarrow> host \<Rightarrow> mysemp \<Rightarrow> i32 \<Rightarrow> off_t \<Rightarrow> u64 \<Rightarrow> tracer \<Rightarrow> (tracer \<times> bool) outcome" where
  "handle_access type h semp fd pos n t =
     (if \<not> sane fd pos n then Returns (t, False)
      else case get_sem h semp t of
        Blocks \<Rightarrow> Blocks
      | Undefined \<Rightarrow> Undefined
      | Returns (t1, _) \<Rightarrow>
          (case post_sem semp (fst (write_log h type (h_pid h) fd pos n t1)) of
             Blocks \<Rightarrow> Blocks
           | Undefined \<Rightarrow> Undefined
           | Returns (t2, _) \<Rightarrow> Returns (t2, True)))"

definition handle_read ::
  "host \<Rightarrow> mysemp \<Rightarrow> i32 \<Rightarrow> off_t \<Rightarrow> u64 \<Rightarrow> tracer \<Rightarrow> (tracer \<times> bool) outcome" where
  "handle_read h semp fd pos n t = handle_access 0 h semp fd pos n t"

definition handle_write ::
  "host \<Rightarrow> mysemp \<Rightarrow> i32 \<Rightarrow> off_t \<Rightarrow> u64 \<Rightarrow> tracer \<Rightarrow> (tracer \<times> bool) outcome" where
  "handle_write h semp fd pos n t = handle_access 1 h semp fd pos n t"

section \<open>frontend.cpp\<close>

text \<open>
  The calls below the tracer, on a state \<open>'s\<close> of the traced process, with \<open>'f\<close> for
  \<open>FILE *\<close>. Buffers are addresses.
\<close>

record ('f, 's) libc =
  real_read :: "i32 \<Rightarrow> nat \<Rightarrow> u64 \<Rightarrow> 's \<Rightarrow> 's \<times> u64"
  real_write :: "i32 \<Rightarrow> nat \<Rightarrow> u64 \<Rightarrow> 's \<Rightarrow> 's \<times> u64"
  real_fread :: "nat \<Rightarrow> u64 \<Rightarrow> u64 \<Rightarrow> 'f \<Rightarrow> 's \<Rightarrow> 's \<times> u64"
  real_fwrite :: "nat \<Rightarrow> u64 \<Rightarrow> u64 \<Rightarrow> 'f \<Rightarrow> 's \<Rightarrow> 's \<times> u64"
  os_fileno :: "'f \<Rightarrow> 's \<Rightarrow> i32"
  os_ftell :: "'f \<Rightarrow> 's \<Rightarrow> off_t"
  os_lseek_cur :: "i32 \<Rightarrow> 's \<Rightarrow> off_t"
  os_fstat :: "i32 \<Rightarrow> 's \<Rightarrow> u32 option"

definition S_IFMT :: u32 where "S_IFMT = 0xF000"
definition S_IFREG :: u32 where "S_IFREG = 0x8000"

text \<open>The other file types of the \<open>switch\<close>: block, character, directory, pipe, link, socket.\<close>

definition other_types :: "u32 list" where
  "other_types = [0x6000, 0x2000, 0x4000, 0x1000, 0xA000, 0xC000]"

definition reg_fd :: "('f, 's) libc \<Rightarrow> 's \<Rightarrow> i32 \<Rightarrow> tracer \<Rightarrow> tracer \<times> bool" where
  "reg_fd os s fd t =
     (if sint fd \<le> 2 then (t, False)
      else case os_fstat os fd s of
        None \<Rightarrow> (t, False)
      | Some st_mode \<Rightarrow>
          (let ty = st_mode AND S_IFMT in
           if ty = S_IFREG then (t, True)
           else if ty \<in> set other_types then (t, False)
           else (t\<lparr> t_stdout := t_stdout t @ cstr ''fd:'' @ fmt_d (sint fd) @ cstr '' unknown?'' @ [10] \<rparr>,
                 False)))"

definition reg_file :: "('f, 's) libc \<Rightarrow> 's \<Rightarrow> 'f \<Rightarrow> tracer \<Rightarrow> tracer \<times> bool" where
  "reg_file os s stream t = reg_fd os s (os_fileno os stream s) t"

text \<open>What the four wrappers do after the real call.\<close>

definition report ::
  "(tracer \<Rightarrow> (tracer \<times> bool) outcome) \<Rightarrow> tracer \<times> bool \<Rightarrow> 's \<times> u64 \<Rightarrow> ('s \<times> tracer \<times> u64) outcome" where
  "report handle reg r =
     (if \<not> snd reg then Returns (fst r, fst reg, snd r)
      else case handle (fst reg) of
        Blocks \<Rightarrow> Blocks
      | Undefined \<Rightarrow> Undefined
      | Returns (t, _) \<Rightarrow> Returns (fst r, t, snd r))"

definition traced_read ::
  "('f, 's) libc \<Rightarrow> host \<Rightarrow> mysemp \<Rightarrow> i32 \<Rightarrow> nat \<Rightarrow> u64 \<Rightarrow> 's \<Rightarrow> tracer \<Rightarrow> ('s \<times> tracer \<times> u64) outcome" where
  "traced_read os h semp fd data sz s t =
     (let r = real_read os fd data sz s
      in report (handle_read h semp fd (os_lseek_cur os fd (fst r)) sz) (reg_fd os (fst r) fd t) r)"

definition traced_write ::
  "('f, 's) libc \<Rightarrow> host \<Rightarrow> mysemp \<Rightarrow> i32 \<Rightarrow> nat \<Rightarrow> u64 \<Rightarrow> 's \<Rightarrow> tracer \<Rightarrow> ('s \<times> tracer \<times> u64) outcome" where
  "traced_write os h semp fd data sz s t =
     (let r = real_write os fd data sz s
      in report (handle_write h semp fd (os_lseek_cur os fd (fst r)) sz) (reg_fd os (fst r) fd t) r)"

definition traced_fread ::
  "('f, 's) libc \<Rightarrow> host \<Rightarrow> mysemp \<Rightarrow> nat \<Rightarrow> u64 \<Rightarrow> u64 \<Rightarrow> 'f \<Rightarrow> 's \<Rightarrow> tracer \<Rightarrow> ('s \<times> tracer \<times> u64) outcome" where
  "traced_fread os h semp ptr sz nmemb stream s t =
     (let r = real_fread os ptr sz nmemb stream s;
          fd = os_fileno os stream (fst r)
      in report (handle_read h semp fd (os_ftell os stream (fst r)) (sz * nmemb))
           (reg_file os (fst r) stream t) r)"

definition traced_fwrite ::
  "('f, 's) libc \<Rightarrow> host \<Rightarrow> mysemp \<Rightarrow> nat \<Rightarrow> u64 \<Rightarrow> u64 \<Rightarrow> 'f \<Rightarrow> 's \<Rightarrow> tracer \<Rightarrow> ('s \<times> tracer \<times> u64) outcome" where
  "traced_fwrite os h semp ptr sz nmemb stream s t =
     (let r = real_fwrite os ptr sz nmemb stream s;
          fd = os_fileno os stream (fst r)
      in report (handle_write h semp fd (os_ftell os stream (fst r)) (sz * nmemb))
           (reg_file os (fst r) stream t) r)"

text \<open>The constructor and the destructor of the library ignore the results.\<close>

definition con :: "bytes option \<Rightarrow> tracer \<Rightarrow> tracer \<times> mysemp" where
  "con err t = (case open_sem err t of (t', semp, _) \<Rightarrow> (t', semp))"

definition dest :: "tracer \<Rightarrow> tracer" where
  "dest t = fst (dest_sem t)"

section \<open>One process: transparent calls and exact log lines\<close>

definition regular :: "('f, 's) libc \<Rightarrow> 's \<Rightarrow> i32 \<Rightarrow> bool" where
  "regular os s fd \<longleftrightarrow> (case os_fstat os fd s of None \<Rightarrow> False | Some m \<Rightarrow> m AND S_IFMT = S_IFREG)"

text \<open>Whether a call is to be logged, and what it adds to the log.\<close>

definition to_log :: "('f, 's) libc \<Rightarrow> 's \<Rightarrow> i32 \<Rightarrow> off_t \<Rightarrow> u64 \<Rightarrow> bool" where
  "to_log os s fd off n \<longleftrightarrow> regular os s fd \<and> sint fd > 2 \<and> sint off \<ge> 0 \<and> n \<noteq> 0"

definition added_line :: "host \<Rightarrow> i32 \<Rightarrow> i32 \<Rightarrow> off_t \<Rightarrow> u64 \<Rightarrow> bytes" where
  "added_line h type fd off n =
     (let l = log_line type (h_pid h) fd off n in if h_fopen_ok h then take (length l - h_lost h) l else [])"

text \<open>
  The traced call has the result and the effect of the real one, adds the given bytes to the
  log, and leaves the semaphores with the given values.
\<close>

definition transparent :: "('s \<times> tracer \<times> u64) outcome \<Rightarrow> 's \<times> u64 \<Rightarrow> tracer \<Rightarrow> bytes \<Rightarrow> (nat \<Rightarrow> nat) \<Rightarrow> bool" where
  "transparent out r t line vals \<longleftrightarrow>
     (\<exists>t'. out = Returns (fst r, t', snd r) \<and> ACCESS_LOG t' = ACCESS_LOG t @ line \<and>
        sem_val t' = vals \<and> sem_name t' = sem_name t)"

text \<open>What a traced call does in every situation.\<close>

definition traced_exactly ::
  "('f, 's) libc \<Rightarrow> host \<Rightarrow> mysemp \<Rightarrow> i32 \<Rightarrow> i32 \<Rightarrow> off_t \<Rightarrow> u64 \<Rightarrow> 's \<times> u64 \<Rightarrow> tracer \<Rightarrow>
     ('s \<times> tracer \<times> u64) outcome \<Rightarrow> bool" where
  "traced_exactly os h semp type fd off n r t out \<longleftrightarrow>
     (if \<not> to_log os (fst r) fd off n then transparent out r t [] (sem_val t)
      else case semp of
        None \<Rightarrow> out = Undefined
      | Some k \<Rightarrow>
          if h_interrupted h then
            transparent out r t (added_line h type fd off n) ((sem_val t)(k := sem_val t k + 1))
          else if sem_val t k = 0 then out = Blocks
          else transparent out r t (added_line h type fd off n) (sem_val t))"

lemma reg_fd_snd: "snd (reg_fd os s fd t) \<longleftrightarrow> sint fd > 2 \<and> regular os s fd"
  by (auto simp: reg_fd_def regular_def Let_def split: option.splits)

lemma reg_fd_frame [frame]:
  "ACCESS_LOG (fst (reg_fd os s fd t)) = ACCESS_LOG t"
  "sem_val (fst (reg_fd os s fd t)) = sem_val t"
  "sem_name (fst (reg_fd os s fd t)) = sem_name t"
  by (auto simp: reg_fd_def Let_def split: option.splits)

lemma write_log_eq:
  "ACCESS_LOG (fst (write_log h type (h_pid h) fd off n t)) = ACCESS_LOG t @ added_line h type fd off n"
  by (simp add: write_log_def log_fopen_def log_write_def added_line_def Let_def)

lemma write_log_frame [frame]:
  "sem_val (fst (write_log h type pid fd off n t)) = sem_val t"
  "sem_name (fst (write_log h type pid fd off n t)) = sem_name t"
  by (simp_all add: write_log_def log_fopen_def log_write_def Let_def)

lemma report_exactly:
  "traced_exactly os h semp type fd off n r t (report (handle_access type h semp fd off n) (reg_fd os (fst r) fd t) r)"
proof (cases "snd (reg_fd os (fst r) fd t) \<and> sane fd off n")
  case False
  then have "\<not> to_log os (fst r) fd off n" by (auto simp: reg_fd_snd sane_def to_log_def)
  with False show ?thesis
    by (cases "snd (reg_fd os (fst r) fd t)")
      (auto simp: traced_exactly_def transparent_def report_def handle_access_def frame)
next
  case True
  then have l: "to_log os (fst r) fd off n" by (auto simp: reg_fd_snd sane_def to_log_def)
  show ?thesis
  proof (cases semp)
    case None
    then show ?thesis using True l
      by (simp add: traced_exactly_def report_def handle_access_def get_sem_def post_sem_def)
  next
    case (Some k)
    then show ?thesis using True l
      by (auto simp: traced_exactly_def transparent_def report_def handle_access_def get_sem_def post_sem_def
          write_log_eq frame fun_eq_iff)
  qed
qed

text \<open>
  C18. Tracing is transparent and the log is exact. Each of the four interposed calls has exactly
  the result and the effect of the real call. A call is logged if the descriptor is a regular file
  above 2, the position is not negative and the size (computed modulo \<open>2^64\<close>) is not zero. A call
  that is not to be logged changes neither the log nor a semaphore. One that is appends one line,
  with the process id, descriptor, position after the call and requested number of bytes, less
  what a write error loses, and nothing if the log does not open. It leaves the semaphore as it
  was when it was free; it waits while the semaphore is taken; if a signal interrupts the wait, it
  writes all the same and leaves the value one too high. If the semaphore could not be opened,
  its behaviour is undefined.
\<close>

theorem traced_calls_exact:
  "(let r = real_read os fd data sz s in
     traced_exactly os h semp 0 fd (os_lseek_cur os fd (fst r)) sz r t (traced_read os h semp fd data sz s t)) \<and>
   (let r = real_write os fd data sz s in
     traced_exactly os h semp 1 fd (os_lseek_cur os fd (fst r)) sz r t (traced_write os h semp fd data sz s t)) \<and>
   (let r = real_fread os data sz nmemb stream s in
     traced_exactly os h semp 0 (os_fileno os stream (fst r)) (os_ftell os stream (fst r)) (sz * nmemb) r t
       (traced_fread os h semp data sz nmemb stream s t)) \<and>
   (let r = real_fwrite os data sz nmemb stream s in
     traced_exactly os h semp 1 (os_fileno os stream (fst r)) (os_ftell os stream (fst r)) (sz * nmemb) r t
       (traced_fwrite os h semp data sz nmemb stream s t))"
  unfolding Let_def traced_read_def traced_write_def traced_fread_def traced_fwrite_def
    handle_read_def handle_write_def reg_file_def
  by (intro conjI report_exactly)

text \<open>A machine with one regular file 3 at position 4096, for the example.\<close>

definition example_libc :: "(unit, unit) libc" where
  "example_libc = \<lparr> real_read = \<lambda>_ _ n s. (s, n), real_write = \<lambda>_ _ n s. (s, n),
     real_fread = \<lambda>_ _ n _ s. (s, n), real_fwrite = \<lambda>_ _ n _ s. (s, n),
     os_fileno = \<lambda>_ _. 3, os_ftell = \<lambda>_ _. 4096, os_lseek_cur = \<lambda>_ _. 4096, os_fstat = \<lambda>_ _. Some 0x81A4 \<rparr>"

definition example_tracer :: tracer where
  "example_tracer = fst (con None \<lparr> sem_name = None, sem_val = \<lambda>_. 0, sem_next = 0, ACCESS_LOG = [], t_stdout = [] \<rparr>)"

theorem traced_calls_exact_witness:
  "transparent (traced_read example_libc \<lparr> h_pid = 77, h_fopen_ok = True, h_lost = 0, h_interrupted = False \<rparr> (Some 0)
       3 0 512 () example_tracer) ((), 512) example_tracer
     (cstr ''0,77,3,4096,512'' @ [10]) (sem_val example_tracer)"
proof -
  let ?h = "\<lparr> h_pid = 77, h_fopen_ok = True, h_lost = 0, h_interrupted = False \<rparr>"
  have "to_log example_libc () 3 4096 512"
    by (simp add: to_log_def example_libc_def regular_def S_IFMT_def S_IFREG_def)
  moreover have "added_line ?h 0 3 4096 512 = cstr ''0,77,3,4096,512'' @ [10]"
    by (simp add: added_line_def log_line_def fmt_d_def fmt_u.simps Let_def)
  moreover have "sem_val example_tracer 0 = 1"
    by (simp add: example_tracer_def con_def open_sem_def)
  ultimately show ?thesis
    using traced_calls_exact [of example_libc 3 0 512 "()" ?h "Some 0" example_tracer 1 "()"]
    by (simp add: traced_exactly_def example_libc_def)
qed

section \<open>Interleaved processes\<close>

text \<open>
  A process between two calls, waiting for the semaphore, about to open the log, with bytes of
  its line in the buffer of the open stream, and about to post. \<open>write_log\<close> is several steps: \<open>fopen\<close>
  and \<open>fprintf\<close> into the buffer; writes to the end of the file, each of one or more bytes of the
  buffer; and the end of \<open>fclose\<close>, which after a write error drops what is left in the buffer.
\<close>

record access =
  a_type :: i32
  a_fd :: i32
  a_pos :: off_t
  a_bytes :: u64

datatype pc = Idle | Waiting access | Logging access | Writing bytes | Posting

record sys =
  shared :: tracer
  procs :: "i32 \<Rightarrow> (pc \<times> mysemp) option"

datatype event =
    Con i32 "bytes option" | Call i32 access | Acquire i32 | Interrupt i32
  | OpenLog i32 access bool | Flush i32 bytes | CloseLog i32 bytes | Post i32 | Dest i32

definition set_proc :: "i32 \<Rightarrow> (pc \<times> mysemp) option \<Rightarrow> tracer \<Rightarrow> sys \<Rightarrow> sys" where
  "set_proc p st t s = s\<lparr> shared := t, procs := (procs s)(p := st) \<rparr>"

abbreviation host_of :: "i32 \<Rightarrow> bool \<Rightarrow> bool \<Rightarrow> host" where
  "host_of p ok intr \<equiv> \<lparr> h_pid = p, h_fopen_ok = ok, h_lost = 0, h_interrupted = intr \<rparr>"

definition line_of :: "i32 \<Rightarrow> access \<Rightarrow> bytes" where
  "line_of p a = log_line (a_type a) p (a_fd a) (a_pos a) (a_bytes a)"

inductive tstep :: "sys \<Rightarrow> event \<Rightarrow> sys \<Rightarrow> bool" where
  con: "procs s p = None \<Longrightarrow> con err (shared s) = (t, semp) \<Longrightarrow>
    tstep s (Con p err) (set_proc p (Some (Idle, semp)) t s)"
| call: "procs s p = Some (Idle, semp) \<Longrightarrow> sane (a_fd a) (a_pos a) (a_bytes a) \<Longrightarrow>
    tstep s (Call p a) (set_proc p (Some (Waiting a, semp)) (shared s) s)"
| acquire: "procs s p = Some (Waiting a, semp) \<Longrightarrow>
    get_sem (host_of p ok False) semp (shared s) = Returns (t, r) \<Longrightarrow>
    tstep s (Acquire p) (set_proc p (Some (Logging a, semp)) t s)"
| interrupt: "procs s p = Some (Waiting a, semp) \<Longrightarrow>
    get_sem (host_of p ok True) semp (shared s) = Returns (t, r) \<Longrightarrow>
    tstep s (Interrupt p) (set_proc p (Some (Logging a, semp)) t s)"
| open_log: "procs s p = Some (Logging a, semp) \<Longrightarrow> log_fopen (host_of p ok intr) (shared s) = (t, opened) \<Longrightarrow>
    tstep s (OpenLog p a ok) (set_proc p (Some (if opened then Writing (line_of p a) else Posting, semp)) t s)"
| flush: "procs s p = Some (Writing (bs @ rest), semp) \<Longrightarrow> bs \<noteq> [] \<Longrightarrow>
    tstep s (Flush p bs) (set_proc p (Some (Writing rest, semp)) (log_write bs (shared s)) s)"
| close: "procs s p = Some (Writing rest, semp) \<Longrightarrow>
    tstep s (CloseLog p rest) (set_proc p (Some (Posting, semp)) (shared s) s)"
| post: "procs s p = Some (Posting, semp) \<Longrightarrow> post_sem semp (shared s) = Returns (t, r) \<Longrightarrow>
    tstep s (Post p) (set_proc p (Some (Idle, semp)) t s)"
| dest: "procs s p = Some (Idle, semp) \<Longrightarrow>
    tstep s (Dest p) (set_proc p None (dest (shared s)) s)"

inductive_cases tstep_elims:
  "tstep s (Con p err) s'" "tstep s (Call p a) s'" "tstep s (Acquire p) s'" "tstep s (Interrupt p) s'"
  "tstep s (OpenLog p a ok) s'" "tstep s (Flush p bs) s'" "tstep s (CloseLog p bs) s'" "tstep s (Post p) s'"
  "tstep s (Dest p) s'"

inductive truns :: "sys \<Rightarrow> event list \<Rightarrow> sys \<Rightarrow> bool" where
  start: "truns s [] s"
| step: "truns s es s' \<Longrightarrow> tstep s' e s'' \<Longrightarrow> truns s (es @ [e]) s''"

definition init_sys :: "tracer \<Rightarrow> sys" where
  "init_sys t = \<lparr> shared = t, procs = (\<lambda>_. None) \<rparr>"

definition critical :: "sys \<Rightarrow> i32 \<Rightarrow> bool" where
  "critical s p \<longleftrightarrow>
     (case procs s p of
        Some (Logging _, _) \<Rightarrow> True | Some (Writing _, _) \<Rightarrow> True | Some (Posting, _) \<Rightarrow> True | _ \<Rightarrow> False)"

text \<open>The bytes of its line that a process has not yet written.\<close>

definition unwritten :: "sys \<Rightarrow> i32 \<Rightarrow> bytes" where
  "unwritten s p = (case procs s p of Some (Writing bs, _) \<Rightarrow> bs | _ \<Rightarrow> [])"

text \<open>Nothing goes wrong outside of the tracer, and no process exits.\<close>

definition calm :: "event \<Rightarrow> bool" where
  "calm e \<longleftrightarrow>
     (case e of
        Con _ err \<Rightarrow> err = None | Interrupt _ \<Rightarrow> False | CloseLog _ lost \<Rightarrow> lost = [] | Dest _ \<Rightarrow> False | _ \<Rightarrow> True)"

text \<open>The line that a process starts with an \<open>OpenLog\<close> event.\<close>

definition event_line :: "event \<Rightarrow> bytes" where
  "event_line e = (case e of OpenLog p a ok \<Rightarrow> if ok then line_of p a else [] | _ \<Rightarrow> [])"

text \<open>The semaphore counts the processes that may enter the critical section.\<close>

definition crit :: "sys \<Rightarrow> i32 set" where
  "crit s = {p. critical s p}"

definition sem_inv :: "sys \<Rightarrow> bool" where
  "sem_inv s \<longleftrightarrow>
     (\<forall>p pc semp. procs s p = Some (pc, semp) \<longrightarrow> semp = sem_name (shared s) \<and> semp \<noteq> None) \<and>
     (case sem_name (shared s) of
        None \<Rightarrow> crit s = {}
      | Some k \<Rightarrow>
          sem_val (shared s) k = 1 \<and> crit s = {} \<or> sem_val (shared s) k = 0 \<and> (\<exists>p. crit s = {p}))"

lemma procs_set_proc [simp]: "procs (set_proc p st t s) = (procs s)(p := st)"
  and shared_set_proc [simp]: "shared (set_proc p st t s) = t"
  by (simp_all add: set_proc_def)

lemma crit_set_proc [simp]:
  "crit (set_proc p None t s) = crit s - {p}"
  "crit (set_proc p (Some (Idle, semp)) t s) = crit s - {p}"
  "crit (set_proc p (Some (Waiting a, semp)) t s) = crit s - {p}"
  "crit (set_proc p (Some (Logging a, semp)) t s) = insert p (crit s)"
  "crit (set_proc p (Some (Writing bs, semp)) t s) = insert p (crit s)"
  "crit (set_proc p (Some (Posting, semp)) t s) = insert p (crit s)"
  by (auto simp: crit_def critical_def split: if_splits)

lemma unwritten_set_proc [simp]:
  "unwritten (set_proc p st t s) =
     (unwritten s)(p := (case st of Some (Writing bs, _) \<Rightarrow> bs | _ \<Rightarrow> []))"
  by (auto simp: unwritten_def)

lemma get_sem_Returns:
  "get_sem h (Some k) t = Returns (t', r) \<longleftrightarrow>
     (if h_interrupted h then t' = t \<and> \<not> r
      else 0 < sem_val t k \<and> r \<and> t' = t\<lparr> sem_val := (sem_val t)(k := sem_val t k - 1) \<rparr>)"
  by (auto simp: get_sem_def)

lemma post_sem_Returns:
  "post_sem semp t = Returns (t', r) \<longleftrightarrow>
     (\<exists>k. semp = Some k \<and> r \<and> t' = t\<lparr> sem_val := (sem_val t)(k := sem_val t k + 1) \<rparr>)"
  by (auto simp: post_sem_def split: option.splits)

lemma crit_pc:
  "procs s p = None \<Longrightarrow> p \<notin> crit s"
  "procs s p = Some (Idle, semp) \<Longrightarrow> p \<notin> crit s"
  "procs s p = Some (Waiting a, semp) \<Longrightarrow> p \<notin> crit s"
  "procs s p = Some (Logging a, semp) \<Longrightarrow> p \<in> crit s"
  "procs s p = Some (Writing bs, semp) \<Longrightarrow> p \<in> crit s"
  "procs s p = Some (Posting, semp) \<Longrightarrow> p \<in> crit s"
  by (simp_all add: crit_def critical_def)

lemma sem_inv_has_name:
  assumes "sem_inv s" "procs s p = Some (pc, semp)"
  obtains k where "semp = Some k" "sem_name (shared s) = Some k"
  using assms unfolding sem_inv_def by blast

lemma sem_inv_con:
  assumes inv: "sem_inv s" and p: "procs s p = None" and c: "con None (shared s) = (t, semp)"
  shows "sem_inv (set_proc p (Some (Idle, semp)) t s)"
proof (cases "sem_name (shared s)")
  case None
  with inv c crit_pc(1) [OF p] show ?thesis by (auto simp: sem_inv_def con_def open_sem_def Let_def)
next
  case (Some k)
  with c have "t = shared s" "semp = Some k" by (simp_all add: con_def open_sem_def)
  with inv Some crit_pc(1) [OF p] show ?thesis by (auto simp: sem_inv_def)
qed

lemma sem_inv_acquire:
  assumes inv: "sem_inv s" and p: "procs s p = Some (Waiting a, semp)"
    and g: "get_sem (host_of p ok False) semp (shared s) = Returns (t, r)"
  shows "sem_inv (set_proc p (Some (Logging a, semp)) t s)"
proof -
  obtain k where k: "semp = Some k" "sem_name (shared s) = Some k" by (rule sem_inv_has_name [OF inv p])
  with g have "0 < sem_val (shared s) k"
    "t = (shared s)\<lparr> sem_val := (sem_val (shared s))(k := sem_val (shared s) k - 1) \<rparr>"
    by (simp_all add: get_sem_Returns)
  with inv k show ?thesis by (auto simp: sem_inv_def)
qed

lemma sem_inv_post:
  assumes inv: "sem_inv s" and p: "procs s p = Some (Posting, semp)"
    and g: "post_sem semp (shared s) = Returns (t, r)"
  shows "sem_inv (set_proc p (Some (Idle, semp)) t s)"
proof -
  obtain k where k: "semp = Some k" "sem_name (shared s) = Some k" by (rule sem_inv_has_name [OF inv p])
  with g have "t = (shared s)\<lparr> sem_val := (sem_val (shared s))(k := sem_val (shared s) k + 1) \<rparr>"
    by (simp add: post_sem_Returns)
  with inv k crit_pc(6) [OF p] show ?thesis by (auto simp: sem_inv_def)
qed

lemma sem_inv_same:
  assumes inv: "sem_inv s" and p: "procs s p = Some (pc, semp)"
    and t: "sem_val t = sem_val (shared s)" "sem_name t = sem_name (shared s)"
    and same: "crit (set_proc p (Some (pc', semp)) t s) = crit s"
  shows "sem_inv (set_proc p (Some (pc', semp)) t s)"
proof -
  have "semp = sem_name (shared s) \<and> semp \<noteq> None" using inv p unfolding sem_inv_def by blast
  with inv t show ?thesis
    unfolding sem_inv_def same by (simp split: if_splits option.splits)
qed

lemma log_frame [frame]:
  "sem_val (fst (log_fopen h t)) = sem_val t" "sem_name (fst (log_fopen h t)) = sem_name t"
  "ACCESS_LOG (fst (log_fopen h t)) = ACCESS_LOG t" "snd (log_fopen h t) = h_fopen_ok h"
  "sem_val (log_write bs t) = sem_val t" "sem_name (log_write bs t) = sem_name t"
  by (simp_all add: log_fopen_def log_write_def)

lemma sem_inv_step: "tstep s e s' \<Longrightarrow> calm e \<Longrightarrow> sem_inv s \<Longrightarrow> sem_inv s'"
proof (induction rule: tstep.induct)
  case (con s p err t semp) then show ?case by (auto simp: calm_def intro: sem_inv_con)
next
  case (call s p semp a)
  then show ?case by (intro sem_inv_same) (auto simp: crit_pc)
next
  case (acquire s p a semp ok t r) then show ?case by (blast intro: sem_inv_acquire)
next
  case (open_log s p a semp ok intr t opened)
  then show ?case
    using log_frame(1-4) [of "host_of p ok intr" "shared s"]
    by (intro sem_inv_same) (auto simp: crit_pc)
next
  case (flush s p bs rest semp)
  then show ?case by (intro sem_inv_same) (auto simp: crit_pc frame)
next
  case (close s p rest semp)
  then show ?case by (intro sem_inv_same) (auto simp: crit_pc)
next
  case (post s p semp t r) then show ?case by (blast intro: sem_inv_post)
qed (simp_all add: calm_def)

lemma sem_inv_run:
  "truns s es s' \<Longrightarrow> list_all calm es \<Longrightarrow> sem_inv s \<Longrightarrow> sem_inv s'"
  by (induction rule: truns.induct) (auto intro: sem_inv_step)

lemma sem_inv_init: "sem_name t = None \<Longrightarrow> sem_inv (init_sys t)"
  by (simp add: sem_inv_def init_sys_def crit_def critical_def)

lemma sem_inv_exclusive: "sem_inv s \<Longrightarrow> p \<in> crit s \<Longrightarrow> q \<in> crit s \<Longrightarrow> p = q"
  by (auto simp: sem_inv_def split: option.splits)

text \<open>
  The log with what one process has not yet written is \<open>L\<close>, and no other process has anything
  left to write. Exclusion is what keeps this when the next process opens the log.
\<close>

definition log_inv :: "bytes \<Rightarrow> sys \<Rightarrow> bool" where
  "log_inv L s \<longleftrightarrow> (\<exists>w. ACCESS_LOG (shared s) @ unwritten s w = L \<and> (\<forall>q. q \<noteq> w \<longrightarrow> unwritten s q = []))"

lemma unwritten_crit: "unwritten s q \<noteq> [] \<Longrightarrow> q \<in> crit s"
  by (auto simp: unwritten_def crit_def critical_def split: option.splits prod.splits pc.splits)

lemma log_inv_same:
  assumes "log_inv L s" "unwritten s p = []" "ACCESS_LOG t = ACCESS_LOG (shared s)"
    and "(case st of Some (Writing bs, _) \<Rightarrow> bs | _ \<Rightarrow> []) = []"
  shows "log_inv L (set_proc p st t s)"
proof -
  have "(unwritten s)(p := []) = unwritten s" using assms(2) by auto
  with assms show ?thesis by (simp add: log_inv_def)
qed

lemma log_inv_open:
  assumes sem: "sem_inv s" and inv: "log_inv L s" and p: "procs s p = Some (Logging a, semp)"
    and t: "ACCESS_LOG t = ACCESS_LOG (shared s)"
  shows "log_inv (L @ l) (set_proc p (Some (Writing l, semp)) t s)"
proof -
  have p': "unwritten s p = []" using p by (simp add: unwritten_def)
  have none: "unwritten s q = []" for q
  proof (rule ccontr)
    assume "unwritten s q \<noteq> []"
    with sem_inv_exclusive [OF sem crit_pc(4) [OF p]] have "p = q" by (blast dest: unwritten_crit)
    with p' \<open>unwritten s q \<noteq> []\<close> show False by simp
  qed
  with inv have "ACCESS_LOG (shared s) = L" by (simp add: log_inv_def)
  with none t show ?thesis by (auto simp: log_inv_def intro: exI [of _ p])
qed

lemma log_inv_flush:
  assumes inv: "log_inv L s" and p: "procs s p = Some (Writing (bs @ rest), semp)" and "bs \<noteq> []"
  shows "log_inv L (set_proc p (Some (Writing rest, semp)) (log_write bs (shared s)) s)"
proof -
  obtain w where w: "ACCESS_LOG (shared s) @ unwritten s w = L" "\<forall>q. q \<noteq> w \<longrightarrow> unwritten s q = []"
    using inv by (auto simp: log_inv_def)
  have p': "unwritten s p = bs @ rest" using p by (simp add: unwritten_def)
  with w(2) assms(3) have "w = p" by force
  with w p' show ?thesis by (auto simp: log_inv_def log_write_def intro!: exI [of _ p])
qed

lemma log_inv_step:
  "tstep s e s' \<Longrightarrow> calm e \<Longrightarrow> sem_inv s \<Longrightarrow> log_inv L s \<Longrightarrow> log_inv (L @ event_line e) s'"
proof (induction rule: tstep.induct)
  case (con s p err t semp)
  then show ?case
    by (auto simp: event_line_def unwritten_def con_def open_sem_def Let_def split: option.splits intro!: log_inv_same)
next
  case (acquire s p a semp ok t r)
  obtain k where "semp = Some k" by (rule sem_inv_has_name [OF acquire(4,1)])
  with acquire show ?case by (auto simp: event_line_def unwritten_def get_sem_Returns intro!: log_inv_same)
next
  case (open_log s p a semp ok intr t opened)
  have t: "ACCESS_LOG t = ACCESS_LOG (shared s)" "opened = ok"
    using log_frame(3,4) [of "host_of p ok intr" "shared s"] open_log(2) by simp_all
  show ?case
  proof (cases ok)
    case True
    then show ?thesis using log_inv_open [OF open_log(4,5,1) t(1)] t(2) by (simp add: event_line_def)
  next
    case False
    then show ?thesis using open_log t by (auto simp: event_line_def unwritten_def intro!: log_inv_same)
  qed
next
  case (flush s p bs rest semp)
  then show ?case using log_inv_flush by (simp add: event_line_def)
next
  case (close s p rest semp)
  then show ?case by (auto simp: event_line_def unwritten_def calm_def intro!: log_inv_same)
next
  case (post s p semp t r)
  then show ?case by (auto simp: event_line_def unwritten_def post_sem_Returns intro!: log_inv_same)
qed (auto simp: event_line_def unwritten_def calm_def intro!: log_inv_same)

lemma log_inv_run:
  "truns s es s' \<Longrightarrow> list_all calm es \<Longrightarrow> sem_inv s \<Longrightarrow> log_inv L s \<Longrightarrow> log_inv (L @ concat (map event_line es)) s'"
proof (induction rule: truns.induct)
  case (step s es s' e s'')
  from step.prems have calm: "list_all calm es" "calm e" by simp_all
  from log_inv_step [OF step(2) calm(2) sem_inv_run [OF step(1) calm(1) step.prems(2)]
      step.IH [OF calm(1) step.prems(2,3)]]
  show ?case by simp
qed simp

lemma log_inv_init: "log_inv (ACCESS_LOG t) (init_sys t)"
  by (simp add: log_inv_def init_sys_def unwritten_def)

text \<open>The step relation computed: an event has at most one successor state.\<close>

fun tnext :: "sys \<Rightarrow> event \<Rightarrow> sys option" where
  "tnext s (Con p err) =
     (if procs s p = None
      then Some (set_proc p (Some (Idle, snd (con err (shared s)))) (fst (con err (shared s))) s) else None)"
| "tnext s (Call p a) =
     (case procs s p of
        Some (Idle, semp) \<Rightarrow>
          if sane (a_fd a) (a_pos a) (a_bytes a)
          then Some (set_proc p (Some (Waiting a, semp)) (shared s) s) else None
      | _ \<Rightarrow> None)"
| "tnext s (Acquire p) =
     (case procs s p of
        Some (Waiting a, semp) \<Rightarrow>
          (case get_sem (host_of p True False) semp (shared s) of
             Returns (t, _) \<Rightarrow> Some (set_proc p (Some (Logging a, semp)) t s) | _ \<Rightarrow> None)
      | _ \<Rightarrow> None)"
| "tnext s (Interrupt p) =
     (case procs s p of
        Some (Waiting a, semp) \<Rightarrow>
          (case get_sem (host_of p True True) semp (shared s) of
             Returns (t, _) \<Rightarrow> Some (set_proc p (Some (Logging a, semp)) t s) | _ \<Rightarrow> None)
      | _ \<Rightarrow> None)"
| "tnext s (OpenLog p a ok) =
     (case procs s p of
        Some (Logging b, semp) \<Rightarrow>
          if b = a
          then (case log_fopen (host_of p ok False) (shared s) of (t, opened) \<Rightarrow>
            Some (set_proc p (Some (if opened then Writing (line_of p a) else Posting, semp)) t s))
          else None
      | _ \<Rightarrow> None)"
| "tnext s (Flush p bs) =
     (case procs s p of
        Some (Writing b, semp) \<Rightarrow>
          if bs \<noteq> [] \<and> take (length bs) b = bs
          then Some (set_proc p (Some (Writing (drop (length bs) b), semp)) (log_write bs (shared s)) s) else None
      | _ \<Rightarrow> None)"
| "tnext s (CloseLog p bs) =
     (case procs s p of
        Some (Writing b, semp) \<Rightarrow> if b = bs then Some (set_proc p (Some (Posting, semp)) (shared s) s) else None
      | _ \<Rightarrow> None)"
| "tnext s (Post p) =
     (case procs s p of
        Some (Posting, semp) \<Rightarrow>
          (case post_sem semp (shared s) of
             Returns (t, _) \<Rightarrow> Some (set_proc p (Some (Idle, semp)) t s) | _ \<Rightarrow> None)
      | _ \<Rightarrow> None)"
| "tnext s (Dest p) =
     (case procs s p of
        Some (Idle, _) \<Rightarrow> Some (set_proc p None (dest (shared s)) s) | _ \<Rightarrow> None)"

lemma tnext_sound: "tnext s e = Some s' \<Longrightarrow> tstep s e s'"
proof (cases e)
  case (Con p err)
  then show "tnext s e = Some s' \<Longrightarrow> ?thesis"
    by (auto split: if_splits intro!: tstep.con)
next
  case (OpenLog p a ok)
  then show "tnext s e = Some s' \<Longrightarrow> ?thesis"
    by (auto split: option.splits prod.splits pc.splits if_splits
        intro: tstep.open_log [where intr = False, simplified] tstep.open_log [where intr = False and opened = True, simplified]
          tstep.open_log [where intr = False and opened = False, simplified])
next
  case (Flush p bs)
  have "b = bs @ drop (length bs) b" if "take (length bs) b = bs" for b
    using that by (metis append_take_drop_id)
  with Flush show "tnext s e = Some s' \<Longrightarrow> ?thesis"
    by (auto split: option.splits prod.splits pc.splits if_splits intro!: tstep.flush)
qed (auto split: option.splits prod.splits pc.splits outcome.splits if_splits
    intro: tstep.intros)

fun tnexts :: "sys \<Rightarrow> event list \<Rightarrow> sys option" where
  "tnexts s [] = Some s"
| "tnexts s (e # es) = Option.bind (tnext s e) (\<lambda>s'. tnexts s' es)"

lemma truns_append: "truns s' es s'' \<Longrightarrow> tstep s e s' \<Longrightarrow> truns s (e # es) s''"
proof (induction rule: truns.induct)
  case (start u)
  then show ?case using truns.step [OF truns.start, of s e u] by simp
next
  case (step u es v f w)
  then show ?case using truns.step [of s "e # es" v f w] by simp
qed

lemma tnexts_sound: "tnexts s es = Some s' \<Longrightarrow> truns s es s'"
  by (induction es arbitrary: s)
    (auto simp: bind_eq_Some_conv intro: truns.start truns_append tnext_sound)

text \<open>A process that is not disturbed does the steps of \<open>write_log\<close> with the effect of \<open>write_log\<close>.\<close>

lemma write_log_steps:
  assumes "procs s p = Some (Logging a, semp)" "h_lost h < length (line_of p a)" "h_fopen_ok h"
  shows "tnexts s [OpenLog p a True, Flush p (take (length (line_of p a) - h_lost h) (line_of p a)),
      CloseLog p (drop (length (line_of p a) - h_lost h) (line_of p a))] =
    Some (set_proc p (Some (Posting, semp))
      (fst (write_log h (a_type a) p (a_fd a) (a_pos a) (a_bytes a) (shared s))) s)"
  using assms
  by (auto simp: log_fopen_def write_log_def Let_def line_of_def set_proc_def min_def)

text \<open>One logged call of a process that has the semaphore to itself, and a sequence of them.\<close>

definition logged_call :: "i32 \<Rightarrow> access \<Rightarrow> event list" where
  "logged_call p a = [Call p a, Acquire p, OpenLog p a True, Flush p (line_of p a), CloseLog p [], Post p]"

lemma tnexts_append: "tnexts s (es @ fs) = Option.bind (tnexts s es) (\<lambda>s'. tnexts s' fs)"
  by (induction es arbitrary: s) simp_all

lemma tnexts_logged_call:
  assumes "procs s p = Some (Idle, Some k)" "sem_val (shared s) k = 1" "sane (a_fd a) (a_pos a) (a_bytes a)"
  shows "tnexts s (logged_call p a) = Some (s\<lparr> shared := log_write (line_of p a) (shared s) \<rparr>)"
proof -
  have "line_of p a \<noteq> []" by (simp add: line_of_def log_line_def)
  with assms show ?thesis
    by (simp add: logged_call_def get_sem_def post_sem_def log_fopen_def log_write_def set_proc_def fun_upd_idem)
qed

lemma tnexts_logged_calls:
  assumes "procs s p = Some (Idle, Some k)" "sem_val (shared s) k = 1"
    and "\<forall>a \<in> set as. sane (a_fd a) (a_pos a) (a_bytes a)"
  shows "\<exists>s'. tnexts s (concat (map (logged_call p) as)) = Some s' \<and> procs s' = procs s"
  using assms
proof (induction as arbitrary: s)
  case (Cons a as)
  let ?s = "s\<lparr> shared := log_write (line_of p a) (shared s) \<rparr>"
  have "tnexts s (logged_call p a) = Some ?s" using Cons.prems by (simp add: tnexts_logged_call)
  with Cons.IH [of ?s] Cons.prems show ?case by (simp add: tnexts_append log_write_def)
qed simp

definition an_access :: access where
  "an_access = \<lparr> a_type = 0, a_fd = 3, a_pos = 0, a_bytes = 1 \<rparr>"

text \<open>A wait that a signal interrupts counts as having the semaphore.\<close>

definition interrupted_run :: "event list" where
  "interrupted_run = [Con 1 None, Con 2 None, Call 1 an_access, Call 2 an_access, Acquire 1, Interrupt 2]"

text \<open>Two processes inside at once can tear a line in two.\<close>

definition torn_run :: "event list" where
  "torn_run = interrupted_run @
     [OpenLog 1 an_access True, OpenLog 2 an_access True, Flush 1 (cstr ''0,1,''),
      Flush 2 (line_of 2 an_access), Flush 1 (cstr ''3,0,1'' @ [10]), CloseLog 1 [], CloseLog 2 [], Post 1, Post 2]"

text \<open>A process that exits unlinks the name, so the next one makes a semaphore of its own.\<close>

definition unlinked_run :: "event list" where
  "unlinked_run = [Con 1 None, Con 3 None, Call 1 an_access, Acquire 1, Dest 3, Con 2 None,
     Call 2 an_access, Acquire 2]"

lemma broken_exclusion:
  assumes "sem_name t = None" "es = interrupted_run \<or> es = unlinked_run"
  shows "\<exists>s'. tnexts (init_sys t) es = Some s' \<and> {1, 2} \<subseteq> crit s'"
  using assms
  by (auto simp: interrupted_run_def unlinked_run_def an_access_def sane_def init_sys_def con_def
      open_sem_def get_sem_def dest_def dest_sem_def Let_def crit_def critical_def)

lemma an_access_sane: "sane (a_fd an_access) (a_pos an_access) (a_bytes an_access)"
  by (simp add: an_access_def sane_def)

lemma an_access_line:
  "line_of 1 an_access = cstr ''0,1,3,0,1'' @ [10]" "line_of 2 an_access = cstr ''0,2,3,0,1'' @ [10]"
  by (simp_all add: line_of_def an_access_def log_line_def fmt_d_def fmt_u.simps)

lemma torn_log:
  assumes "sem_name t = None"
  shows "\<exists>s'. tnexts (init_sys t) torn_run = Some s' \<and>
    ACCESS_LOG (shared s') = ACCESS_LOG t @ cstr ''0,1,0,2,3,0,1'' @ [10] @ cstr ''3,0,1'' @ [10]"
  using assms
  by (simp add: torn_run_def interrupted_run_def an_access_line an_access_sane init_sys_def con_def
      open_sem_def get_sem_def post_sem_def log_fopen_def log_write_def Let_def)

text \<open>
  C16. The semaphore and the log. For any number of traced processes in any interleaving, as
  long as the semaphore opens, no wait is interrupted by a signal, no write of the log fails and no
  process exits, at most one process is between its wait and its post, and the log is exactly the
  complete lines in the order in which the processes opened it, where only the process that is
  writing may have the rest of its line still to write. Two of these conditions are shown to be
  needed: an interrupted wait, whose failure \<open>handle_read\<close> and \<open>handle_write\<close> ignore, and the exit
  of any process, which unlinks the semaphore the others still use, both let two processes in at
  once, and then one can write its line into the middle of the other's.
\<close>

theorem log_mutual_exclusion:
  assumes "sem_name t = None" "truns (init_sys t) es s"
  shows "(list_all calm es \<longrightarrow>
      (\<forall>p q. critical s p \<and> critical s q \<longrightarrow> p = q) \<and>
      (\<exists>w. ACCESS_LOG (shared s) @ unwritten s w = ACCESS_LOG t @ concat (map event_line es) \<and>
        (\<forall>q. q \<noteq> w \<longrightarrow> unwritten s q = []))) \<and>
    (\<exists>s'. truns (init_sys t) interrupted_run s' \<and> critical s' 1 \<and> critical s' 2) \<and>
    (\<exists>s'. truns (init_sys t) unlinked_run s' \<and> critical s' 1 \<and> critical s' 2) \<and>
    (\<exists>s'. truns (init_sys t) torn_run s' \<and>
      ACCESS_LOG (shared s') = ACCESS_LOG t @ cstr ''0,1,0,2,3,0,1'' @ [10] @ cstr ''3,0,1'' @ [10])"
proof (intro conjI impI)
  assume calm: "list_all calm es"
  note inv = sem_inv_init [OF assms(1)]
  show "\<forall>p q. critical s p \<and> critical s q \<longrightarrow> p = q"
    using sem_inv_exclusive [OF sem_inv_run [OF assms(2) calm inv]] by (auto simp: crit_def)
  show "\<exists>w. ACCESS_LOG (shared s) @ unwritten s w = ACCESS_LOG t @ concat (map event_line es) \<and>
      (\<forall>q. q \<noteq> w \<longrightarrow> unwritten s q = [])"
    using log_inv_run [OF assms(2) calm inv log_inv_init] by (simp add: log_inv_def)
next
  show "\<exists>s'. truns (init_sys t) torn_run s' \<and>
      ACCESS_LOG (shared s') = ACCESS_LOG t @ cstr ''0,1,0,2,3,0,1'' @ [10] @ cstr ''3,0,1'' @ [10]"
    using torn_log [OF assms(1)] by (blast dest: tnexts_sound)
qed (use broken_exclusion [OF assms(1)] in \<open>auto simp: crit_def dest: tnexts_sound\<close>)

definition example_run :: "event list" where
  "example_run = [Con 1 None, Con 2 None, Call 2 an_access, Call 1 an_access, Acquire 2, OpenLog 2 an_access True,
     Flush 2 (line_of 2 an_access), CloseLog 2 [], Post 2, Acquire 1, OpenLog 1 an_access True, Flush 1 (cstr ''0,1,'')]"

theorem log_mutual_exclusion_witness:
  "\<exists>s. truns (init_sys \<lparr> sem_name = None, sem_val = \<lambda>_. 0, sem_next = 0, ACCESS_LOG = [], t_stdout = [] \<rparr>)
       example_run s \<and> critical s 1 \<and> (\<forall>p q. critical s p \<and> critical s q \<longrightarrow> p = q) \<and>
     (\<exists>w. ACCESS_LOG (shared s) @ unwritten s w = line_of 2 an_access @ line_of 1 an_access) \<and>
     ACCESS_LOG (shared s) = line_of 2 an_access @ cstr ''0,1,''"
proof -
  let ?t = "\<lparr> sem_name = None, sem_val = \<lambda>_. 0, sem_next = 0, ACCESS_LOG = [], t_stdout = [] \<rparr>"
  obtain s where s: "tnexts (init_sys ?t) example_run = Some s" "critical s 1"
      "ACCESS_LOG (shared s) = line_of 2 an_access @ cstr ''0,1,''"
    by (simp add: example_run_def an_access_line an_access_sane init_sys_def con_def open_sem_def
        get_sem_def post_sem_def log_fopen_def log_write_def Let_def critical_def)
  have calm: "list_all calm example_run" "concat (map event_line example_run) = line_of 2 an_access @ line_of 1 an_access"
    by (simp_all add: example_run_def calm_def event_line_def)
  have "sem_name ?t = None" by simp
  note ex = log_mutual_exclusion [OF this tnexts_sound [OF s(1)], THEN conjunct1, rule_format, OF calm(1)]
  have "\<exists>w. ACCESS_LOG (shared s) @ unwritten s w = line_of 2 an_access @ line_of 1 an_access"
    using ex [THEN conjunct2] calm(2) by (auto simp del: cstr_Cons)
  with ex s tnexts_sound [OF s(1)] show ?thesis by blast
qed

end
