(* ===== verification/Labels.thy ===== *)
theory Labels
  imports Tracer
begin

text \<open>
  \<open>label_gen/label.py\<close>: labels the accesses of a log for training. A line of a window is
  labelled 0 when the same descriptor and offset occur again in the \<open>LOOKAHEAD\<close> windows
  that follow its window, and 1 otherwise. Text is its characters as bytes, with newlines
  already translated; a Python exception ends the run with what was written so far.
\<close>

section \<open>The Python library\<close>

datatype py_error = IndexError | UnboundLocalError

text \<open>\<open>s.split(d)\<close> for a single character, \<open>s.strip('\n')\<close>, \<open>f.readlines()\<close>, \<open>xs[i]\<close>.\<close>

fun py_split :: "byte \<Rightarrow> bytes \<Rightarrow> bytes list" where
  "py_split d [] = [[]]"
| "py_split d (c # cs) =
     (if c = d then [] # py_split d cs else (c # hd (py_split d cs)) # tl (py_split d cs))"

definition py_strip :: "byte \<Rightarrow> bytes \<Rightarrow> bytes" where
  "py_strip d s = rev (dropWhile (\<lambda>c. c = d) (rev (dropWhile (\<lambda>c. c = d) s)))"

fun py_readlines :: "bytes \<Rightarrow> bytes list" where
  "py_readlines [] = []"
| "py_readlines (c # cs) =
     (if c = 10 then [10] # py_readlines cs
      else case py_readlines cs of [] \<Rightarrow> [[c]] | l # ls \<Rightarrow> (c # l) # ls)"

definition py_index :: "'a list \<Rightarrow> nat \<Rightarrow> py_error + 'a" where
  "py_index xs i = (if i < length xs then Inr (xs ! i) else Inl IndexError)"

section \<open>label.py\<close>

definition WINDOW :: nat where "WINDOW = 100"
definition LOOKAHEAD :: nat where "LOOKAHEAD = 2"
definition DELIM :: byte where "DELIM = 44"

definition nr_windows :: "bytes list \<Rightarrow> nat" where
  "nr_windows filecontent = (length filecontent - 1) div 100"

text \<open>
  \<open>write_outfile\<close>: when the file cannot be opened, the \<open>finally\<close> clause closes a variable
  that was never bound.
\<close>

definition write_outfile :: "bool \<Rightarrow> bytes \<Rightarrow> bytes \<Rightarrow> bytes \<Rightarrow> bytes \<times> py_error option" where
  "write_outfile open_ok line label out =
     (if open_ok then (out @ py_strip 10 line @ [DELIM] @ label @ [10], None)
      else (out, Some UnboundLocalError))"

text \<open>The conjunction of the comparison is lazy: \<open>access[3]\<close> is read only after a match.\<close>

fun check_access_loop :: "bytes list \<Rightarrow> bytes \<Rightarrow> bytes \<Rightarrow> nat list \<Rightarrow> py_error + bool" where
  "check_access_loop filecontent check_fd check_offset [] = Inr False"
| "check_access_loop filecontent check_fd check_offset (i # is) =
     (let access = py_split DELIM (filecontent ! i) in
      case py_index access 2 of
        Inl e \<Rightarrow> Inl e
      | Inr fd \<Rightarrow>
          if fd = check_fd then
            (case py_index access 3 of
               Inl e \<Rightarrow> Inl e
             | Inr off \<Rightarrow>
                 if off = check_offset then Inr True
                 else check_access_loop filecontent check_fd check_offset is)
          else check_access_loop filecontent check_fd check_offset is)"

definition check_access :: "bytes list \<Rightarrow> bytes \<Rightarrow> bytes \<Rightarrow> nat \<Rightarrow> nat \<Rightarrow> py_error + bool" where
  "check_access filecontent check_fd check_offset start_line check_nr_lines =
     (let end_line = start_line + check_nr_lines;
          end_line = (if end_line > length filecontent then length filecontent else end_line)
      in check_access_loop filecontent check_fd check_offset [start_line..<end_line])"

definition label_line :: "bool \<Rightarrow> bytes list \<Rightarrow> nat \<Rightarrow> nat \<Rightarrow> bytes \<Rightarrow> bytes \<times> py_error option" where
  "label_line open_ok filecontent end_line j out =
     (let line = py_split DELIM (filecontent ! j) in
      case py_index line 2 of
        Inl e \<Rightarrow> (out, Some e)
      | Inr fd \<Rightarrow>
          (case py_index line 3 of
             Inl e \<Rightarrow> (out, Some e)
           | Inr off \<Rightarrow>
               (case check_access filecontent fd off end_line (LOOKAHEAD * WINDOW) of
                  Inl e \<Rightarrow> (out, Some e)
                | Inr found \<Rightarrow>
                    write_outfile open_ok (filecontent ! j) (if found then cstr ''0'' else cstr ''1'') out)))"

text \<open>A \<open>for\<close> loop whose body may raise.\<close>

fun py_for :: "'i list \<Rightarrow> ('i \<Rightarrow> 's \<Rightarrow> 's \<times> py_error option) \<Rightarrow> 's \<Rightarrow> 's \<times> py_error option" where
  "py_for [] body s = (s, None)"
| "py_for (i # is) body s =
     (case body i s of (s', None) \<Rightarrow> py_for is body s' | (s', Some e) \<Rightarrow> (s', Some e))"

definition label_main :: "bool \<Rightarrow> bytes list \<Rightarrow> bytes \<Rightarrow> bytes \<times> py_error option" where
  "label_main open_ok filecontent out =
     py_for [1..<nr_windows filecontent]
       (\<lambda>i. let start = i * WINDOW; end_line = (i + 1) * WINDOW
            in py_for [start..<end_line] (label_line open_ok filecontent end_line)) out"

section \<open>What the labels mean\<close>

definition fields :: "bytes list \<Rightarrow> nat \<Rightarrow> bytes list" where
  "fields filecontent j = py_split DELIM (filecontent ! j)"

text \<open>
  The comparison of line \<open>j\<close> with line \<open>i\<close>: it is the same access, or it raises an exception. A line of
  three fields is compared without an exception unless it has the descriptor that is searched.
\<close>

definition same_access :: "bytes list \<Rightarrow> nat \<Rightarrow> nat \<Rightarrow> bool" where
  "same_access filecontent j i \<longleftrightarrow>
     4 \<le> length (fields filecontent i) \<and> fields filecontent i ! 2 = fields filecontent j ! 2 \<and>
     fields filecontent i ! 3 = fields filecontent j ! 3"

definition unreadable :: "bytes list \<Rightarrow> nat \<Rightarrow> nat \<Rightarrow> bool" where
  "unreadable filecontent j i \<longleftrightarrow>
     length (fields filecontent i) < 3 \<or>
     length (fields filecontent i) = 3 \<and> fields filecontent i ! 2 = fields filecontent j ! 2"

text \<open>The lines of the \<open>LOOKAHEAD\<close> windows after the window of line \<open>j\<close>.\<close>

definition ahead :: "bytes list \<Rightarrow> nat \<Rightarrow> nat list" where
  "ahead filecontent j = [(j div 100 + 1) * 100 ..< min ((j div 100 + 3) * 100) (length filecontent)]"

definition reused :: "bytes list \<Rightarrow> nat \<Rightarrow> bool" where
  "reused filecontent j \<longleftrightarrow> list_ex (same_access filecontent j) (ahead filecontent j)"

text \<open>
  Labelling line \<open>j\<close> raises an exception: it is too short itself, or the search meets an unreadable
  line before it finds the access.
\<close>

definition raises :: "bytes list \<Rightarrow> nat \<Rightarrow> bool" where
  "raises filecontent j \<longleftrightarrow>
     length (fields filecontent j) < 4 \<or>
     (case List.find (\<lambda>i. unreadable filecontent j i \<or> same_access filecontent j i) (ahead filecontent j) of
        None \<Rightarrow> False | Some i \<Rightarrow> unreadable filecontent j i)"

definition labelled :: "bytes list \<Rightarrow> nat \<Rightarrow> bytes" where
  "labelled filecontent j =
     py_strip 10 (filecontent ! j) @ (if reused filecontent j then cstr '',0'' else cstr '',1'') @ [10]"

definition well_formed :: "bytes list \<Rightarrow> bool" where
  "well_formed filecontent \<longleftrightarrow> (\<forall>l \<in> set filecontent. 4 \<le> length (py_split DELIM l))"

lemma check_access_loop_spec:
  "check_access_loop fc (fields fc j ! 2) (fields fc j ! 3) is =
    (case List.find (\<lambda>i. unreadable fc j i \<or> same_access fc j i) is of
       None \<Rightarrow> Inr False | Some i \<Rightarrow> if unreadable fc j i then Inl IndexError else Inr True)"
proof (induction "is")
  case (Cons i "is")
  then show ?case
    by (auto simp: py_index_def Let_def unreadable_def same_access_def fields_def)
qed simp

lemma check_access_spec:
  "check_access fc (fields fc j ! 2) (fields fc j ! 3) ((j div 100 + 1) * WINDOW) (LOOKAHEAD * WINDOW) =
    (case List.find (\<lambda>i. unreadable fc j i \<or> same_access fc j i) (ahead fc j) of
       None \<Rightarrow> Inr False | Some i \<Rightarrow> if unreadable fc j i then Inl IndexError else Inr True)"
proof -
  have "[(j div 100 + 1) * 100 ..< (if length fc < (j div 100 + 1) * 100 + 200 then length fc
      else (j div 100 + 1) * 100 + 200)] = ahead fc j"
    by (simp add: ahead_def min_def add.commute)
  then show ?thesis
    unfolding check_access_def Let_def check_access_loop_spec WINDOW_def LOOKAHEAD_def
    by (simp only: arith_simps)
qed

lemma find_reused:
  "List.find (\<lambda>i. unreadable fc j i \<or> same_access fc j i) (ahead fc j) = None \<Longrightarrow> \<not> reused fc j"
  "List.find (\<lambda>i. unreadable fc j i \<or> same_access fc j i) (ahead fc j) = Some i \<Longrightarrow> \<not> unreadable fc j i \<Longrightarrow> reused fc j"
  by (auto simp: reused_def list_ex_iff find_None_iff find_Some_iff)

lemma label_line_spec:
  "label_line open_ok fc ((j div 100 + 1) * WINDOW) j out =
     (if raises fc j then (out, Some IndexError)
      else if open_ok then (out @ labelled fc j, None) else (out, Some UnboundLocalError))"
proof (cases "length (fields fc j) < 4")
  case True
  then show ?thesis by (simp add: label_line_def raises_def py_index_def fields_def Let_def)
next
  case False
  let ?f = "List.find (\<lambda>i. unreadable fc j i \<or> same_access fc j i) (ahead fc j)"
  have "label_line open_ok fc ((j div 100 + 1) * WINDOW) j out =
      (case ?f of None \<Rightarrow> write_outfile open_ok (fc ! j) (cstr ''1'') out
       | Some i \<Rightarrow> if unreadable fc j i then (out, Some IndexError) else write_outfile open_ok (fc ! j) (cstr ''0'') out)"
    using False check_access_spec [of fc j]
    by (simp add: label_line_def py_index_def fields_def Let_def split: option.splits)
  also have "\<dots> = (if raises fc j then (out, Some IndexError)
      else if open_ok then (out @ labelled fc j, None) else (out, Some UnboundLocalError))"
    using False find_reused [of fc j]
    by (cases ?f) (auto simp: raises_def write_outfile_def labelled_def DELIM_def)
  finally show ?thesis .
qed

lemma py_for_append:
  "py_for (xs @ ys) body s = (case py_for xs body s of (s', None) \<Rightarrow> py_for ys body s' | (s', Some e) \<Rightarrow> (s', Some e))"
  by (induction xs arbitrary: s) (auto split: prod.splits option.splits)

lemma py_for_concat:
  assumes "\<And>i j s. i \<in> set is \<Longrightarrow> j \<in> set (f i) \<Longrightarrow> body i j s = body' j s"
  shows "py_for is (\<lambda>i. py_for (f i) (body i)) s = py_for (concat (map f is)) body' s"
  using assms
proof (induction "is" arbitrary: s)
  case (Cons i "is")
  have "py_for js (body i) s = py_for js body' s" if "set js \<subseteq> set (f i)" for js s
    using that by (induction js arbitrary: s) (auto simp: Cons.prems split: prod.splits option.splits)
  then have "py_for (f i) (body i) s = py_for (f i) body' s" by simp
  with Cons show ?case by (simp add: py_for_append split: prod.splits option.splits)
qed simp

lemma py_for_raises:
  assumes "\<And>i s. body i s = (if R i then (s, Some e) else (s @ g i, None))"
  shows "py_for is body s =
    (s @ concat (map g (takeWhile (\<lambda>i. \<not> R i) is)), if takeWhile (\<lambda>i. \<not> R i) is = is then None else Some e)"
  by (induction "is" arbitrary: s) (simp_all add: assms del: takeWhile_eq_all_conv)

lemma concat_windows: "concat (map (\<lambda>i. [i * m ..< (i + 1) * m]) [1..<n]) = [m ..< n * m]"
proof (induction n)
  case (Suc n)
  show ?case
  proof (cases n)
    case (Suc k)
    have "[m ..< Suc n * m] = [m ..< n * m] @ [n * m ..< Suc n * m]"
      using upt_add_eq_append [of m "n * m" m] Suc by (simp add: add.commute)
    with Suc.IH Suc show ?thesis by simp
  qed simp
qed simp

lemma label_main_lines:
  "label_main open_ok fc out =
     py_for [100 ..< nr_windows fc * 100] (\<lambda>j. label_line open_ok fc ((j div 100 + 1) * WINDOW) j) out"
proof -
  have "j div 100 = i" if "j \<in> set [i * WINDOW ..< (i + 1) * WINDOW]" for i j
    using that by (intro div_nat_eqI) (auto simp: WINDOW_def)
  then have "label_main open_ok fc out = py_for (concat (map (\<lambda>i. [i * WINDOW ..< (i + 1) * WINDOW]) [1 ..< nr_windows fc]))
      (\<lambda>j. label_line open_ok fc ((j div 100 + 1) * WINDOW) j) out"
    unfolding label_main_def Let_def by (intro py_for_concat) simp
  then show ?thesis unfolding WINDOW_def concat_windows .
qed

text \<open>The lines that are labelled: those before the first one that raises an exception.\<close>

definition labelled_lines :: "bytes list \<Rightarrow> nat list" where
  "labelled_lines filecontent = takeWhile (\<lambda>j. \<not> raises filecontent j) [100 ..< nr_windows filecontent * 100]"

lemma label_main_written:
  "label_main True fc out = (out @ concat (map (labelled fc) (labelled_lines fc)),
     if labelled_lines fc = [100 ..< nr_windows fc * 100] then None else Some IndexError)"
  unfolding label_main_lines labelled_lines_def by (rule py_for_raises) (simp only: label_line_spec if_True)

lemma label_main_no_output:
  "label_main False fc out =
     (out, if [100 ..< nr_windows fc * 100] = [] then None
           else if labelled_lines fc = [] then Some IndexError else Some UnboundLocalError)"
  unfolding label_main_lines labelled_lines_def label_line_spec
  by (cases "[100 ..< nr_windows fc * 100]") (simp_all del: upt_eq_Nil_conv)

lemma well_formed_raises:
  assumes "well_formed fc" "j < length fc"
  shows "\<not> raises fc j"
proof -
  have ok: "4 \<le> length (fields fc i)" if "i < length fc" for i
    using assms(1) that by (simp add: well_formed_def fields_def)
  have "\<not> unreadable fc j i" if "i \<in> set (ahead fc j)" for i
    using ok [of i] that by (simp add: unreadable_def ahead_def)
  with ok [OF assms(2)] show ?thesis
    by (auto simp: raises_def find_Some_iff in_set_conv_nth split: option.splits)
qed

lemma well_formed_labelled:
  assumes "well_formed fc"
  shows "labelled_lines fc = [100 ..< nr_windows fc * 100]"
  unfolding labelled_lines_def
proof (subst takeWhile_eq_all_conv, rule ballI)
  fix j assume "j \<in> set [100 ..< nr_windows fc * 100]"
  then have "j < length fc"
    using div_times_less_eq_dividend [of "length fc - 1" 100] by (auto simp: nr_windows_def intro: less_le_trans)
  with assms show "\<not> raises fc j" by (rule well_formed_raises)
qed

text \<open>
  C17. The labels are what the documentation says, and the exceptions are exactly these. The
  run goes through the lines from number 100 up to the end of the last counted window in order.
  It appends each line with the label 0 when its descriptor and offset occur again within the
  next two windows and with 1 when they do not, until a line raises an \<open>IndexError\<close>: it has fewer
  than four fields, or the search for it meets, before it finds the access, a line of fewer than
  three fields or of three fields with the same descriptor. If the output file cannot be opened,
  nothing is written, and the first line ends the run. In a log in which every line has four
  fields no line raises an exception. The lines of the first window and those after the last
  counted window are never labelled.
\<close>

theorem labels_correct:
  "label_main True fc out = (out @ concat (map (labelled fc) (labelled_lines fc)),
     if labelled_lines fc = [100 ..< nr_windows fc * 100] then None else Some IndexError) \<and>
   label_main False fc out =
     (out, if [100 ..< nr_windows fc * 100] = [] then None
           else if labelled_lines fc = [] then Some IndexError else Some UnboundLocalError) \<and>
   (well_formed fc \<longrightarrow> labelled_lines fc = [100 ..< nr_windows fc * 100])"
  by (intro conjI impI label_main_written label_main_no_output well_formed_labelled)

definition a_line :: bytes where "a_line = cstr ''0,1,3,0,8''"

lemma a_line_labelled:
  assumes "length fc = 201" "100 \<le> j" "j < 200" "fc ! j = a_line" "fc ! 200 = a_line"
  shows "\<not> raises fc j" "labelled fc j = a_line @ cstr '',0'' @ [10]"
proof -
  have "j div 100 = 1" using assms(2,3) by (intro div_nat_eqI) auto
  then have ahead: "ahead fc j = [200]" using assms(1) by (simp add: ahead_def upt_rec)
  have "4 \<le> length (fields fc j)" "fields fc 200 = fields fc j" "py_strip 10 a_line = a_line"
    using assms(4,5) by (simp_all add: fields_def a_line_def DELIM_def py_strip_def)
  then show "\<not> raises fc j" "labelled fc j = a_line @ cstr '',0'' @ [10]"
    using ahead assms(4)
    by (simp_all add: raises_def labelled_def reused_def same_access_def unreadable_def del: cstr_Cons)
qed

text \<open>
  Two logs of 201 lines: one access over and over, where each of the lines 100 to 199 finds line
  200; and the same with a short line 150, where the run stops after fifty labels.
\<close>

theorem labels_correct_witness:
  "label_main True (replicate 201 a_line) [] = (concat (replicate 100 (a_line @ cstr '',0'' @ [10])), None) \<and>
   label_main True ((replicate 201 a_line)[150 := cstr ''0,1'']) [] =
     (concat (replicate 50 (a_line @ cstr '',0'' @ [10])), Some IndexError)"
proof -
  let ?a = "replicate 201 a_line" and ?b = "(replicate 201 a_line)[150 := cstr ''0,1'']"
  have "well_formed ?a" by (simp add: well_formed_def a_line_def DELIM_def)
  moreover have "map (labelled ?a) [100 ..< 200] = replicate 100 (a_line @ cstr '',0'' @ [10])"
    by (rule replicate_eqI) (auto simp: a_line_labelled simp del: cstr_Cons upt_rec_numeral)
  ultimately have a: "label_main True ?a [] = (concat (replicate 100 (a_line @ cstr '',0'' @ [10])), None)"
    using labels_correct [of ?a "[]"] by (simp add: nr_windows_def del: cstr_Cons upt_rec_numeral)
  have "raises ?b 150" by (simp add: raises_def fields_def DELIM_def)
  moreover have "[100 ..< 200] = [100 ..< 150] @ 150 # [151 ..< 200]"
    using upt_add_eq_append [of 100 150 50] upt_conv_Cons [of 150 200] by (simp del: upt_rec_numeral)
  moreover have "\<forall>j \<in> set [100 ..< 150]. \<not> raises ?b j" by (simp add: a_line_labelled del: cstr_Cons upt_rec_numeral)
  ultimately have "labelled_lines ?b = [100 ..< 150]"
    using takeWhile_append2 [of "[100 ..< 150]" "\<lambda>j. \<not> raises ?b j" "150 # [151 ..< 200]"]
    by (simp add: labelled_lines_def nr_windows_def del: cstr_Cons upt_rec_numeral)
  moreover have "map (labelled ?b) [100 ..< 150] = replicate 50 (a_line @ cstr '',0'' @ [10])"
    by (rule replicate_eqI) (auto simp: a_line_labelled simp del: cstr_Cons upt_rec_numeral)
  moreover have "[100 ..< 150] \<noteq> [100 ..< 200]" by (rule notI, drule arg_cong [of _ _ length]) simp
  ultimately have "label_main True ?b [] = (concat (replicate 50 (a_line @ cstr '',0'' @ [10])), Some IndexError)"
    using labels_correct [of ?b "[]"] by (simp add: nr_windows_def del: cstr_Cons upt_rec_numeral)
  with a show ?thesis by blast
qed

section \<open>Reading the lines of the tracer\<close>

lemma py_split_field: "d \<notin> set xs \<Longrightarrow> py_split d (xs @ d # ys) = xs # py_split d ys"
  by (induction xs) auto

lemma py_split_last: "d \<notin> set xs \<Longrightarrow> py_split d xs = [xs]"
  by (induction xs) auto

lemma py_readlines_line: "10 \<notin> set l \<Longrightarrow> py_readlines (l @ 10 # rest) = (l @ [10]) # py_readlines rest"
  by (induction l) auto

lemma fmt_u_chars: "c \<in> set (fmt_u n) \<Longrightarrow> is_digit c"
  using fmt_u_digits [of n] by (simp add: list_all_iff)

lemma fmt_u_no_separators: "44 \<notin> set (fmt_u n)" "10 \<notin> set (fmt_u n)" "45 \<notin> set (fmt_u n)"
  by (auto dest!: fmt_u_chars simp: is_digit_def)

lemma fmt_d_no_separators: "44 \<notin> set (fmt_d i)" "10 \<notin> set (fmt_d i)"
  by (auto simp: fmt_d_def fmt_u_no_separators)

lemma fmt_u_inject [simp]: "fmt_u m = fmt_u n \<longleftrightarrow> m = n"
  by (metis dec_value_fmt_u)

lemma fmt_d_inject [simp]: "fmt_d i = fmt_d j \<longleftrightarrow> i = j"
proof -
  have "45 # xs \<noteq> fmt_u n" for xs n
    using fmt_u_no_separators(3) [of n] by (metis list.set_intros(1))
  then show ?thesis by (auto simp: fmt_d_def dest: sym)
qed

lemma log_line_fields:
  "py_split 44 (log_line type pid fd off n) =
     [fmt_d (sint type), fmt_d (sint pid), fmt_d (sint fd), fmt_u (unat off), fmt_u (unat n) @ [10]]"
  by (simp add: log_line_def py_split_field py_split_last fmt_d_no_separators fmt_u_no_separators)

lemma log_line_ends:
  obtains l where "log_line type pid fd off n = l @ [10]" "10 \<notin> set l"
proof
  let ?l = "fmt_d (sint type) @ [44] @ fmt_d (sint pid) @ [44] @ fmt_d (sint fd) @ [44] @
     fmt_u (unat off) @ [44] @ fmt_u (unat n)"
  show "log_line type pid fd off n = ?l @ [10]" by (simp add: log_line_def)
  show "10 \<notin> set ?l" by (simp add: fmt_d_no_separators fmt_u_no_separators)
qed

definition access_line :: "i32 \<times> access \<Rightarrow> bytes" where
  "access_line pa = (case pa of (p, a) \<Rightarrow> line_of p a)"

text \<open>The accesses that the events of a run have logged.\<close>

fun logged :: "event list \<Rightarrow> (i32 \<times> access) list" where
  "logged [] = []"
| "logged (e # es) = (case e of OpenLog p a ok \<Rightarrow> if ok then (p, a) # logged es else logged es | _ \<Rightarrow> logged es)"

lemma concat_event_lines: "concat (map event_line es) = concat (map access_line (logged es))"
  by (induction es) (auto simp: event_line_def access_line_def split: event.splits)

lemma py_readlines_lines: "py_readlines (concat (map access_line as)) = map access_line as"
proof (induction as)
  case (Cons pa as)
  obtain l where l: "access_line pa = l @ [10]" "10 \<notin> set l"
    unfolding access_line_def line_of_def case_prod_unfold by (rule log_line_ends)
  then show ?case using Cons py_readlines_line [OF l(2)] by simp
qed simp

lemma well_formed_lines: "well_formed (map access_line as)"
  by (auto simp: well_formed_def access_line_def line_of_def DELIM_def log_line_fields)

lemma fields_access_line:
  assumes "i < length as"
  shows "fields (map access_line as) i ! 2 = fmt_d (sint (a_fd (snd (as ! i))))"
    and "fields (map access_line as) i ! 3 = fmt_u (unat (a_pos (snd (as ! i))))"
  using assms by (simp_all add: fields_def access_line_def line_of_def DELIM_def case_prod_unfold log_line_fields)

lemma sint_eqD: "sint x = sint y \<Longrightarrow> x = (y :: 'a::len word)"
  by (drule arg_cong [where f = "word_of_int :: int \<Rightarrow> 'a word"]) simp

lemma reused_lines:
  assumes "j < length as"
  shows "reused (map access_line as) j \<longleftrightarrow>
    (\<exists>i. (j div 100 + 1) * 100 \<le> i \<and> i < min ((j div 100 + 3) * 100) (length as) \<and>
       a_fd (snd (as ! i)) = a_fd (snd (as ! j)) \<and> a_pos (snd (as ! i)) = a_pos (snd (as ! j)))"
proof -
  have "4 \<le> length (fields (map access_line as) i)" if "i < length as" for i
    using well_formed_lines [of as] that by (simp add: well_formed_def fields_def)
  then show ?thesis
    unfolding reused_def list_ex_iff Bex_def same_access_def ahead_def
    using assms
    by (intro ex_cong1) (auto simp: fields_access_line word_unat_eq_iff [symmetric] dest: sint_eqD)
qed

end
