(* ===== verification/Synthetic.thy ===== *)
theory Synthetic
  imports Labels "HOL-Library.AList"
begin

text \<open>
  \<open>data_gen/synthetic\<close>: the generators of synthetic access logs, \<open>seq.py\<close> (strided
  accesses) and \<open>random_reuse.py\<close> (strided accesses, some of them repeated). The values
  drawn from the random number generator are arguments: the descriptors and sizes of
  \<open>init_dicts\<close>, and for each line the index chosen in \<open>fd_list\<close> and the process id, which
  \<open>random_reuse.py\<close> gets as a function of the position in the window. An index is taken to be one
  of the list, as \<open>random.choice\<close> has it. A dictionary is the association list of its items in insertion order.
\<close>

section \<open>The generators\<close>

record gen =
  dict_fd_offset :: "(int \<times> int) list"
  dict_fd_size :: "(int \<times> int) list"
  fd_list :: "int list"
  access_list :: "bytes list"
  outfile :: bytes

definition READ :: bytes where "READ = cstr ''0''"

definition lookup_dict :: "(int \<times> int) list \<Rightarrow> int \<Rightarrow> int" where
  "lookup_dict d k = (case map_of d k of Some v \<Rightarrow> v | None \<Rightarrow> 0)"

text \<open>\<open>sizes i\<close> is the size that \<open>randint\<close> returns for the \<open>i\<close>-th key.\<close>

definition init_dicts :: "int list \<Rightarrow> (nat \<Rightarrow> int) \<Rightarrow> gen" where
  "init_dicts fds sizes =
     (let offs = foldl (\<lambda>d fd. AList.update fd 0 d) [] fds
      in \<lparr> dict_fd_offset = offs, dict_fd_size = zip (map fst offs) (map sizes [0..<length offs]), fd_list = fds,
           access_list = [], outfile = [] \<rparr>)"

definition gen_write_outfile :: "bool \<Rightarrow> bytes \<Rightarrow> gen \<Rightarrow> gen \<times> py_error option" where
  "gen_write_outfile open_ok line g =
     (if open_ok then (g\<lparr> outfile := outfile g @ line @ [10] \<rparr>, None) else (g, Some UnboundLocalError))"

definition gen_line :: "int \<Rightarrow> int \<Rightarrow> int \<Rightarrow> int \<Rightarrow> bytes" where
  "gen_line pid fd off sz =
     READ @ [DELIM] @ fmt_d pid @ [DELIM] @ fmt_d fd @ [DELIM] @ fmt_d off @ [DELIM] @ fmt_d sz"

definition generate_line :: "int \<Rightarrow> nat \<times> int \<Rightarrow> gen \<Rightarrow> gen \<times> bytes" where
  "generate_line stride draw g =
     (let fd = fd_list g ! fst draw;
          off = lookup_dict (dict_fd_offset g) fd;
          sz = lookup_dict (dict_fd_size g) fd
      in (g\<lparr> dict_fd_offset := AList.update fd (off + sz * stride) (dict_fd_offset g) \<rparr>,
          gen_line (snd draw) fd off sz))"

text \<open>\<open>seq.py\<close>: \<open>stride = 1\<close>; the list of draws has \<open>nr_entries\<close> elements.\<close>

definition seq_main :: "bool \<Rightarrow> int list \<Rightarrow> (nat \<Rightarrow> int) \<Rightarrow> (nat \<times> int) list \<Rightarrow> gen \<times> py_error option" where
  "seq_main open_ok fds sizes draws =
     py_for draws
       (\<lambda>d g. case generate_line 1 d g of (g', line) \<Rightarrow> gen_write_outfile open_ok line g')
       (init_dicts fds sizes)"

text \<open>\<open>random_reuse.py\<close>: \<open>stride = 3\<close>, \<open>randomness = 0.4\<close>, and a coin from 1 to 100 for each line.\<close>

definition rr_generate_line :: "nat \<times> int \<Rightarrow> gen \<Rightarrow> gen \<times> bytes" where
  "rr_generate_line d g = generate_line 3 d g"

definition first_time :: "bool \<Rightarrow> nat \<Rightarrow> (nat \<Rightarrow> nat \<times> int) \<Rightarrow> gen \<Rightarrow> gen \<times> py_error option" where
  "first_time open_ok window_sz draw g =
     py_for [0..<window_sz]
       (\<lambda>j g. case rr_generate_line (draw j) g of
          (g', line) \<Rightarrow> gen_write_outfile open_ok line (g'\<lparr> access_list := access_list g' @ [line] \<rparr>)) g"

definition random_reuse ::
  "bool \<Rightarrow> nat \<Rightarrow> (nat \<Rightarrow> int \<times> nat \<times> int) \<Rightarrow> gen \<Rightarrow> gen \<times> py_error option" where
  "random_reuse open_ok window_sz draw g =
     py_for [0..<window_sz]
       (\<lambda>j g. case draw j of (flip, d) \<Rightarrow>
          if flip < 40 then
            (case py_index (access_list g) j of
               Inl e \<Rightarrow> (g, Some e)
             | Inr line \<Rightarrow> gen_write_outfile open_ok line g)
          else (case rr_generate_line d g of (g', line) \<Rightarrow> gen_write_outfile open_ok line g')) g"

definition reuse_main ::
  "bool \<Rightarrow> int list \<Rightarrow> (nat \<Rightarrow> int) \<Rightarrow> nat \<Rightarrow> (nat \<Rightarrow> nat \<times> int) \<Rightarrow> (nat \<Rightarrow> int \<times> nat \<times> int) list \<Rightarrow> gen \<times> py_error option" where
  "reuse_main open_ok fds sizes window_sz first windows =
     (case first_time open_ok window_sz first (init_dicts fds sizes) of
        (g, Some e) \<Rightarrow> (g, Some e)
      | (g, None) \<Rightarrow> py_for windows (random_reuse open_ok window_sz) g)"

section \<open>The accesses they generate\<close>

text \<open>
  The line of a draw when \<open>k\<close> lines have been generated for its descriptor: the offset
  has moved on by \<open>k\<close> strides.
\<close>

definition strided :: "int \<Rightarrow> int list \<Rightarrow> (int \<times> int) list \<Rightarrow> (nat \<times> int) list \<Rightarrow> nat \<times> int \<Rightarrow> bytes" where
  "strided stride fds szs earlier d =
     (let fd = fds ! fst d; sz = lookup_dict szs fd;
          k = length (filter (\<lambda>d'. fds ! fst d' = fd) earlier)
      in gen_line (snd d) fd (int k * sz * stride) sz)"

text \<open>The generated lines are determined by the draws so far.\<close>

definition gen_inv :: "int \<Rightarrow> int list \<Rightarrow> (int \<times> int) list \<Rightarrow> (nat \<times> int) list \<Rightarrow> gen \<Rightarrow> bool" where
  "gen_inv stride fds szs earlier g \<longleftrightarrow>
     fd_list g = fds \<and> dict_fd_size g = szs \<and>
     (\<forall>fd. lookup_dict (dict_fd_offset g) fd =
        int (length (filter (\<lambda>d'. fds ! fst d' = fd) earlier)) * lookup_dict szs fd * stride)"

lemma lookup_update [simp]:
  "lookup_dict (AList.update k v d) k' = (if k' = k then v else lookup_dict d k')"
  by (simp add: lookup_dict_def update_conv')

lemma gen_inv_init: "gen_inv stride fds (dict_fd_size (init_dicts fds sizes)) [] (init_dicts fds sizes)"
proof -
  have "lookup_dict (foldl (\<lambda>d fd. AList.update fd 0 d) d fds) k = 0"
    if "\<And>k. lookup_dict d k = 0" for d k
    using that by (induction fds arbitrary: d) (simp_all)
  then show ?thesis by (simp add: gen_inv_def init_dicts_def Let_def lookup_dict_def)
qed

lemma generate_line_strided:
  assumes "gen_inv stride fds szs earlier g"
  shows "\<exists>g'. generate_line stride d g = (g', strided stride fds szs earlier d) \<and>
      gen_inv stride fds szs (earlier @ [d]) g' \<and>
      outfile g' = outfile g \<and> access_list g' = access_list g"
  using assms
  by (auto simp: gen_inv_def generate_line_def strided_def Let_def algebra_simps)

text \<open>The lines for a list of draws, each given those before it.\<close>

fun strided_lines ::
  "int \<Rightarrow> int list \<Rightarrow> (int \<times> int) list \<Rightarrow> (nat \<times> int) list \<Rightarrow> (nat \<times> int) list \<Rightarrow> bytes list" where
  "strided_lines stride fds szs earlier [] = []"
| "strided_lines stride fds szs earlier (d # ds) =
     strided stride fds szs earlier d # strided_lines stride fds szs (earlier @ [d]) ds"

definition text_of :: "bytes list \<Rightarrow> bytes" where
  "text_of ls = concat (map (\<lambda>l. l @ [10]) ls)"

lemma text_of_simps [simp]:
  "text_of [] = []" "text_of (l # ls) = l @ 10 # text_of ls" "text_of (xs @ ys) = text_of xs @ text_of ys"
  by (simp_all add: text_of_def)

lemma seq_loop:
  assumes "gen_inv 1 fds szs earlier g"
  shows "\<exists>g'. py_for draws
        (\<lambda>d g. case generate_line 1 d g of (g', line) \<Rightarrow> gen_write_outfile True line g') g = (g', None) \<and>
      outfile g' = outfile g @ text_of (strided_lines 1 fds szs earlier draws)"
  using assms
proof (induction draws arbitrary: earlier g)
  case (Cons d draws)
  from generate_line_strided [OF Cons.prems, of d] obtain g1 where
    g1: "generate_line 1 d g = (g1, strided 1 fds szs earlier d)"
      "gen_inv 1 fds szs (earlier @ [d]) g1" "outfile g1 = outfile g" by blast
  let ?g = "g1\<lparr> outfile := outfile g @ strided 1 fds szs earlier d @ [10] \<rparr>"
  have "gen_inv 1 fds szs (earlier @ [d]) ?g" using g1(2) by (simp add: gen_inv_def)
  from Cons.IH [OF this] show ?case using g1 by (auto simp: gen_write_outfile_def)
qed simp

lemma py_for_map: "py_for (map h xs) f g = py_for xs (\<lambda>x. f (h x)) g"
  by (induction xs arbitrary: g) (auto split: option.splits prod.splits)

lemma length_strided_lines [simp]: "length (strided_lines stride fds szs earlier ds) = length ds"
  by (induction ds arbitrary: earlier) simp_all

lemma first_time_loop:
  assumes "gen_inv 3 fds szs earlier g"
  shows "\<exists>g'. py_for draws (\<lambda>d g. case rr_generate_line d g of
        (g', line) \<Rightarrow> gen_write_outfile True line (g'\<lparr> access_list := access_list g' @ [line] \<rparr>)) g = (g', None) \<and>
      outfile g' = outfile g @ text_of (strided_lines 3 fds szs earlier draws) \<and>
      access_list g' = access_list g @ strided_lines 3 fds szs earlier draws \<and>
      gen_inv 3 fds szs (earlier @ draws) g'"
  using assms
proof (induction draws arbitrary: earlier g)
  case (Cons d draws)
  from generate_line_strided [OF Cons.prems, of d] obtain g1 where
    g1: "generate_line 3 d g = (g1, strided 3 fds szs earlier d)"
      "gen_inv 3 fds szs (earlier @ [d]) g1" "outfile g1 = outfile g" "access_list g1 = access_list g"
    by blast
  let ?g = "g1\<lparr> access_list := access_list g @ [strided 3 fds szs earlier d],
      outfile := outfile g @ strided 3 fds szs earlier d @ [10] \<rparr>"
  have "gen_inv 3 fds szs (earlier @ [d]) ?g" using g1(2) by (simp add: gen_inv_def)
  from Cons.IH [OF this] show ?case
    using g1 by (auto simp: gen_write_outfile_def rr_generate_line_def)
qed simp

text \<open>
  The lines of a later window, from position \<open>j\<close> on: the line of the first window at the
  same position, or a freshly generated one. Only the latter move offsets on.
\<close>

fun reuse_lines ::
  "int list \<Rightarrow> (int \<times> int) list \<Rightarrow> bytes list \<Rightarrow> (nat \<times> int) list \<Rightarrow> nat \<Rightarrow> (int \<times> nat \<times> int) list \<Rightarrow> bytes list" where
  "reuse_lines fds szs lines earlier j [] = []"
| "reuse_lines fds szs lines earlier j ((flip, d) # ds) =
     (if flip < 40 then lines ! j # reuse_lines fds szs lines earlier (Suc j) ds
      else strided 3 fds szs earlier d # reuse_lines fds szs lines (earlier @ [d]) (Suc j) ds)"

definition fresh :: "(int \<times> nat \<times> int) list \<Rightarrow> (nat \<times> int) list" where
  "fresh ds = map snd (filter (\<lambda>(flip, _). \<not> flip < 40) ds)"

fun reuse_windows ::
  "int list \<Rightarrow> (int \<times> int) list \<Rightarrow> bytes list \<Rightarrow> (nat \<times> int) list \<Rightarrow> (int \<times> nat \<times> int) list list \<Rightarrow> bytes list" where
  "reuse_windows fds szs lines earlier [] = []"
| "reuse_windows fds szs lines earlier (w # ws) =
     reuse_lines fds szs lines earlier 0 w @ reuse_windows fds szs lines (earlier @ fresh w) ws"

lemma random_reuse_loop:
  assumes "gen_inv 3 fds szs earlier g" "access_list g = lines" "j + length draws \<le> length lines"
  shows "\<exists>g'. py_for (zip [j..<j + length draws] draws)
        (\<lambda>(j, flip, d) g. if flip < 40 then
             (case py_index (access_list g) j of Inl e \<Rightarrow> (g, Some e) | Inr line \<Rightarrow> gen_write_outfile True line g)
           else (case rr_generate_line d g of (g', line) \<Rightarrow> gen_write_outfile True line g')) g = (g', None) \<and>
      outfile g' = outfile g @ text_of (reuse_lines fds szs lines earlier j draws) \<and>
      access_list g' = lines \<and> gen_inv 3 fds szs (earlier @ fresh draws) g'"
  using assms
proof (induction draws arbitrary: earlier g j)
  case Nil
  then show ?case by (simp add: fresh_def)
next
  case (Cons fd draws)
  obtain flip d where fd: "fd = (flip, d)" by (cases fd)
  have z: "zip [j..<j + length (fd # draws)] (fd # draws) = (j, fd) # zip [Suc j..<Suc j + length draws] draws"
    by (simp add: upt_conv_Cons del: upt_Suc)
  show ?case
  proof (cases "flip < 40")
    case True
    let ?g = "g\<lparr> outfile := outfile g @ lines ! j @ [10] \<rparr>"
    have "gen_inv 3 fds szs earlier ?g" "access_list ?g = lines" using Cons.prems by (auto simp: gen_inv_def)
    from Cons.IH [OF this, of "Suc j"] True show ?thesis
      using Cons.prems(2,3) unfolding z by (auto simp: fd gen_write_outfile_def fresh_def py_index_def)
  next
    case False
    from generate_line_strided [OF Cons.prems(1), of d] obtain g1 where
      g1: "generate_line 3 d g = (g1, strided 3 fds szs earlier d)"
        "gen_inv 3 fds szs (earlier @ [d]) g1" "outfile g1 = outfile g" "access_list g1 = access_list g"
      by blast
    let ?g = "g1\<lparr> outfile := outfile g @ strided 3 fds szs earlier d @ [10] \<rparr>"
    have "gen_inv 3 fds szs (earlier @ [d]) ?g" "access_list ?g = lines"
      using g1 Cons.prems(2) by (auto simp: gen_inv_def)
    from Cons.IH [OF this, of "Suc j"] False g1 show ?thesis
      using Cons.prems(3) unfolding z by (auto simp: fd gen_write_outfile_def fresh_def rr_generate_line_def)
  qed
qed

lemma reuse_windows_loop:
  assumes "gen_inv 3 fds szs earlier g" "access_list g = lines" "length lines = n"
  shows "\<exists>g'. py_for ws (random_reuse True n) g = (g', None) \<and>
      outfile g' = outfile g @ text_of (reuse_windows fds szs lines earlier (map (\<lambda>w. map w [0..<n]) ws))"
  using assms
proof (induction ws arbitrary: earlier g)
  case (Cons w ws)
  let ?w = "map w [0..<n]"
  have z: "zip [0..<0 + length ?w] ?w = map (\<lambda>j. (j, w j)) [0..<n]"
    by (intro nth_equalityI) simp_all
  from random_reuse_loop [OF Cons.prems(1,2), of 0 ?w, unfolded z py_for_map prod.case] Cons.prems(3) obtain g1 where
    g1: "random_reuse True n w g = (g1, None)" "access_list g1 = lines"
      "outfile g1 = outfile g @ text_of (reuse_lines fds szs lines earlier 0 ?w)"
      "gen_inv 3 fds szs (earlier @ fresh ?w) g1"
    by (auto simp: random_reuse_def split_beta)
  from Cons.IH [OF g1(4,2) Cons.prems(3)] g1 show ?case by auto
qed simp

text \<open>
  C31. The synthetic logs have the advertised access patterns. Whatever the random
  generator returns, \<open>seq.py\<close> writes one line per entry, and the \<open>k\<close>-th access to a
  descriptor is at offset \<open>k * size * stride\<close> with that descriptor's fixed size; \<open>random_reuse.py\<close>
  writes such a first window (stride 3) and then windows each line of which is, by the
  coin, the line of the first window at the same position or the next strided access, a
  repeated line moving no offset. No access to the list of the first window's lines is out of range.
\<close>

theorem synthetic_logs:
  "(\<exists>g. seq_main True fds sizes draws = (g, None) \<and>
      outfile g = text_of (strided_lines 1 fds (dict_fd_size (init_dicts fds sizes)) [] draws)) \<and>
   (\<exists>g. reuse_main True fds sizes window_sz first windows = (g, None) \<and>
      outfile g =
        (let szs = dict_fd_size (init_dicts fds sizes); draws = map first [0..<window_sz];
             lines = strided_lines 3 fds szs [] draws
         in text_of (lines @ reuse_windows fds szs lines draws (map (\<lambda>w. map w [0..<window_sz]) windows))))"
proof
  show "\<exists>g. seq_main True fds sizes draws = (g, None) \<and>
      outfile g = text_of (strided_lines 1 fds (dict_fd_size (init_dicts fds sizes)) [] draws)"
    using seq_loop [OF gen_inv_init, of draws fds sizes]
    by (auto simp: seq_main_def init_dicts_def Let_def)
  let ?draws = "map first [0..<window_sz]" and ?szs = "dict_fd_size (init_dicts fds sizes)"
  from first_time_loop [OF gen_inv_init, of ?draws fds sizes, unfolded py_for_map] obtain g where
    g: "first_time True window_sz first (init_dicts fds sizes) = (g, None)"
      "outfile g = text_of (strided_lines 3 fds ?szs [] ?draws)"
      "access_list g = strided_lines 3 fds ?szs [] ?draws" "gen_inv 3 fds ?szs ?draws g"
    by (auto simp: first_time_def init_dicts_def Let_def)
  have "length (strided_lines 3 fds ?szs [] ?draws) = window_sz" by simp
  from reuse_windows_loop [OF g(4,3) this, of windows] g
  show "\<exists>g. reuse_main True fds sizes window_sz first windows = (g, None) \<and>
      outfile g =
        (let szs = dict_fd_size (init_dicts fds sizes); draws = map first [0..<window_sz];
             lines = strided_lines 3 fds szs [] draws
         in text_of (lines @ reuse_windows fds szs lines draws (map (\<lambda>w. map w [0..<window_sz]) windows)))"
    by (auto simp: reuse_main_def Let_def)
qed

end
