(* ===== verification/Filter_Policy.thy ===== *)
theory Filter_Policy
  imports Dbformat
begin

text \<open>
  \<open>util/hash.cc\<close>, \<open>util/bloom.cc\<close>, the \<open>FilterPolicy\<close> interface and its wrapper for
  internal keys in \<open>db/dbformat.cc\<close>. A policy summarises a set of keys as a string; its
  contract, the locale \<open>filter_policy\<close>, is that no key of the set is ever missed.
\<close>

section \<open>The hash function\<close>

definition hash_m :: u32 where "hash_m = 0xc6a4a793"
definition hash_r :: nat where "hash_r = 24"

fun Hash_words :: "u32 \<Rightarrow> bytes \<Rightarrow> u32 \<times> bytes" where
  "Hash_words h (a # b # c # d # data) =
     (let w = DecodeFixed32 [a, b, c, d]; h = (h + w) * hash_m
      in Hash_words (h XOR drop_bit 16 h) data)"
| "Hash_words h data = (h, data)"

definition Hash_tail :: "u32 \<Rightarrow> bytes \<Rightarrow> u32" where
  "Hash_tail h data =
     (let h = (if length data = 3 then h + push_bit 16 (ucast (data ! 2)) else h);
          h = (if length data = 3 \<or> length data = 2 then h + push_bit 8 (ucast (data ! 1)) else h)
      in if length data = 0 then h
         else let h = (h + ucast (data ! 0)) * hash_m in h XOR drop_bit hash_r h)"

definition Hash :: "bytes \<Rightarrow> u32 \<Rightarrow> u32" where
  "Hash data seed =
     (case Hash_words (seed XOR (word_of_nat (length data) * hash_m)) data of (h, rest) \<Rightarrow> Hash_tail h rest)"

section \<open>The interface\<close>

record FilterPolicy =
  FilterPolicy_Name :: bytes
  CreateFilter :: "bytes list \<Rightarrow> bytes \<Rightarrow> bytes"
  KeyMayMatch :: "bytes \<Rightarrow> bytes \<Rightarrow> bool"

text \<open>
  \<open>CreateFilter\<close> appends a filter to its destination, and the filter matches every key
  it was made from.
\<close>

locale filter_policy =
  fixes policy :: FilterPolicy
  assumes appends: "CreateFilter policy keys dst = dst @ CreateFilter policy keys []"
    and no_false_negative: "key \<in> set keys \<Longrightarrow> KeyMayMatch policy key (CreateFilter policy keys [])"
begin

lemma appended_filter_matches:
  assumes "key \<in> set keys"
  shows "KeyMayMatch policy key (drop (length dst) (CreateFilter policy keys dst))"
  by (subst appends) (simp add: no_false_negative assms)

end

section \<open>The bloom filter\<close>

definition BloomHash :: "bytes \<Rightarrow> u32" where
  "BloomHash key = Hash key 0xbc9f1d34"

text \<open>
  \<open>k_ = bits_per_key * 0.69\<close>, rounded down and clamped to 1..30. Below the upper clamp no
  product is within rounding distance of an integer, so the quotient is exact there.
\<close>

definition bloom_k :: "nat \<Rightarrow> nat" where
  "bloom_k bits_per_key =
     (let k = bits_per_key * 69 div 100; k = (if k < 1 then 1 else k) in if k > 30 then 30 else k)"

definition rotate17 :: "u32 \<Rightarrow> u32" where
  "rotate17 h = drop_bit 17 h OR push_bit 15 h"

definition set_array_bit :: "bytes \<Rightarrow> nat \<Rightarrow> bytes" where
  "set_array_bit array bitpos =
     array[bitpos div 8 := array ! (bitpos div 8) OR push_bit (bitpos mod 8) 1]"

fun add_probes :: "nat \<Rightarrow> u32 \<Rightarrow> nat \<Rightarrow> u32 \<Rightarrow> bytes \<Rightarrow> bytes" where
  "add_probes bits delta 0 h array = array"
| "add_probes bits delta (Suc j) h array =
     add_probes bits delta j (h + delta) (set_array_bit array (unat h mod bits))"

fun add_keys :: "nat \<Rightarrow> nat \<Rightarrow> bytes list \<Rightarrow> bytes \<Rightarrow> bytes" where
  "add_keys bits k [] array = array"
| "add_keys bits k (key # keys) array =
     (let h = BloomHash key in add_keys bits k keys (add_probes bits (rotate17 h) k h array))"

definition bloom_bytes :: "nat \<Rightarrow> nat \<Rightarrow> nat" where
  "bloom_bytes bits_per_key n =
     (let bits = n * bits_per_key; bits = (if bits < 64 then 64 else bits) in (bits + 7) div 8)"

definition Bloom_CreateFilter :: "nat \<Rightarrow> bytes list \<Rightarrow> bytes \<Rightarrow> bytes" where
  "Bloom_CreateFilter bits_per_key keys dst =
     (let nbytes = bloom_bytes bits_per_key (length keys); bits = nbytes * 8; k = bloom_k bits_per_key
      in dst @ add_keys bits k keys (replicate nbytes 0) @ [word_of_nat k])"

fun check_probes :: "nat \<Rightarrow> u32 \<Rightarrow> nat \<Rightarrow> u32 \<Rightarrow> bytes \<Rightarrow> bool" where
  "check_probes bits delta 0 h array = True"
| "check_probes bits delta (Suc j) h array =
     (let bitpos = unat h mod bits in
      if array ! (bitpos div 8) AND push_bit (bitpos mod 8) 1 = 0 then False
      else check_probes bits delta j (h + delta) array)"

text \<open>The stored number of probes is a \<open>char\<close> converted to \<open>size_t\<close>, so with its sign.\<close>

definition Bloom_KeyMayMatch :: "bytes \<Rightarrow> bytes \<Rightarrow> bool" where
  "Bloom_KeyMayMatch key bloom_filter =
     (let len = length bloom_filter in
      if len < 2 then False
      else
        let bits = (len - 1) * 8;
            k = unat (scast (bloom_filter ! (len - 1)) :: u64)
        in if k > 30 then True
           else let h = BloomHash key in check_probes bits (rotate17 h) k h bloom_filter)"

definition NewBloomFilterPolicy :: "nat \<Rightarrow> FilterPolicy" where
  "NewBloomFilterPolicy bits_per_key =
     \<lparr> FilterPolicy_Name = cstr ''leveldb.BuiltinBloomFilter2'',
       CreateFilter = Bloom_CreateFilter bits_per_key, KeyMayMatch = Bloom_KeyMayMatch \<rparr>"

section \<open>Filters on internal keys\<close>

definition InternalFilterPolicy :: "FilterPolicy \<Rightarrow> FilterPolicy" where
  "InternalFilterPolicy user_policy =
     \<lparr> FilterPolicy_Name = FilterPolicy_Name user_policy,
       CreateFilter = (\<lambda>keys dst. CreateFilter user_policy (map ExtractUserKey keys) dst),
       KeyMayMatch = (\<lambda>key f. KeyMayMatch user_policy (ExtractUserKey key) f) \<rparr>"

lemma InternalFilterPolicy_simps [simp]:
  "CreateFilter (InternalFilterPolicy p) keys dst = CreateFilter p (map ExtractUserKey keys) dst"
  "KeyMayMatch (InternalFilterPolicy p) key f = KeyMayMatch p (ExtractUserKey key) f"
  by (simp_all add: InternalFilterPolicy_def)

locale internal_filter_policy = filter_policy

sublocale internal_filter_policy \<subseteq> internal: filter_policy "InternalFilterPolicy policy"
proof
  show "CreateFilter (InternalFilterPolicy policy) keys dst
      = dst @ CreateFilter (InternalFilterPolicy policy) keys []" for keys dst
    by (simp add: appends [of _ dst])
  show "KeyMayMatch (InternalFilterPolicy policy) key (CreateFilter (InternalFilterPolicy policy) keys [])"
    if "key \<in> set keys" for key keys
    using that by (simp add: no_false_negative)
qed

section \<open>No false negatives\<close>

text \<open>\<open>covers a b\<close>: every bit of the array \<open>a\<close> is set in \<open>b\<close>.\<close>

definition covers :: "bytes \<Rightarrow> bytes \<Rightarrow> bool" where
  "covers a b \<longleftrightarrow> length a = length b \<and> (\<forall>i < length a. \<forall>n. bit (a ! i) n \<longrightarrow> bit (b ! i) n)"

lemma covers_refl: "covers a a"
  by (simp add: covers_def)

lemma covers_trans: "covers a b \<Longrightarrow> covers b c \<Longrightarrow> covers a c"
  by (simp add: covers_def)

lemma covers_set_array_bit: "covers a (set_array_bit a p)"
  unfolding covers_def set_array_bit_def
  by (auto simp: bit_or_iff) (metis bit_or_iff nth_list_update_eq nth_list_update_neq)

lemma covers_add_probes: "covers a (add_probes bits delta j h a)"
  by (induction bits delta j h a rule: add_probes.induct)
    (auto intro: covers_refl covers_trans covers_set_array_bit)

lemma covers_add_keys: "covers a (add_keys bits k keys a)"
  by (induction bits k keys a rule: add_keys.induct)
    (auto simp: Let_def intro: covers_refl covers_trans covers_add_probes)

lemma length_set_array_bit [simp]: "length (set_array_bit a p) = length a"
  by (simp add: set_array_bit_def)

lemma AND_exp_eq_0: "x AND 2 ^ n = 0 \<longleftrightarrow> \<not> bit (x :: byte) n"
  by (rule and_exp_eq_0_iff_not_bit)

lemma set_array_bit_bit:
  assumes "p < length a * 8"
  shows "bit (set_array_bit a p ! (p div 8)) (p mod 8)"
proof -
  have "p div 8 < length a" using assms by (simp add: less_mult_imp_div_less)
  then show ?thesis by (simp add: set_array_bit_def bit_simps)
qed

text \<open>The probes a key sets are the probes a lookup of the key reads.\<close>

lemma check_probes_add_probes:
  assumes "covers (add_probes (length a * 8) delta j h a) b" "0 < length a"
  shows "check_probes (length a * 8) delta j h (b @ rest)"
  using assms
proof (induction j arbitrary: h a)
  case (Suc j)
  let ?bits = "length a * 8"
  let ?p = "unat h mod ?bits"
  let ?a = "set_array_bit a ?p"
  have len: "length ?a = length a" by simp
  have c: "covers (add_probes ?bits delta j (h + delta) ?a) b" using Suc.prems(1) by simp
  have p: "?p < ?bits" "?p div 8 < length a"
    using Suc.prems(2) by (simp_all add: less_mult_imp_div_less)
  from covers_trans [OF covers_add_probes c] have cov: "covers ?a b" .
  with set_array_bit_bit [OF p(1)] p have "bit (b ! (?p div 8)) (?p mod 8)" "length b = length a"
    by (auto simp: covers_def)
  moreover have "check_probes ?bits delta j (h + delta) (b @ rest)"
    using Suc.IH [of ?a "h + delta"] c Suc.prems(2) by simp
  ultimately show ?case
    using p by (simp add: Let_def nth_append AND_exp_eq_0)
qed simp

lemma add_keys_matches:
  assumes "key \<in> set keys" "0 < length a"
  shows "check_probes (length a * 8) (rotate17 (BloomHash key)) k (BloomHash key)
      (add_keys (length a * 8) k keys a @ rest)"
  using assms
proof (induction keys arbitrary: a)
  case (Cons x keys)
  let ?a = "add_probes (length a * 8) (rotate17 (BloomHash x)) k (BloomHash x) a"
  have "length ?a = length a"
    using covers_add_probes [of a "length a * 8" "rotate17 (BloomHash x)" k "BloomHash x"]
    by (simp add: covers_def)
  moreover have "check_probes (length a * 8) (rotate17 (BloomHash x)) k (BloomHash x)
      (add_keys (length a * 8) k keys ?a @ rest)"
    using covers_add_keys Cons.prems(2) by (rule check_probes_add_probes)
  ultimately show ?case using Cons.IH [of ?a] Cons.prems by (auto simp: Let_def)
qed simp

lemma bloom_bytes_pos: "0 < bloom_bytes b n"
  unfolding bloom_bytes_def Let_def by (split if_split) (intro conjI impI, simp, linarith)

lemma bloom_k_bounds: "1 \<le> bloom_k b" "bloom_k b \<le> 30"
  by (auto simp: bloom_k_def Let_def)

lemma unat_scast_small: "n \<le> 30 \<Longrightarrow> unat (scast (word_of_nat n :: byte) :: u64) = n"
proof -
  assume n: "n \<le> 30"
  then have "sint (word_of_nat n :: byte) = int n"
    by (simp add: sint_byte unsigned_of_nat take_bit_nat_eq_self)
  then have "(scast (word_of_nat n :: byte) :: u64) = word_of_nat n"
    by (simp add: scast_eq)
  with n show ?thesis by simp
qed

lemma Bloom_no_false_negative:
  assumes "key \<in> set keys"
  shows "Bloom_KeyMayMatch key (Bloom_CreateFilter b keys [])"
proof -
  define n where "n = bloom_bytes b (length keys)"
  define arr where "arr = add_keys (n * 8) (bloom_k b) keys (replicate n 0)"
  have n: "0 < n" by (simp add: n_def bloom_bytes_pos)
  have len: "length arr = n"
    using covers_add_keys [of "replicate n 0" "n * 8" "bloom_k b" keys] by (simp add: arr_def covers_def)
  have "check_probes (n * 8) (rotate17 (BloomHash key)) (bloom_k b) (BloomHash key)
      (arr @ [word_of_nat (bloom_k b)])"
    using add_keys_matches [OF assms, of "replicate n 0"] n by (simp add: arr_def)
  moreover have "Bloom_CreateFilter b keys [] = arr @ [word_of_nat (bloom_k b)]"
    by (simp add: Bloom_CreateFilter_def Let_def n_def arr_def)
  ultimately show ?thesis
    using n len bloom_k_bounds [of b]
    by (simp add: Bloom_KeyMayMatch_def Let_def nth_append unat_scast_small)
qed

interpretation bloom: internal_filter_policy "NewBloomFilterPolicy b" for b
proof
  show "CreateFilter (NewBloomFilterPolicy b) keys dst = dst @ CreateFilter (NewBloomFilterPolicy b) keys []"
    for keys dst
    by (simp add: NewBloomFilterPolicy_def Bloom_CreateFilter_def Let_def)
  show "KeyMayMatch (NewBloomFilterPolicy b) key (CreateFilter (NewBloomFilterPolicy b) keys [])"
    if "key \<in> set keys" for key keys
    using Bloom_no_false_negative [OF that] by (simp add: NewBloomFilterPolicy_def)
qed

end
