(* ===== verification/Readers.thy ===== *)
theory Readers
  imports Coding
begin

text \<open>
  The contract shared by the readers of \<open>util/coding.cc\<close> that take a value off the front of
  a slice (\<open>GetVarint32\<close>, \<open>GetVarint64\<close>, \<open>GetLengthPrefixedSlice\<close>): a successful read
  consumes at least one byte and does not look at the bytes behind what it consumed. The
  clients that decode records (write batches, version edits, block handles) rest on its
  consequences.
\<close>

locale byte_reader =
  fixes read :: "bytes \<Rightarrow> ('a \<times> bytes) option"
  assumes read_suffix: "read p = Some (v, q) \<Longrightarrow> \<exists>c. p = c @ q \<and> c \<noteq> []"
    and read_extend: "read p = Some (v, q) \<Longrightarrow> read (p @ r) = Some (v, q @ r)"
begin

lemma read_shorter: "read p = Some (v, q) \<Longrightarrow> length q < length p"
  by (auto dest: read_suffix)

lemma read_truncated:
  assumes "read (enc @ rest) = Some (v, rest)" "n < length enc"
  shows "read (take n enc) = None"
proof (rule ccontr)
  assume "read (take n enc) \<noteq> None"
  then obtain v' q where "read (take n enc) = Some (v', q)" by auto
  from read_extend [OF this, of "drop n enc @ rest"] assms(1) append.assoc [of "take n enc" "drop n enc" rest]
  have "q @ drop n enc @ rest = rest" by (simp only: append_take_drop_id option.inject prod.inject)
  from arg_cong [OF this, of length] assms(2) show False by simp
qed

lemma read_Nil: "read [] = None"
  using read_suffix [of "[]"] by (cases "read []") auto

end

lemma GetVarint32_loop_extend:
  "GetVarint32PtrFallback_loop shift res p = Some (v, q) \<Longrightarrow>
   GetVarint32PtrFallback_loop shift res (p @ r) = Some (v, q @ r)"
  by (induction shift res p rule: GetVarint32PtrFallback_loop.induct) (auto simp: Let_def split: if_splits)

lemma GetVarint64_loop_extend:
  "GetVarint64Ptr_loop shift res p = Some (v, q) \<Longrightarrow>
   GetVarint64Ptr_loop shift res (p @ r) = Some (v, q @ r)"
  by (induction shift res p rule: GetVarint64Ptr_loop.induct) (auto simp: Let_def split: if_splits)

lemma GetVarint32_eq: "GetVarint32 p = GetVarint32PtrFallback_loop 0 0 p"
  by (simp add: GetVarint32_def GetVarint32Ptr_eq GetVarint32PtrFallback_def split: option.split)

lemma GetVarint64_eq: "GetVarint64 p = GetVarint64Ptr_loop 0 0 p"
  by (simp add: GetVarint64_def GetVarint64Ptr_def split: option.split)

interpretation varint32: byte_reader GetVarint32
proof
  show "\<exists>c. p = c @ q \<and> c \<noteq> []" if "GetVarint32 p = Some (v, q)" for p v q
    using GetVarint32_loop_prefix [of 0 0 p v q] that by (auto simp: GetVarint32_eq)
  show "GetVarint32 (p @ r) = Some (v, q @ r)" if "GetVarint32 p = Some (v, q)" for p v q r
    using that by (simp add: GetVarint32_eq GetVarint32_loop_extend)
qed

interpretation varint64: byte_reader GetVarint64
proof
  show "\<exists>c. p = c @ q \<and> c \<noteq> []" if "GetVarint64 p = Some (v, q)" for p v q
    using GetVarint64_loop_prefix [of 0 0 p v q] that by (auto simp: GetVarint64_eq)
  show "GetVarint64 (p @ r) = Some (v, q @ r)" if "GetVarint64 p = Some (v, q)" for p v q r
    using that by (simp add: GetVarint64_eq GetVarint64_loop_extend)
qed

interpretation prefixed: byte_reader GetLengthPrefixedSlice
proof
  fix p v q r assume g: "GetLengthPrefixedSlice p = Some (v, q)"
  then obtain n p' where p': "GetVarint32 p = Some (n, p')" "unat n \<le> length p'"
      and vq: "v = take (unat n) p'" "q = drop (unat n) p'"
    by (auto simp: GetLengthPrefixedSlice_def remove_prefix_def split: option.splits if_splits)
  then show "\<exists>c. p = c @ q \<and> c \<noteq> []"
    using varint32.read_suffix [OF p'(1)] by (metis append_is_Nil_conv append_take_drop_id append.assoc)
  show "GetLengthPrefixedSlice (p @ r) = Some (v, q @ r)"
    using varint32.read_extend [OF p'(1), of r] p'(2) vq
    by (simp add: GetLengthPrefixedSlice_def remove_prefix_def)
qed

section \<open>Arrays of fixed-width integers\<close>

definition fixed_array :: "u32 list \<Rightarrow> bytes" where
  "fixed_array vs = concat (map EncodeFixed32 vs)"

lemma length_fixed_array [simp]: "length (fixed_array vs) = 4 * length vs"
  by (induction vs) (simp_all add: fixed_array_def)

lemma foldl_PutFixed32: "foldl PutFixed32 dst vs = dst @ fixed_array vs"
  by (induction vs arbitrary: dst) (simp_all add: PutFixed32_def fixed_array_def)

lemma DecodeFixed32_fixed_array:
  "i < length vs \<Longrightarrow> DecodeFixed32 (drop (i * 4) (fixed_array vs @ rest)) = vs ! i"
proof (induction vs arbitrary: i)
  case (Cons v vs)
  show ?case
  proof (cases i)
    case 0
    then show ?thesis by (simp add: fixed_array_def)
  next
    case (Suc j)
    then have "drop (i * 4) (fixed_array (v # vs) @ rest) = drop (j * 4) (fixed_array vs @ rest)"
      by (simp add: fixed_array_def)
    with Cons Suc show ?thesis by simp
  qed
qed simp

end
