(* ===== verification/Filter_Block.thy ===== *)
theory Filter_Block
  imports Filter_Policy Readers
begin

text \<open>
  \<open>table/filter_block.cc\<close>: one filter for every 2KB of table data, followed by the array
  of their offsets. The builder and the reader take any policy that satisfies the
  contract \<open>filter_policy\<close>. Offsets are stored as \<open>uint32_t\<close>. \<open>GenerateFilter\<close> gives a policy the number
  of keys as an \<open>int\<close>; the policies of the model get the list of keys itself, which stands
  for the code while there are fewer than \<open>2 ^ 31\<close> keys for one filter.
\<close>

section \<open>The builder\<close>

definition kFilterBaseLg :: nat where "kFilterBaseLg = 11"
definition kFilterBase :: nat where "kFilterBase = 2 ^ kFilterBaseLg"

record FilterBlockBuilder =
  fb_keys :: bytes
  fb_start :: "nat list"
  fb_result :: bytes
  fb_filter_offsets :: "u32 list"

definition FilterBlockBuilder_new :: FilterBlockBuilder where
  "FilterBlockBuilder_new = \<lparr> fb_keys = [], fb_start = [], fb_result = [], fb_filter_offsets = [] \<rparr>"

text \<open>The slices of the flattened keys, from consecutive start positions.\<close>

definition tmp_keys :: "bytes \<Rightarrow> nat list \<Rightarrow> bytes list" where
  "tmp_keys keys start =
     (let start' = start @ [length keys]
      in map (\<lambda>i. take (start' ! (i + 1) - start' ! i) (drop (start' ! i) keys)) [0..<length start])"

definition GenerateFilter :: "FilterPolicy \<Rightarrow> FilterBlockBuilder \<Rightarrow> FilterBlockBuilder" where
  "GenerateFilter policy b =
     (if length (fb_start b) = 0
      then b\<lparr> fb_filter_offsets := fb_filter_offsets b @ [word_of_nat (length (fb_result b))] \<rparr>
      else
        \<lparr> fb_keys = [], fb_start = [],
          fb_result = CreateFilter policy (tmp_keys (fb_keys b) (fb_start b)) (fb_result b),
          fb_filter_offsets = fb_filter_offsets b @ [word_of_nat (length (fb_result b))] \<rparr>)"

function StartBlock_loop :: "FilterPolicy \<Rightarrow> nat \<Rightarrow> FilterBlockBuilder \<Rightarrow> FilterBlockBuilder" where
  "StartBlock_loop policy filter_index b =
     (if filter_index > length (fb_filter_offsets b)
      then StartBlock_loop policy filter_index (GenerateFilter policy b) else b)"
  by auto
termination
  by (relation "measure (\<lambda>(_, i, b). i - length (fb_filter_offsets b))") (auto simp: GenerateFilter_def)

declare StartBlock_loop.simps [simp del]

definition StartBlock :: "FilterPolicy \<Rightarrow> u64 \<Rightarrow> FilterBlockBuilder \<Rightarrow> FilterBlockBuilder" where
  "StartBlock policy block_offset b = StartBlock_loop policy (unat block_offset div kFilterBase) b"

definition AddKey :: "bytes \<Rightarrow> FilterBlockBuilder \<Rightarrow> FilterBlockBuilder" where
  "AddKey key b = b\<lparr> fb_start := fb_start b @ [length (fb_keys b)], fb_keys := fb_keys b @ key \<rparr>"

definition FilterBlock_Finish :: "FilterPolicy \<Rightarrow> FilterBlockBuilder \<Rightarrow> bytes" where
  "FilterBlock_Finish policy b =
     (let b = (if fb_start b \<noteq> [] then GenerateFilter policy b else b);
          array_offset = word_of_nat (length (fb_result b));
          result = foldl PutFixed32 (fb_result b) (fb_filter_offsets b)
      in PutFixed32 result array_offset @ [word_of_nat kFilterBaseLg])"

section \<open>The reader\<close>

text \<open>The pointers \<open>data_\<close> and \<open>offset_\<close> are the contents and a position in them.\<close>

record FilterBlockReader =
  fr_data :: bytes
  fr_offset :: nat
  fr_num :: nat
  fr_base_lg :: nat

definition FilterBlockReader_new :: "bytes \<Rightarrow> FilterBlockReader" where
  "FilterBlockReader_new contents =
     (let n = length contents;
          none = \<lparr> fr_data = [], fr_offset = 0, fr_num = 0, fr_base_lg = 0 \<rparr>
      in if n < 5 then none
         else
           let base_lg = unat (scast (contents ! (n - 1)) :: u64);
               last_word = unat (DecodeFixed32 (drop (n - 5) contents))
           in if last_word > n - 5 then none\<lparr> fr_base_lg := base_lg \<rparr>
              else \<lparr> fr_data = contents, fr_offset = last_word, fr_num = (n - 5 - last_word) div 4,
                     fr_base_lg = base_lg \<rparr>)"

definition FilterBlock_KeyMayMatch :: "FilterPolicy \<Rightarrow> FilterBlockReader \<Rightarrow> u64 \<Rightarrow> bytes \<Rightarrow> bool" where
  "FilterBlock_KeyMayMatch policy r block_offset key =
     (let index = unat (drop_bit (fr_base_lg r) block_offset) in
      if index < fr_num r then
        (let start = unat (DecodeFixed32 (drop (fr_offset r + index * 4) (fr_data r)));
             limit = unat (DecodeFixed32 (drop (fr_offset r + index * 4 + 4) (fr_data r)))
         in if start \<le> limit \<and> limit \<le> fr_offset r
            then KeyMayMatch policy key (take (limit - start) (drop start (fr_data r)))
            else if start = limit then False
            else True)
      else True)"

section \<open>Building a whole filter block\<close>

text \<open>The calls \<open>(StartBlock AddKey*)* Finish\<close>: the data blocks with their offsets and keys.\<close>

definition AddBlock :: "FilterPolicy \<Rightarrow> FilterBlockBuilder \<Rightarrow> u64 \<times> bytes list \<Rightarrow> FilterBlockBuilder" where
  "AddBlock policy b blk = foldl (\<lambda>b key. AddKey key b) (StartBlock policy (fst blk) b) (snd blk)"

text \<open>The keys of the blocks, with the number of the 2KB range in which their block starts.\<close>

fun added_keys :: "(u64 \<times> bytes list) list \<Rightarrow> (nat \<times> bytes) set" where
  "added_keys [] = {}"
| "added_keys ((off, keys) # blocks) = Pair (unat off div kFilterBase) ` set keys \<union> added_keys blocks"

definition build_filter_block :: "FilterPolicy \<Rightarrow> (u64 \<times> bytes list) list \<Rightarrow> bytes" where
  "build_filter_block policy blocks =
     FilterBlock_Finish policy (foldl (AddBlock policy) FilterBlockBuilder_new blocks)"

text \<open>The start positions \<open>fb_start\<close> of a list of flattened keys.\<close>

fun starts :: "nat \<Rightarrow> bytes list \<Rightarrow> nat list" where
  "starts n [] = []"
| "starts n (k # ks) = n # starts (n + length k) ks"

lemma length_starts [simp]: "length (starts n ks) = length ks"
  by (induction n ks rule: starts.induct) auto

lemma starts_snoc: "starts n (ks @ [k]) = starts n ks @ [n + length (concat ks)]"
  by (induction ks arbitrary: n) (auto simp: add.assoc)

lemma starts_nth: "i \<le> length ks \<Longrightarrow> (starts n ks @ [n + length (concat ks)]) ! i = n + length (concat (take i ks))"
proof (induction ks arbitrary: n i)
  case (Cons k ks)
  then show ?case using Cons.IH [of "i - 1" "n + length k"] by (cases i) (auto simp: add.assoc)
qed simp

lemma starts_eq_Nil [simp]: "starts n ks = [] \<longleftrightarrow> ks = []"
  by (cases ks) simp_all

lemma tmp_keys_concat: "tmp_keys (concat ks) (starts 0 ks) = ks"
proof (rule nth_equalityI)
  show "length (tmp_keys (concat ks) (starts 0 ks)) = length ks" by (simp add: tmp_keys_def Let_def)
  fix i assume "i < length (tmp_keys (concat ks) (starts 0 ks))"
  then have i: "i < length ks" by (simp add: tmp_keys_def Let_def)
  have "concat ks = concat (take i ks) @ ks ! i @ concat (drop (Suc i) ks)"
    using id_take_nth_drop [OF i] by (metis concat.simps(2) concat_append)
  moreover have "length (concat (take (Suc i) ks)) = length (concat (take i ks)) + length (ks ! i)"
    using i by (simp add: take_Suc_conv_app_nth)
  ultimately show "tmp_keys (concat ks) (starts 0 ks) ! i = ks ! i"
    using i starts_nth [of i ks 0] starts_nth [of "Suc i" ks 0]
    by (simp add: tmp_keys_def Let_def)
qed

text \<open>
  The builder in terms of the filters finished so far and of the pending keys. The filter
  of the 2KB range number \<open>i\<close> is \<open>filters ! i\<close>, empty when the range starts no block.
\<close>

definition fb_inv :: "FilterBlockBuilder \<Rightarrow> bytes list \<Rightarrow> bytes list \<Rightarrow> bool" where
  "fb_inv b filters pending \<longleftrightarrow>
     fb_keys b = concat pending \<and> fb_start b = starts 0 pending \<and> fb_result b = concat filters \<and>
     fb_filter_offsets b = map word_of_nat (starts 0 filters)"

lemma fb_inv_new: "fb_inv FilterBlockBuilder_new [] []"
  by (simp add: fb_inv_def FilterBlockBuilder_new_def)

lemma fb_inv_AddKey: "fb_inv b filters pending \<Longrightarrow> fb_inv (AddKey key b) filters (pending @ [key])"
  by (simp add: fb_inv_def AddKey_def starts_snoc)

lemma fb_inv_AddKeys:
  "fb_inv b filters pending \<Longrightarrow> fb_inv (foldl (\<lambda>b key. AddKey key b) b keys) filters (pending @ keys)"
proof (induction keys arbitrary: b pending)
  case (Cons key keys)
  from Cons.IH [OF fb_inv_AddKey [OF Cons.prems]] show ?case by simp
qed simp

lemma fb_inv_offsets: "fb_inv b filters pending \<Longrightarrow> length (fb_filter_offsets b) = length filters"
  by (simp add: fb_inv_def)

definition make_filter :: "FilterPolicy \<Rightarrow> bytes list \<Rightarrow> bytes" where
  "make_filter policy ks = (if ks = [] then [] else CreateFilter policy ks [])"

context filter_policy
begin

lemma fb_inv_GenerateFilter:
  assumes "fb_inv b filters pending"
  shows "fb_inv (GenerateFilter policy b) (filters @ [make_filter policy pending]) []"
proof (cases "pending = []")
  case True
  with assms show ?thesis by (simp add: fb_inv_def GenerateFilter_def starts_snoc make_filter_def)
next
  case False
  with assms have "tmp_keys (fb_keys b) (fb_start b) = pending" "fb_start b \<noteq> []"
    by (auto simp: fb_inv_def tmp_keys_concat)
  with assms False show ?thesis
    using appends [of pending "concat filters"]
    by (simp add: fb_inv_def GenerateFilter_def starts_snoc make_filter_def)
qed

lemma fb_inv_StartBlock_loop:
  assumes "fb_inv b filters pending" "length filters \<le> i"
  shows "\<exists>extra pending'. fb_inv (StartBlock_loop policy i b) (filters @ extra) pending' \<and>
    length (filters @ extra) = i \<and>
    (if length filters = i then extra = [] \<and> pending' = pending
     else pending' = [] \<and> hd extra = make_filter policy pending)"
  using assms
proof (induction "i - length filters" arbitrary: b filters pending)
  case 0
  then have "StartBlock_loop policy i b = b"
    by (subst StartBlock_loop.simps) (simp add: fb_inv_offsets)
  with 0 show ?case by (auto intro!: exI [of _ "[]"])
next
  case (Suc d)
  then have lt: "length filters < i" by simp
  have unf: "StartBlock_loop policy i b = StartBlock_loop policy i (GenerateFilter policy b)"
    using lt Suc.prems by (subst StartBlock_loop.simps) (simp add: fb_inv_offsets)
  have "d = i - length (filters @ [make_filter policy pending])" using Suc.hyps(2) by simp
  from Suc.hyps(1) [OF this fb_inv_GenerateFilter [OF Suc.prems(1)]] lt
  obtain extra pending' where m:
    "fb_inv (StartBlock_loop policy i b) ((filters @ [make_filter policy pending]) @ extra) pending'"
    "length ((filters @ [make_filter policy pending]) @ extra) = i"
    "if length (filters @ [make_filter policy pending]) = i then extra = [] \<and> pending' = []
     else pending' = [] \<and> hd extra = make_filter policy []"
    unfolding unf by auto
  then show ?case
    using lt by (intro exI [of _ "make_filter policy pending # extra"] exI [of _ pending'])
      (auto split: if_splits)
qed

text \<open>
  Each key added so far, with the number of its 2KB range, matches the filter of that
  range or is still pending for it.
\<close>

definition kept :: "(nat \<times> bytes) set \<Rightarrow> bytes list \<Rightarrow> bytes list \<Rightarrow> bool" where
  "kept added filters pending \<longleftrightarrow>
     (\<forall>(i, key) \<in> added.
        (i < length filters \<and> KeyMayMatch policy key (filters ! i)) \<or> (i = length filters \<and> key \<in> set pending))"

lemma make_filter_matches: "key \<in> set ks \<Longrightarrow> KeyMayMatch policy key (make_filter policy ks)"
  by (auto simp: make_filter_def intro: no_false_negative)

lemma kept_more:
  assumes "kept added filters pending" "extra \<noteq> []" "hd extra = make_filter policy pending"
  shows "kept added (filters @ extra) []"
  using assms unfolding kept_def
  by (cases extra) (auto simp: nth_append make_filter_matches less_Suc_eq split: prod.splits)

lemma kept_AddBlock:
  assumes "fb_inv b filters pending" "kept added filters pending"
    and i: "i = unat off div kFilterBase" "length filters \<le> i"
  shows "\<exists>filters' pending'. fb_inv (AddBlock policy b (off, keys)) filters' pending' \<and>
    kept (added \<union> Pair i ` set keys) filters' pending' \<and> length filters' = i"
proof -
  from fb_inv_StartBlock_loop [OF assms(1) i(2)] obtain extra pending' where
    m: "fb_inv (StartBlock_loop policy i b) (filters @ extra) pending'" "length (filters @ extra) = i"
      "if length filters = i then extra = [] \<and> pending' = pending
       else pending' = [] \<and> hd extra = make_filter policy pending"
    by blast
  have k: "kept added (filters @ extra) pending'"
  proof (cases "length filters = i")
    case True
    then show ?thesis using m assms(2) by simp
  next
    case False
    then have "extra \<noteq> []" using m(2) by auto
    with False m(3) assms(2) show ?thesis using kept_more by simp
  qed
  have "fb_inv (AddBlock policy b (off, keys)) (filters @ extra) (pending' @ keys)"
    using fb_inv_AddKeys [OF m(1)] by (simp add: AddBlock_def StartBlock_def i(1))
  moreover have "kept (added \<union> Pair i ` set keys) (filters @ extra) (pending' @ keys)"
    using k m(2) unfolding kept_def by auto
  ultimately show ?thesis using m(2) by blast
qed

lemma kept_AddBlocks:
  assumes "fb_inv b filters pending" "kept added filters pending"
    and "sorted (length filters # map (\<lambda>blk. unat (fst blk) div kFilterBase) blocks)"
  shows "\<exists>filters' pending'. fb_inv (foldl (AddBlock policy) b blocks) filters' pending' \<and>
    kept (added \<union> added_keys blocks) filters' pending'"
  using assms
proof (induction blocks arbitrary: b filters pending added)
  case Nil
  then show ?case by auto
next
  case (Cons blk blocks)
  obtain off keys where blk: "blk = (off, keys)" by (cases blk)
  let ?i = "unat off div kFilterBase"
  have "length filters \<le> ?i" using Cons.prems(3) blk by simp
  from kept_AddBlock [OF Cons.prems(1,2) refl this, of keys] blk obtain filters' pending' where
    f: "fb_inv (AddBlock policy b blk) filters' pending'"
      "kept (added \<union> Pair ?i ` set keys) filters' pending'" "length filters' = ?i"
    by blast
  have "sorted (length filters' # map (\<lambda>blk. unat (fst blk) div kFilterBase) blocks)"
    using Cons.prems(3) blk f(3) by simp
  from Cons.IH [OF f(1,2) this] show ?case by (simp add: blk Un_assoc)
qed

end

section \<open>Reading back\<close>

text \<open>The finished block for a list of filters.\<close>

definition filter_block_of :: "bytes list \<Rightarrow> bytes" where
  "filter_block_of filters =
     concat filters @ fixed_array (map word_of_nat (starts 0 filters @ [length (concat filters)])) @ [11]"

lemma FilterBlockReader_new_of:
  assumes "length (concat filters) < 2 ^ 32"
  shows "FilterBlockReader_new (filter_block_of filters) =
    \<lparr> fr_data = filter_block_of filters, fr_offset = length (concat filters), fr_num = length filters,
      fr_base_lg = 11 \<rparr>"
proof -
  let ?c = "filter_block_of filters"
  let ?vs = "map word_of_nat (starts 0 filters @ [length (concat filters)]) :: u32 list"
  have n: "length ?c = length (concat filters) + 4 * length filters + 5"
    by (simp add: filter_block_of_def)
  have "drop (length ?c - 5) ?c = drop (length filters * 4) (fixed_array ?vs @ [11])"
    unfolding n by (simp add: filter_block_of_def mult.commute)
  also have "DecodeFixed32 \<dots> = word_of_nat (length (concat filters))"
    by (subst DecodeFixed32_fixed_array) (simp_all add: nth_append)
  finally have "unat (DecodeFixed32 (drop (length ?c - 5) ?c)) = length (concat filters)"
    using assms by simp
  moreover have "?c ! (length ?c - 1) = 11"
    unfolding n by (simp add: filter_block_of_def nth_append)
  ultimately show ?thesis
    unfolding FilterBlockReader_new_def Let_def by (simp add: n)
qed

lemma FilterBlock_KeyMayMatch_of:
  assumes len: "length (concat filters) < 2 ^ 32" and i: "i = unat off div kFilterBase" "i < length filters"
  shows "FilterBlock_KeyMayMatch policy (FilterBlockReader_new (filter_block_of filters)) off key =
    KeyMayMatch policy key (filters ! i)"
proof -
  let ?c = "filter_block_of filters"
  let ?ns = "starts 0 filters @ [length (concat filters)]"
  let ?vs = "map word_of_nat ?ns :: u32 list"
  have cc: "concat filters = concat (take j filters) @ concat (drop j filters)" for j
    by (metis append_take_drop_id concat_append)
  have pos: "unat (DecodeFixed32 (drop (length (concat filters) + j * 4) ?c)) = length (concat (take j filters))"
    if "j \<le> length filters" for j
  proof -
    have "drop (length (concat filters) + j * 4) ?c = drop (j * 4) (fixed_array ?vs @ [11])"
      by (simp add: filter_block_of_def)
    then have "DecodeFixed32 (drop (length (concat filters) + j * 4) ?c) = word_of_nat (?ns ! j)"
      using DecodeFixed32_fixed_array [of j ?vs "[11]"] that by (simp only: nth_map length_append length_starts length_map) simp
    moreover have "?ns ! j = length (concat (take j filters))" using starts_nth [of j filters 0] that by simp
    moreover have "length (concat (take j filters)) < 2 ^ 32"
      using len arg_cong [OF cc [of j], of length] unfolding length_append by linarith
    ultimately show ?thesis by simp
  qed
  have idx: "unat (drop_bit 11 off) = i"
    using i(1) unfolding unat_drop_bit_eq by (simp add: drop_bit_eq_div kFilterBase_def kFilterBaseLg_def)
  have suc: "concat (take (Suc i) filters) = concat (take i filters) @ filters ! i"
    using i(2) by (simp add: take_Suc_conv_app_nth)
  have "take (length (filters ! i)) (drop (length (concat (take i filters))) ?c) = filters ! i"
    using cc [of "Suc i"] by (simp add: filter_block_of_def suc)
  moreover have "length (concat (take (Suc i) filters)) \<le> length (concat filters)"
    using arg_cong [OF cc [of "Suc i"], of length] by simp
  moreover have "unat (DecodeFixed32 (drop (length (concat filters) + i * 4 + 4) ?c)) =
      length (concat (take (Suc i) filters))"
    using pos [of "Suc i"] i(2) by (simp add: add.assoc add.commute [of 4])
  ultimately show ?thesis
    using i(2) pos [of i] suc
    by (simp add: FilterBlock_KeyMayMatch_def FilterBlockReader_new_of [OF len] idx Let_def)
qed

text \<open>What \<open>Finish\<close> writes.\<close>

context filter_policy
begin

lemma FilterBlock_Finish_of:
  assumes "fb_inv b filters pending" "kept added filters pending"
  shows "\<exists>filters'. FilterBlock_Finish policy b = filter_block_of filters' \<and>
    kept added filters' [] \<and> length filters' = length filters + (if pending = [] then 0 else 1)"
proof -
  have fin: "FilterBlock_Finish policy b' = filter_block_of fs"
    if "fb_inv b' fs []" for b' fs
    using that by (simp add: FilterBlock_Finish_def fb_inv_def foldl_PutFixed32 PutFixed32_def
        filter_block_of_def fixed_array_def kFilterBaseLg_def)
  show ?thesis
  proof (cases "pending = []")
    case True
    then show ?thesis using assms fin by auto
  next
    case False
    let ?b = "GenerateFilter policy b" and ?fs = "filters @ [make_filter policy pending]"
    have inv: "fb_inv ?b ?fs []" by (rule fb_inv_GenerateFilter [OF assms(1)])
    then have "fb_start ?b = []" by (simp add: fb_inv_def)
    then have "FilterBlock_Finish policy b = FilterBlock_Finish policy ?b"
      using False assms(1) by (simp add: FilterBlock_Finish_def fb_inv_def)
    with fin [OF inv] kept_more [OF assms(2), of "[make_filter policy pending]"] False show ?thesis
      by (intro exI [of _ ?fs]) simp
  qed
qed

lemma filter_block_no_miss:
  assumes "sorted (map (\<lambda>blk. unat (fst blk) div kFilterBase) blocks)"
    and "length (build_filter_block policy blocks) < 2 ^ 32"
    and "(off, keys) \<in> set blocks" "key \<in> set keys"
  shows "FilterBlock_KeyMayMatch policy (FilterBlockReader_new (build_filter_block policy blocks)) off key"
proof -
  have "kept {} [] []" by (simp add: kept_def)
  from kept_AddBlocks [OF fb_inv_new this, of blocks] assms(1) obtain filters pending where
    f: "fb_inv (foldl (AddBlock policy) FilterBlockBuilder_new blocks) filters pending"
      "kept (added_keys blocks) filters pending"
    by auto
  from FilterBlock_Finish_of [OF f] obtain filters' where
    g: "build_filter_block policy blocks = filter_block_of filters'" "kept (added_keys blocks) filters' []"
    by (auto simp: build_filter_block_def)
  have "(unat off div kFilterBase, key) \<in> added_keys blocks"
    using assms(3,4) by (induction blocks rule: added_keys.induct) auto
  with g(2) have m: "unat off div kFilterBase < length filters'"
      "KeyMayMatch policy key (filters' ! (unat off div kFilterBase))"
    by (auto simp: kept_def)
  have "length (concat filters') < 2 ^ 32"
    using assms(2) by (simp add: g(1) filter_block_of_def)
  from FilterBlock_KeyMayMatch_of [OF this refl m(1)] m(2) show ?thesis by (simp add: g(1))
qed

end

text \<open>
  C19. A filter block never hides a key. Built by any sequence of \<open>StartBlock\<close> and \<open>AddKey\<close>
  calls with ascending block offsets and finished below 4GB, with the bloom filter on the
  user part of internal keys (any number of bits per key), the reader answers "may match"
  for every key that was added, at the offset of its block, including blocks that share
  a filter, ranges without keys and keys after the last boundary.
\<close>

theorem filter_block_no_false_negatives:
  assumes "sorted (map (\<lambda>blk. unat (fst blk) div kFilterBase) blocks)"
    and "length (build_filter_block (InternalFilterPolicy (NewBloomFilterPolicy b)) blocks) < 2 ^ 32"
    and "(off, keys) \<in> set blocks" "key \<in> set keys"
  shows "FilterBlock_KeyMayMatch (InternalFilterPolicy (NewBloomFilterPolicy b))
    (FilterBlockReader_new (build_filter_block (InternalFilterPolicy (NewBloomFilterPolicy b)) blocks)) off key"
  using assms by (rule bloom.internal.filter_block_no_miss)

lemma length_Bloom_CreateFilter:
  "length (Bloom_CreateFilter b keys dst) = length dst + bloom_bytes b (length keys) + 1"
  using covers_add_keys [of "replicate (bloom_bytes b (length keys)) 0" "bloom_bytes b (length keys) * 8"]
  by (simp add: Bloom_CreateFilter_def covers_def Let_def)

theorem filter_block_no_false_negatives_witness:
  "FilterBlock_KeyMayMatch (InternalFilterPolicy (NewBloomFilterPolicy 10))
     (FilterBlockReader_new (build_filter_block (InternalFilterPolicy (NewBloomFilterPolicy 10))
        [(0, [replicate 9 1, replicate 10 2]), (100, []), (5000, [replicate 8 3])])) 5000 (replicate 8 3)"
proof -
  have s: "sorted (map (\<lambda>blk. unat (fst blk) div kFilterBase)
      [(0 :: u64, [replicate 9 1, replicate 10 2 :: bytes]), (100, []), (5000, [replicate 8 3])])"
    by (simp add: kFilterBase_def kFilterBaseLg_def)
  have "length (build_filter_block (InternalFilterPolicy (NewBloomFilterPolicy 10))
      [(0, [replicate 9 1, replicate 10 2]), (100, []), (5000, [replicate 8 3])]) = 35"
    by (simp add: build_filter_block_def AddBlock_def AddKey_def StartBlock_def StartBlock_loop.simps
        GenerateFilter_def FilterBlockBuilder_new_def FilterBlock_Finish_def foldl_PutFixed32 PutFixed32_def
        kFilterBase_def kFilterBaseLg_def NewBloomFilterPolicy_def length_Bloom_CreateFilter
        tmp_keys_def bloom_bytes_def)
  then show ?thesis by (intro filter_block_no_false_negatives [OF s]) auto
qed

end
