(* ===== verification/Random_Gen.thy ===== *)
theory Random_Gen
  imports Prelude
begin

text \<open>
  \<open>util/random.h\<close>: the linear congruential generator behind the heights of the skip
  list. The state is \<open>seed_\<close>; each operation returns its result with the new seed.
\<close>

definition Random_M :: u32 where "Random_M = 2147483647"
definition Random_A :: u64 where "Random_A = 16807"

definition Random_new :: "u32 \<Rightarrow> u32" where
  "Random_new s = (let seed = s AND 0x7fffffff in if seed = 0 \<or> seed = Random_M then 1 else seed)"

definition Random_Next :: "u32 \<Rightarrow> u32 \<times> u32" where
  "Random_Next seed =
     (let product = ucast seed * Random_A;
          seed = ucast (drop_bit 31 product + (product AND ucast Random_M));
          seed = (if seed > Random_M then seed - Random_M else seed)
      in (seed, seed))"

definition Uniform :: "u32 \<Rightarrow> u32 \<Rightarrow> u32 \<times> u32" where
  "Uniform n seed = (case Random_Next seed of (r, seed') \<Rightarrow> (r mod n, seed'))"

definition OneIn :: "u32 \<Rightarrow> u32 \<Rightarrow> bool \<times> u32" where
  "OneIn n seed = (case Random_Next seed of (r, seed') \<Rightarrow> (r mod n = 0, seed'))"

definition Skewed :: "u32 \<Rightarrow> u32 \<Rightarrow> u32 \<times> u32" where
  "Skewed max_log seed =
     (case Uniform (max_log + 1) seed of (b, seed') \<Rightarrow> Uniform (push_bit (unat b) 1) seed')"

text \<open>The seeds that the generator can have.\<close>

definition good_seed :: "u32 \<Rightarrow> bool" where
  "good_seed seed \<longleftrightarrow> 0 < unat seed \<and> unat seed < 2147483647"

lemma good_seed_new: "good_seed (Random_new s)"
proof -
  have "s AND 0x7fffffff = take_bit 31 s"
    by (simp add: take_bit_eq_mask mask_eq_exp_minus_1)
  then have b: "unat (s AND 0x7fffffff) < 2 ^ 31"
    using take_bit_nat_less_exp [of 31 "unat s"] by (simp add: unsigned_take_bit_eq)
  show ?thesis
  proof (cases "s AND 0x7fffffff = 0 \<or> s AND 0x7fffffff = Random_M")
    case True
    then show ?thesis by (simp add: Random_new_def good_seed_def)
  next
    case False
    then have "unat (s AND 0x7fffffff) \<noteq> unat (0 :: u32)" "unat (s AND 0x7fffffff) \<noteq> unat Random_M"
      by (simp_all only: word_unat_eq_iff) simp_all
    with b have "0 < unat (s AND 0x7fffffff)" "unat (s AND 0x7fffffff) < 2147483647"
      by (simp_all add: Random_M_def)
    with False show ?thesis unfolding Random_new_def Let_def good_seed_def by (simp only: if_False)
  qed
qed

text \<open>\<open>2^31\<close> is 1 modulo \<open>2^31 - 1\<close>, so the high and the low 31 bits can be added.\<close>

lemma mod_mersenne31: "(p :: nat) mod 2147483647 = (p div 2147483648 + p mod 2147483648) mod 2147483647"
proof -
  have "p = 2147483647 * (p div 2147483648) + (p div 2147483648 + p mod 2147483648)"
    using div_mult_mod_eq [of p 2147483648] by linarith
  then have "p mod 2147483647 =
      (2147483647 * (p div 2147483648) + (p div 2147483648 + p mod 2147483648)) mod 2147483647"
    by (rule arg_cong [where f = "\<lambda>x. x mod 2147483647"])
  then show ?thesis by (simp only: mod_mult_self4)
qed

text \<open>1407677000 is the inverse of 16807 modulo \<open>2^31 - 1\<close>.\<close>

lemma mersenne31_cancel:
  assumes "(2147483647 :: nat) dvd s * 16807"
  shows "(2147483647 :: nat) dvd s"
proof -
  have d: "(2147483647 :: nat) dvd s * 16807 * 1407677000" using assms by (rule dvd_mult2)
  have e: "(2147483647 :: nat) dvd 2147483647 * (11017 * s)" by (rule dvd_triv_left)
  have f: "(2147483647 :: nat) dvd s * 16807 * 1407677000 - 2147483647 * (11017 * s)"
    using d e by (rule dvd_diff_nat)
  have "s * 16807 * 1407677000 - 2147483647 * (11017 * s) = s" by linarith
  with f show ?thesis by (simp only:)
qed

lemma mersenne31_no_zero:
  assumes "0 < s" "s < 2147483647"
  shows "(s * 16807) mod 2147483647 \<noteq> (0 :: nat)"
proof (rule notI)
  assume "(s * 16807) mod 2147483647 = 0"
  then have "(2147483647 :: nat) dvd s * 16807" by (simp only: dvd_eq_mod_eq_0)
  then have "(2147483647 :: nat) dvd s" by (rule mersenne31_cancel)
  with nat_dvd_not_less [OF assms] show False by (rule notE)
qed

lemma Random_Next_eq:
  assumes "good_seed seed"
  shows "unat (fst (Random_Next seed)) = unat seed * 16807 mod 2147483647 \<and>
    good_seed (snd (Random_Next seed)) \<and> fst (Random_Next seed) = snd (Random_Next seed)"
proof -
  define p where "p = unat seed * 16807"
  have s: "0 < unat seed" "unat seed < 2147483647" using assms by (auto simp: good_seed_def)
  then have p: "p < 2147483647 * 16807" by (simp add: p_def)
  let ?prod = "ucast seed * Random_A :: u64"
  have up: "unat ?prod = p"
    using p by (simp add: unat_word_ariths Random_A_def p_def)
  have lo: "unat (?prod AND ucast Random_M) = p mod 2147483648"
  proof -
    have "?prod AND ucast Random_M = take_bit 31 ?prod"
      by (simp add: Random_M_def take_bit_eq_mask mask_eq_exp_minus_1)
    then have "unat (?prod AND ucast Random_M) = take_bit 31 p"
      by (simp only: unsigned_take_bit_eq up)
    then show ?thesis by (simp add: take_bit_eq_mod)
  qed
  have hi: "unat (drop_bit 31 ?prod) = p div 2147483648"
    unfolding unat_drop_bit_eq up by (simp add: drop_bit_eq_div)
  have q: "p div 2147483648 < 16807" using p by (simp add: less_mult_imp_div_less)
  have r: "p mod 2147483648 < 2147483648" by simp
  define t where "t = p div 2147483648 + p mod 2147483648"
  have t: "t < 2147483648 + 16807" using q r by (simp add: t_def)
  have "unat (drop_bit 31 ?prod + (?prod AND ucast Random_M)) = t"
    using t by (simp add: unat_word_ariths hi lo t_def)
  then have u: "unat (ucast (drop_bit 31 ?prod + (?prod AND ucast Random_M)) :: u32) = t"
    using t by (simp add: unsigned_ucast_eq take_bit_nat_eq_self)
  have tm: "t mod 2147483647 = p mod 2147483647" using mod_mersenne31 [of p] by (simp add: t_def)
  have nz: "p mod 2147483647 \<noteq> 0" using mersenne31_no_zero s by (simp add: p_def)
  have "t \<noteq> 2147483647" using nz tm by auto
  moreover have "t mod 2147483647 = (if t > 2147483647 then t - 2147483647 else t)"
    if "t \<noteq> 2147483647" using that t by (simp add: le_mod_geq)
  ultimately have "unat (fst (Random_Next seed)) = p mod 2147483647"
    using u tm t
    by (auto simp: Random_Next_def Let_def Random_M_def word_less_nat_alt unat_sub_if')
  moreover have "fst (Random_Next seed) = snd (Random_Next seed)"
    by (simp add: Random_Next_def Let_def)
  ultimately show ?thesis
    using nz by (auto simp: good_seed_def p_def)
qed

text \<open>
  C30. The random number generator computes its recurrence exactly: from a seed in
  \<open>[1, 2^31 - 2]\<close> the shift-and-add code yields \<open>seed * 16807 mod (2^31 - 1)\<close> with no
  overflow and only one correction, which is again in that range; the constructor
  always starts in it, so the generator never gets stuck at 0 or at \<open>2^31 - 1\<close>.
\<close>

theorem Random_Next_recurrence:
  assumes "good_seed seed"
  shows "unat (fst (Random_Next seed)) = unat seed * 16807 mod 2147483647 \<and>
    good_seed (snd (Random_Next seed)) \<and> fst (Random_Next seed) = snd (Random_Next seed) \<and>
    good_seed (Random_new s)"
  using Random_Next_eq [OF assms] good_seed_new [of s] by blast

theorem Random_Next_recurrence_witness:
  "unat (fst (Random_Next 301)) = 5058907 \<and> good_seed (snd (Random_Next 301))"
proof -
  have "good_seed 301" by (simp add: good_seed_def)
  from Random_Next_recurrence [OF this, of 0] show ?thesis by auto
qed

end
