(* ===== verification/Skiplist.thy ===== *)
theory Skiplist
  imports Random_Gen
begin

text \<open>
  \<open>db/skiplist.h\<close>. Nodes are addresses; a node's key and its \<open>next_\<close> array are in the
  store of the list, \<open>None\<close> is \<open>NULL\<close>, and the head is address 0. The searches are loops
  whose termination depends on the shape of the list, so they are partial functions and
  their results are proved under the invariant. The order on keys is the functor
  \<open>compare_\<close>, a parameter. Concurrent readers and memory barriers are not modelled.
\<close>

section \<open>The store and the operations\<close>

record 'k skiplist =
  sl_key :: "nat \<Rightarrow> 'k"
  sl_next :: "nat \<Rightarrow> nat \<Rightarrow> nat option"
  sl_max_height :: nat
  sl_rnd :: u32
  sl_alloc :: nat

definition kMaxHeight :: nat where "kMaxHeight = 12"

abbreviation (input) sl_head :: nat where "sl_head \<equiv> 0"

text \<open>\<open>Next\<close> and \<open>SetNext\<close> at level \<open>n\<close> of node \<open>x\<close>.\<close>

definition node_Next :: "'k skiplist \<Rightarrow> nat \<Rightarrow> nat \<Rightarrow> nat option" where
  "node_Next s x n = sl_next s n x"

definition node_SetNext :: "nat \<Rightarrow> nat \<Rightarrow> nat option \<Rightarrow> 'k skiplist \<Rightarrow> 'k skiplist" where
  "node_SetNext x n y s = s\<lparr> sl_next := (sl_next s)(n := (sl_next s n)(x := y)) \<rparr>"

definition SkipList_new :: "'k \<Rightarrow> 'k skiplist" where
  "SkipList_new any_key =
     \<lparr> sl_key = (\<lambda>_. any_key), sl_next = (\<lambda>_ _. None), sl_max_height = 1, sl_rnd = Random_new 0xdeadbeef,
       sl_alloc = 1 \<rparr>"

definition NewNode :: "'k \<Rightarrow> 'k skiplist \<Rightarrow> 'k skiplist \<times> nat" where
  "NewNode key s = (s\<lparr> sl_key := (sl_key s)(sl_alloc s := key), sl_alloc := Suc (sl_alloc s) \<rparr>, sl_alloc s)"

definition kBranching :: u32 where "kBranching = 4"

function RandomHeight_loop :: "nat \<Rightarrow> u32 \<Rightarrow> nat \<times> u32" where
  "RandomHeight_loop height rnd =
     (if height < kMaxHeight then
        (case Random_Next rnd of (r, rnd') \<Rightarrow>
           if r mod kBranching = 0 then RandomHeight_loop (height + 1) rnd' else (height, rnd'))
      else (height, rnd))"
  by auto
termination
  by (relation "measure (\<lambda>(h, _). kMaxHeight - h)") auto

declare RandomHeight_loop.simps [simp del]

definition RandomHeight :: "'k skiplist \<Rightarrow> 'k skiplist \<times> nat" where
  "RandomHeight s = (case RandomHeight_loop 1 (sl_rnd s) of (h, rnd) \<Rightarrow> (s\<lparr> sl_rnd := rnd \<rparr>, h))"

definition KeyIsAfterNode :: "('k \<Rightarrow> 'k \<Rightarrow> int) \<Rightarrow> 'k skiplist \<Rightarrow> 'k \<Rightarrow> nat option \<Rightarrow> bool" where
  "KeyIsAfterNode cmp s key n = (case n of None \<Rightarrow> False | Some x \<Rightarrow> cmp (sl_key s x) key < 0)"

partial_function (option) FindGreaterOrEqual_loop ::
  "('k \<Rightarrow> 'k \<Rightarrow> int) \<Rightarrow> 'k skiplist \<Rightarrow> 'k \<Rightarrow> nat \<Rightarrow> nat \<Rightarrow> (nat \<Rightarrow> nat) \<Rightarrow> (nat option \<times> (nat \<Rightarrow> nat)) option" where
  "FindGreaterOrEqual_loop cmp s key x level prev =
     (let nxt = node_Next s x level in
      if KeyIsAfterNode cmp s key nxt then FindGreaterOrEqual_loop cmp s key (the nxt) level prev
      else if level = 0 then Some (nxt, prev(level := x))
      else FindGreaterOrEqual_loop cmp s key x (level - 1) (prev(level := x)))"

definition FindGreaterOrEqual ::
  "('k \<Rightarrow> 'k \<Rightarrow> int) \<Rightarrow> 'k skiplist \<Rightarrow> 'k \<Rightarrow> (nat \<Rightarrow> nat) \<Rightarrow> (nat option \<times> (nat \<Rightarrow> nat)) option" where
  "FindGreaterOrEqual cmp s key prev = FindGreaterOrEqual_loop cmp s key sl_head (sl_max_height s - 1) prev"

partial_function (option) FindLessThan_loop ::
  "('k \<Rightarrow> 'k \<Rightarrow> int) \<Rightarrow> 'k skiplist \<Rightarrow> 'k \<Rightarrow> nat \<Rightarrow> nat \<Rightarrow> nat option" where
  "FindLessThan_loop cmp s key x level =
     (case node_Next s x level of
        None \<Rightarrow> if level = 0 then Some x else FindLessThan_loop cmp s key x (level - 1)
      | Some nxt \<Rightarrow>
          if cmp (sl_key s nxt) key \<ge> 0
          then (if level = 0 then Some x else FindLessThan_loop cmp s key x (level - 1))
          else FindLessThan_loop cmp s key nxt level)"

definition FindLessThan :: "('k \<Rightarrow> 'k \<Rightarrow> int) \<Rightarrow> 'k skiplist \<Rightarrow> 'k \<Rightarrow> nat option" where
  "FindLessThan cmp s key = FindLessThan_loop cmp s key sl_head (sl_max_height s - 1)"

partial_function (option) FindLast_loop :: "'k skiplist \<Rightarrow> nat \<Rightarrow> nat \<Rightarrow> nat option" where
  "FindLast_loop s x level =
     (case node_Next s x level of
        None \<Rightarrow> if level = 0 then Some x else FindLast_loop s x (level - 1)
      | Some nxt \<Rightarrow> FindLast_loop s nxt level)"

definition FindLast :: "'k skiplist \<Rightarrow> nat option" where
  "FindLast s = FindLast_loop s sl_head (sl_max_height s - 1)"

text \<open>The loop that links the new node into its levels.\<close>

fun link_levels :: "nat \<Rightarrow> (nat \<Rightarrow> nat) \<Rightarrow> nat list \<Rightarrow> 'k skiplist \<Rightarrow> 'k skiplist" where
  "link_levels x prev [] s = s"
| "link_levels x prev (i # is) s =
     link_levels x prev is
       (node_SetNext (prev i) i (Some x) (node_SetNext x i (node_Next s (prev i) i) s))"

definition Insert :: "('k \<Rightarrow> 'k \<Rightarrow> int) \<Rightarrow> 'k \<Rightarrow> 'k skiplist \<Rightarrow> 'k skiplist option" where
  "Insert cmp key s =
     (case FindGreaterOrEqual cmp s key (\<lambda>_. sl_head) of
        None \<Rightarrow> None
      | Some (_, prev) \<Rightarrow>
          (let (s, height) = RandomHeight s;
               (prev, s) =
                 (if height > sl_max_height s
                  then (\<lambda>i. if sl_max_height s \<le> i \<and> i < height then sl_head else prev i,
                        s\<lparr> sl_max_height := height \<rparr>)
                  else (prev, s));
               (s, x) = NewNode key s
           in Some (link_levels x prev [0..<height] s)))"

definition Contains :: "('k \<Rightarrow> 'k \<Rightarrow> int) \<Rightarrow> 'k skiplist \<Rightarrow> 'k \<Rightarrow> bool option" where
  "Contains cmp s key =
     (case FindGreaterOrEqual cmp s key (\<lambda>_. sl_head) of
        None \<Rightarrow> None
      | Some (x, _) \<Rightarrow> Some (case x of None \<Rightarrow> False | Some n \<Rightarrow> cmp key (sl_key s n) = 0))"

text \<open>
  The iterator: its state is \<open>node_\<close>. \<open>Prev\<close>, \<open>Seek\<close> and \<open>SeekToLast\<close> search, so the outer
  option is termination.
\<close>

definition SLIter_Valid :: "nat option \<Rightarrow> bool" where
  "SLIter_Valid node \<longleftrightarrow> node \<noteq> None"

definition SLIter_key :: "'k skiplist \<Rightarrow> nat option \<Rightarrow> 'k" where
  "SLIter_key s node = sl_key s (the node)"

definition SLIter_Next :: "'k skiplist \<Rightarrow> nat option \<Rightarrow> nat option" where
  "SLIter_Next s node = node_Next s (the node) 0"

definition not_head :: "nat \<Rightarrow> nat option" where
  "not_head x = (if x = sl_head then None else Some x)"

definition SLIter_Prev :: "('k \<Rightarrow> 'k \<Rightarrow> int) \<Rightarrow> 'k skiplist \<Rightarrow> nat option \<Rightarrow> nat option option" where
  "SLIter_Prev cmp s node = map_option not_head (FindLessThan cmp s (sl_key s (the node)))"

definition SLIter_Seek :: "('k \<Rightarrow> 'k \<Rightarrow> int) \<Rightarrow> 'k skiplist \<Rightarrow> 'k \<Rightarrow> nat option option" where
  "SLIter_Seek cmp s target = map_option fst (FindGreaterOrEqual cmp s target (\<lambda>_. sl_head))"

definition SLIter_SeekToFirst :: "'k skiplist \<Rightarrow> nat option" where
  "SLIter_SeekToFirst s = node_Next s sl_head 0"

definition SLIter_SeekToLast :: "'k skiplist \<Rightarrow> nat option option" where
  "SLIter_SeekToLast s = map_option not_head (FindLast s)"

section \<open>Linked levels\<close>

text \<open>\<open>path nx x L\<close>: the links \<open>nx\<close> lead from \<open>x\<close> through the nodes \<open>L\<close> to \<open>NULL\<close>.\<close>

fun path :: "(nat \<Rightarrow> nat option) \<Rightarrow> nat \<Rightarrow> nat list \<Rightarrow> bool" where
  "path nx x [] \<longleftrightarrow> nx x = None"
| "path nx x (y # ys) \<longleftrightarrow> nx x = Some y \<and> path nx y ys"

definition first_of :: "nat list \<Rightarrow> nat option" where
  "first_of L = (case L of [] \<Rightarrow> None | n # _ \<Rightarrow> Some n)"

lemma first_of_simps [simp]: "first_of [] = None" "first_of (n # L) = Some n"
  by (simp_all add: first_of_def)

lemma path_append: "path nx x (as @ bs) \<Longrightarrow> path nx (last (x # as)) bs"
  by (induction as arbitrary: x) auto

lemma path_first: "path nx x L \<Longrightarrow> nx x = first_of L"
  by (cases L) auto

lemma path_upd_notin: "a \<notin> set (x # L) \<Longrightarrow> path (nx(a := v)) x L = path nx x L"
  by (induction L arbitrary: x) auto

lemma path_insert:
  assumes "path nx x (as @ bs)" "distinct (x # as @ bs)" "a \<notin> set (x # as @ bs)"
  shows "path (nx(a := nx (last (x # as)), last (x # as) := Some a)) x (as @ a # bs)"
  using assms
proof (induction as arbitrary: x)
  case Nil
  define nx' where "nx' = nx(a := nx x, x := Some a)"
  have "nx' x = Some a" "nx' a = first_of bs" using Nil by (auto simp: nx'_def dest: path_first)
  moreover have "path nx' b L = path nx b L" if "bs = b # L" for b L
    using Nil that by (simp add: nx'_def path_upd_notin del: fun_upd_apply)
  ultimately have "path nx' x (a # bs)" using Nil by (cases bs) auto
  then show ?case by (simp only: nx'_def append.simps last.simps if_True simp_thms)
next
  case (Cons y as)
  define nx' where "nx' = nx(a := nx (last (y # as)), last (y # as) := Some a)"
  have "path nx' y (as @ a # bs)"
    unfolding nx'_def using Cons.prems by (intro Cons.IH) auto
  moreover have "x \<noteq> last (y # as)" using Cons.prems(2) last_in_set [of "y # as"] by auto
  then have "nx' x = Some y" using Cons.prems unfolding nx'_def by simp
  ultimately have "path nx' x (y # as @ a # bs)" by simp
  moreover have "last (x # y # as) = last (y # as)" by simp
  ultimately show ?case by (simp only: nx'_def append.simps)
qed

section \<open>The invariant\<close>

text \<open>
  The nodes \<open>ns\<close> of the list in order, with their heights: level \<open>l\<close> links the nodes that
  are higher than \<open>l\<close>.
\<close>

definition level_nodes :: "(nat \<Rightarrow> nat) \<Rightarrow> nat list \<Rightarrow> nat \<Rightarrow> nat list" where
  "level_nodes ht ns l = filter (\<lambda>n. l < ht n) ns"

definition sl_inv ::
  "('k \<Rightarrow> 'k \<Rightarrow> int) \<Rightarrow> ('k \<Rightarrow> bool) \<Rightarrow> 'k skiplist \<Rightarrow> nat list \<Rightarrow> (nat \<Rightarrow> nat) \<Rightarrow> bool" where
  "sl_inv cmp valid s ns ht \<longleftrightarrow>
     distinct ns \<and> 0 \<notin> set ns \<and> 0 < sl_alloc s \<and> 1 \<le> sl_max_height s \<and> sl_max_height s \<le> kMaxHeight \<and>
     (\<forall>n \<in> set ns. n < sl_alloc s \<and> 1 \<le> ht n \<and> ht n \<le> sl_max_height s \<and> valid (sl_key s n)) \<and>
     sorted_wrt (\<lambda>m n. cmp (sl_key s m) (sl_key s n) < 0) ns \<and>
     (\<forall>l. path (sl_next s l) 0 (level_nodes ht ns l))"

lemma sl_inv_path: "sl_inv cmp valid s ns ht \<Longrightarrow> path (sl_next s l) 0 (level_nodes ht ns l)"
  by (simp add: sl_inv_def)

text \<open>
  Where a search is: the nodes \<open>pre\<close> are behind it, \<open>post\<close> before it, and it stands at the
  last of \<open>pre\<close>, which is linked at the search's level.
\<close>

definition at :: "(nat \<Rightarrow> nat) \<Rightarrow> nat list \<Rightarrow> nat \<Rightarrow> nat \<Rightarrow> nat list \<Rightarrow> nat list \<Rightarrow> bool" where
  "at ht ns level x pre post \<longleftrightarrow>
     ns = pre @ post \<and> x = last (0 # pre) \<and> (pre \<noteq> [] \<longrightarrow> level < ht x)"

lemma at_start: "at ht ns level 0 [] ns"
  by (simp add: at_def)

lemma at_down: "at ht ns level x pre post \<Longrightarrow> level' \<le> level \<Longrightarrow> at ht ns level' x pre post"
  by (auto simp: at_def)

lemma at_last_level: "at ht ns level x pre post \<Longrightarrow> last (0 # level_nodes ht pre level) = x"
  by (cases pre rule: rev_cases) (auto simp: at_def level_nodes_def)

lemma at_Next:
  assumes "sl_inv cmp valid s ns ht" "at ht ns level x pre post"
  shows "node_Next s x level = first_of (level_nodes ht post level)"
proof -
  have "path (sl_next s level) 0 (level_nodes ht pre level @ level_nodes ht post level)"
    using sl_inv_path [OF assms(1), of level] assms(2) by (simp add: at_def level_nodes_def)
  from path_first [OF path_append [OF this]] show ?thesis
    unfolding at_last_level [OF assms(2)] node_Next_def .
qed

lemma at_level_0:
  assumes "sl_inv cmp valid s ns ht" "at ht ns level x pre post"
  shows "level_nodes ht post 0 = post"
proof -
  have "0 < ht n" if "n \<in> set post" for n
    using assms that by (auto simp: sl_inv_def at_def Suc_le_eq)
  then show ?thesis unfolding level_nodes_def by (intro filter_True) auto
qed

lemma at_move:
  assumes "at ht ns level x pre post" "first_of (level_nodes ht post level) = Some y"
  shows "\<exists>skipped post'. post = skipped @ y # post' \<and> (\<forall>n \<in> set skipped. \<not> level < ht n) \<and>
    at ht ns level y (pre @ skipped @ [y]) post'"
proof -
  from assms(2) obtain L where "level_nodes ht post level = y # L"
    by (cases "level_nodes ht post level") auto
  then have "\<exists>skipped post'. post = skipped @ y # post' \<and> (\<forall>n \<in> set skipped. \<not> level < ht n) \<and> level < ht y"
    by (auto simp: level_nodes_def filter_eq_Cons_iff)
  with assms(1) show ?thesis by (auto simp: at_def)
qed

text \<open>The order on keys: a strict weak order on the keys that are valid.\<close>

locale weak_order =
  fixes cmp :: "'k \<Rightarrow> 'k \<Rightarrow> int" and valid :: "'k \<Rightarrow> bool"
  assumes swap: "valid a \<Longrightarrow> valid b \<Longrightarrow> cmp a b < 0 \<longleftrightarrow> cmp b a > 0"
    and less_trans: "valid a \<Longrightarrow> valid b \<Longrightarrow> valid c \<Longrightarrow> cmp a b < 0 \<Longrightarrow> cmp b c < 0 \<Longrightarrow> cmp a c < 0"
    and not_less_trans: "valid a \<Longrightarrow> valid b \<Longrightarrow> valid c \<Longrightarrow> \<not> cmp a b < 0 \<Longrightarrow> \<not> cmp b c < 0 \<Longrightarrow> \<not> cmp a c < 0"
begin

abbreviation inv where "inv \<equiv> sl_inv cmp valid"

abbreviation before :: "'k skiplist \<Rightarrow> 'k \<Rightarrow> nat \<Rightarrow> bool" where
  "before s k n \<equiv> cmp (sl_key s n) k < 0"

lemma before_prefix:
  assumes "inv s ns ht" "valid k" "ns = pre @ y # post" "before s k y" "n \<in> set pre"
  shows "before s k n"
proof -
  have "cmp (sl_key s n) (sl_key s y) < 0" "valid (sl_key s n)" "valid (sl_key s y)"
    using assms by (auto simp: sl_inv_def sorted_wrt_append)
  with assms show ?thesis using less_trans by blast
qed

lemma after_suffix:
  assumes "inv s ns ht" "valid k" "ns = pre @ y # post" "\<not> before s k y" "n \<in> set post"
  shows "\<not> before s k n"
proof -
  have "post = takeWhile (\<lambda>m. m \<noteq> n) post @ n # tl (dropWhile (\<lambda>m. m \<noteq> n) post)"
    using assms(5)
    by (metis (mono_tags, lifting) dropWhile_eq_Nil_conv hd_dropWhile list.collapse takeWhile_dropWhile_id)
  then have "ns = (pre @ y # takeWhile (\<lambda>m. m \<noteq> n) post) @ n # tl (dropWhile (\<lambda>m. m \<noteq> n) post)"
    using assms(3) by (metis append.assoc append_Cons)
  from before_prefix [OF assms(1,2) this, of y] assms(4) show ?thesis by auto
qed

text \<open>All of \<open>pre\<close> is before the key, and none of the linked part of \<open>post\<close> is.\<close>

lemma search_stop:
  assumes "inv s ns ht" "valid k" "at ht ns level x pre post" "\<forall>n \<in> set pre. before s k n"
    and stop: "\<not> KeyIsAfterNode cmp s k (node_Next s x level)"
  shows "last (0 # filter (before s k) (level_nodes ht ns level)) = x"
    and "level = 0 \<Longrightarrow> filter (before s k) ns = pre \<and> filter (\<lambda>n. \<not> before s k n) ns = post"
proof -
  have none: "\<not> before s k n" if "n \<in> set (level_nodes ht post level)" for n
  proof -
    from that obtain y rest where y: "level_nodes ht post level = y # rest" by (cases "level_nodes ht post level") auto
    then have f: "first_of (level_nodes ht post level) = Some y" by simp
    with at_Next [OF assms(1,3)] stop have nb: "\<not> before s k y" by (simp add: KeyIsAfterNode_def)
    from at_move [OF assms(3) f] obtain skipped post' where
      p: "post = skipped @ y # post'" "ns = (pre @ skipped) @ y # post'" "\<forall>n \<in> set skipped. \<not> level < ht n"
      using assms(3) by (auto simp: at_def)
    have "n = y \<or> n \<in> set post'" using that p(1,3) by (auto simp: level_nodes_def split: if_splits)
    with nb after_suffix [OF assms(1,2) p(2) nb] show ?thesis by auto
  qed
  have pre: "filter (before s k) (level_nodes ht pre level) = level_nodes ht pre level"
    unfolding level_nodes_def using assms(4) by (intro filter_True) auto
  have "filter (before s k) (level_nodes ht ns level) = level_nodes ht pre level"
    using assms(3) pre none by (simp add: at_def level_nodes_def filter_empty_conv)
  then show "last (0 # filter (before s k) (level_nodes ht ns level)) = x"
    using at_last_level [OF assms(3)] by simp
  assume "level = 0"
  then have "level_nodes ht post level = post" using at_level_0 [OF assms(1,3)] by simp
  with none assms(3,4) show "filter (before s k) ns = pre \<and> filter (\<lambda>n. \<not> before s k n) ns = post"
    by (auto simp: at_def filter_empty_conv filter_id_conv)
qed

section \<open>The searches\<close>

lemma FindGreaterOrEqual_loop_spec:
  assumes "inv s ns ht" "valid k" "at ht ns level x pre post" "\<forall>n \<in> set pre. before s k n"
  shows "\<exists>prev'. FindGreaterOrEqual_loop cmp s k x level prev =
      Some (first_of (filter (\<lambda>n. \<not> before s k n) ns), prev') \<and>
      (\<forall>l \<le> level. prev' l = last (0 # filter (before s k) (level_nodes ht ns l))) \<and>
      (\<forall>l > level. prev' l = prev l)"
  using assms(3,4)
proof (induction "level + length post" arbitrary: level x pre post prev rule: less_induct)
  case less
  note nxt = at_Next [OF assms(1) less.prems(1)]
  show ?case
  proof (cases "KeyIsAfterNode cmp s k (node_Next s x level)")
    case True
    then obtain y where y: "node_Next s x level = Some y" "before s k y"
      by (auto simp: KeyIsAfterNode_def split: option.splits)
    from at_move [OF less.prems(1)] y(1) nxt obtain skipped post' where
      m: "post = skipped @ y # post'" "at ht ns level y (pre @ skipped @ [y]) post'" by auto
    have "\<forall>n \<in> set (pre @ skipped @ [y]). before s k n"
      using before_prefix [OF assms(1,2), of "pre @ skipped" y post'] y(2) m by (auto simp: at_def)
    with less.hyps [OF _ m(2)] m(1) True y(1) show ?thesis
      by (simp add: FindGreaterOrEqual_loop.simps [of cmp s k x] Let_def)
  next
    case False
    note stop = search_stop [OF assms(1,2) less.prems False]
    show ?thesis
    proof (cases level)
      case 0
      with at_level_0 [OF assms(1) less.prems(1)] False nxt stop show ?thesis
        by (auto simp: FindGreaterOrEqual_loop.simps [of cmp s k x] Let_def)
    next
      case (Suc l)
      have "at ht ns l x pre post" using at_down [OF less.prems(1)] Suc by simp
      from less.hyps [OF _ this less.prems(2), of "prev(level := x)"] Suc obtain prev' where
        p: "FindGreaterOrEqual_loop cmp s k x l (prev(level := x)) =
            Some (first_of (filter (\<lambda>n. \<not> before s k n) ns), prev')"
          "\<forall>i \<le> l. prev' i = last (0 # filter (before s k) (level_nodes ht ns i))"
          "\<forall>i > l. prev' i = (prev(level := x)) i"
        by auto
      have "FindGreaterOrEqual_loop cmp s k x level prev = FindGreaterOrEqual_loop cmp s k x l (prev(level := x))"
        using False Suc by (subst FindGreaterOrEqual_loop.simps) (simp add: Let_def)
      moreover have "prev' i = last (0 # filter (before s k) (level_nodes ht ns i))" if "i \<le> level" for i
        using p(2,3) stop(1) that Suc by (cases "i = level") auto
      ultimately show ?thesis using p(1,3) Suc by auto
    qed
  qed
qed

lemma FindGreaterOrEqual_spec:
  assumes "inv s ns ht" "valid k"
  shows "\<exists>prev'. FindGreaterOrEqual cmp s k prev =
      Some (first_of (filter (\<lambda>n. \<not> before s k n) ns), prev') \<and>
      (\<forall>l < sl_max_height s. prev' l = last (0 # filter (before s k) (level_nodes ht ns l)))"
proof -
  have "1 \<le> sl_max_height s" using assms(1) by (simp add: sl_inv_def)
  then show ?thesis
    using FindGreaterOrEqual_loop_spec [OF assms at_start, of "sl_max_height s - 1" prev]
    by (auto simp: FindGreaterOrEqual_def)
qed

lemma FindLessThan_loop_spec:
  assumes "inv s ns ht" "valid k" "at ht ns level x pre post" "\<forall>n \<in> set pre. before s k n"
  shows "FindLessThan_loop cmp s k x level = Some (last (0 # filter (before s k) ns))"
  using assms(3,4)
proof (induction "level + length post" arbitrary: level x pre post rule: less_induct)
  case less
  note nxt = at_Next [OF assms(1) less.prems(1)]
  show ?case
  proof (cases "KeyIsAfterNode cmp s k (node_Next s x level)")
    case True
    then obtain y where y: "node_Next s x level = Some y" "before s k y"
      by (auto simp: KeyIsAfterNode_def split: option.splits)
    from at_move [OF less.prems(1)] y(1) nxt obtain skipped post' where
      m: "post = skipped @ y # post'" "at ht ns level y (pre @ skipped @ [y]) post'" by auto
    have "\<forall>n \<in> set (pre @ skipped @ [y]). before s k n"
      using before_prefix [OF assms(1,2), of "pre @ skipped" y post'] y(2) m by (auto simp: at_def)
    with less.hyps [OF _ m(2)] m(1) y show ?thesis
      by (simp add: FindLessThan_loop.simps [of cmp s k x])
  next
    case False
    note stop = search_stop [OF assms(1,2) less.prems False]
    have step: "FindLessThan_loop cmp s k x level =
        (if level = 0 then Some x else FindLessThan_loop cmp s k x (level - 1))"
      using False by (subst FindLessThan_loop.simps) (auto simp: KeyIsAfterNode_def split: option.splits)
    show ?thesis
    proof (cases level)
      case 0
      with step stop(2) less.prems(1) show ?thesis by (simp add: at_def)
    next
      case (Suc l)
      have "at ht ns l x pre post" using at_down [OF less.prems(1)] Suc by simp
      from less.hyps [OF _ this less.prems(2)] Suc step show ?thesis by simp
    qed
  qed
qed

lemma FindLessThan_spec:
  assumes "inv s ns ht" "valid k"
  shows "FindLessThan cmp s k = Some (last (0 # filter (before s k) ns))"
  using FindLessThan_loop_spec [OF assms at_start, of "sl_max_height s - 1"] by (simp add: FindLessThan_def)

lemma FindLast_loop_spec:
  assumes "inv s ns ht" "at ht ns level x pre post"
  shows "FindLast_loop s x level = Some (last (0 # ns))"
  using assms(2)
proof (induction "level + length post" arbitrary: level x pre post rule: less_induct)
  case less
  note nxt = at_Next [OF assms(1) less.prems(1)]
  show ?case
  proof (cases "node_Next s x level")
    case (Some y)
    with at_move [OF less.prems(1), of y] nxt obtain skipped post' where
      m: "post = skipped @ y # post'" "at ht ns level y (pre @ skipped @ [y]) post'" by auto
    from less.hyps [OF _ m(2)] m(1) Some show ?thesis
      by (simp add: FindLast_loop.simps [of s x])
  next
    case None
    show ?thesis
    proof (cases level)
      case 0
      with None nxt at_level_0 [OF assms(1) less.prems(1)] have "post = []" by (cases post) auto
      moreover have "FindLast_loop s x level = Some x"
        using None 0 by (subst FindLast_loop.simps) simp
      ultimately show ?thesis using less.prems by (simp add: at_def)
    next
      case (Suc l)
      have a: "at ht ns l x pre post" using at_down [OF less.prems(1)] Suc by simp
      have "FindLast_loop s x level = FindLast_loop s x l"
        using None Suc by (subst FindLast_loop.simps) simp
      with less.hyps [OF _ a] Suc show ?thesis by simp
    qed
  qed
qed

lemma FindLast_spec: "inv s ns ht \<Longrightarrow> FindLast s = Some (last (0 # ns))"
  using FindLast_loop_spec [OF _ at_start] by (simp add: FindLast_def)

section \<open>Insertion\<close>

lemma RandomHeight_loop_bounds:
  "RandomHeight_loop h r = (h', r') \<Longrightarrow> h \<le> kMaxHeight \<Longrightarrow> h \<le> h' \<and> h' \<le> kMaxHeight"
proof (induction h r arbitrary: h' r' rule: RandomHeight_loop.induct)
  case (1 h r)
  obtain v rnd where v: "Random_Next r = (v, rnd)" by (cases "Random_Next r")
  have unf: "RandomHeight_loop h r =
      (if h < kMaxHeight then (if v mod kBranching = 0 then RandomHeight_loop (h + 1) rnd else (h, rnd)) else (h, r))"
    by (subst RandomHeight_loop.simps) (simp add: v)
  show ?case
  proof (cases "h < kMaxHeight \<and> v mod kBranching = 0")
    case True
    then have "RandomHeight_loop (h + 1) rnd = (h', r')" using "1.prems"(1) unf by simp
    from "1.IH" [OF _ v [symmetric] _ this] True show ?thesis by simp
  next
    case False
    with "1.prems" unf show ?thesis by (auto split: if_splits)
  qed
qed

text \<open>What \<open>Insert\<close> does to the links of each level.\<close>

lemma link_levels_frame [frame]:
  "sl_key (link_levels x prev is s) = sl_key s"
  "sl_max_height (link_levels x prev is s) = sl_max_height s"
  "sl_alloc (link_levels x prev is s) = sl_alloc s"
  by (induction "is" arbitrary: s) (simp_all add: node_SetNext_def)

lemma link_levels_other: "i \<notin> set is \<Longrightarrow> sl_next (link_levels x prev is s) i = sl_next s i"
  by (induction "is" arbitrary: s) (simp_all add: node_SetNext_def)

lemma link_levels_next:
  "distinct is \<Longrightarrow> i \<in> set is \<Longrightarrow>
     sl_next (link_levels x prev is s) i = (sl_next s i)(x := sl_next s i (prev i), prev i := Some x)"
proof (induction "is" arbitrary: s)
  case (Cons j "is")
  let ?s = "node_SetNext (prev j) j (Some x) (node_SetNext x j (node_Next s (prev j) j) s)"
  have s: "sl_next ?s j = (sl_next s j)(x := sl_next s j (prev j), prev j := Some x)"
    "k \<noteq> j \<Longrightarrow> sl_next ?s k = sl_next s k" for k
    by (simp_all add: node_SetNext_def node_Next_def fun_eq_iff)
  show ?case
  proof (cases "i = j")
    case True
    then have "sl_next (link_levels x prev is ?s) i = sl_next ?s j"
      using Cons.prems by (simp add: link_levels_other)
    with True s(1) show ?thesis by (simp only: link_levels.simps)
  next
    case False
    with Cons.prems have "sl_next (link_levels x prev is ?s) i =
        (sl_next ?s i)(x := sl_next ?s i (prev i), prev i := Some x)"
      by (intro Cons.IH) auto
    with s(2) [OF False] show ?thesis by (simp only: link_levels.simps)
  qed
qed simp

text \<open>A key splits the nodes into those before it and the rest.\<close>

lemma inv_split:
  assumes "inv s ns ht" "valid k"
  shows "ns = filter (before s k) ns @ filter (\<lambda>n. \<not> before s k n) ns"
proof -
  let ?pre = "takeWhile (before s k) ns" and ?post = "dropWhile (before s k) ns"
  have pre: "\<forall>n \<in> set ?pre. before s k n" by (auto dest: set_takeWhileD)
  have post: "\<forall>n \<in> set ?post. \<not> before s k n"
  proof (cases ?post)
    case (Cons y rest)
    then have "\<not> before s k y" by (auto simp: dropWhile_eq_Cons_conv)
    moreover have "ns = ?pre @ y # rest" using Cons by (metis takeWhile_dropWhile_id)
    note after_suffix [OF assms this]
    ultimately show ?thesis unfolding Cons by auto
  qed (simp del: dropWhile_eq_Nil_conv)
  have f: "filter P ns = filter P ?pre @ filter P ?post" for P
    by (metis filter_append takeWhile_dropWhile_id)
  have "filter (before s k) ns = ?pre"
    by (subst f) (simp only: filter_True [OF pre] filter_False [OF post] append_Nil2)
  moreover have "filter (\<lambda>n. \<not> before s k n) ns = ?post"
    using pre by (subst f) (simp only: filter_True [OF post], simp)
  ultimately show ?thesis by (simp only: takeWhile_dropWhile_id)
qed

lemma level_nodes_filter: "level_nodes ht (filter P ns) l = filter P (level_nodes ht ns l)"
  by (simp add: level_nodes_def conj_commute)

lemma level_nodes_append [simp]: "level_nodes ht (as @ bs) l = level_nodes ht as l @ level_nodes ht bs l"
  by (simp add: level_nodes_def)

lemma level_nodes_upd: "x \<notin> set ns \<Longrightarrow> level_nodes (ht(x := h)) ns l = level_nodes ht ns l"
  unfolding level_nodes_def by (intro filter_cong) auto

lemma insert_path:
  assumes inv: "inv s ns ht" and k: "valid k" and x: "x = sl_alloc s"
    and prev: "prev = last (0 # filter (before s k) (level_nodes ht ns l))"
  shows "path ((sl_next s l)(x := sl_next s l prev, prev := Some x)) 0
    (filter (before s k) (level_nodes ht ns l) @ x # filter (\<lambda>n. \<not> before s k n) (level_nodes ht ns l))"
proof -
  let ?as = "filter (before s k) (level_nodes ht ns l)" and ?bs = "filter (\<lambda>n. \<not> before s k n) (level_nodes ht ns l)"
  have L: "level_nodes ht ns l = ?as @ ?bs"
    using arg_cong [OF inv_split [OF inv k], of "\<lambda>ns. level_nodes ht ns l"] by (simp add: level_nodes_filter)
  have sub: "set (level_nodes ht ns l) \<subseteq> set ns" "distinct (level_nodes ht ns l)"
    using inv by (auto simp: level_nodes_def sl_inv_def)
  have "path (sl_next s l) 0 (?as @ ?bs)" using sl_inv_path [OF inv, of l] L by simp
  moreover have "distinct (0 # ?as @ ?bs)" "x \<notin> set (0 # ?as @ ?bs)"
    using sub inv x unfolding L [symmetric] by (auto simp: sl_inv_def)
  ultimately show ?thesis unfolding prev by (rule path_insert)
qed

lemma insert_sorted:
  assumes inv: "inv s ns ht" and k: "valid k" and new: "\<forall>n \<in> set ns. cmp (sl_key s n) k \<noteq> 0"
    and x: "x = sl_alloc s"
  shows "sorted_wrt (\<lambda>m n. cmp (((sl_key s)(x := k)) m) (((sl_key s)(x := k)) n) < 0)
    (filter (before s k) ns @ x # filter (\<lambda>n. \<not> before s k n) ns)"
proof -
  let ?key = "(sl_key s)(x := k)"
  have key: "?key n = sl_key s n" "valid (sl_key s n)" if "n \<in> set ns" for n
    using that inv x by (auto simp: sl_inv_def)
  have after: "cmp k (sl_key s n) < 0" if "n \<in> set ns" "\<not> before s k n" for n
    using that swap [OF k key(2), of n] new by force
  have s: "sorted_wrt (\<lambda>m n. cmp (?key m) (?key n) < 0) (filter P ns)" for P
  proof -
    have "sorted_wrt (\<lambda>m n. cmp (sl_key s m) (sl_key s n) < 0) (filter P ns)"
      using inv by (simp add: sl_inv_def sorted_wrt_filter)
    then show ?thesis by (rule sorted_wrt_mono_rel [rotated]) (auto simp: key simp del: fun_upd_apply)
  qed
  have "cmp (?key m) (?key n) < 0"
    if "m \<in> set ns" "before s k m" "n \<in> set ns" "\<not> before s k n" for m n
    unfolding key(1) [OF that(1)] key(1) [OF that(3)]
    using less_trans [OF key(2) [OF that(1)] k key(2) [OF that(3)]] that after by blast
  then show ?thesis
    using s after key by (simp add: sorted_wrt_append del: fun_upd_apply) (simp add: fun_upd_same key del: fun_upd_apply)
qed

lemma Insert_spec:
  assumes inv: "inv s ns ht" and k: "valid k" and new: "\<forall>n \<in> set ns. cmp (sl_key s n) k \<noteq> 0"
  shows "\<exists>s' h. Insert cmp k s = Some s' \<and>
    inv s' (filter (before s k) ns @ sl_alloc s # filter (\<lambda>n. \<not> before s k n) ns) (ht(sl_alloc s := h)) \<and>
    sl_key s' = (sl_key s)(sl_alloc s := k)"
proof -
  define x where "x = sl_alloc s"
  obtain rnd h where rh: "RandomHeight_loop 1 (sl_rnd s) = (h, rnd)" by (cases "RandomHeight_loop 1 (sl_rnd s)")
  have h: "1 \<le> h" "h \<le> kMaxHeight" using RandomHeight_loop_bounds [OF rh] by (auto simp: kMaxHeight_def)
  from FindGreaterOrEqual_spec [OF inv k, of "\<lambda>_. 0"] obtain prev where
    f: "FindGreaterOrEqual cmp s k (\<lambda>_. 0) = Some (first_of (filter (\<lambda>n. \<not> before s k n) ns), prev)"
      "\<forall>l < sl_max_height s. prev l = last (0 # filter (before s k) (level_nodes ht ns l))"
    by blast
  define prev' where "prev' = (if h > sl_max_height s then (\<lambda>i. if sl_max_height s \<le> i \<and> i < h then 0 else prev i) else prev)"
  define s1 where "s1 = s\<lparr> sl_rnd := rnd, sl_max_height := max (sl_max_height s) h,
      sl_key := (sl_key s)(x := k), sl_alloc := Suc x \<rparr>"
  define s' where "s' = link_levels x prev' [0..<h] s1"
  have ins: "Insert cmp k s = Some s'"
    by (simp add: Insert_def f(1) RandomHeight_def rh [simplified] NewNode_def s'_def s1_def prev'_def x_def max_def Let_def)
  have high: "level_nodes ht ns l = []" if "sl_max_height s \<le> l" for l
    unfolding level_nodes_def filter_empty_conv
    using inv that unfolding sl_inv_def by (meson le_trans not_le)
  have prev: "prev' l = last (0 # filter (before s k) (level_nodes ht ns l))" if "l < h" for l
    using f(2) high that by (cases "l < sl_max_height s") (auto simp: prev'_def)
  let ?ns = "filter (before s k) ns @ x # filter (\<lambda>n. \<not> before s k n) ns"
  have xns: "x \<notin> set ns" "x \<noteq> 0" using inv by (auto simp: sl_inv_def x_def)
  have lev: "level_nodes (ht(x := h)) ?ns l =
      filter (before s k) (level_nodes ht ns l) @ (if l < h then [x] else []) @
      filter (\<lambda>n. \<not> before s k n) (level_nodes ht ns l)" for l
  proof -
    have "level_nodes (ht(x := h)) (filter P ns) l = filter P (level_nodes ht ns l)" for P
      using xns(1) by (subst level_nodes_upd) (auto simp: level_nodes_filter)
    moreover have "level_nodes (ht(x := h)) (x # L) l = (if l < h then [x] else []) @ level_nodes (ht(x := h)) L l" for L
      by (simp add: level_nodes_def)
    ultimately show ?thesis by (simp del: fun_upd_apply)
  qed
  have paths: "path (sl_next s' l) 0 (level_nodes (ht(x := h)) ?ns l)" for l
  proof (cases "l < h")
    case True
    have "sl_next s' l = (sl_next s l)(x := sl_next s l (prev' l), prev' l := Some x)"
      unfolding s'_def using True by (subst link_levels_next) (auto simp: s1_def)
    moreover note insert_path [OF inv k x_def prev [OF True]]
    ultimately show ?thesis unfolding lev using True by (simp del: fun_upd_apply)
  next
    case False
    have "sl_next s' l = sl_next s l" unfolding s'_def using False by (subst link_levels_other) (auto simp: s1_def)
    moreover have "level_nodes ht ns l = filter (before s k) (level_nodes ht ns l) @ filter (\<lambda>n. \<not> before s k n) (level_nodes ht ns l)"
      using arg_cong [OF inv_split [OF inv k], of "\<lambda>ns. level_nodes ht ns l"] by (simp add: level_nodes_filter)
    ultimately show ?thesis unfolding lev using False sl_inv_path [OF inv, of l] by simp
  qed
  have key: "sl_key s' = (sl_key s)(x := k)" "sl_alloc s' = Suc x" "sl_max_height s' = max (sl_max_height s) h"
    by (simp_all add: s'_def s1_def frame)
  have "inv s' ?ns (ht(x := h))"
    unfolding sl_inv_def key
  proof (intro conjI)
    show "distinct ?ns" "0 \<notin> set ?ns" using inv xns by (auto simp: sl_inv_def)
    show "1 \<le> max (sl_max_height s) h" "max (sl_max_height s) h \<le> kMaxHeight" "0 < Suc x"
      using h inv by (auto simp: sl_inv_def)
    show "\<forall>n \<in> set ?ns. n < Suc x \<and> 1 \<le> (ht(x := h)) n \<and>
        (ht(x := h)) n \<le> max (sl_max_height s) h \<and> valid (((sl_key s)(x := k)) n)"
    proof
      fix n assume "n \<in> set ?ns"
      then have "n = x \<or> n \<noteq> x \<and> n \<in> set ns" by auto
      then show "n < Suc x \<and> 1 \<le> (ht(x := h)) n \<and>
          (ht(x := h)) n \<le> max (sl_max_height s) h \<and> valid (((sl_key s)(x := k)) n)"
      proof
        assume "n \<noteq> x \<and> n \<in> set ns"
        with inv show ?thesis by (auto simp: sl_inv_def x_def le_max_iff_disj)
      qed (use h k in simp)
    qed
    show "\<forall>l. path (sl_next s' l) 0 (level_nodes (ht(x := h)) ?ns l)" using paths by blast
  qed (rule insert_sorted [OF inv k new x_def])
  with ins key show ?thesis unfolding x_def by blast
qed

section \<open>The iterator\<close>

lemma inv_new: "inv (SkipList_new k) [] ht"
  by (simp add: sl_inv_def SkipList_new_def level_nodes_def kMaxHeight_def)

lemma inv_key_less:
  assumes "inv s ns ht" "i < j" "j < length ns"
  shows "cmp (sl_key s (ns ! i)) (sl_key s (ns ! j)) < 0"
  using assms by (auto simp: sl_inv_def sorted_wrt_iff_nth_less)

lemma cmp_refl_not_less: "valid a \<Longrightarrow> \<not> cmp a a < 0"
  using swap [of a a] by auto

lemma filter_before_nth:
  assumes "inv s ns ht" "i < length ns"
  shows "filter (before s (sl_key s (ns ! i))) ns = take i ns"
proof -
  let ?P = "before s (sl_key s (ns ! i))"
  have v: "valid (sl_key s (ns ! j))" if "j < length ns" for j
    using assms(1) that by (auto simp: sl_inv_def)
  have "ns = take i ns @ drop i ns" by simp
  then have f: "filter ?P ns = filter ?P (take i ns) @ filter ?P (drop i ns)" by (metis filter_append)
  have "\<forall>n \<in> set (take i ns). ?P n"
    using inv_key_less [OF assms(1) _ assms(2)] by (auto simp: in_set_conv_nth)
  moreover have "\<forall>n \<in> set (drop i ns). \<not> ?P n"
  proof
    fix n assume "n \<in> set (drop i ns)"
    then obtain d where d: "i + d < length ns" "n = ns ! (i + d)"
      by (auto simp: in_set_conv_nth) (metis less_diff_conv add.commute)
    show "\<not> ?P n"
    proof (cases d)
      case 0
      then show ?thesis using d v cmp_refl_not_less by simp
    next
      case (Suc e)
      then have "cmp (sl_key s (ns ! i)) (sl_key s n) < 0" using inv_key_less [OF assms(1), of i "i + d"] d by simp
      then show ?thesis using swap [OF v v, of i "i + d"] d assms(2) by auto
    qed
  qed
  ultimately show ?thesis unfolding f by (simp only: filter_True filter_False append_Nil2)
qed

lemma SLIter_Seek_spec:
  "inv s ns ht \<Longrightarrow> valid k \<Longrightarrow> SLIter_Seek cmp s k = Some (first_of (filter (\<lambda>n. \<not> before s k n) ns))"
  using FindGreaterOrEqual_spec [of s ns ht k "\<lambda>_. 0"] by (auto simp: SLIter_Seek_def)

lemma SLIter_Next_spec:
  assumes "inv s ns ht" "i < length ns"
  shows "SLIter_Next s (Some (ns ! i)) = first_of (drop (Suc i) ns)"
proof -
  have "at ht ns 0 (ns ! i) (take (Suc i) ns) (drop (Suc i) ns)"
    using assms unfolding at_def
    by (auto simp: take_Suc_conv_app_nth sl_inv_def Suc_le_eq id_take_nth_drop [symmetric])
  from at_Next [OF assms(1) this] at_level_0 [OF assms(1) this] show ?thesis
    by (simp add: SLIter_Next_def)
qed

lemma SLIter_Prev_spec:
  assumes "inv s ns ht" "i < length ns"
  shows "SLIter_Prev cmp s (Some (ns ! i)) = Some (if i = 0 then None else Some (ns ! (i - 1)))"
proof -
  have "valid (sl_key s (ns ! i))" "0 \<notin> set ns" using assms by (auto simp: sl_inv_def)
  moreover have "last (0 # take i ns) = (if i = 0 then 0 else ns ! (i - 1))"
    using assms(2) by (cases i) (auto simp: take_Suc_conv_app_nth)
  moreover have "0 < i \<Longrightarrow> ns ! (i - 1) \<noteq> 0" using calculation(2) assms(2) by (metis less_imp_diff_less nth_mem)
  moreover have "SLIter_Prev cmp s (Some (ns ! i)) = Some (not_head (last (0 # take i ns)))"
    using calculation(1)
    by (simp add: SLIter_Prev_def FindLessThan_spec [OF assms(1)] filter_before_nth [OF assms])
  ultimately show ?thesis
    by (cases "i = 0") (simp_all add: not_head_def del: last.simps)
qed

lemma SLIter_SeekToFirst_spec: "inv s ns ht \<Longrightarrow> SLIter_SeekToFirst s = first_of ns"
  by (simp add: SLIter_SeekToFirst_def at_Next [OF _ at_start] at_level_0 [OF _ at_start])

lemma SLIter_SeekToLast_spec:
  assumes "inv s ns ht"
  shows "SLIter_SeekToLast s = Some (if ns = [] then None else Some (last ns))"
proof -
  have "0 \<notin> set ns" using assms by (simp add: sl_inv_def)
  then have "ns \<noteq> [] \<Longrightarrow> last ns \<noteq> 0" using last_in_set [of ns] by metis
  then show ?thesis
    by (cases "ns = []") (auto simp: SLIter_SeekToLast_def FindLast_spec [OF assms] not_head_def)
qed

lemma Contains_spec:
  assumes "inv s ns ht" "valid k"
  shows "Contains cmp s k = Some (\<exists>n \<in> set ns. cmp (sl_key s n) k = 0)"
proof -
  let ?rest = "filter (\<lambda>n. \<not> before s k n) ns"
  have v: "valid (sl_key s n)" if "n \<in> set ns" for n using assms(1) that by (auto simp: sl_inv_def)
  have eq: "cmp a b = 0 \<longleftrightarrow> cmp b a = 0" if "valid a" "valid b" for a b
    using swap [OF that] swap [OF that(2,1)] by linarith
  have "(case first_of ?rest of None \<Rightarrow> False | Some n \<Rightarrow> cmp k (sl_key s n) = 0) \<longleftrightarrow>
      (\<exists>n \<in> set ns. cmp (sl_key s n) k = 0)"
  proof (cases ?rest)
    case Nil
    then show ?thesis by (auto simp: filter_empty_conv)
  next
    case (Cons y L)
    then have y: "y \<in> set ns" "\<not> before s k y" by (auto simp: filter_eq_Cons_iff)
    have "cmp (sl_key s y) k = 0" if n: "n \<in> set ns" "cmp (sl_key s n) k = 0" for n
    proof (rule ccontr)
      assume ne: "cmp (sl_key s y) k \<noteq> 0"
      have "n \<in> set (y # L)" using n Cons [symmetric] by simp
      with n(2) ne have "n \<in> set L" by auto
      moreover have "sorted_wrt (\<lambda>m n. cmp (sl_key s m) (sl_key s n) < 0) (y # L)"
        unfolding Cons [symmetric] using assms(1) by (simp add: sl_inv_def sorted_wrt_filter)
      ultimately have "cmp (sl_key s y) (sl_key s n) < 0" by simp
      moreover have "\<not> cmp (sl_key s y) k < 0" "\<not> cmp k (sl_key s n) < 0"
        using y(2) n eq [OF v [OF n(1)] assms(2)] by auto
      ultimately show False using not_less_trans [OF v [OF y(1)] assms(2) v [OF n(1)]] by blast
    qed
    with Cons y(1) show ?thesis using eq [OF v [OF y(1)] assms(2)] by auto
  qed
  then show ?thesis
    using FindGreaterOrEqual_spec [OF assms, of "\<lambda>_. 0"] by (auto simp: Contains_def)
qed

end

end
