(* ===== verification/Iterator.thy ===== *)
theory Iterator
  imports Status Comparator
begin

text \<open>
  The \<open>Iterator\<close> interface (\<open>include/leveldb/iterator.h\<close>, \<open>table/iterator.cc\<close>). An
  implementation is a record of functions on its state; an operation that moves the
  iterator returns \<open>None\<close> if it does not return. The contract is the locale
  \<open>list_iterator\<close>: the iterator is a position in a sorted list of entries. Memtables,
  blocks, the merging and the two-level iterator provide it; the last two also use it.
\<close>

section \<open>The interface\<close>

record 's Iterator =
  it_Valid :: "'s \<Rightarrow> bool"
  it_SeekToFirst :: "'s \<Rightarrow> 's option"
  it_SeekToLast :: "'s \<Rightarrow> 's option"
  it_Seek :: "bytes \<Rightarrow> 's \<Rightarrow> 's option"
  it_Next :: "'s \<Rightarrow> 's option"
  it_Prev :: "'s \<Rightarrow> 's option"
  it_key :: "'s \<Rightarrow> bytes"
  it_value :: "'s \<Rightarrow> bytes"
  it_status :: "'s \<Rightarrow> Status"

type_synonym entry = "bytes \<times> bytes"

text \<open>
  Where a seek to \<open>target\<close> ends: the number of entries with smaller keys, which for a
  sorted list is the position of the first entry at or past the target.
\<close>

definition seek_pos :: "(bytes \<Rightarrow> bytes \<Rightarrow> int) \<Rightarrow> bytes \<Rightarrow> entry list \<Rightarrow> nat" where
  "seek_pos cmp target entries = length (filter (\<lambda>e. cmp (fst e) target < 0) entries)"

definition sorted_entries :: "(bytes \<Rightarrow> bytes \<Rightarrow> int) \<Rightarrow> entry list \<Rightarrow> bool" where
  "sorted_entries cmp entries \<longleftrightarrow> sorted_wrt (\<lambda>a b. cmp (fst a) (fst b) < 0) entries"

definition last_pos :: "'a list \<Rightarrow> nat" where
  "last_pos entries = length entries - 1"

definition prev_pos :: "'a list \<Rightarrow> nat \<Rightarrow> nat" where
  "prev_pos entries i = (if i = 0 then length entries else i - 1)"

text \<open>The position after the last entry is the one where the iterator is not valid.\<close>

locale list_iterator =
  fixes ops :: "'s Iterator" and cmp :: "bytes \<Rightarrow> bytes \<Rightarrow> int" and ok :: "bytes \<Rightarrow> bool"
    and inv :: "'s \<Rightarrow> bool" and entries :: "entry list" and pos :: "'s \<Rightarrow> nat"
  assumes pos_le: "inv s \<Longrightarrow> pos s \<le> length entries"
    and valid_iff: "inv s \<Longrightarrow> it_Valid ops s \<longleftrightarrow> pos s < length entries"
    and seek_first: "inv s \<Longrightarrow> \<exists>s'. it_SeekToFirst ops s = Some s' \<and> inv s' \<and> pos s' = 0"
    and seek_last: "inv s \<Longrightarrow> \<exists>s'. it_SeekToLast ops s = Some s' \<and> inv s' \<and> pos s' = last_pos entries"
    and seek: "inv s \<Longrightarrow> ok t \<Longrightarrow> \<exists>s'. it_Seek ops t s = Some s' \<and> inv s' \<and> pos s' = seek_pos cmp t entries"
    and next_pos: "inv s \<Longrightarrow> pos s < length entries \<Longrightarrow>
      \<exists>s'. it_Next ops s = Some s' \<and> inv s' \<and> pos s' = Suc (pos s)"
    and prev_pos: "inv s \<Longrightarrow> pos s < length entries \<Longrightarrow>
      \<exists>s'. it_Prev ops s = Some s' \<and> inv s' \<and> pos s' = prev_pos entries (pos s)"
    and key: "inv s \<Longrightarrow> pos s < length entries \<Longrightarrow> it_key ops s = fst (entries ! pos s)"
    and val: "inv s \<Longrightarrow> pos s < length entries \<Longrightarrow> it_value ops s = snd (entries ! pos s)"
    and status_ok: "inv s \<Longrightarrow> it_status ops s = OK"

text \<open>Stepping an iterator to the end and collecting what it shows, with fuel.\<close>

fun it_collect :: "'s Iterator \<Rightarrow> nat \<Rightarrow> 's \<Rightarrow> entry list option" where
  "it_collect ops 0 s = (if it_Valid ops s then None else Some [])"
| "it_collect ops (Suc n) s =
     (if it_Valid ops s then
        (case it_Next ops s of
           None \<Rightarrow> None
         | Some s' \<Rightarrow> map_option (Cons (it_key ops s, it_value ops s)) (it_collect ops n s'))
      else Some [])"

text \<open>A forward scan from the first entry, and a backward one from the last.\<close>

definition it_forward :: "'s Iterator \<Rightarrow> nat \<Rightarrow> 's \<Rightarrow> entry list option" where
  "it_forward ops n s = (case it_SeekToFirst ops s of None \<Rightarrow> None | Some s' \<Rightarrow> it_collect ops n s')"

fun it_collect_back :: "'s Iterator \<Rightarrow> nat \<Rightarrow> 's \<Rightarrow> entry list option" where
  "it_collect_back ops 0 s = (if it_Valid ops s then None else Some [])"
| "it_collect_back ops (Suc n) s =
     (if it_Valid ops s then
        (case it_Prev ops s of
           None \<Rightarrow> None
         | Some s' \<Rightarrow> map_option (Cons (it_key ops s, it_value ops s)) (it_collect_back ops n s'))
      else Some [])"

definition it_backward :: "'s Iterator \<Rightarrow> nat \<Rightarrow> 's \<Rightarrow> entry list option" where
  "it_backward ops n s = (case it_SeekToLast ops s of None \<Rightarrow> None | Some s' \<Rightarrow> it_collect_back ops n s')"

definition it_lookup :: "'s Iterator \<Rightarrow> bytes \<Rightarrow> 's \<Rightarrow> entry option option" where
  "it_lookup ops target s =
     (case it_Seek ops target s of
        None \<Rightarrow> None
      | Some s' \<Rightarrow> Some (if it_Valid ops s' then Some (it_key ops s', it_value ops s') else None))"

context list_iterator
begin

lemma collect_from:
  "inv s \<Longrightarrow> length entries \<le> pos s + n \<Longrightarrow> it_collect ops n s = Some (drop (pos s) entries)"
proof (induction n arbitrary: s)
  case 0
  then show ?case using valid_iff [of s] by simp
next
  case (Suc n)
  show ?case
  proof (cases "pos s < length entries")
    case True
    from next_pos [OF Suc.prems(1) True] obtain s' where
      s': "it_Next ops s = Some s'" "inv s'" "pos s' = Suc (pos s)" by blast
    have "it_collect ops n s' = Some (drop (Suc (pos s)) entries)" using Suc.IH [OF s'(2)] Suc.prems(2) s'(3) by simp
    moreover have "drop (pos s) entries = (it_key ops s, it_value ops s) # drop (Suc (pos s)) entries"
      using True key [OF Suc.prems(1) True] val [OF Suc.prems(1) True] by (simp add: Cons_nth_drop_Suc)
    ultimately show ?thesis using True valid_iff [OF Suc.prems(1)] s'(1) by simp
  next
    case False
    then show ?thesis using valid_iff [OF Suc.prems(1)] by simp
  qed
qed

lemma forward_scan:
  assumes "inv s" "length entries \<le> n"
  shows "it_forward ops n s = Some entries"
proof -
  from seek_first [OF assms(1)] obtain s' where "it_SeekToFirst ops s = Some s'" "inv s'" "pos s' = 0" by blast
  with collect_from [of s' n] assms(2) show ?thesis by (simp add: it_forward_def)
qed

lemma collect_back_from:
  "inv s \<Longrightarrow> pos s < n \<Longrightarrow> pos s < length entries \<Longrightarrow>
     it_collect_back ops n s = Some (rev (take (Suc (pos s)) entries))"
proof (induction n arbitrary: s)
  case (Suc n)
  from prev_pos [OF Suc.prems(1,3)] obtain s' where
    s': "it_Prev ops s = Some s'" "inv s'" "pos s' = prev_pos entries (pos s)" by blast
  have "it_collect_back ops n s' = Some (rev (take (pos s) entries))"
  proof (cases "pos s")
    case 0
    then have "\<not> it_Valid ops s'" using valid_iff [OF s'(2)] s'(3) by (simp add: prev_pos_def)
    with 0 show ?thesis by (cases n) auto
  next
    case (Suc i)
    then have "pos s' = i" using s'(3) by (simp add: prev_pos_def)
    with Suc.IH [OF s'(2)] Suc.prems Suc show ?thesis by simp
  qed
  then show ?case
    using s'(1) valid_iff [OF Suc.prems(1)] key [OF Suc.prems(1,3)] val [OF Suc.prems(1,3)] Suc.prems(3)
    by (simp add: take_Suc_conv_app_nth)
qed simp

lemma backward_scan:
  assumes "inv s" "length entries \<le> n"
  shows "it_backward ops n s = Some (rev entries)"
proof -
  from seek_last [OF assms(1)] obtain s' where
    s': "it_SeekToLast ops s = Some s'" "inv s'" "pos s' = last_pos entries" by blast
  show ?thesis
  proof (cases "entries = []")
    case True
    then have "\<not> it_Valid ops s'" using valid_iff [OF s'(2)] by simp
    with True s'(1) show ?thesis by (cases n) (auto simp: it_backward_def)
  next
    case False
    with collect_back_from [OF s'(2), of n] s' assms(2) show ?thesis
      by (cases entries) (auto simp: it_backward_def last_pos_def)
  qed
qed

lemma lookup_at:
  assumes "inv s" "ok t"
  shows "it_lookup ops t s =
    Some (if seek_pos cmp t entries < length entries then Some (entries ! seek_pos cmp t entries) else None)"
proof -
  from seek [OF assms] obtain s' where
    "it_Seek ops t s = Some s'" "inv s'" "pos s' = seek_pos cmp t entries" by blast
  with valid_iff [of s'] key [of s'] val [of s'] show ?thesis by (simp add: it_lookup_def)
qed

end

section \<open>Sorted entries\<close>

lemma seek_pos_split:
  assumes "sorted_entries cmp es"
    and trans: "\<And>a b. a \<in> set es \<Longrightarrow> b \<in> set es \<Longrightarrow> cmp (fst a) (fst b) < 0 \<Longrightarrow> cmp (fst b) t < 0 \<Longrightarrow> cmp (fst a) t < 0"
  shows "(\<forall>e \<in> set (take (seek_pos cmp t es) es). cmp (fst e) t < 0) \<and>
         (\<forall>e \<in> set (drop (seek_pos cmp t es) es). \<not> cmp (fst e) t < 0)"
  using assms
proof (induction es)
  case (Cons e es)
  have IH: "(\<forall>e \<in> set (take (seek_pos cmp t es) es). cmp (fst e) t < 0) \<and>
      (\<forall>e \<in> set (drop (seek_pos cmp t es) es). \<not> cmp (fst e) t < 0)"
  proof (rule Cons.IH)
    show "sorted_entries cmp es" using Cons.prems(1) by (simp add: sorted_entries_def)
    show "cmp (fst a) t < 0" if "a \<in> set es" "b \<in> set es" "cmp (fst a) (fst b) < 0" "cmp (fst b) t < 0" for a b
      using that by (intro Cons.prems(2) [of a b]) simp_all
  qed
  show ?case
  proof (cases "cmp (fst e) t < 0")
    case True
    then have "seek_pos cmp t (e # es) = Suc (seek_pos cmp t es)" by (simp add: seek_pos_def)
    with IH True show ?thesis by simp
  next
    case False
    have "\<not> cmp (fst x) t < 0" if "x \<in> set es" for x
    proof
      assume "cmp (fst x) t < 0"
      moreover have "cmp (fst e) (fst x) < 0" using Cons.prems(1) that by (simp add: sorted_entries_def)
      ultimately show False using Cons.prems(2) [of e x] that False by simp
    qed
    with False have "seek_pos cmp t (e # es) = 0" "\<forall>x \<in> set (e # es). \<not> cmp (fst x) t < 0"
      by (auto simp: filter_empty_conv seek_pos_def)
    then show ?thesis by simp
  qed
next
  case Nil
  show ?case by (simp add: seek_pos_def)
qed

lemma seek_pos_le [simp]: "seek_pos cmp t es \<le> length es"
  by (simp add: seek_pos_def)

text \<open>For a total order of the keys the seek position splits the list exactly.\<close>

lemma seek_pos_iff:
  assumes "key_order cmp valid" "sorted_entries (Compare cmp) es" "\<forall>e \<in> set es. valid (fst e)" "valid t"
    and "j < length es"
  shows "Compare cmp (fst (es ! j)) t < 0 \<longleftrightarrow> j < seek_pos (Compare cmp) t es"
proof -
  let ?n = "seek_pos (Compare cmp) t es"
  have "(\<forall>e \<in> set (take ?n es). Compare cmp (fst e) t < 0) \<and> (\<forall>e \<in> set (drop ?n es). \<not> Compare cmp (fst e) t < 0)"
  proof (rule seek_pos_split [OF assms(2)])
    show "Compare cmp (fst a) t < 0" if "a \<in> set es" "b \<in> set es"
      "Compare cmp (fst a) (fst b) < 0" "Compare cmp (fst b) t < 0" for a b
      using key_order.compare_trans [OF assms(1) _ _ _ that(3,4)] assms(3,4) that(1,2) by auto
  qed
  moreover have "j < ?n \<Longrightarrow> es ! j \<in> set (take ?n es)"
    using assms(5) by (auto simp: in_set_conv_nth intro!: exI [of _ j])
  moreover have "\<not> j < ?n \<Longrightarrow> es ! j \<in> set (drop ?n es)"
    using assms(5) by (auto simp: in_set_conv_nth intro!: exI [of _ "j - ?n"])
  ultimately show ?thesis by blast
qed

lemma find_seek_pos:
  assumes "key_order cmp valid" "sorted_entries (Compare cmp) es" "\<forall>e \<in> set es. valid (fst e)" "valid t"
  shows "(if seek_pos (Compare cmp) t es < length es then Some (es ! seek_pos (Compare cmp) t es) else None) =
    List.find (\<lambda>e. 0 \<le> Compare cmp (fst e) t) es"
proof (cases "seek_pos (Compare cmp) t es < length es")
  case True
  have "List.find (\<lambda>e. 0 \<le> Compare cmp (fst e) t) es = Some (es ! seek_pos (Compare cmp) t es)"
    unfolding find_Some_iff
  proof (intro exI [of _ "seek_pos (Compare cmp) t es"] conjI allI impI True refl)
    show "0 \<le> Compare cmp (fst (es ! seek_pos (Compare cmp) t es)) t" using seek_pos_iff [OF assms True] by simp
    show "\<not> 0 \<le> Compare cmp (fst (es ! j)) t" if "j < seek_pos (Compare cmp) t es" for j
      using seek_pos_iff [OF assms, of j] that True by simp
  qed
  with True show ?thesis by simp
next
  case False
  have "Compare cmp (fst e) t < 0" if "e \<in> set es" for e
    using seek_pos_iff [OF assms] that False by (auto simp: in_set_conv_nth)
  then have "List.find (\<lambda>e. 0 \<le> Compare cmp (fst e) t) es = None" by (auto simp: find_None_iff not_le)
  with False show ?thesis by simp
qed

section \<open>The empty iterator\<close>

definition EmptyIterator :: "Status Iterator" where
  "EmptyIterator = \<lparr> it_Valid = (\<lambda>_. False), it_SeekToFirst = Some, it_SeekToLast = Some,
     it_Seek = (\<lambda>_. Some), it_Next = Some, it_Prev = Some, it_key = (\<lambda>_. []), it_value = (\<lambda>_. []),
     it_status = (\<lambda>st. st) \<rparr>"

definition NewEmptyIterator :: Status where "NewEmptyIterator = OK"
definition NewErrorIterator :: "Status \<Rightarrow> Status" where "NewErrorIterator st = st"

interpretation empty_iterator: list_iterator EmptyIterator cmp "\<lambda>_. True" "\<lambda>st. st = OK" "[]" "\<lambda>_. 0" for cmp
  by unfold_locales (simp_all add: EmptyIterator_def last_pos_def seek_pos_def)

section \<open>Iterators of two classes\<close>

text \<open>A pointer to an iterator of one of two classes, with virtual calls.\<close>

definition sum_ops :: "'a Iterator \<Rightarrow> 'b Iterator \<Rightarrow> ('a + 'b) Iterator" where
  "sum_ops f g =
     \<lparr> it_Valid = case_sum (it_Valid f) (it_Valid g),
       it_SeekToFirst = case_sum (map_option Inl \<circ> it_SeekToFirst f) (map_option Inr \<circ> it_SeekToFirst g),
       it_SeekToLast = case_sum (map_option Inl \<circ> it_SeekToLast f) (map_option Inr \<circ> it_SeekToLast g),
       it_Seek = (\<lambda>t. case_sum (map_option Inl \<circ> it_Seek f t) (map_option Inr \<circ> it_Seek g t)),
       it_Next = case_sum (map_option Inl \<circ> it_Next f) (map_option Inr \<circ> it_Next g),
       it_Prev = case_sum (map_option Inl \<circ> it_Prev f) (map_option Inr \<circ> it_Prev g),
       it_key = case_sum (it_key f) (it_key g),
       it_value = case_sum (it_value f) (it_value g),
       it_status = case_sum (it_status f) (it_status g) \<rparr>"

lemma sum_list_iterator:
  assumes "list_iterator g cmp ok I entries pos"
  shows "list_iterator (sum_ops f g) cmp ok (case_sum (\<lambda>_. False) I) entries (case_sum (\<lambda>_. 0) pos)"
proof -
  note l = list_iterator.pos_le [OF assms] list_iterator.valid_iff [OF assms] list_iterator.key [OF assms]
    list_iterator.val [OF assms] list_iterator.status_ok [OF assms]
  show ?thesis
  proof (unfold_locales, goal_cases)
    case (3 s) then show ?case using list_iterator.seek_first [OF assms]
      by (fastforce simp: sum_ops_def split: sum.splits)
  next
    case (4 s) then show ?case using list_iterator.seek_last [OF assms]
      by (fastforce simp: sum_ops_def split: sum.splits)
  next
    case (5 s t) then show ?case using list_iterator.seek [OF assms]
      by (fastforce simp: sum_ops_def split: sum.splits)
  next
    case (6 s) then show ?case using list_iterator.next_pos [OF assms]
      by (fastforce simp: sum_ops_def split: sum.splits)
  next
    case (7 s) then show ?case using list_iterator.prev_pos [OF assms]
      by (fastforce simp: sum_ops_def split: sum.splits)
  qed (use l in \<open>auto simp: sum_ops_def split: sum.splits\<close>)
qed

lemma sum_list_iterator_Inl:
  assumes "list_iterator f cmp ok I entries pos"
  shows "list_iterator (sum_ops f g) cmp ok (case_sum I (\<lambda>_. False)) entries (case_sum pos (\<lambda>_. 0))"
proof -
  note l = list_iterator.pos_le [OF assms] list_iterator.valid_iff [OF assms] list_iterator.key [OF assms]
    list_iterator.val [OF assms] list_iterator.status_ok [OF assms]
  show ?thesis
  proof (unfold_locales, goal_cases)
    case (3 s) then show ?case using list_iterator.seek_first [OF assms]
      by (fastforce simp: sum_ops_def split: sum.splits)
  next
    case (4 s) then show ?case using list_iterator.seek_last [OF assms]
      by (fastforce simp: sum_ops_def split: sum.splits)
  next
    case (5 s t) then show ?case using list_iterator.seek [OF assms]
      by (fastforce simp: sum_ops_def split: sum.splits)
  next
    case (6 s) then show ?case using list_iterator.next_pos [OF assms]
      by (fastforce simp: sum_ops_def split: sum.splits)
  next
    case (7 s) then show ?case using list_iterator.prev_pos [OF assms]
      by (fastforce simp: sum_ops_def split: sum.splits)
  qed (use l in \<open>auto simp: sum_ops_def split: sum.splits\<close>)
qed

section \<open>Cleanup functions\<close>

text \<open>
  The registered cleanups: the first is inline in the iterator, the others a linked list
  headed by \<open>cleanup_.next\<close>. The destructor runs the inline one and then the list.
\<close>

definition RegisterCleanup :: "'f \<Rightarrow> 'f list \<Rightarrow> 'f list" where
  "RegisterCleanup f cleanups = (case cleanups of [] \<Rightarrow> [f] | c # rest \<Rightarrow> c # f # rest)"

definition Iterator_destroy :: "'f list \<Rightarrow> 'f list" where
  "Iterator_destroy cleanups = cleanups"

lemma cleanups_run_once:
  "Iterator_destroy (foldl (\<lambda>cs f. RegisterCleanup f cs) [] (c # fs)) = c # rev fs"
proof -
  have "foldl (\<lambda>cs f. RegisterCleanup f cs) (c # cs) fs = c # rev fs @ cs" for cs
    by (induction fs arbitrary: cs) (simp_all add: RegisterCleanup_def)
  then show ?thesis by (simp add: Iterator_destroy_def RegisterCleanup_def)
qed

end
