(* ===== verification/Memtable.thy ===== *)
theory Memtable
  imports Dbformat Skiplist Iterator
begin

text \<open>
  \<open>db/memtable.h\<close>, \<open>db/memtable.cc\<close>: the in-memory table, a skip list of encoded entries.
  A \<open>const char*\<close> key of the skip list is the bytes at that pointer. The memtable order
  compares the internal keys at the front of the entries; it interprets the order that
  the skip list needs, so the skip list's lemmas apply to it.
\<close>

section \<open>Operations\<close>

definition GetLengthPrefixedSlice_at :: "bytes \<Rightarrow> bytes" where
  "GetLengthPrefixedSlice_at data =
     (case GetVarint32Ptr (take 5 data) of
        None \<Rightarrow> []
      | Some (len, rest) \<Rightarrow> take (unat len) (drop (length (take 5 data) - length rest) data))"

text \<open>The position behind the length prefix, where the slice starts.\<close>

definition slice_start :: "bytes \<Rightarrow> bytes" where
  "slice_start data =
     (case GetVarint32Ptr (take 5 data) of
        None \<Rightarrow> []
      | Some (len, rest) \<Rightarrow> drop (length (take 5 data) - length rest) data)"

definition KeyComparator :: "Comparator \<Rightarrow> bytes \<Rightarrow> bytes \<Rightarrow> int" where
  "KeyComparator user_comparator aptr bptr =
     Compare (InternalKeyComparator user_comparator)
       (GetLengthPrefixedSlice_at aptr) (GetLengthPrefixedSlice_at bptr)"

definition EncodeKey :: "bytes \<Rightarrow> bytes" where
  "EncodeKey target = PutVarint32 [] (word_of_nat (length target)) @ target"

record MemTable =
  mt_refs :: int
  mt_table :: "bytes skiplist"

definition MemTable_new :: MemTable where
  "MemTable_new = \<lparr> mt_refs = 0, mt_table = SkipList_new [] \<rparr>"

definition MemTable_Ref :: "MemTable \<Rightarrow> MemTable" where
  "MemTable_Ref m = m\<lparr> mt_refs := mt_refs m + 1 \<rparr>"

text \<open>\<open>None\<close>: the memtable has been deleted.\<close>

definition MemTable_Unref :: "MemTable \<Rightarrow> MemTable option" where
  "MemTable_Unref m =
     (let m = m\<lparr> mt_refs := mt_refs m - 1 \<rparr> in if mt_refs m \<le> 0 then None else Some m)"

text \<open>The bytes that \<open>Add\<close> stores in the arena.\<close>

definition mem_entry :: "u64 \<Rightarrow> ValueType \<Rightarrow> bytes \<Rightarrow> bytes \<Rightarrow> bytes" where
  "mem_entry s type key val =
     EncodeVarint32 (word_of_nat (length key + 8)) @ key @
     EncodeFixed64 (push_bit 8 s OR ucast (ValueType_val type)) @
     EncodeVarint32 (word_of_nat (length val)) @ val"

definition MemTable_Add ::
  "Comparator \<Rightarrow> u64 \<Rightarrow> ValueType \<Rightarrow> bytes \<Rightarrow> bytes \<Rightarrow> MemTable \<Rightarrow> MemTable option" where
  "MemTable_Add user_comparator s type key val m =
     map_option (\<lambda>t. m\<lparr> mt_table := t \<rparr>)
       (Insert (KeyComparator user_comparator) (mem_entry s type key val) (mt_table m))"

text \<open>
  The number of bytes \<open>Add\<close> asks the arena for.
\<close>

definition encoded_len :: "bytes \<Rightarrow> bytes \<Rightarrow> nat" where
  "encoded_len key val =
     VarintLength (word_of_nat (length key + 8)) + (length key + 8) +
     VarintLength (word_of_nat (length val)) + length val"

text \<open>
  \<open>Get\<close> returns whether it decided the lookup, with \<open>*value\<close> and \<open>*s\<close>; the outer option is
  termination.
\<close>

definition MemTable_Get ::
  "Comparator \<Rightarrow> LookupKey \<Rightarrow> MemTable \<Rightarrow> bytes \<Rightarrow> Status \<Rightarrow> (bool \<times> bytes \<times> Status) option" where
  "MemTable_Get user_comparator key m value0 status0 =
     (case SLIter_Seek (KeyComparator user_comparator) (mt_table m) (LookupKey_memtable_key key) of
        None \<Rightarrow> None
      | Some None \<Rightarrow> Some (False, value0, status0)
      | Some (Some node) \<Rightarrow>
          (let entry = sl_key (mt_table m) node;
               ikey = GetLengthPrefixedSlice_at entry;
               key_ptr = slice_start entry;
               key_length = length ikey
           in if Compare user_comparator (take (key_length - 8) key_ptr) (LookupKey_user_key key) = 0 then
                (let tag = DecodeFixed64 (drop (key_length - 8) key_ptr) in
                 case ValueType_of (ucast (tag AND 0xff)) of
                   Some kTypeValue \<Rightarrow>
                     Some (True, GetLengthPrefixedSlice_at (drop key_length key_ptr), status0)
                 | Some kTypeDeletion \<Rightarrow> Some (True, value0, NotFound [] [])
                 | None \<Rightarrow> Some (False, value0, status0))
              else Some (False, value0, status0)))"

text \<open>The iterator of a memtable: its state is the node of the underlying iterator.\<close>

definition MemTableIterator :: "Comparator \<Rightarrow> MemTable \<Rightarrow> nat option Iterator" where
  "MemTableIterator user_comparator m =
     (let cmp = KeyComparator user_comparator; t = mt_table m in
      \<lparr> it_Valid = SLIter_Valid,
        it_SeekToFirst = (\<lambda>_. Some (SLIter_SeekToFirst t)),
        it_SeekToLast = (\<lambda>_. SLIter_SeekToLast t),
        it_Seek = (\<lambda>k _. SLIter_Seek cmp t (EncodeKey k)),
        it_Next = (\<lambda>node. Some (SLIter_Next t node)),
        it_Prev = (\<lambda>node. SLIter_Prev cmp t node),
        it_key = (\<lambda>node. GetLengthPrefixedSlice_at (SLIter_key t node)),
        it_value = (\<lambda>node. let ptr = slice_start (SLIter_key t node);
                              key_slice = GetLengthPrefixedSlice_at (SLIter_key t node)
                          in GetLengthPrefixedSlice_at (drop (length key_slice) ptr)),
        it_status = (\<lambda>_. OK) \<rparr>)"

definition MemTable_NewIterator :: "nat option" where
  "MemTable_NewIterator = None"

section \<open>Encoded entries\<close>

lemma prefixed_decode:
  assumes "length k < 2 ^ 32"
  shows "GetLengthPrefixedSlice_at (EncodeVarint32 (word_of_nat (length k)) @ k @ rest) = k"
    and "slice_start (EncodeVarint32 (word_of_nat (length k)) @ k @ rest) = k @ rest"
proof -
  let ?v = "EncodeVarint32 (word_of_nat (length k))"
  have len: "length ?v \<le> 5" using length_EncodeVarint32 [of "word_of_nat (length k)"] by simp
  then have t: "take 5 (?v @ k @ rest) = ?v @ take (5 - length ?v) (k @ rest)" by simp
  have "GetVarint32Ptr (?v @ r) = Some (word_of_nat (length k), r)" for r
    using GetVarint32_EncodeVarint32 [of "word_of_nat (length k)" r]
    by (simp add: GetVarint32_def split: option.splits prod.splits)
  then have g: "GetVarint32Ptr (take 5 (?v @ k @ rest)) =
      Some (word_of_nat (length k), take (5 - length ?v) (k @ rest))"
    unfolding t .
  have d: "length (take 5 (?v @ k @ rest)) - length (take (5 - length ?v) (k @ rest)) = length ?v"
    unfolding t by simp
  show "GetLengthPrefixedSlice_at (?v @ k @ rest) = k"
    unfolding GetLengthPrefixedSlice_at_def g using assms by (simp only: option.case prod.case d) simp
  show "slice_start (?v @ k @ rest) = k @ rest"
    unfolding slice_start_def g by (simp only: option.case prod.case d) simp
qed

text \<open>A pointer to a length-prefixed internal key.\<close>

definition mt_valid :: "(bytes \<Rightarrow> bool) \<Rightarrow> bytes \<Rightarrow> bool" where
  "mt_valid uvalid p \<longleftrightarrow>
     (\<exists>k rest. p = EncodeVarint32 (word_of_nat (length k)) @ k @ rest \<and> length k < 2 ^ 32 \<and> internal_valid uvalid k)"

lemma mt_valid_key: "mt_valid uvalid p \<Longrightarrow> internal_valid uvalid (GetLengthPrefixedSlice_at p)"
  unfolding mt_valid_def using prefixed_decode(1) by fastforce

locale memtable_order = internal_key_order

sublocale memtable_order \<subseteq> mt: weak_order "KeyComparator ucmp" "mt_valid uvalid"
proof
  fix a b c
  assume "mt_valid uvalid a" "mt_valid uvalid b"
  note v = this [THEN mt_valid_key]
  show "KeyComparator ucmp a b < 0 \<longleftrightarrow> KeyComparator ucmp b a > 0"
    using internal.compare_swap [OF v] by (simp add: KeyComparator_def)
  assume "mt_valid uvalid c"
  note vc = mt_valid_key [OF this]
  show "KeyComparator ucmp a c < 0" if "KeyComparator ucmp a b < 0" "KeyComparator ucmp b c < 0"
    using internal.compare_trans [OF v vc] that by (simp add: KeyComparator_def)
  show "\<not> KeyComparator ucmp a c < 0" if "\<not> KeyComparator ucmp a b < 0" "\<not> KeyComparator ucmp b c < 0"
    using internal.compare_le_trans [OF vc v(2,1)] internal.compare_not_less [OF v]
      internal.compare_not_less [OF v(2) vc] internal.compare_not_less [OF v(1) vc] that
    by (simp add: KeyComparator_def)
qed

interpretation bytewise_mt: memtable_order BytewiseComparator "\<lambda>_. True"
  by unfold_locales

lemma mem_entry_eq:
  "mem_entry s t key val = EncodeVarint32 (word_of_nat (length (InternalKey key s t))) @ InternalKey key s t @
     EncodeVarint32 (word_of_nat (length val)) @ val"
  by (simp add: mem_entry_def InternalKey_def AppendInternalKey_def PutFixed64_def PackSequenceAndType_def)

lemma mem_entry_decode:
  assumes "length key + 8 < 2 ^ 32" "length val < 2 ^ 32"
  shows "GetLengthPrefixedSlice_at (mem_entry s t key val) = InternalKey key s t"
    and "slice_start (mem_entry s t key val) = InternalKey key s t @ EncodeVarint32 (word_of_nat (length val)) @ val"
    and "GetLengthPrefixedSlice_at (drop (length (InternalKey key s t)) (slice_start (mem_entry s t key val))) = val"
proof -
  have l: "length (InternalKey key s t) < 2 ^ 32" using assms(1) by simp
  show "GetLengthPrefixedSlice_at (mem_entry s t key val) = InternalKey key s t"
    unfolding mem_entry_eq by (rule prefixed_decode [OF l])
  show sl: "slice_start (mem_entry s t key val) = InternalKey key s t @ EncodeVarint32 (word_of_nat (length val)) @ val"
    unfolding mem_entry_eq by (rule prefixed_decode [OF l])
  show "GetLengthPrefixedSlice_at (drop (length (InternalKey key s t)) (slice_start (mem_entry s t key val))) = val"
    unfolding sl using prefixed_decode(1) [OF assms(2), of "[]"] by simp
qed

text \<open>The arena allocation of an entry is exactly what is written into it.\<close>

lemma encoded_len_exact:
  assumes "length key + 8 < 2 ^ 32" "length val < 2 ^ 32"
  shows "length (mem_entry s t key val) = encoded_len key val"
proof -
  have v: "length (EncodeVarint32 (word_of_nat n)) = VarintLength (word_of_nat n)" if "n < 2 ^ 32" for n
  proof -
    have "(ucast (word_of_nat n :: u32) :: u64) = word_of_nat n"
      using that by (simp add: word_unat_eq_iff)
    then show ?thesis by (simp add: EncodeVarint32_eq VarintLength_eq)
  qed
  from v [OF assms(1)] v [OF assms(2)] show ?thesis
    unfolding mem_entry_def encoded_len_def Let_def by (simp only: length_append length_EncodeFixed add_ac)
qed

section \<open>The contents of a memtable\<close>

text \<open>An addition: sequence number, type, user key and value.\<close>

type_synonym add = "u64 \<times> ValueType \<times> bytes \<times> bytes"

fun add_ikey :: "add \<Rightarrow> bytes" where
  "add_ikey (s, t, k, v) = InternalKey k s t"

fun add_pair :: "add \<Rightarrow> entry" where
  "add_pair (s, t, k, v) = (InternalKey k s t, v)"

fun add_entry :: "add \<Rightarrow> bytes" where
  "add_entry (s, t, k, v) = mem_entry s t k v"

fun add_ok :: "(bytes \<Rightarrow> bool) \<Rightarrow> add \<Rightarrow> bool" where
  "add_ok uvalid (s, t, k, v) \<longleftrightarrow>
     s \<le> kMaxSequenceNumber \<and> length k + 8 < 2 ^ 32 \<and> length v < 2 ^ 32 \<and> uvalid k"

fun MemTable_Adds :: "Comparator \<Rightarrow> add list \<Rightarrow> MemTable \<Rightarrow> MemTable option" where
  "MemTable_Adds cmp [] m = Some m"
| "MemTable_Adds cmp ((s, t, k, v) # adds) m =
     Option.bind (MemTable_Add cmp s t k v m) (MemTable_Adds cmp adds)"

lemma add_entry_decode:
  assumes "add_ok uvalid a"
  shows "GetLengthPrefixedSlice_at (add_entry a) = add_ikey a" "mt_valid uvalid (add_entry a)"
    "internal_valid uvalid (add_ikey a)"
proof -
  obtain s t k v where a: "a = (s, t, k, v)" by (cases a)
  show "GetLengthPrefixedSlice_at (add_entry a) = add_ikey a"
    using assms by (simp add: a mem_entry_decode)
  show iv: "internal_valid uvalid (add_ikey a)" using assms by (simp add: a internal_valid_def)
  show "mt_valid uvalid (add_entry a)"
    unfolding mt_valid_def a add_entry.simps mem_entry_eq
    by (rule exI [of _ "InternalKey k s t"], rule exI, rule conjI [OF refl])
      (use assms iv in \<open>simp add: a\<close>)
qed

context memtable_order
begin

text \<open>The table holds exactly the entries of the additions.\<close>

definition holds :: "MemTable \<Rightarrow> add list \<Rightarrow> nat list \<Rightarrow> bool" where
  "holds m adds ns \<longleftrightarrow>
     (\<exists>ht. mt.inv (mt_table m) ns ht) \<and> (\<forall>a \<in> set adds. add_ok uvalid a) \<and>
     sl_key (mt_table m) ` set ns = add_entry ` set adds"

lemma holds_new: "holds MemTable_new [] []"
  using mt.inv_new by (auto simp: holds_def MemTable_new_def)

lemma KeyComparator_entries:
  assumes "add_ok uvalid a" "add_ok uvalid b"
  shows "KeyComparator ucmp (add_entry a) (add_entry b) = InternalKeyComparator_Compare ucmp (add_ikey a) (add_ikey b)"
  using assms by (simp add: KeyComparator_def add_entry_decode)

lemma holds_Add:
  assumes "holds m adds ns" "add_ok uvalid (s, t, k, v)" "InternalKey k s t \<notin> add_ikey ` set adds"
  shows "\<exists>m' ns'. MemTable_Add ucmp s t k v m = Some m' \<and> holds m' ((s, t, k, v) # adds) ns'"
proof -
  let ?a = "(s, t, k, v)" and ?T = "mt_table m"
  from assms(1) obtain ht where ht: "mt.inv ?T ns ht"
    and ok: "\<forall>a \<in> set adds. add_ok uvalid a" and keys: "sl_key ?T ` set ns = add_entry ` set adds"
    by (auto simp: holds_def)
  have new: "\<forall>n \<in> set ns. KeyComparator ucmp (sl_key ?T n) (add_entry ?a) \<noteq> 0"
  proof
    fix n assume "n \<in> set ns"
    with keys obtain b where b: "b \<in> set adds" "sl_key ?T n = add_entry b" by blast
    with ok have okb: "add_ok uvalid b" by blast
    have "add_ikey b \<noteq> add_ikey ?a" using assms(3) b(1) by (metis add_ikey.simps image_eqI)
    then show "KeyComparator ucmp (sl_key ?T n) (add_entry ?a) \<noteq> 0"
      unfolding b(2) KeyComparator_entries [OF okb assms(2)]
      using internal_eq_iff [OF add_entry_decode(3) [OF okb] add_entry_decode(3) [OF assms(2)]] by simp
  qed
  from mt.Insert_spec [OF ht add_entry_decode(2) [OF assms(2)] new] obtain T' h where
    T': "Insert (KeyComparator ucmp) (add_entry ?a) ?T = Some T'"
      "mt.inv T' (filter (mt.before ?T (add_entry ?a)) ns @ sl_alloc ?T #
         filter (\<lambda>n. \<not> mt.before ?T (add_entry ?a) n) ns) (ht(sl_alloc ?T := h))"
      "sl_key T' = (sl_key ?T)(sl_alloc ?T := add_entry ?a)"
    by blast
  let ?ns = "filter (mt.before ?T (add_entry ?a)) ns @ sl_alloc ?T # filter (\<lambda>n. \<not> mt.before ?T (add_entry ?a) n) ns"
  have fresh: "sl_alloc ?T \<notin> set ns" using ht by (auto simp: sl_inv_def)
  have "set ?ns = insert (sl_alloc ?T) (set ns)" by auto
  moreover have "sl_key T' ` insert (sl_alloc ?T) (set ns) = insert (add_entry ?a) (sl_key ?T ` set ns)"
    unfolding T'(3) using fresh by (auto simp: image_iff)
  ultimately have "sl_key T' ` set ?ns = add_entry ` set (?a # adds)"
    unfolding keys by simp
  then have "holds (m\<lparr> mt_table := T' \<rparr>) (?a # adds) ?ns"
    using T'(2) ok assms(2) by (auto simp: holds_def)
  moreover have "MemTable_Add ucmp s t k v m = Some (m\<lparr> mt_table := T' \<rparr>)"
    using T'(1) by (simp add: MemTable_Add_def)
  ultimately show ?thesis by blast
qed

lemma holds_Adds:
  assumes "holds m old ns" "\<forall>a \<in> set adds. add_ok uvalid a" "distinct (map add_ikey (adds @ old))"
  shows "\<exists>m' ns'. MemTable_Adds ucmp adds m = Some m' \<and> holds m' (rev adds @ old) ns'"
  using assms
proof (induction adds arbitrary: m old ns)
  case (Cons a adds)
  obtain s t k v where a: "a = (s, t, k, v)" by (cases a)
  from holds_Add [OF Cons.prems(1), of s t k v] Cons.prems(2,3) obtain m' ns' where
    m': "MemTable_Add ucmp s t k v m = Some m'" "holds m' (a # old) ns'"
    by (auto simp: a)
  from Cons.IH [OF m'(2)] Cons.prems(2,3) m'(1) show ?case by (auto simp: a)
qed auto

section \<open>Lookups\<close>

lemma lookup_pointer:
  assumes "length u + 8 < 2 ^ 32" "uvalid u"
  shows "GetLengthPrefixedSlice_at (LookupKey_memtable_key (mkLookupKey u q)) = InternalKey u q kValueTypeForSeek"
    and "mt_valid uvalid (LookupKey_memtable_key (mkLookupKey u q))"
    and "LookupKey_user_key (mkLookupKey u q) = u"
    and "internal_valid uvalid (InternalKey u q kValueTypeForSeek)"
proof -
  let ?k = "InternalKey u q kValueTypeForSeek"
  have e: "LookupKey_memtable_key (mkLookupKey u q) = EncodeVarint32 (word_of_nat (length ?k)) @ ?k @ []"
    by (simp add: LookupKey_memtable_key_def mkLookupKey_def Let_def)
      (simp add: InternalKey_def AppendInternalKey_def PutFixed64_def)
  have l: "length ?k < 2 ^ 32" using assms(1) by simp
  show "GetLengthPrefixedSlice_at (LookupKey_memtable_key (mkLookupKey u q)) = ?k"
    unfolding e by (rule prefixed_decode(1) [OF l])
  show iv: "internal_valid uvalid ?k" using assms(2) by (simp add: internal_valid_def)
  show "mt_valid uvalid (LookupKey_memtable_key (mkLookupKey u q))"
    unfolding mt_valid_def e using l iv by blast
  show "LookupKey_user_key (mkLookupKey u q) = u"
    by (simp add: LookupKey_user_key_def mkLookupKey_def Let_def)
qed

text \<open>An entry that is not before the lookup key: of a later user key, or visible at \<open>q\<close>.\<close>

lemma not_before_lookup:
  assumes "add_ok uvalid (s, t, k, v)" "uvalid u" "q \<le> kMaxSequenceNumber"
  shows "InternalKeyComparator_Compare ucmp (InternalKey k s t) (InternalKey u q kValueTypeForSeek) < 0 \<longleftrightarrow>
    Compare ucmp k u < 0 \<or> k = u \<and> q < s"
proof -
  have "internal_valid uvalid (InternalKey k s t)" "internal_valid uvalid (InternalKey u q kValueTypeForSeek)"
    using assms by (auto simp: internal_valid_def)
  from internal_less_iff [OF this] show ?thesis
    using assms by (cases t) (auto simp: Pack_less_iff kValueTypeForSeek_def)
qed

lemma MemTable_Get_entry:
  assumes "SLIter_Seek (KeyComparator ucmp) (mt_table m) (LookupKey_memtable_key (mkLookupKey u q)) = Some (Some n)"
    and "sl_key (mt_table m) n = add_entry (s, t, k, v)" "add_ok uvalid (s, t, k, v)" "uvalid u"
  shows "MemTable_Get ucmp (mkLookupKey u q) m v0 st0 =
    Some (if k = u then (True, if t = kTypeValue then v else v0, if t = kTypeValue then st0 else NotFound [] [])
          else (False, v0, st0))"
proof -
  have l: "length k + 8 < 2 ^ 32" "length v < 2 ^ 32" "uvalid k" using assms(3) by auto
  note dec = mem_entry_decode [OF l(1,2)]
  have u: "LookupKey_user_key (mkLookupKey u q) = u"
    by (simp add: LookupKey_user_key_def mkLookupKey_def Let_def)
  have i: "InternalKey k s t = k @ EncodeFixed64 (PackSequenceAndType s t)"
    by (simp add: InternalKey_def AppendInternalKey_def PutFixed64_def)
  have tag: "DecodeFixed64 (drop (length (InternalKey k s t) - 8) (slice_start (mem_entry s t k v))) = PackSequenceAndType s t"
    and uk: "take (length (InternalKey k s t) - 8) (slice_start (mem_entry s t k v)) = k"
    unfolding dec(2) by (simp_all add: i)
  show ?thesis
    unfolding MemTable_Get_def assms(1) option.case assms(2) add_entry.simps Let_def dec(1) tag uk u dec(3)
      PackSequenceAndType_low ValueType_of_val
    using compare_eq [OF l(3) assms(4)] by (cases t) auto
qed

lemma Seek_first:
  assumes "holds m adds ns" "length u + 8 < 2 ^ 32" "uvalid u"
  shows "SLIter_Seek (KeyComparator ucmp) (mt_table m) (LookupKey_memtable_key (mkLookupKey u q)) =
    Some (first_of (filter (\<lambda>n. \<not> mt.before (mt_table m) (LookupKey_memtable_key (mkLookupKey u q)) n) ns))"
  using assms(1) mt.SLIter_Seek_spec lookup_pointer(2) [OF assms(2,3)] by (auto simp: holds_def)

lemma node_add:
  assumes "holds m adds ns" "n \<in> set ns" "length u + 8 < 2 ^ 32" "uvalid u"
  shows "\<exists>a \<in> set adds. sl_key (mt_table m) n = add_entry a \<and> add_ok uvalid a \<and>
    (mt.before (mt_table m) (LookupKey_memtable_key (mkLookupKey u q)) n \<longleftrightarrow>
      InternalKeyComparator_Compare ucmp (add_ikey a) (InternalKey u q kValueTypeForSeek) < 0)"
proof -
  have "sl_key (mt_table m) n \<in> add_entry ` set adds"
    using assms(1,2) unfolding holds_def by blast
  then obtain a where a: "a \<in> set adds" "sl_key (mt_table m) n = add_entry a" by blast
  then have ok: "add_ok uvalid a" using assms(1) by (simp add: holds_def)
  have "KeyComparator ucmp (add_entry a) (LookupKey_memtable_key (mkLookupKey u q)) =
      InternalKeyComparator_Compare ucmp (add_ikey a) (InternalKey u q kValueTypeForSeek)"
    by (simp add: KeyComparator_def add_entry_decode [OF ok] lookup_pointer [OF assms(3,4)])
  with a ok show ?thesis by (intro bexI [of _ a]) simp_all
qed

lemma MemTable_Get_absent:
  assumes "holds m adds ns" "length u + 8 < 2 ^ 32" "uvalid u" "q \<le> kMaxSequenceNumber"
    and "\<forall>(s, t, k, v) \<in> set adds. k = u \<longrightarrow> q < s"
  shows "MemTable_Get ucmp (mkLookupKey u q) m v0 st0 = Some (False, v0, st0)"
proof (cases "filter (\<lambda>n. \<not> mt.before (mt_table m) (LookupKey_memtable_key (mkLookupKey u q)) n) ns")
  case Nil
  then show ?thesis using Seek_first [OF assms(1-3), of q] by (simp add: MemTable_Get_def)
next
  case (Cons n rest)
  then have n: "n \<in> set ns" "\<not> mt.before (mt_table m) (LookupKey_memtable_key (mkLookupKey u q)) n"
    by (auto simp: filter_eq_Cons_iff)
  from node_add [OF assms(1) n(1) assms(2,3)] n(2) obtain s t k v where
    a: "(s, t, k, v) \<in> set adds" "sl_key (mt_table m) n = add_entry (s, t, k, v)" "add_ok uvalid (s, t, k, v)"
      "\<not> InternalKeyComparator_Compare ucmp (InternalKey k s t) (InternalKey u q kValueTypeForSeek) < 0"
    by fastforce
  have "k \<noteq> u" using not_before_lookup [OF a(3) assms(3,4)] a(1,4) assms(5) by auto
  with MemTable_Get_entry [OF _ a(2,3) assms(3)] Seek_first [OF assms(1-3)] Cons show ?thesis by simp
qed

lemma MemTable_Get_newest:
  assumes "holds m adds ns" "length u + 8 < 2 ^ 32" "uvalid u" "q \<le> kMaxSequenceNumber"
    and dist: "distinct (map (\<lambda>(s, t, k, v). (k, s)) adds)"
    and a: "(s, t, u, v) \<in> set adds" "s \<le> q"
    and newest: "\<forall>(s', t', k', v') \<in> set adds. k' = u \<and> s' \<le> q \<longrightarrow> s' \<le> s"
  shows "MemTable_Get ucmp (mkLookupKey u q) m v0 st0 =
    Some (True, if t = kTypeValue then v else v0, if t = kTypeValue then st0 else NotFound [] [])"
proof -
  let ?T = "mt_table m" and ?lk = "LookupKey_memtable_key (mkLookupKey u q)"
  let ?rest = "filter (\<lambda>n. \<not> mt.before ?T ?lk n) ns"
  have aok: "add_ok uvalid (s, t, u, v)" using assms(1) a(1) by (auto simp: holds_def)
  have "add_entry (s, t, u, v) \<in> sl_key ?T ` set ns"
    using assms(1) a(1) unfolding holds_def by blast
  then obtain n where n: "n \<in> set ns" "sl_key ?T n = add_entry (s, t, u, v)" by (metis imageE)
  have "\<not> InternalKeyComparator_Compare ucmp (InternalKey u s t) (InternalKey u q kValueTypeForSeek) < 0"
    using not_before_lookup [OF aok assms(3,4)] a(2) compare_less_irrefl [OF assms(3)] by auto
  then have "\<not> mt.before ?T ?lk n"
    using lookup_pointer(1) [OF assms(2,3), of q] n(2) add_entry_decode(1) [OF aok] by (simp add: KeyComparator_def)
  with n(1) have "n \<in> set ?rest" by simp
  then obtain f L where f: "?rest = f # L" by (cases ?rest) auto
  then have fn: "f \<in> set ns" "\<not> mt.before ?T ?lk f" by (auto simp: filter_eq_Cons_iff)
  have "f = n"
  proof (rule ccontr)
    assume "f \<noteq> n"
    then have "n \<in> set L" using \<open>n \<in> set ?rest\<close> f by auto
    moreover have "sorted_wrt (\<lambda>m n. KeyComparator ucmp (sl_key ?T m) (sl_key ?T n) < 0) (f # L)"
      unfolding f [symmetric] using assms(1) by (auto simp: holds_def sl_inv_def sorted_wrt_filter)
    ultimately have less: "KeyComparator ucmp (sl_key ?T f) (sl_key ?T n) < 0" by simp
    from node_add [OF assms(1) fn(1) assms(2,3)] fn(2) obtain s' t' k' v' where
      b: "(s', t', k', v') \<in> set adds" "sl_key ?T f = add_entry (s', t', k', v')" "add_ok uvalid (s', t', k', v')"
        "\<not> InternalKeyComparator_Compare ucmp (InternalKey k' s' t') (InternalKey u q kValueTypeForSeek) < 0"
      by fastforce
    have "InternalKeyComparator_Compare ucmp (InternalKey k' s' t') (InternalKey u s t) < 0"
      using less KeyComparator_entries [OF b(3) aok] unfolding b(2) n(2) by simp
    then have "Compare ucmp k' u < 0 \<or> k' = u \<and> PackSequenceAndType s t < PackSequenceAndType s' t'"
      using internal_less_iff [of "InternalKey k' s' t'" "InternalKey u s t"] aok b(3) by (auto simp: internal_valid_def)
    with b(4) not_before_lookup [OF b(3) assms(3,4)] have
      c: "k' = u" "s' \<le> q" "PackSequenceAndType s t < PackSequenceAndType s' t'" by auto
    with newest b(1) have "s' \<le> s" by auto
    with c(3) have "s' = s" "t' \<noteq> t" using Pack_less_iff [of s s' t t'] aok b(3) by auto
    with c(1) a(1) b(1) dist show False
      by (auto simp: distinct_map inj_on_def)
  qed
  with f Seek_first [OF assms(1-3), of q] have
    "SLIter_Seek (KeyComparator ucmp) ?T ?lk = Some (Some n)" by simp
  from MemTable_Get_entry [OF this n(2) aok assms(3)] show ?thesis by simp
qed

end

section \<open>Iteration\<close>

definition node_entry :: "MemTable \<Rightarrow> nat \<Rightarrow> entry" where
  "node_entry m n = (let p = sl_key (mt_table m) n; k = GetLengthPrefixedSlice_at p
     in (k, GetLengthPrefixedSlice_at (drop (length k) (slice_start p))))"

definition node_pos :: "nat list \<Rightarrow> nat option \<Rightarrow> nat" where
  "node_pos ns node = (case node of None \<Rightarrow> length ns | Some n \<Rightarrow> length (takeWhile (\<lambda>x. x \<noteq> n) ns))"

definition node_inv :: "nat list \<Rightarrow> nat option \<Rightarrow> bool" where
  "node_inv ns node \<longleftrightarrow> (case node of None \<Rightarrow> True | Some n \<Rightarrow> n \<in> set ns)"

lemma node_pos_nth: "distinct ns \<Longrightarrow> i < length ns \<Longrightarrow> node_pos ns (Some (ns ! i)) = i"
proof -
  assume d: "distinct ns" and i: "i < length ns"
  have "takeWhile (\<lambda>x. x \<noteq> ns ! i) ns = take i ns"
    using d i by (intro takeWhile_eq_take_P_nth) (auto simp: nth_eq_iff_index_eq)
  with i show ?thesis by (simp add: node_pos_def)
qed

lemma node_inv_cases:
  assumes "distinct ns" "node_inv ns node"
  shows "node = None \<and> node_pos ns node = length ns \<or>
    (\<exists>i < length ns. node = Some (ns ! i) \<and> node_pos ns node = i)"
  using assms node_pos_nth [OF assms(1)]
  by (cases node) (auto simp: node_inv_def node_pos_def in_set_conv_nth)

lemma node_first_of:
  assumes "distinct ns" "ns = pre @ post"
  shows "node_inv ns (first_of post)" "node_pos ns (first_of post) = length pre"
proof -
  have "node_inv ns (first_of post) \<and> node_pos ns (first_of post) = length pre"
  proof (cases post)
  case (Cons y post')
  then have y: "length pre < length ns" "y = ns ! length pre" using assms(2) by simp_all
  with Cons node_pos_nth [OF assms(1) y(1)] show ?thesis by (simp add: node_inv_def)
  qed (use assms(2) in \<open>simp add: node_inv_def node_pos_def\<close>)
  then show "node_inv ns (first_of post)" "node_pos ns (first_of post) = length pre" by auto
qed

text \<open>The keys a memtable iterator can be asked to seek to.\<close>

definition iter_ok :: "(bytes \<Rightarrow> bool) \<Rightarrow> bytes \<Rightarrow> bool" where
  "iter_ok uvalid t \<longleftrightarrow> internal_valid uvalid t \<and> length t < 2 ^ 32"

lemma EncodeKey_pointer:
  assumes "iter_ok uvalid t"
  shows "GetLengthPrefixedSlice_at (EncodeKey t) = t" "mt_valid uvalid (EncodeKey t)"
proof -
  have e: "EncodeKey t = EncodeVarint32 (word_of_nat (length t)) @ t @ []"
    by (simp add: EncodeKey_def PutVarint32_def)
  show "GetLengthPrefixedSlice_at (EncodeKey t) = t"
    unfolding e using assms by (intro prefixed_decode(1)) (simp add: iter_ok_def)
  show "mt_valid uvalid (EncodeKey t)"
    unfolding mt_valid_def e using assms unfolding iter_ok_def by blast
qed

context memtable_order
begin

lemma memtable_iterator:
  assumes "holds m adds ns"
  shows "list_iterator (MemTableIterator ucmp m) (InternalKeyComparator_Compare ucmp) (iter_ok uvalid)
    (node_inv ns) (map (node_entry m) ns) (node_pos ns)"
proof -
  from assms obtain ht where ht: "mt.inv (mt_table m) ns ht" by (auto simp: holds_def)
  have d: "distinct ns" using ht by (simp add: sl_inv_def)
  have fst: "node_inv ns (SLIter_SeekToFirst (mt_table m)) \<and> node_pos ns (SLIter_SeekToFirst (mt_table m)) = 0"
    using node_first_of [OF d, of "[]" ns] mt.SLIter_SeekToFirst_spec [OF ht] by simp
  have lst: "\<exists>n. SLIter_SeekToLast (mt_table m) = Some n \<and> node_inv ns n \<and> node_pos ns n = length ns - 1"
  proof (cases "ns = []")
    case False
    then have "last ns = ns ! (length ns - 1)" "length ns - 1 < length ns" by (simp_all add: last_conv_nth)
    with mt.SLIter_SeekToLast_spec [OF ht] node_pos_nth [OF d] False show ?thesis
      by (simp add: node_inv_def)
  qed (use mt.SLIter_SeekToLast_spec [OF ht] in \<open>simp add: node_inv_def node_pos_def\<close>)
  have sk: "\<exists>n. SLIter_Seek (KeyComparator ucmp) (mt_table m) (EncodeKey t) = Some n \<and> node_inv ns n \<and>
      node_pos ns n = seek_pos (InternalKeyComparator_Compare ucmp) t (map (node_entry m) ns)" if "iter_ok uvalid t" for t
  proof -
    have "length (filter (mt.before (mt_table m) (EncodeKey t)) ns) =
        seek_pos (InternalKeyComparator_Compare ucmp) t (map (node_entry m) ns)"
      using EncodeKey_pointer(1) [OF that]
      by (simp add: seek_pos_def filter_map o_def node_entry_def Let_def KeyComparator_def)
    with node_first_of [OF d mt.inv_split [OF ht EncodeKey_pointer(2) [OF that]]]
      mt.SLIter_Seek_spec [OF ht EncodeKey_pointer(2) [OF that]]
    show ?thesis by simp
  qed
  have nx: "node_inv ns (SLIter_Next (mt_table m) node) \<and> node_pos ns (SLIter_Next (mt_table m) node) = Suc (node_pos ns node)"
    if "node_inv ns node" "node_pos ns node < length ns" for node
  proof -
    from node_inv_cases [OF d that(1)] that(2) obtain i where
      i: "i < length ns" "node = Some (ns ! i)" "node_pos ns node = i" by auto
    have "ns = take (Suc i) ns @ drop (Suc i) ns" by simp
    from node_first_of [OF d this] i show ?thesis by (simp add: mt.SLIter_Next_spec [OF ht])
  qed
  have pv: "\<exists>n. SLIter_Prev (KeyComparator ucmp) (mt_table m) node = Some n \<and> node_inv ns n \<and>
      node_pos ns n = prev_pos (map (node_entry m) ns) (node_pos ns node)"
    if "node_inv ns node" "node_pos ns node < length ns" for node
  proof -
    from node_inv_cases [OF d that(1)] that(2) obtain i where
      i: "i < length ns" "node = Some (ns ! i)" "node_pos ns node = i" by auto
    have "node_pos ns (Some (ns ! (i - 1))) = i - 1" using node_pos_nth [OF d, of "i - 1"] i(1) by simp
    with i show ?thesis
      by (simp add: mt.SLIter_Prev_spec [OF ht] prev_pos_def node_inv_def) (simp add: node_pos_def)
  qed
  have ent: "node_entry m (the node) = map (node_entry m) ns ! node_pos ns node \<and> node \<noteq> None"
    if "node_inv ns node" "node_pos ns node < length ns" for node
  proof -
    from node_inv_cases [OF d that(1)] that(2) obtain i where
      "i < length ns" "node = Some (ns ! i)" "node_pos ns node = i" by auto
    then show ?thesis by simp
  qed
  show ?thesis
  proof (unfold_locales, goal_cases)
    case (1 s) then show ?case using node_inv_cases [OF d] by fastforce
  next
    case (2 s) from node_inv_cases [OF d this] show ?case
      by (auto simp: MemTableIterator_def SLIter_Valid_def Let_def)
  next
    case (3 s) then show ?case using fst by (simp add: MemTableIterator_def Let_def)
  next
    case (4 s) then show ?case using lst by (simp add: MemTableIterator_def last_pos_def Let_def)
  next
    case (5 s t) then show ?case using sk [of t] by (simp add: MemTableIterator_def Let_def)
  next
    case (6 s) then show ?case using nx [of s] by (simp add: MemTableIterator_def Let_def)
  next
    case (7 s) then show ?case using pv [of s] by (simp add: MemTableIterator_def Let_def)
  next
    case (8 s) then show ?case
      using ent [of s] by (auto simp: MemTableIterator_def Let_def SLIter_key_def node_entry_def)
  next
    case (9 s) then show ?case
      using ent [of s] by (auto simp: MemTableIterator_def Let_def SLIter_key_def node_entry_def)
  next
    case (10 s) show ?case by (simp add: MemTableIterator_def Let_def)
  qed
qed

text \<open>What a scan shows: the additions, in the order of their internal keys.\<close>

lemma node_entry_add:
  assumes "sl_key (mt_table m) n = add_entry a" "add_ok uvalid a"
  shows "node_entry m n = add_pair a"
proof -
  obtain s t k v where "a = (s, t, k, v)" by (cases a)
  with assms mem_entry_decode [of k v s t] show ?thesis by (simp add: node_entry_def Let_def)
qed

lemma holds_entries:
  assumes "holds m adds ns"
  shows "set (map (node_entry m) ns) = add_pair ` set adds"
    and "sorted_entries (InternalKeyComparator_Compare ucmp) (map (node_entry m) ns)"
proof -
  from assms obtain ht where ht: "mt.inv (mt_table m) ns ht" by (auto simp: holds_def)
  have keys: "sl_key (mt_table m) ` set ns = add_entry ` set adds" and ok: "\<forall>a \<in> set adds. add_ok uvalid a"
    using assms by (auto simp: holds_def)
  have n: "\<exists>a \<in> set adds. sl_key (mt_table m) n = add_entry a \<and>
      node_entry m n = add_pair a" if "n \<in> set ns" for n
  proof -
    have "sl_key (mt_table m) n \<in> add_entry ` set adds" using keys that by blast
    then obtain a where a: "a \<in> set adds" "sl_key (mt_table m) n = add_entry a" by blast
    moreover have "add_ok uvalid a" using ok a(1) by blast
    ultimately show ?thesis using node_entry_add by blast
  qed
  have a: "\<exists>n \<in> set ns. node_entry m n = add_pair a" if "a \<in> set adds" for a
  proof -
    have "add_entry a \<in> sl_key (mt_table m) ` set ns" using keys that by blast
    then obtain n where "n \<in> set ns" "sl_key (mt_table m) n = add_entry a" by auto
    moreover have "add_ok uvalid a" using ok that by blast
    ultimately show ?thesis using node_entry_add by blast
  qed
  show "set (map (node_entry m) ns) = add_pair ` set adds"
    using n a by (auto simp: image_iff) metis+
  have "fst (node_entry m n) = GetLengthPrefixedSlice_at (sl_key (mt_table m) n)" for n
    by (simp add: node_entry_def Let_def)
  then show "sorted_entries (InternalKeyComparator_Compare ucmp) (map (node_entry m) ns)"
    using ht by (simp add: sorted_entries_def sl_inv_def sorted_wrt_map KeyComparator_def)
qed

lemma holds_length:
  assumes "holds m adds ns"
  shows "length ns \<le> length adds"
proof -
  let ?es = "map (node_entry m) ns"
  note ents = holds_entries [OF assms]
  have irr: "\<not> InternalKeyComparator_Compare ucmp (fst e) (fst e) < 0" if "e \<in> set ?es" for e
  proof -
    from that ents(1) obtain a where a: "a \<in> set adds" "e = add_pair a" by blast
    then have "add_ok uvalid a" using assms by (simp add: holds_def)
    then have "internal_valid uvalid (fst e)" using add_entry_decode(3) a(2) by (cases a) auto
    from internal_eq_iff [OF this this] show ?thesis by simp
  qed
  have "distinct ?es"
    unfolding distinct_conv_nth
  proof (intro allI impI notI)
    fix i j assume ij: "i < length ?es" "j < length ?es" "i \<noteq> j" "?es ! i = ?es ! j"
    have less: "InternalKeyComparator_Compare ucmp (fst (?es ! x)) (fst (?es ! y)) < 0"
      if "x < y" "y < length ?es" for x y
      using ents(2) that by (simp only: sorted_entries_def sorted_wrt_iff_nth_less)
    from ij(3) consider "i < j" | "j < i" by linarith
    then show False
      using less [of i j] less [of j i] irr [of "?es ! i"] ij nth_mem [OF ij(1)] by cases simp_all
  qed
  then have "length ns = card (set ?es)" using distinct_card by fastforce
  also have "\<dots> \<le> card (set adds)" unfolding ents(1) by (rule card_image_le) simp
  also have "\<dots> \<le> length adds" by (rule card_length)
  finally show ?thesis .
qed

end

text \<open>
  C5. The memtable is a multi-version map. After any sequence of additions with distinct
  (key, sequence number) pairs, every insertion into the skip list returns, a lookup of a
  user key at a sequence number finds exactly the newest entry that is visible there (its
  value, or \<open>NotFound\<close> for a deletion, or nothing when no entry is visible), and a forward
  scan of the iterator shows every addition once, sorted by internal key. Each entry fills
  exactly the memory that was allocated for it.
\<close>

theorem memtable_correct:
  assumes "\<forall>a \<in> set adds. add_ok (\<lambda>_. True) a" "distinct (map (\<lambda>(s, t, k, v). (k, s)) adds)"
  shows "\<exists>m. MemTable_Adds BytewiseComparator adds MemTable_new = Some m \<and>
    (\<forall>u q v0 st0. length u + 8 < 2 ^ 32 \<and> q \<le> kMaxSequenceNumber \<longrightarrow>
       ((\<forall>(s, t, k, v) \<in> set adds. k = u \<longrightarrow> q < s) \<longrightarrow>
          MemTable_Get BytewiseComparator (mkLookupKey u q) m v0 st0 = Some (False, v0, st0)) \<and>
       (\<forall>s t v. (s, t, u, v) \<in> set adds \<and> s \<le> q \<and>
          (\<forall>(s', t', k', v') \<in> set adds. k' = u \<and> s' \<le> q \<longrightarrow> s' \<le> s) \<longrightarrow>
          MemTable_Get BytewiseComparator (mkLookupKey u q) m v0 st0 =
            Some (True, if t = kTypeValue then v else v0, if t = kTypeValue then st0 else NotFound [] []))) \<and>
    (\<exists>es. it_forward (MemTableIterator BytewiseComparator m) (length adds) MemTable_NewIterator = Some es \<and>
       set es = add_pair ` set adds \<and>
       sorted_entries (InternalKeyComparator_Compare BytewiseComparator) es) \<and>
    (\<forall>(s, t, k, v) \<in> set adds. length (mem_entry s t k v) = encoded_len k v)"
proof -
  have el: "\<forall>(s, t, k, v) \<in> set adds. length (mem_entry s t k v) = encoded_len k v"
  proof (intro ballI, clarify)
    fix s t k v assume "(s, t, k, v) \<in> set adds"
    with assms(1) have "add_ok (\<lambda>_. True) (s, t, k, v)" by (rule bspec)
    then show "length (mem_entry s t k v) = encoded_len k v" by (intro encoded_len_exact) simp_all
  qed
  have ik: "distinct (map add_ikey adds)"
  proof -
    have "add_ikey a \<noteq> add_ikey b" if "a \<in> set adds" "b \<in> set adds"
      "(\<lambda>(s, t, k, v). (k, s)) a \<noteq> (\<lambda>(s, t, k, v). (k, s)) b" for a b :: add
    proof
      assume e: "add_ikey a = add_ikey b"
      obtain s t k v s' t' k' v' where ab: "a = (s, t, k, v)" "b = (s', t', k', v')" by (cases a; cases b)
      have "ParseInternalKey (add_ikey a) = Some \<lparr> pk_user_key = k, pk_sequence = s, pk_type = t \<rparr>"
        "ParseInternalKey (add_ikey b) = Some \<lparr> pk_user_key = k', pk_sequence = s', pk_type = t' \<rparr>"
        using assms(1) that(1,2) ab by (auto simp: ParseInternalKey_InternalKey)
      with e that(3) ab show False by auto
    qed
    then show ?thesis using assms(2) unfolding distinct_map inj_on_def by metis
  qed
  from bytewise_mt.holds_Adds [OF bytewise_mt.holds_new assms(1)] ik obtain m ns where
    m: "MemTable_Adds BytewiseComparator adds MemTable_new = Some m" "bytewise_mt.holds m (rev adds) ns"
    by auto
  have dist: "distinct (map (\<lambda>(s, t, k, v). (k, s)) (rev adds))"
    using assms(2) by (simp flip: rev_map)
  note iter = bytewise_mt.memtable_iterator [OF m(2)] and ents = bytewise_mt.holds_entries [OF m(2)]
  have "length ns \<le> length adds" using bytewise_mt.holds_length [OF m(2)] by simp
  then have "it_forward (MemTableIterator BytewiseComparator m) (length adds) MemTable_NewIterator =
      Some (map (node_entry m) ns)"
    by (intro list_iterator.forward_scan [OF iter]) (simp_all add: node_inv_def MemTable_NewIterator_def)
  with ents have fwd: "\<exists>es. it_forward (MemTableIterator BytewiseComparator m) (length adds) MemTable_NewIterator = Some es \<and>
      set es = add_pair ` set adds \<and> sorted_entries (InternalKeyComparator_Compare BytewiseComparator) es"
    by auto
  show ?thesis
  proof (intro exI [of _ m] conjI allI impI m(1) el fwd)
  qed (use bytewise_mt.MemTable_Get_absent [OF m(2)] bytewise_mt.MemTable_Get_newest [OF m(2) _ _ _ dist] in auto)
qed

theorem memtable_correct_witness:
  "\<exists>m. MemTable_Adds BytewiseComparator
       [(1, kTypeValue, cstr ''a'', cstr ''x''), (2, kTypeDeletion, cstr ''a'', [])] MemTable_new = Some m \<and>
     MemTable_Get BytewiseComparator (mkLookupKey (cstr ''a'') 1) m [] OK = Some (True, cstr ''x'', OK) \<and>
     MemTable_Get BytewiseComparator (mkLookupKey (cstr ''a'') 5) m [] OK = Some (True, [], NotFound [] []) \<and>
     MemTable_Get BytewiseComparator (mkLookupKey (cstr ''b'') 5) m [] OK = Some (False, [], OK)"
proof -
  let ?adds = "[(1 :: u64, kTypeValue, cstr ''a'', cstr ''x''), (2, kTypeDeletion, cstr ''a'', [])]"
  have "\<forall>a \<in> set ?adds. add_ok (\<lambda>_. True) a" "distinct (map (\<lambda>(s, t, k, v). (k, s)) ?adds)"
    by (simp_all add: kMaxSequenceNumber_def)
  from memtable_correct [OF this] obtain m where
    m: "MemTable_Adds BytewiseComparator ?adds MemTable_new = Some m"
      and g: "\<forall>u q v0 st0. length u + 8 < 2 ^ 32 \<and> q \<le> kMaxSequenceNumber \<longrightarrow>
       ((\<forall>(s, t, k, v) \<in> set ?adds. k = u \<longrightarrow> q < s) \<longrightarrow>
          MemTable_Get BytewiseComparator (mkLookupKey u q) m v0 st0 = Some (False, v0, st0)) \<and>
       (\<forall>s t v. (s, t, u, v) \<in> set ?adds \<and> s \<le> q \<and>
          (\<forall>(s', t', k', v') \<in> set ?adds. k' = u \<and> s' \<le> q \<longrightarrow> s' \<le> s) \<longrightarrow>
          MemTable_Get BytewiseComparator (mkLookupKey u q) m v0 st0 =
            Some (True, if t = kTypeValue then v else v0, if t = kTypeValue then st0 else NotFound [] []))"
    by (elim exE conjE) (rule that; assumption)
  have "MemTable_Get BytewiseComparator (mkLookupKey (cstr ''a'') 1) m [] OK = Some (True, cstr ''x'', OK)"
    using g [rule_format, of "cstr ''a''" 1 "[]" OK, THEN conjunct2, THEN spec, THEN spec, THEN spec, of 1 kTypeValue "cstr ''x''"]
    by (simp add: kMaxSequenceNumber_def)
  moreover have "MemTable_Get BytewiseComparator (mkLookupKey (cstr ''a'') 5) m [] OK = Some (True, [], NotFound [] [])"
    using g [rule_format, of "cstr ''a''" 5 "[]" OK, THEN conjunct2, THEN spec, THEN spec, THEN spec, of 2 kTypeDeletion "[]"]
    by (simp add: kMaxSequenceNumber_def)
  moreover have "MemTable_Get BytewiseComparator (mkLookupKey (cstr ''b'') 5) m [] OK = Some (False, [], OK)"
    using g [rule_format, of "cstr ''b''" 5 "[]" OK] by (auto simp: kMaxSequenceNumber_def)
  ultimately show ?thesis using m by blast
qed

end
