(* ===== verification/Write_Batch.thy ===== *)
theory Write_Batch
  imports Readers Memtable
begin

text \<open>
  \<open>db/write_batch.cc\<close>: a batch of updates is its representation \<open>rep_\<close>,
  \<open>sequence (8) | count (4) | records\<close>. The handler that \<open>Iterate\<close> calls is a record of its
  two virtual functions over the handler's state; a call that does not return is \<open>None\<close>. The
  \<open>int\<close> counters are words of 32 bits.
\<close>

section \<open>Operations\<close>

type_synonym WriteBatch = bytes

definition wb_kHeader :: nat where "wb_kHeader = 12"

definition WriteBatch_Clear :: WriteBatch where
  "WriteBatch_Clear = replicate wb_kHeader 0"

record 'h Handler =
  h_Put :: "bytes \<Rightarrow> bytes \<Rightarrow> 'h \<Rightarrow> 'h option"
  h_Delete :: "bytes \<Rightarrow> 'h \<Rightarrow> 'h option"

definition Count :: "WriteBatch \<Rightarrow> u32" where
  "Count rep = DecodeFixed32 (drop 8 rep)"

definition SetCount :: "WriteBatch \<Rightarrow> u32 \<Rightarrow> WriteBatch" where
  "SetCount rep n = take 8 rep @ EncodeFixed32 n @ drop 12 rep"

definition Sequence :: "WriteBatch \<Rightarrow> u64" where
  "Sequence rep = DecodeFixed64 rep"

definition SetSequence :: "WriteBatch \<Rightarrow> u64 \<Rightarrow> WriteBatch" where
  "SetSequence rep seq = EncodeFixed64 seq @ drop 8 rep"

definition WriteBatch_Put :: "bytes \<Rightarrow> bytes \<Rightarrow> WriteBatch \<Rightarrow> WriteBatch" where
  "WriteBatch_Put key val rep =
     (let rep = SetCount rep (Count rep + 1);
          rep = rep @ [ValueType_val kTypeValue];
          rep = PutLengthPrefixedSlice rep key
      in PutLengthPrefixedSlice rep val)"

definition WriteBatch_Delete :: "bytes \<Rightarrow> WriteBatch \<Rightarrow> WriteBatch" where
  "WriteBatch_Delete key rep =
     (let rep = SetCount rep (Count rep + 1);
          rep = rep @ [ValueType_val kTypeDeletion]
      in PutLengthPrefixedSlice rep key)"

text \<open>
  The loop of \<open>Iterate\<close>: an early return gives its status (\<open>Inl\<close>), otherwise the number of
  records found.
\<close>

function Iterate_loop :: "'h Handler \<Rightarrow> bytes \<Rightarrow> u32 \<Rightarrow> 'h \<Rightarrow> ('h \<times> (Status + u32)) option" where
  "Iterate_loop handler input found h =
     (if Slice_empty input then Some (h, Inr found)
      else
        let found = found + 1; tag = input ! 0; input = remove_prefix input 1 in
        if tag = ValueType_val kTypeValue then
          (case GetLengthPrefixedSlice input of
             None \<Rightarrow> Some (h, Inl (Corruption (cstr ''bad WriteBatch Put'') []))
           | Some (key, input') \<Rightarrow>
               (case GetLengthPrefixedSlice input' of
                  None \<Rightarrow> Some (h, Inl (Corruption (cstr ''bad WriteBatch Put'') []))
                | Some (val, input'') \<Rightarrow>
                    Option.bind (h_Put handler key val h) (Iterate_loop handler input'' found)))
        else if tag = ValueType_val kTypeDeletion then
          (case GetLengthPrefixedSlice input of
             None \<Rightarrow> Some (h, Inl (Corruption (cstr ''bad WriteBatch Delete'') []))
           | Some (key, input') \<Rightarrow>
               Option.bind (h_Delete handler key h) (Iterate_loop handler input' found))
        else Some (h, Inl (Corruption (cstr ''unknown WriteBatch tag'') [])))"
  by pat_completeness auto
termination
  by (relation "measure (\<lambda>(handler, input, found, h). length input)")
    (auto simp: Slice_empty_def remove_prefix_def dest!: prefixed.read_shorter)

declare Iterate_loop.simps [simp del]

definition Iterate :: "'h Handler \<Rightarrow> WriteBatch \<Rightarrow> 'h \<Rightarrow> ('h \<times> Status) option" where
  "Iterate handler rep h =
     (if length rep < wb_kHeader then Some (h, Corruption (cstr ''malformed WriteBatch (too small)'') [])
      else map_option (\<lambda>(h', r).
             (h', case r of
                    Inl st \<Rightarrow> st
                  | Inr found \<Rightarrow>
                      if found \<noteq> Count rep then Corruption (cstr ''WriteBatch has wrong count'') [] else OK))
             (Iterate_loop handler (remove_prefix rep wb_kHeader) 0 h))"

text \<open>The class \<open>MemTableInserter\<close>: its state is \<open>sequence_\<close> and the memtable.\<close>

definition MemTableInserter :: "Comparator \<Rightarrow> (u64 \<times> MemTable) Handler" where
  "MemTableInserter cmp =
     \<lparr> h_Put = (\<lambda>key val (sequence, mem).
          map_option (\<lambda>m. (sequence + 1, m)) (MemTable_Add cmp sequence kTypeValue key val mem)),
       h_Delete = (\<lambda>key (sequence, mem).
          map_option (\<lambda>m. (sequence + 1, m)) (MemTable_Add cmp sequence kTypeDeletion key [] mem)) \<rparr>"

definition InsertInto :: "Comparator \<Rightarrow> WriteBatch \<Rightarrow> MemTable \<Rightarrow> (MemTable \<times> Status) option" where
  "InsertInto cmp rep mem =
     map_option (\<lambda>((sequence, m), st). (m, st)) (Iterate (MemTableInserter cmp) rep (Sequence rep, mem))"

definition SetContents :: "bytes \<Rightarrow> WriteBatch" where
  "SetContents contents = contents"

definition WriteBatch_Append :: "WriteBatch \<Rightarrow> WriteBatch \<Rightarrow> WriteBatch" where
  "WriteBatch_Append dst src = SetCount dst (Count dst + Count src) @ drop wb_kHeader src"

definition WriteBatch_Contents :: "WriteBatch \<Rightarrow> bytes" where
  "WriteBatch_Contents rep = rep"

definition ByteSize :: "WriteBatch \<Rightarrow> nat" where
  "ByteSize rep = length rep"

section \<open>The updates of a batch\<close>

datatype update = Put bytes bytes | Delete bytes

primrec apply_update :: "update \<Rightarrow> WriteBatch \<Rightarrow> WriteBatch" where
  "apply_update (Put k v) = WriteBatch_Put k v"
| "apply_update (Delete k) = WriteBatch_Delete k"

definition batch_of :: "u64 \<Rightarrow> update list \<Rightarrow> WriteBatch" where
  "batch_of seq us = SetSequence (fold apply_update us WriteBatch_Clear) seq"

primrec update_ok :: "update \<Rightarrow> bool" where
  "update_ok (Put k v) \<longleftrightarrow> length k + 8 < 2 ^ 32 \<and> length v < 2 ^ 32"
| "update_ok (Delete k) \<longleftrightarrow> length k + 8 < 2 ^ 32"

primrec update_add :: "u64 \<Rightarrow> update \<Rightarrow> add" where
  "update_add s (Put k v) = (s, kTypeValue, k, v)"
| "update_add s (Delete k) = (s, kTypeDeletion, k, [])"

text \<open>The updates numbered with consecutive sequence numbers.\<close>

fun number_from :: "u64 \<Rightarrow> update list \<Rightarrow> add list" where
  "number_from s [] = []"
| "number_from s (u # us) = update_add s u # number_from (s + 1) us"

primrec update_record :: "update \<Rightarrow> bytes" where
  "update_record (Put k v) = 1 # PutLengthPrefixedSlice [] k @ PutLengthPrefixedSlice [] v"
| "update_record (Delete k) = 0 # PutLengthPrefixedSlice [] k"

lemma PutLengthPrefixedSlice_append: "PutLengthPrefixedSlice dst v = dst @ PutLengthPrefixedSlice [] v"
  by (simp add: PutLengthPrefixedSlice_def PutVarint32_def)

lemma PutLengthPrefixedSlice_not_Nil [simp]: "PutLengthPrefixedSlice [] v \<noteq> []"
  by (simp add: PutLengthPrefixedSlice_def PutVarint32_def EncodeVarint32_eq)

text \<open>The layout of a batch, which every operation keeps.\<close>

definition wb_layout :: "u64 \<Rightarrow> update list \<Rightarrow> bytes" where
  "wb_layout seq us =
     EncodeFixed64 seq @ EncodeFixed32 (word_of_nat (length us)) @ concat (map update_record us)"

lemma wb_layout_fields [simp]:
  "Count (wb_layout seq us) = word_of_nat (length us)"
  "Sequence (wb_layout seq us) = seq"
  "drop wb_kHeader (wb_layout seq us) = concat (map update_record us)"
  by (simp_all add: wb_layout_def Count_def Sequence_def wb_kHeader_def)

lemma wb_layout_new: "WriteBatch_Clear = wb_layout 0 []"
  unfolding WriteBatch_Clear_def wb_layout_def wb_kHeader_def by code_simp

lemma wb_layout_apply: "apply_update u (wb_layout seq us) = wb_layout seq (us @ [u])"
proof (cases u)
  case (Put k v)
  show ?thesis
    by (simp add: Put WriteBatch_Put_def SetCount_def PutLengthPrefixedSlice_append [of "_ @ _"]
        PutLengthPrefixedSlice_append [of "_ # _"] Let_def)
      (simp add: wb_layout_def add.commute)
next
  case (Delete k)
  show ?thesis
    by (simp add: Delete WriteBatch_Delete_def SetCount_def PutLengthPrefixedSlice_append [of "_ @ _"] Let_def)
      (simp add: wb_layout_def add.commute)
qed

lemma wb_layout_fold: "fold apply_update vs (wb_layout seq us) = wb_layout seq (us @ vs)"
  by (induction vs arbitrary: us) (simp_all add: wb_layout_apply)

lemma batch_of_layout: "batch_of seq us = wb_layout seq us"
  by (simp add: batch_of_def wb_layout_new wb_layout_fold)
    (simp add: wb_layout_def SetSequence_def)

lemma wb_layout_Append:
  "WriteBatch_Append (wb_layout s us) (wb_layout t vs) = wb_layout s (us @ vs)"
  by (simp add: WriteBatch_Append_def SetCount_def) (simp add: wb_layout_def)

section \<open>Iteration\<close>

primrec handle :: "'h Handler \<Rightarrow> update \<Rightarrow> 'h \<Rightarrow> 'h option" where
  "handle hn (Put k v) = h_Put hn k v"
| "handle hn (Delete k) = h_Delete hn k"

fun handle_all :: "'h Handler \<Rightarrow> update list \<Rightarrow> 'h \<Rightarrow> 'h option" where
  "handle_all hn [] h = Some h"
| "handle_all hn (u # us) h = Option.bind (handle hn u h) (handle_all hn us)"

lemma Iterate_loop_Nil: "Iterate_loop hn [] found h = Some (h, Inr found)"
  by (simp add: Iterate_loop.simps Slice_empty_def)

lemma Iterate_loop_record:
  assumes "update_ok u"
  shows "Iterate_loop hn (update_record u @ rest) found h =
     Option.bind (handle hn u h) (Iterate_loop hn rest (found + 1))"
  using assms
  by (cases u) (simp_all add: Iterate_loop.simps [of hn "_ # _"] Slice_empty_def remove_prefix_def
      GetLengthPrefixedSlice_Put)

lemma Iterate_loop_records:
  assumes "\<forall>u \<in> set us. update_ok u"
  shows "Iterate_loop hn (concat (map update_record us) @ rest) found h =
     Option.bind (handle_all hn us h) (Iterate_loop hn rest (found + word_of_nat (length us)))"
  using assms
proof (induction us arbitrary: found h)
  case (Cons u us)
  then show ?case
    by (cases "handle hn u h") (simp_all add: Iterate_loop_record add.assoc)
qed simp

text \<open>A record that is cut off is noticed before the handler sees it.\<close>

primrec bad_record :: "update \<Rightarrow> Status" where
  "bad_record (Put k v) = Corruption (cstr ''bad WriteBatch Put'') []"
| "bad_record (Delete k) = Corruption (cstr ''bad WriteBatch Delete'') []"

lemma Iterate_loop_truncated:
  assumes "update_ok u" "0 < n" "n < length (update_record u)"
  shows "Iterate_loop hn (take n (update_record u)) found h = Some (h, Inl (bad_record u))"
proof -
  obtain n' where n: "n = Suc n'" using assms(2) by (cases n) auto
  note cut = prefixed.read_truncated [OF GetLengthPrefixedSlice_Put]
  show ?thesis
  proof (cases u)
    case (Delete k)
    then have "GetLengthPrefixedSlice (take n' (PutLengthPrefixedSlice [] k)) = None"
      using assms n by (intro cut) auto
    then show ?thesis
      by (simp add: Delete n Iterate_loop.simps [of hn "_ # _"] Slice_empty_def remove_prefix_def)
  next
    case (Put k v)
    define ek ev where e: "ek = PutLengthPrefixedSlice [] k" "ev = PutLengthPrefixedSlice [] v"
    show ?thesis
    proof (cases "n' < length ek")
      case True
      then have "GetLengthPrefixedSlice (take n' ek) = None"
        using assms(1) Put e by (intro cut [of k, folded e]) auto
      with True show ?thesis
        by (simp add: Put n Iterate_loop.simps [of hn "_ # _"] Slice_empty_def remove_prefix_def flip: e)
    next
      case False
      then have "GetLengthPrefixedSlice (take (n' - length ek) ev) = None"
        using assms Put n e by (intro cut [of v, folded e]) auto
      moreover have "GetLengthPrefixedSlice (ek @ r) = Some (k, r)" for r
        using assms(1) Put e by (simp add: GetLengthPrefixedSlice_Put)
      ultimately show ?thesis using False
        by (simp add: Put n Iterate_loop.simps [of hn "_ # _"] Slice_empty_def remove_prefix_def flip: e)
    qed
  qed
qed

lemma Iterate_batch:
  assumes "\<forall>u \<in> set us. update_ok u"
  shows "Iterate hn (wb_layout s us) h = map_option (\<lambda>h'. (h', OK)) (handle_all hn us h)"
proof -
  have "\<not> length (wb_layout s us) < wb_kHeader" by (simp add: wb_layout_def wb_kHeader_def)
  then show ?thesis
    using Iterate_loop_records [OF assms, of hn "[]" 0 h]
    by (cases "handle_all hn us h") (simp_all add: Iterate_def remove_prefix_def Iterate_loop_Nil)
qed

text \<open>The complete records of a byte prefix of a list of records.\<close>

lemma complete_records:
  assumes "n < length (concat (map f us))"
  shows "\<exists>i < length us. length (concat (map f (take i us))) \<le> n \<and>
    n < length (concat (map f (take (Suc i) us)))"
  using assms
proof (induction us arbitrary: n)
  case (Cons u us)
  show ?case
  proof (cases "n < length (f u)")
    case False
    with Cons.prems have "n - length (f u) < length (concat (map f us))" by auto
    from Cons.IH [OF this] obtain i where
      "i < length us" "length (concat (map f (take i us))) \<le> n - length (f u)"
      "n - length (f u) < length (concat (map f (take (Suc i) us)))" by blast
    with False show ?thesis by (intro exI [of _ "Suc i"]) auto
  qed auto
qed simp

lemma IsCorruption_Corruption [simp]: "IsCorruption (Corruption msg msg2)"
  by (simp add: IsCorruption_def Corruption_def mkStatus_def Status_code_def Let_def nth_append store32_def)

lemma bad_record_corruption: "IsCorruption (bad_record u)"
  by (cases u) (simp_all del: cstr_Cons)

lemma inserter_all:
  "handle_all (MemTableInserter cmp) us (s, m) =
     map_option (\<lambda>m'. (s + word_of_nat (length us), m')) (MemTable_Adds cmp (number_from s us) m)"
proof (induction us arbitrary: s m)
  case (Cons u us)
  obtain t k v where a: "update_add s u = (s, t, k, v)"
      "handle (MemTableInserter cmp) u (s, m) = map_option (\<lambda>m'. (s + 1, m')) (MemTable_Add cmp s t k v m)"
    by (cases u) (simp_all add: MemTableInserter_def)
  then show ?case
    by (cases "MemTable_Add cmp s t k v m") (simp_all add: Cons.IH add.assoc)
qed simp

lemma InsertInto_batch:
  assumes "\<forall>u \<in> set us. update_ok u"
  shows "InsertInto cmp (batch_of s us) m =
    map_option (\<lambda>m'. (m', OK)) (MemTable_Adds cmp (number_from s us) m)"
  by (simp add: InsertInto_def batch_of_layout Iterate_batch [OF assms] inserter_all option.map_comp comp_def)

section \<open>Correctness\<close>

text \<open>
  C6. Inserting a batch into a memtable adds its updates in the order they were
  put into the batch, under consecutive sequence numbers from the batch's own, and reports
  success; the count is the number of updates, and appending one batch to another is the batch
  of both lists of updates under the sequence number of the first.
\<close>

theorem write_batch_insert:
  assumes "\<forall>u \<in> set us \<union> set vs. update_ok u"
  shows "InsertInto cmp (batch_of s us) m =
      map_option (\<lambda>m'. (m', OK)) (MemTable_Adds cmp (number_from s us) m) \<and>
    Count (batch_of s us) = word_of_nat (length us) \<and> Sequence (batch_of s us) = s \<and>
    WriteBatch_Append (batch_of s us) (batch_of t vs) = batch_of s (us @ vs) \<and>
    InsertInto cmp (WriteBatch_Append (batch_of s us) (batch_of t vs)) m =
      map_option (\<lambda>m'. (m', OK)) (MemTable_Adds cmp (number_from s (us @ vs)) m)"
proof -
  have "WriteBatch_Append (batch_of s us) (batch_of t vs) = batch_of s (us @ vs)"
    by (simp add: batch_of_layout wb_layout_Append)
  with assms show ?thesis
    by (simp add: InsertInto_batch) (simp add: batch_of_layout)
qed

theorem write_batch_insert_witness:
  "InsertInto BytewiseComparator (batch_of 7 [Put (cstr ''k'') (cstr ''v''), Delete (cstr ''k'')]) MemTable_new =
     map_option (\<lambda>m'. (m', OK)) (MemTable_Adds BytewiseComparator
       [(7, kTypeValue, cstr ''k'', cstr ''v''), (8, kTypeDeletion, cstr ''k'', [])] MemTable_new)"
  using write_batch_insert [of "[Put (cstr ''k'') (cstr ''v''), Delete (cstr ''k'')]" "[]"
      BytewiseComparator 7 MemTable_new 0] by simp

text \<open>
  C14. A batch that is cut off anywhere is reported as corrupt. The updates that are
  complete in the remaining bytes have been applied by then, under their numbers, and no
  others.
\<close>

theorem truncated_batch_rejected:
  assumes "\<forall>u \<in> set us. update_ok u" "length us < 2 ^ 32" "n < length (batch_of s us)"
  shows "\<exists>i st. i \<le> length us \<and> IsCorruption st \<and>
    length (concat (map update_record (take i us))) \<le> n - 12 \<and>
    (12 \<le> n \<longrightarrow> n - 12 < length (concat (map update_record (take (Suc i) us)))) \<and>
    InsertInto cmp (take n (batch_of s us)) m =
      map_option (\<lambda>m'. (m', st)) (MemTable_Adds cmp (number_from s (take i us)) m)"
proof (cases "n < 12")
  case True
  then show ?thesis
    by (intro exI [of _ 0] exI [of _ "Corruption (cstr ''malformed WriteBatch (too small)'') []"])
      (simp add: InsertInto_def Iterate_def wb_kHeader_def min_less_iff_disj del: cstr_Cons)
next
  case False
  define b where "b = take n (batch_of s us)"
  have fields: "Sequence b = s" "Count b = word_of_nat (length us)" "\<not> length b < wb_kHeader"
    "remove_prefix b wb_kHeader = take (n - 12) (concat (map update_record us))"
    using False assms(3)
    by (simp_all add: b_def batch_of_layout wb_layout_def Sequence_def Count_def wb_kHeader_def remove_prefix_def
        drop_take)
  have "n - 12 < length (concat (map update_record us))"
    using assms(3) False by (simp add: batch_of_layout wb_layout_def)
  from complete_records [OF this] obtain i where i: "i < length us"
      "length (concat (map update_record (take i us))) \<le> n - 12"
      "n - 12 < length (concat (map update_record (take (Suc i) us)))" by blast
  define r where "r = n - 12 - length (concat (map update_record (take i us)))"
  have us: "us = take i us @ us ! i # drop (Suc i) us" by (rule id_take_nth_drop [OF i(1)])
  have r: "r < length (update_record (us ! i))"
    using i by (simp add: r_def take_Suc_conv_app_nth)
  have body: "take (n - 12) (concat (map update_record us)) =
      concat (map update_record (take i us)) @ take r (update_record (us ! i))"
    using r i(2) by (subst us) (simp add: r_def)
  have ok: "\<forall>u \<in> set (take i us). update_ok u" "update_ok (us ! i)"
    using assms(1) i(1) by (auto dest: in_set_takeD)
  have "\<exists>st. IsCorruption st \<and> InsertInto cmp b m =
      map_option (\<lambda>m'. (m', st)) (MemTable_Adds cmp (number_from s (take i us)) m)"
  proof (cases "r = 0")
    case True
    have "(word_of_nat i :: u32) \<noteq> word_of_nat (length us)"
      using i(1) assms(2) by (subst word_of_nat_eq_small) simp_all
    then show ?thesis using True i(1) Iterate_loop_records [OF ok(1), of "MemTableInserter cmp" "[]" 0 "(s, m)"]
      by (intro exI [of _ "Corruption (cstr ''WriteBatch has wrong count'') []"])
        (cases "MemTable_Adds cmp (number_from s (take i us)) m";
          simp add: InsertInto_def Iterate_def fields body inserter_all Iterate_loop_Nil del: cstr_Cons)
  next
    case False
    then show ?thesis
      using Iterate_loop_truncated [OF ok(2) _ r, of "MemTableInserter cmp"]
        Iterate_loop_records [OF ok(1), of "MemTableInserter cmp" "take r (update_record (us ! i))" 0 "(s, m)"]
      by (intro exI [of _ "bad_record (us ! i)"] conjI bad_record_corruption)
        (cases "MemTable_Adds cmp (number_from s (take i us)) m";
          simp add: InsertInto_def Iterate_def fields body inserter_all)
  qed
  with i show ?thesis unfolding b_def by (meson less_imp_le)
qed

theorem truncated_batch_rejected_witness:
  "\<exists>i st. i \<le> Suc (Suc 0) \<and> IsCorruption st \<and>
     length (concat (map update_record (take i [Put (cstr ''k'') (cstr ''v''), Delete (cstr ''k'')]))) \<le> 5 \<and>
     5 < length (concat (map update_record (take (Suc i) [Put (cstr ''k'') (cstr ''v''), Delete (cstr ''k'')]))) \<and>
     InsertInto BytewiseComparator (take 17 (batch_of 7 [Put (cstr ''k'') (cstr ''v''), Delete (cstr ''k'')])) MemTable_new =
       map_option (\<lambda>m'. (m', st)) (MemTable_Adds BytewiseComparator
         (number_from 7 (take i [Put (cstr ''k'') (cstr ''v''), Delete (cstr ''k'')])) MemTable_new)"
proof -
  have "length (PutLengthPrefixedSlice [] (cstr ''k'')) = 2" "length (PutLengthPrefixedSlice [] (cstr ''v'')) = 2"
    by (simp_all add: PutLengthPrefixedSlice_def PutVarint32_def EncodeVarint32_def)
  then have "17 < length (batch_of 7 [Put (cstr ''k'') (cstr ''v''), Delete (cstr ''k'')])"
    by (simp add: batch_of_layout wb_layout_def)
  from truncated_batch_rejected [OF _ _ this, of BytewiseComparator MemTable_new] show ?thesis
    by (simp del: cstr_Cons)
qed

end
