(* ===== verification/Block.thy ===== *)
theory Block
  imports Iterator Readers
begin

text \<open>
  Data blocks: \<open>table/block_builder.cc\<close> and \<open>table/block.cc\<close>. Offsets and restart
  indices are words of 32 bits, as in the source. Operations of the block iterator return
  \<open>None\<close> when they read memory outside the block or do not return, which on the bytes of a
  damaged block has to be ruled out.
\<close>

section \<open>The builder\<close>

record BlockBuilder =
  bb_buffer :: bytes
  bb_restarts :: "u32 list"
  bb_counter :: nat
  bb_finished :: bool
  bb_last_key :: bytes

definition BlockBuilder_new :: BlockBuilder where
  "BlockBuilder_new = \<lparr> bb_buffer = [], bb_restarts = [0], bb_counter = 0, bb_finished = False, bb_last_key = [] \<rparr>"

definition BlockBuilder_Reset :: "BlockBuilder \<Rightarrow> BlockBuilder" where
  "BlockBuilder_Reset b =
     b\<lparr> bb_buffer := [], bb_restarts := [0], bb_counter := 0, bb_finished := False, bb_last_key := [] \<rparr>"

definition CurrentSizeEstimate :: "BlockBuilder \<Rightarrow> nat" where
  "CurrentSizeEstimate b = length (bb_buffer b) + length (bb_restarts b) * 4 + 4"

definition BlockBuilder_Finish :: "BlockBuilder \<Rightarrow> BlockBuilder \<times> bytes" where
  "BlockBuilder_Finish b =
     (let buffer = foldl PutFixed32 (bb_buffer b) (bb_restarts b);
          buffer = PutFixed32 buffer (word_of_nat (length (bb_restarts b)))
      in (b\<lparr> bb_buffer := buffer, bb_finished := True \<rparr>, buffer))"

function shared_loop :: "bytes \<Rightarrow> bytes \<Rightarrow> nat \<Rightarrow> nat" where
  "shared_loop last_key key shared =
     (if shared < min (length last_key) (length key) \<and> last_key ! shared = key ! shared
      then shared_loop last_key key (shared + 1) else shared)"
  by pat_completeness auto
termination
  by (relation "measure (\<lambda>(l, k, i). min (length l) (length k) - i)") auto

declare shared_loop.simps [simp del]

text \<open>\<open>Add\<close>, for the restart interval of the options.\<close>

definition BlockBuilder_Add :: "nat \<Rightarrow> bytes \<Rightarrow> bytes \<Rightarrow> BlockBuilder \<Rightarrow> BlockBuilder" where
  "BlockBuilder_Add block_restart_interval key val b =
     (let restart = \<not> bb_counter b < block_restart_interval;
          shared = (if restart then 0 else shared_loop (bb_last_key b) key 0);
          restarts = (if restart then bb_restarts b @ [word_of_nat (length (bb_buffer b))] else bb_restarts b);
          counter = (if restart then 0 else bb_counter b);
          non_shared = length key - shared;
          buffer = PutVarint32 (bb_buffer b) (word_of_nat shared);
          buffer = PutVarint32 buffer (word_of_nat non_shared);
          buffer = PutVarint32 buffer (word_of_nat (length val));
          buffer = buffer @ take non_shared (drop shared key);
          buffer = buffer @ val;
          last_key = take shared (bb_last_key b) @ take non_shared (drop shared key)
      in b\<lparr> bb_buffer := buffer, bb_restarts := restarts, bb_counter := counter + 1, bb_last_key := last_key \<rparr>)"

definition BlockBuilder_empty :: "BlockBuilder \<Rightarrow> bool" where
  "BlockBuilder_empty b = (bb_buffer b = [])"

section \<open>The block\<close>

record Block =
  blk_data :: bytes
  blk_size :: nat
  blk_restart_offset :: u32

definition NumRestarts :: "bytes \<Rightarrow> nat \<Rightarrow> u32" where
  "NumRestarts data sz = DecodeFixed32 (drop (sz - 4) data)"

definition Block_new :: "bytes \<Rightarrow> Block" where
  "Block_new contents =
     (let sz = length contents in
      if sz < 4 then \<lparr> blk_data = contents, blk_size = 0, blk_restart_offset = 0 \<rparr>
      else
        let max_restarts_allowed = (sz - 4) div 4 in
        if unat (NumRestarts contents sz) > max_restarts_allowed
        then \<lparr> blk_data = contents, blk_size = 0, blk_restart_offset = 0 \<rparr>
        else \<lparr> blk_data = contents, blk_size = sz,
               blk_restart_offset = word_of_nat (sz - unat (1 + NumRestarts contents sz) * 4) \<rparr>)"

text \<open>
  \<open>DecodeEntry\<close> on the bytes from \<open>p\<close> to \<open>limit\<close>: the three lengths and the bytes from the
  returned pointer on. The sum in the last test is a sum of 32-bit words.
\<close>

definition DecodeEntry :: "bytes \<Rightarrow> (u32 \<times> u32 \<times> u32 \<times> bytes) option" where
  "DecodeEntry p =
     (if length p < 3 then None
      else
        let shared = ucast (p ! 0); non_shared = ucast (p ! 1); value_length = ucast (p ! 2);
            header =
              (if (shared OR non_shared OR value_length) < 128
               then Some (shared, non_shared, value_length, drop 3 p)
               else
                 (case GetVarint32Ptr p of
                    None \<Rightarrow> None
                  | Some (shared, p) \<Rightarrow>
                      (case GetVarint32Ptr p of
                         None \<Rightarrow> None
                       | Some (non_shared, p) \<Rightarrow>
                           (case GetVarint32Ptr p of
                              None \<Rightarrow> None
                            | Some (value_length, p) \<Rightarrow> Some (shared, non_shared, value_length, p)))))
        in case header of
             None \<Rightarrow> None
           | Some (shared, non_shared, value_length, p) \<Rightarrow>
               if (word_of_nat (length p) :: u32) < non_shared + value_length then None
               else Some (shared, non_shared, value_length, p))"

section \<open>The block iterator\<close>

text \<open>
  The slice \<open>value_\<close> is an offset into the block and a length; before the first move it does
  not point into the block (\<open>None\<close>).
\<close>

record Block_Iter =
  bi_data :: bytes
  bi_restarts :: u32
  bi_num_restarts :: u32
  bi_current :: u32
  bi_restart_index :: u32
  bi_key :: bytes
  bi_value :: "(nat \<times> nat) option"
  bi_status :: Status

definition NextEntryOffset :: "Block_Iter \<Rightarrow> u32 option" where
  "NextEntryOffset s = map_option (\<lambda>(off, len). word_of_nat (off + len)) (bi_value s)"

definition GetRestartPoint :: "Block_Iter \<Rightarrow> u32 \<Rightarrow> u32" where
  "GetRestartPoint s index = DecodeFixed32 (drop (unat (bi_restarts s) + unat index * 4) (bi_data s))"

definition SeekToRestartPoint :: "u32 \<Rightarrow> Block_Iter \<Rightarrow> Block_Iter" where
  "SeekToRestartPoint index s =
     s\<lparr> bi_key := [], bi_restart_index := index, bi_value := Some (unat (GetRestartPoint s index), 0) \<rparr>"

definition Block_Iter_new :: "bytes \<Rightarrow> u32 \<Rightarrow> u32 \<Rightarrow> Block_Iter" where
  "Block_Iter_new data restarts num_restarts =
     \<lparr> bi_data = data, bi_restarts = restarts, bi_num_restarts = num_restarts, bi_current = restarts,
       bi_restart_index = num_restarts, bi_key = [], bi_value = None, bi_status = OK \<rparr>"

definition CorruptionError :: "Block_Iter \<Rightarrow> Block_Iter" where
  "CorruptionError s =
     s\<lparr> bi_current := bi_restarts s, bi_restart_index := bi_num_restarts s,
        bi_status := Corruption (cstr ''bad entry in block'') [], bi_key := [], bi_value := None \<rparr>"

partial_function (option) advance_restart :: "Block_Iter \<Rightarrow> u32 \<Rightarrow> u32 option" where
  "advance_restart s i =
     (if i + 1 < bi_num_restarts s \<and> GetRestartPoint s (i + 1) < bi_current s
      then advance_restart s (i + 1) else Some i)"

definition ParseNextKey :: "Block_Iter \<Rightarrow> (bool \<times> Block_Iter) option" where
  "ParseNextKey s =
     Option.bind (NextEntryOffset s) (\<lambda>current.
       let s = s\<lparr> bi_current := current \<rparr> in
       if current \<ge> bi_restarts s
       then Some (False, s\<lparr> bi_current := bi_restarts s, bi_restart_index := bi_num_restarts s \<rparr>)
       else
         (case DecodeEntry (drop (unat current) (take (unat (bi_restarts s)) (bi_data s))) of
            None \<Rightarrow> Some (False, CorruptionError s)
          | Some (shared, non_shared, value_length, p) \<Rightarrow>
              if length (bi_key s) < unat shared then Some (False, CorruptionError s)
              else
                let off = unat (bi_restarts s) - length p in
                Option.bind (read_mem (bi_data s) off (unat non_shared)) (\<lambda>delta.
                  let s = s\<lparr> bi_key := take (unat shared) (bi_key s) @ delta,
                             bi_value := Some (off + unat non_shared, unat value_length) \<rparr> in
                  map_option (\<lambda>i. (True, s\<lparr> bi_restart_index := i \<rparr>))
                    (advance_restart s (bi_restart_index s)))))"

text \<open>The loop \<open>do {} while (ParseNextKey() && NextEntryOffset() < limit)\<close>.\<close>

partial_function (option) parse_until :: "u32 \<Rightarrow> Block_Iter \<Rightarrow> Block_Iter option" where
  "parse_until limit s =
     Option.bind (ParseNextKey s) (\<lambda>(more_entries, s).
       if more_entries then
         Option.bind (NextEntryOffset s) (\<lambda>off. if off < limit then parse_until limit s else Some s)
       else Some s)"

function prev_restart :: "Block_Iter \<Rightarrow> u32 \<Rightarrow> u32 \<Rightarrow> u32 option" where
  "prev_restart s original index =
     (if GetRestartPoint s index \<ge> original then
        if index = 0 then None else prev_restart s original (index - 1)
      else Some index)"
  by pat_completeness auto
termination
  by (relation "measure (\<lambda>(s, original, index). unat index)") (auto simp: unat_minus_one unat_gt_0)

declare prev_restart.simps [simp del]

definition Block_Iter_Prev :: "Block_Iter \<Rightarrow> Block_Iter option" where
  "Block_Iter_Prev s =
     (let original = bi_current s in
      case prev_restart s original (bi_restart_index s) of
        None \<Rightarrow> Some (s\<lparr> bi_current := bi_restarts s, bi_restart_index := bi_num_restarts s \<rparr>)
      | Some index \<Rightarrow> parse_until original (SeekToRestartPoint index s))"

text \<open>The binary search of \<open>Seek\<close>: \<open>None\<close> inside stands for the corrupt restart point.\<close>

partial_function (option) seek_restart ::
  "Comparator \<Rightarrow> bytes \<Rightarrow> Block_Iter \<Rightarrow> u32 \<Rightarrow> u32 \<Rightarrow> u32 option option" where
  "seek_restart cmp target s left right =
     (if left < right then
        let mid = (left + right + 1) div 2;
            region_offset = GetRestartPoint s mid
        in
        (case DecodeEntry (drop (unat region_offset) (take (unat (bi_restarts s)) (bi_data s))) of
           None \<Rightarrow> Some None
         | Some (shared, non_shared, value_length, p) \<Rightarrow>
             if shared \<noteq> 0 then Some None
             else
               Option.bind (read_mem (bi_data s) (unat (bi_restarts s) - length p) (unat non_shared)) (\<lambda>mid_key.
                 if Compare cmp mid_key target < 0 then seek_restart cmp target s mid right
                 else seek_restart cmp target s left (mid - 1)))
      else Some (Some left))"

partial_function (option) seek_linear :: "Comparator \<Rightarrow> bytes \<Rightarrow> Block_Iter \<Rightarrow> Block_Iter option" where
  "seek_linear cmp target s =
     Option.bind (ParseNextKey s) (\<lambda>(parsed, s).
       if \<not> parsed then Some s
       else if Compare cmp (bi_key s) target \<ge> 0 then Some s
       else seek_linear cmp target s)"

definition Block_Iter_Seek :: "Comparator \<Rightarrow> bytes \<Rightarrow> Block_Iter \<Rightarrow> Block_Iter option" where
  "Block_Iter_Seek cmp target s =
     Option.bind (seek_restart cmp target s 0 (bi_num_restarts s - 1)) (\<lambda>r.
       case r of
         None \<Rightarrow> Some (CorruptionError s)
       | Some left \<Rightarrow> seek_linear cmp target (SeekToRestartPoint left s))"

definition Block_Iter_SeekToLast :: "Block_Iter \<Rightarrow> Block_Iter option" where
  "Block_Iter_SeekToLast s = parse_until (bi_restarts s) (SeekToRestartPoint (bi_num_restarts s - 1) s)"

definition Block_Iter_ops :: "Comparator \<Rightarrow> Block_Iter Iterator" where
  "Block_Iter_ops cmp =
     \<lparr> it_Valid = (\<lambda>s. bi_current s < bi_restarts s),
       it_SeekToFirst = (\<lambda>s. map_option snd (ParseNextKey (SeekToRestartPoint 0 s))),
       it_SeekToLast = Block_Iter_SeekToLast,
       it_Seek = Block_Iter_Seek cmp,
       it_Next = (\<lambda>s. map_option snd (ParseNextKey s)),
       it_Prev = Block_Iter_Prev,
       it_key = bi_key,
       it_value = (\<lambda>s. case bi_value s of None \<Rightarrow> [] | Some (off, len) \<Rightarrow> take len (drop off (bi_data s))),
       it_status = bi_status \<rparr>"

text \<open>
  \<open>NewIterator\<close> returns one of two classes of iterator: an empty one, with its status, or a
  block iterator.
\<close>

type_synonym block_iterator = "Status + Block_Iter"

definition Block_ops :: "Comparator \<Rightarrow> block_iterator Iterator" where
  "Block_ops cmp = sum_ops EmptyIterator (Block_Iter_ops cmp)"

definition Block_NewIterator :: "Block \<Rightarrow> block_iterator" where
  "Block_NewIterator b =
     (if blk_size b < 4 then Inl (NewErrorIterator (Corruption (cstr ''bad block contents'') []))
      else
        let num_restarts = NumRestarts (blk_data b) (blk_size b) in
        if num_restarts = 0 then Inl NewEmptyIterator
        else Inr (Block_Iter_new (blk_data b) (blk_restart_offset b) num_restarts))"

end
