(* ===== verification/Block_Correctness.thy ===== *)
theory Block_Correctness
  imports Block
begin

text \<open>
  Correctness of the blocks of theory \<open>Block\<close>: what the builder writes is a layout of
  prefix-compressed entries with restart points, and the block iterator over a layout is a
  position in the list of its entries.
\<close>

section \<open>Decoding an entry\<close>

definition entry_header :: "bytes \<Rightarrow> (u32 \<times> u32 \<times> u32 \<times> bytes) option" where
  "entry_header p =
     Option.bind (GetVarint32 p) (\<lambda>(s, p). Option.bind (GetVarint32 p) (\<lambda>(n, p).
       map_option (\<lambda>(v, p). (s, n, v, p)) (GetVarint32 p)))"

lemma GetVarint32Ptr_GetVarint32: "GetVarint32Ptr p = GetVarint32 p"
  by (simp add: GetVarint32_def split: option.split)

lemma GetVarint32_one_byte: "\<not> bit c 7 \<Longrightarrow> GetVarint32 (c # p) = Some (ucast c, p)"
proof -
  assume "\<not> bit c 7"
  then have "(ucast c :: u32) AND 128 = 0" by (simp add: AND_128_eq_0 bit_simps)
  then show ?thesis by (simp add: GetVarint32_eq)
qed

lemma or_less_128:
  fixes a b c :: byte
  assumes "(ucast a OR ucast b OR ucast c :: u32) < 128"
  shows "\<not> bit a 7" "\<not> bit b 7" "\<not> bit c 7"
proof -
  have "unat (ucast a OR ucast b OR ucast c :: u32) < 2 ^ 7" using assms by (simp add: word_less_nat_alt)
  then have "\<not> bit (unat (ucast a OR ucast b OR ucast c :: u32)) 7" by (simp add: bit_iff_odd)
  then have "\<not> bit (ucast a OR ucast b OR ucast c :: u32) 7" by (simp only: bit_unsigned_iff) simp
  then show "\<not> bit a 7" "\<not> bit b 7" "\<not> bit c 7" by (auto simp: bit_simps)
qed

text \<open>The fast path of \<open>DecodeEntry\<close> gives what the three varint reads give.\<close>

lemma DecodeEntry_eq:
  "DecodeEntry p =
     (if length p < 3 then None
      else Option.bind (entry_header p) (\<lambda>(s, n, v, q).
        if (word_of_nat (length q) :: u32) < n + v then None else Some (s, n, v, q)))"
proof (cases "length p < 3")
  case False
  then obtain a b c r where p: "p = a # b # c # r"
    by (auto simp: numeral_3_eq_3 not_less Suc_le_length_iff)
  show ?thesis
  proof (cases "(ucast a OR ucast b OR ucast c :: u32) < 128")
    case True
    then show ?thesis using or_less_128 [OF True]
      by (simp add: DecodeEntry_def p entry_header_def GetVarint32_one_byte)
  next
    case False
    then show ?thesis
      by (simp add: DecodeEntry_def p entry_header_def GetVarint32Ptr_GetVarint32 Let_def
          split: option.split prod.split bind_split)
  qed
qed (simp add: DecodeEntry_def)

section \<open>Layouts\<close>

text \<open>An entry: the number of key bytes shared with the entry before, the key and the value.\<close>

type_synonym bent = "nat \<times> bytes \<times> bytes"

fun enc_entry :: "bent \<Rightarrow> bytes" where
  "enc_entry (s, k, v) =
     EncodeVarint32 (word_of_nat s) @ EncodeVarint32 (word_of_nat (length k - s)) @
     EncodeVarint32 (word_of_nat (length v)) @ drop s k @ v"

fun bchain :: "bytes \<Rightarrow> bent list \<Rightarrow> bool" where
  "bchain prev [] \<longleftrightarrow> True"
| "bchain prev ((s, k, v) # bs) \<longleftrightarrow>
     s \<le> length k \<and> s \<le> length prev \<and> take s prev = take s k \<and> bchain k bs"

definition bdata :: "bent list \<Rightarrow> bytes" where
  "bdata bs = concat (map enc_entry bs)"

definition boff :: "bent list \<Rightarrow> nat \<Rightarrow> nat" where
  "boff bs i = length (bdata (take i bs))"

definition block_image :: "bent list \<Rightarrow> nat list \<Rightarrow> bytes" where
  "block_image bs R =
     bdata bs @ fixed_array (map (\<lambda>i. word_of_nat (boff bs i)) R @ [word_of_nat (length R)])"

definition restarts_ok :: "bent list \<Rightarrow> nat list \<Rightarrow> bool" where
  "restarts_ok bs R \<longleftrightarrow> R \<noteq> [] \<and> R ! 0 = 0 \<and> sorted_wrt (<) R \<and>
     (\<forall>i \<in> set R. if bs = [] then i = 0 else i < length bs \<and> fst (bs ! i) = 0)"

definition layout :: "bent list \<Rightarrow> nat list \<Rightarrow> bool" where
  "layout bs R \<longleftrightarrow> bchain [] bs \<and> restarts_ok bs R \<and> length (block_image bs R) < 2 ^ 32"

lemma enc_entry_length: "3 \<le> length (enc_entry b)"
proof -
  obtain s k v where b: "b = (s, k, v)" by (cases b)
  have "1 \<le> length (EncodeVarint32 w)" for w using length_EncodeVarint32 [of w] by simp
  note l = this [of "word_of_nat s"] this [of "word_of_nat (length k - s)"] this [of "word_of_nat (length v)"]
  show ?thesis unfolding b enc_entry.simps length_append using l by linarith
qed

lemma entry_header_enc:
  "s < 2 ^ 32 \<Longrightarrow> length k - s < 2 ^ 32 \<Longrightarrow> length v < 2 ^ 32 \<Longrightarrow>
   entry_header (enc_entry (s, k, v) @ rest) =
     Some (word_of_nat s, word_of_nat (length k - s), word_of_nat (length v), drop s k @ v @ rest)"
  by (simp add: entry_header_def)

lemma DecodeEntry_enc:
  assumes "s \<le> length k" "length (enc_entry (s, k, v) @ rest) < 2 ^ 32" "s < 2 ^ 32"
  shows "DecodeEntry (enc_entry (s, k, v) @ rest) =
    Some (word_of_nat s, word_of_nat (length k - s), word_of_nat (length v), drop s k @ v @ rest)"
proof -
  have l: "length k - s + length v + length rest < 2 ^ 32" using assms(2) by simp
  have "\<not> (word_of_nat (length (drop s k @ v @ rest)) :: u32) < word_of_nat (length k - s) + word_of_nat (length v)"
  proof -
    have "(word_of_nat (length k - s) + word_of_nat (length v) :: u32) = word_of_nat (length k - s + length v)"
      by simp
    then show ?thesis
      using l word_of_nat_less_small(1) [where 'a = 32, of "length k - s + (length v + length rest)" "length k - s + length v"]
      by simp
  qed
  moreover have "\<not> length (enc_entry (s, k, v) @ rest) < 3"
    using enc_entry_length [of "(s, k, v)"] by simp
  moreover have "entry_header (enc_entry (s, k, v) @ rest) =
      Some (word_of_nat s, word_of_nat (length k - s), word_of_nat (length v), drop s k @ v @ rest)"
    using l assms(3) by (intro entry_header_enc) simp_all
  ultimately show ?thesis by (simp only: DecodeEntry_eq if_False bind.simps split_conv)
qed

lemma u32_of_nat_order:
  assumes "m < 2 ^ 32" "n < 2 ^ 32"
  shows "(word_of_nat m :: u32) < word_of_nat n \<longleftrightarrow> m < n" "(word_of_nat m :: u32) \<le> word_of_nat n \<longleftrightarrow> m \<le> n"
  using assms word_of_nat_less_small [where 'a = 32, of m n] by simp_all

lemma bdata_append: "bdata (xs @ ys) = bdata xs @ bdata ys"
  by (simp add: bdata_def)

lemma bdata_simps [simp]: "bdata [] = []" "bdata (b # bs) = enc_entry b @ bdata bs"
  by (simp_all add: bdata_def)

lemma boff_simps [simp]: "boff bs 0 = 0" "boff bs (length bs) = length (bdata bs)"
  by (simp_all add: boff_def)

lemma boff_Suc: "i < length bs \<Longrightarrow> boff bs (Suc i) = boff bs i + length (enc_entry (bs ! i))"
  by (simp add: boff_def take_Suc_conv_app_nth bdata_append)

lemma boff_strict: "i < j \<Longrightarrow> j \<le> length bs \<Longrightarrow> boff bs i < boff bs j"
proof (induction j)
  case (Suc j)
  with boff_Suc [of j bs] enc_entry_length [of "bs ! j"] show ?case by (cases "i = j") auto
qed simp

lemma boff_less_iff: "i \<le> length bs \<Longrightarrow> j \<le> length bs \<Longrightarrow> boff bs i < boff bs j \<longleftrightarrow> i < j"
  using boff_strict [of i j bs] boff_strict [of j i bs] by (cases i j rule: linorder_cases) auto

lemma boff_le_iff: "i \<le> length bs \<Longrightarrow> j \<le> length bs \<Longrightarrow> boff bs i \<le> boff bs j \<longleftrightarrow> i \<le> j"
  using boff_less_iff [of j bs i] by (simp flip: not_less)

lemma boff_bound: "i \<le> length bs \<Longrightarrow> boff bs i \<le> length (bdata bs)"
  using boff_le_iff [of i bs "length bs"] by simp

lemma drop_boff:
  assumes "i < length bs"
  shows "drop (boff bs i) (bdata bs) = enc_entry (bs ! i) @ bdata (drop (Suc i) bs)"
proof -
  have "bdata bs = bdata (take i bs) @ enc_entry (bs ! i) @ bdata (drop (Suc i) bs)"
    using id_take_nth_drop [OF assms] by (metis bdata_append bdata_simps(2))
  then show ?thesis unfolding boff_def by (metis append_eq_conv_conj)
qed

abbreviation bkey :: "bent list \<Rightarrow> nat \<Rightarrow> bytes" where "bkey bs i \<equiv> fst (snd (bs ! i))"
abbreviation bval :: "bent list \<Rightarrow> nat \<Rightarrow> bytes" where "bval bs i \<equiv> snd (snd (bs ! i))"
abbreviation bshared :: "bent list \<Rightarrow> nat \<Rightarrow> nat" where "bshared bs i \<equiv> fst (bs ! i)"

lemma bchain_nth:
  "bchain prev bs \<Longrightarrow> i < length bs \<Longrightarrow>
     bshared bs i \<le> length (bkey bs i) \<and>
     (let p = (if i = 0 then prev else bkey bs (i - 1)) in
      bshared bs i \<le> length p \<and> take (bshared bs i) p = take (bshared bs i) (bkey bs i))"
proof (induction prev bs arbitrary: i rule: bchain.induct)
  case (2 prev s k v bs)
  show ?case
  proof (cases i)
    case (Suc j)
    then show ?thesis using 2(2,3) 2(1) [of j] by (cases j) (simp_all add: Let_def)
  qed (use 2 in simp)
qed simp

lemma layout_bounds:
  assumes "layout bs R"
  shows "length R < 2 ^ 32" "length (bdata bs) + 4 * length R + 4 < 2 ^ 32" "0 < length R"
  using assms by (simp_all add: layout_def block_image_def restarts_ok_def)

lemma layout_restart:
  assumes "layout bs R" "j < length R"
  shows "R ! j \<le> length bs" "bs \<noteq> [] \<Longrightarrow> R ! j < length bs" "R ! j < length bs \<Longrightarrow> bshared bs (R ! j) = 0"
proof -
  have "R ! j \<in> set R" using assms(2) by simp
  with assms(1) have "if bs = [] then R ! j = 0 else R ! j < length bs \<and> bshared bs (R ! j) = 0"
    unfolding layout_def restarts_ok_def by blast
  then show "R ! j \<le> length bs" "bs \<noteq> [] \<Longrightarrow> R ! j < length bs" "R ! j < length bs \<Longrightarrow> bshared bs (R ! j) = 0"
    by (simp_all split: if_splits)
qed

lemma layout_restart_mono: "layout bs R \<Longrightarrow> i < j \<Longrightarrow> j < length R \<Longrightarrow> R ! i < R ! j"
  by (simp add: layout_def restarts_ok_def sorted_wrt_nth_less)

section \<open>The state of an iterator over a layout\<close>

definition bi_base :: "bent list \<Rightarrow> nat list \<Rightarrow> Block_Iter \<Rightarrow> bool" where
  "bi_base bs R s \<longleftrightarrow> bi_data s = block_image bs R \<and> bi_restarts s = word_of_nat (length (bdata bs)) \<and>
     bi_num_restarts s = word_of_nat (length R) \<and> bi_status s = OK"

text \<open>Just before entry \<open>i\<close> is parsed.\<close>

definition bi_before :: "bent list \<Rightarrow> nat list \<Rightarrow> Block_Iter \<Rightarrow> nat \<Rightarrow> bool" where
  "bi_before bs R s i \<longleftrightarrow> bi_base bs R s \<and> i \<le> length bs \<and>
     (\<exists>x y. bi_value s = Some (x, y) \<and> x + y = boff bs i) \<and>
     (i < length bs \<longrightarrow> bshared bs i \<le> length (bi_key s) \<and>
        take (bshared bs i) (bi_key s) = take (bshared bs i) (bkey bs i)) \<and>
     (\<exists>j < length R. bi_restart_index s = word_of_nat j \<and> R ! j \<le> i)"

definition bi_at :: "bent list \<Rightarrow> nat list \<Rightarrow> Block_Iter \<Rightarrow> nat \<Rightarrow> bool" where
  "bi_at bs R s i \<longleftrightarrow> bi_base bs R s \<and> i < length bs \<and> bi_current s = word_of_nat (boff bs i) \<and>
     bi_key s = bkey bs i \<and>
     bi_value s = Some (boff bs (Suc i) - length (bval bs i), length (bval bs i)) \<and>
     (\<exists>j < length R. bi_restart_index s = word_of_nat j \<and> R ! j \<le> i \<and> (Suc j < length R \<longrightarrow> i \<le> R ! Suc j))"

definition bi_end :: "bent list \<Rightarrow> nat list \<Rightarrow> Block_Iter \<Rightarrow> bool" where
  "bi_end bs R s \<longleftrightarrow> bi_base bs R s \<and> bi_current s = bi_restarts s"

lemma GetRestartPoint_layout:
  assumes "layout bs R" "bi_base bs R s" "j < length R"
  shows "GetRestartPoint s (word_of_nat j) = word_of_nat (boff bs (R ! j))"
proof -
  note b = layout_bounds [OF assms(1)]
  have "j < 2 ^ 32" using assms(3) b(1) by linarith
  moreover have "length (bdata bs) < 2 ^ 32" using b(2) by linarith
  ultimately have "GetRestartPoint s (word_of_nat j) = DecodeFixed32 (drop (j * 4)
      (fixed_array (map (\<lambda>i. word_of_nat (boff bs i)) R @ [word_of_nat (length R)]) @ []))"
    using assms(2) by (simp add: GetRestartPoint_def bi_base_def block_image_def)
  also have "\<dots> = word_of_nat (boff bs (R ! j))"
    using assms(3) by (subst DecodeFixed32_fixed_array) (simp_all add: nth_append)
  finally show ?thesis .
qed

lemma advance_restart_layout:
  assumes "layout bs R" "bi_base bs R s" "bi_current s = word_of_nat (boff bs i)" "i \<le> length bs"
    and "j < length R" "R ! j \<le> i"
  shows "\<exists>j' < length R. advance_restart s (word_of_nat j) = Some (word_of_nat j') \<and> R ! j' \<le> i \<and>
    (Suc j' < length R \<longrightarrow> i \<le> R ! Suc j')"
  using assms(5,6)
proof (induction "length R - j" arbitrary: j)
  case (Suc n)
  note b = layout_bounds [OF assms(1)]
  have num: "(word_of_nat j + 1 :: u32) = word_of_nat (Suc j)" "bi_num_restarts s = word_of_nat (length R)"
    using assms(2) by (simp_all add: bi_base_def add.commute)
  have lt: "(word_of_nat j + 1 :: u32) < bi_num_restarts s \<longleftrightarrow> Suc j < length R"
    unfolding num using b(1) Suc.prems(1) by (subst u32_of_nat_order) simp_all
  show ?case
  proof (cases "Suc j < length R \<and> R ! Suc j < i")
    case True
    have "boff bs (R ! Suc j) < boff bs i" "boff bs i < 2 ^ 32" "boff bs (R ! Suc j) < 2 ^ 32"
      using boff_strict [of "R ! Suc j" i bs] True boff_bound [OF assms(4)] assms(4) b(2) by simp_all
    then have "GetRestartPoint s (word_of_nat j + 1) < bi_current s"
      using True unfolding num(1) assms(3)
      by (simp only: GetRestartPoint_layout [OF assms(1,2), of "Suc j"] u32_of_nat_order)
    then have "advance_restart s (word_of_nat j) = advance_restart s (word_of_nat (Suc j))"
      using lt True by (subst advance_restart.simps) (simp add: num(1) del: of_nat_Suc)
    then show ?thesis using Suc.hyps(1) [of "Suc j"] Suc.hyps(2) True by simp
  next
    case False
    have "\<not> GetRestartPoint s (word_of_nat j + 1) < bi_current s" if "Suc j < length R"
    proof -
      have "i \<le> R ! Suc j" "R ! Suc j \<le> length bs" using False that layout_restart(1) [OF assms(1) that] by simp_all
      then have "boff bs i \<le> boff bs (R ! Suc j)" "boff bs (R ! Suc j) < 2 ^ 32"
        using boff_le_iff [of i bs "R ! Suc j"] boff_bound [of "R ! Suc j" bs] assms(4) b(2) by simp_all
      then show ?thesis
        unfolding num(1) assms(3) GetRestartPoint_layout [OF assms(1,2) that]
        by (subst u32_of_nat_order) simp_all
    qed
    then have "advance_restart s (word_of_nat j) = Some (word_of_nat j)"
      using lt by (subst advance_restart.simps) auto
    then show ?thesis using Suc.prems False by (intro exI [of _ j]) auto
  qed
qed simp

section \<open>Parsing\<close>

lemma bkey_length:
  assumes "bchain [] bs" "i < length bs"
  shows "length (bkey bs i) \<le> boff bs (Suc i)"
  using assms(2)
proof (induction i)
  case 0
  have "bshared bs 0 = 0" using bchain_nth [OF assms(1) 0] by simp
  then show ?case using boff_Suc [OF 0] by (cases "bs ! 0") simp
next
  case (Suc i)
  obtain s k v where e: "bs ! Suc i = (s, k, v)" by (cases "bs ! Suc i")
  have "s \<le> length (bkey bs i)" using bchain_nth [OF assms(1) Suc.prems] e by (simp add: Let_def)
  then have "length k \<le> boff bs (Suc i) + (length k - s)" using Suc.IH Suc.prems by linarith
  also have "\<dots> \<le> boff bs (Suc (Suc i))" using boff_Suc [OF Suc.prems] e by simp
  finally show ?case using e by simp
qed

text \<open>How the image of a block splits at entry \<open>i\<close>.\<close>

lemma block_image_split:
  assumes "layout bs R" "i < length bs" "bs ! i = (s, k, v)"
  shows "\<exists>off. boff bs i < off \<and> off + (length k - s) + length v = boff bs (Suc i) \<and>
    DecodeEntry (drop (boff bs i) (take (length (bdata bs)) (block_image bs R))) =
      Some (word_of_nat s, word_of_nat (length k - s), word_of_nat (length v), drop s k @ v @ bdata (drop (Suc i) bs)) \<and>
    s < 2 ^ 32 \<and> length k - s < 2 ^ 32 \<and> length v < 2 ^ 32 \<and>
    off = length (bdata bs) - length (drop s k @ v @ bdata (drop (Suc i) bs)) \<and>
    (\<exists>tail. drop off (block_image bs R) = drop s k @ v @ tail)"
proof -
  define hdr where "hdr = EncodeVarint32 (word_of_nat s) @ EncodeVarint32 (word_of_nat (length k - s)) @
    EncodeVarint32 (word_of_nat (length v))"
  define rest where "rest = bdata (drop (Suc i) bs)"
  define off where "off = boff bs i + length hdr"
  have enc: "enc_entry (s, k, v) = hdr @ drop s k @ v" by (simp add: hdr_def)
  have d: "drop (boff bs i) (bdata bs) = hdr @ drop s k @ v @ rest"
    using drop_boff [OF assms(2)] assms(3) enc by (simp add: rest_def)
  have le: "boff bs i \<le> length (bdata bs)" using boff_bound assms(2) by simp
  have suc: "boff bs (Suc i) = boff bs i + length (hdr @ drop s k @ v)"
    using boff_Suc [OF assms(2)] unfolding assms(3) enc .
  have len: "length (bdata bs) = boff bs i + length (hdr @ drop s k @ v @ rest)"
    using arg_cong [OF d, of length] le by simp
  note b = layout_bounds(2) [OF assms(1)]
  have ch: "bchain [] bs" using assms(1) by (simp add: layout_def)
  have sk: "s \<le> length k" using bchain_nth [OF ch assms(2)] assms(3) by simp
  have "length k \<le> boff bs (Suc i)" using bkey_length [OF ch assms(2)] assms(3) by simp
  then have small: "s < 2 ^ 32" "length k - s < 2 ^ 32" "length v < 2 ^ 32" using sk suc len b by simp_all
  have "drop (boff bs i) (take (length (bdata bs)) (block_image bs R)) = enc_entry (s, k, v) @ rest"
    unfolding enc using d by (simp add: block_image_def)
  moreover have "DecodeEntry (enc_entry (s, k, v) @ rest) =
      Some (word_of_nat s, word_of_nat (length k - s), word_of_nat (length v), drop s k @ v @ rest)"
  proof (rule DecodeEntry_enc [OF sk _ small(1)])
    show "length (enc_entry (s, k, v) @ rest) < 2 ^ 32" unfolding enc using len b by simp
  qed
  moreover have "0 < length hdr" by (simp add: hdr_def EncodeVarint32_eq)
  moreover have "drop off (block_image bs R) = drop s k @ v @ rest @
      fixed_array (map (\<lambda>i. word_of_nat (boff bs i)) R @ [word_of_nat (length R)])"
    using d len unfolding off_def add.commute [of "boff bs i"] drop_drop [symmetric] block_image_def by simp
  ultimately show ?thesis using small suc len by (intro exI [of _ off]) (auto simp: off_def rest_def)
qed

lemma parse_layout:
  assumes "layout bs R" "bi_before bs R s i" "i < length bs"
  shows "\<exists>s'. ParseNextKey s = Some (True, s') \<and> bi_at bs R s' i"
proof -
  obtain sh k v where e: "bs ! i = (sh, k, v)" by (cases "bs ! i")
  from block_image_split [OF assms(1,3) e] obtain off tl where off:
    "boff bs i < off" "off + (length k - sh) + length v = boff bs (Suc i)"
    "DecodeEntry (drop (boff bs i) (take (length (bdata bs)) (block_image bs R))) =
      Some (word_of_nat sh, word_of_nat (length k - sh), word_of_nat (length v), drop sh k @ v @ bdata (drop (Suc i) bs))"
    "sh < 2 ^ 32" "length k - sh < 2 ^ 32" "length v < 2 ^ 32"
    "off = length (bdata bs) - length (drop sh k @ v @ bdata (drop (Suc i) bs))"
    "drop off (block_image bs R) = drop sh k @ v @ tl" by blast
  from assms(2) obtain x y j where st: "bi_base bs R s" "bi_value s = Some (x, y)" "x + y = boff bs i"
      "sh \<le> length (bi_key s)" "take sh (bi_key s) = take sh k" "j < length R" "bi_restart_index s = word_of_nat j" "R ! j \<le> i"
    unfolding bi_before_def using assms(3) e by auto
  note b = layout_bounds [OF assms(1)]
  have lt: "boff bs i < length (bdata bs)" using boff_less_iff [of i bs "length bs"] assms(3) by simp
  then have sm: "boff bs i < 2 ^ 32" "length (bdata bs) < 2 ^ 32" using b(2) by linarith+
  let ?s1 = "s\<lparr> bi_current := word_of_nat (boff bs i) \<rparr>"
  let ?s2 = "?s1\<lparr> bi_key := take sh (bi_key s) @ drop sh k, bi_value := Some (off + (length k - sh), length v) \<rparr>"
  have base2: "bi_base bs R ?s2" using st(1) by (simp add: bi_base_def)
  from advance_restart_layout [OF assms(1) base2 _ _ st(6,8)] assms(3) obtain j' where j':
    "j' < length R" "advance_restart ?s2 (word_of_nat j) = Some (word_of_nat j')" "R ! j' \<le> i"
    "Suc j' < length R \<longrightarrow> i \<le> R ! Suc j'" by auto
  have rd: "read_mem (block_image bs R) off (length k - sh) = Some (drop sh k)"
    using off(8) arg_cong [OF off(8), of length] lt off(1,2) boff_bound [of "Suc i" bs] assms(3)
    by (simp add: read_mem_def block_image_def)
  have "ParseNextKey s = Some (True, ?s2\<lparr> bi_restart_index := word_of_nat j' \<rparr>)"
  proof -
    have ne: "NextEntryOffset s = Some (word_of_nat (boff bs i))" using st(2,3) by (simp add: NextEntryOffset_def del: of_nat_add)
    have ct: "bi_data s = block_image bs R" "bi_restarts s = word_of_nat (length (bdata bs))"
      using st(1) by (simp_all add: bi_base_def)
    have nlt: "\<not> bi_restarts s \<le> word_of_nat (boff bs i)" using u32_of_nat_order(2) [OF sm(2,1)] ct(2) lt by simp
    have un: "unat (bi_restarts s) = length (bdata bs)" "unat (word_of_nat (boff bs i) :: u32) = boff bs i"
      "unat (word_of_nat sh :: u32) = sh" "unat (word_of_nat (length k - sh) :: u32) = length k - sh"
      "unat (word_of_nat (length v) :: u32) = length v"
      using ct(2) sm off(4-6) by simp_all
    show ?thesis
      unfolding ParseNextKey_def ne
      by (simp add: nlt off(3) un off(7) [symmetric] ct(1) rd st(4) [THEN leD] st(7) j'(2) Let_def del: length_append of_nat_diff)
  qed
  moreover have "bi_at bs R (?s2\<lparr> bi_restart_index := word_of_nat j' \<rparr>) i"
    using st(1,5) assms(3) j' off(2) e unfolding bi_at_def bi_base_def by auto
  ultimately show ?thesis by blast
qed

text \<open>At entry \<open>i\<close>, or past the last entry.\<close>

definition bi_pos :: "bent list \<Rightarrow> nat list \<Rightarrow> Block_Iter \<Rightarrow> nat \<Rightarrow> bool" where
  "bi_pos bs R s i \<longleftrightarrow> (if i < length bs then bi_at bs R s i else i = length bs \<and> bi_end bs R s)"

lemma parse_end:
  assumes "layout bs R" "bi_before bs R s (length bs)"
  shows "\<exists>s'. ParseNextKey s = Some (False, s') \<and> bi_end bs R s'"
proof -
  have "NextEntryOffset s = Some (word_of_nat (length (bdata bs)))" "bi_base bs R s"
    using assms(2) by (auto simp: bi_before_def NextEntryOffset_def simp del: of_nat_add)
  then show ?thesis by (auto simp: ParseNextKey_def bi_base_def bi_end_def Let_def)
qed

lemma parse_step:
  assumes "layout bs R" "bi_before bs R s i"
  shows "\<exists>s'. ParseNextKey s = Some (i < length bs, s') \<and> bi_pos bs R s' i"
proof (cases "i < length bs")
  case True
  with parse_layout [OF assms] show ?thesis by (simp add: bi_pos_def)
next
  case False
  then have "i = length bs" using assms(2) by (simp add: bi_before_def)
  with parse_end [OF assms(1)] assms(2) show ?thesis by (simp add: bi_pos_def)
qed

lemma at_before:
  assumes "layout bs R" "bi_at bs R s i"
  shows "bi_before bs R s (Suc i)"
proof -
  have i: "i < length bs" using assms(2) by (simp add: bi_at_def)
  have "length (bval bs i) \<le> boff bs (Suc i)" using boff_Suc [OF i] by (cases "bs ! i") simp
  moreover have "bchain [] bs" using assms(1) by (simp add: layout_def)
  note bchain_nth [OF this, of "Suc i"]
  ultimately show ?thesis
    using assms(2) i unfolding bi_at_def bi_before_def by (auto simp: Let_def intro: le_SucI)
qed

lemma restart_before:
  assumes "layout bs R" "bi_base bs R s" "j < length R"
  shows "bi_before bs R (SeekToRestartPoint (word_of_nat j) s) (R ! j)"
proof -
  have "boff bs (R ! j) < 2 ^ 32"
    using boff_bound [OF layout_restart(1) [OF assms(1,3)]] layout_bounds(2) [OF assms(1)] by linarith
  then have "unat (GetRestartPoint s (word_of_nat j)) = boff bs (R ! j)"
    by (simp add: GetRestartPoint_layout [OF assms])
  with assms(2,3) layout_restart [OF assms(1,3)] show ?thesis
    unfolding bi_before_def by (auto simp: SeekToRestartPoint_def bi_base_def)
qed

lemma NextEntryOffset_at:
  assumes "bi_at bs R s i"
  shows "NextEntryOffset s = Some (word_of_nat (boff bs (Suc i)))"
proof -
  have i: "i < length bs" using assms by (simp add: bi_at_def)
  then have "length (bval bs i) \<le> boff bs (Suc i)" using boff_Suc [OF i] by (cases "bs ! i") simp
  with assms show ?thesis by (simp add: bi_at_def NextEntryOffset_def del: of_nat_add of_nat_diff)
qed

lemma parse_until_layout:
  assumes "layout bs R" "bi_before bs R s i" "i \<le> n" "n < length bs"
  shows "\<exists>s'. parse_until (word_of_nat (boff bs (Suc n))) s = Some s' \<and> bi_at bs R s' n"
  using assms(2,3)
proof (induction "n - i" arbitrary: s i)
  case 0
  then have i: "i = n" by simp
  with parse_layout [OF assms(1) 0(2)] assms(4) obtain s' where
    s': "ParseNextKey s = Some (True, s')" "bi_at bs R s' n" by blast
  with NextEntryOffset_at [OF s'(2)] show ?case by (subst parse_until.simps) simp
next
  case (Suc m)
  then have i: "i < n" by simp
  with parse_layout [OF assms(1) Suc.prems(1)] assms(4) obtain s' where
    s': "ParseNextKey s = Some (True, s')" "bi_at bs R s' i" by auto
  have "boff bs (Suc i) < boff bs (Suc n)" "boff bs (Suc n) < 2 ^ 32"
    using boff_strict [of "Suc i" "Suc n" bs] boff_bound [of "Suc n" bs] i assms(4) layout_bounds(2) [OF assms(1)]
    by simp_all
  then have "(word_of_nat (boff bs (Suc i)) :: u32) < word_of_nat (boff bs (Suc n))"
    by (subst u32_of_nat_order) simp_all
  then have "parse_until (word_of_nat (boff bs (Suc n))) s = parse_until (word_of_nat (boff bs (Suc n))) s'"
    using s'(1) NextEntryOffset_at [OF s'(2)] by (subst parse_until.simps) simp
  moreover have "\<exists>s''. parse_until (word_of_nat (boff bs (Suc n))) s' = Some s'' \<and> bi_at bs R s'' n"
    using Suc.hyps i by (intro Suc.hyps(1) [of "Suc i"] at_before [OF assms(1) s'(2)]) simp_all
  ultimately show ?case by simp
qed

lemma seek_linear_layout:
  assumes "layout bs R" "bi_before bs R s i" "i \<le> n" "n \<le> length bs"
    and "\<And>j. j < length bs \<Longrightarrow> Compare cmp (bkey bs j) t < 0 \<longleftrightarrow> j < n"
  shows "\<exists>s'. seek_linear cmp t s = Some s' \<and> bi_pos bs R s' n"
  using assms(2,3)
proof (induction "n - i" arbitrary: s i)
  case 0
  then have i: "i = n" by simp
  with parse_step [OF assms(1) 0(2)] obtain s' where
    s': "ParseNextKey s = Some (n < length bs, s')" "bi_pos bs R s' n" by blast
  have "bi_key s' = bkey bs n" if "n < length bs" using s'(2) that by (simp add: bi_pos_def bi_at_def)
  with s' assms(5) [of n] show ?case by (subst seek_linear.simps) auto
next
  case (Suc m)
  then have i: "i < n" "i < length bs" using assms(4) by simp_all
  with parse_layout [OF assms(1) Suc.prems(1)] obtain s' where
    s': "ParseNextKey s = Some (True, s')" "bi_at bs R s' i" by auto
  then have "Compare cmp (bi_key s') t < 0" using assms(5) [OF i(2)] i by (simp add: bi_at_def)
  then have "seek_linear cmp t s = seek_linear cmp t s'" using s'(1) by (subst seek_linear.simps) simp
  moreover have "\<exists>s''. seek_linear cmp t s' = Some s'' \<and> bi_pos bs R s'' n"
    using Suc.hyps i by (intro Suc.hyps(1) [of "Suc i"] at_before [OF assms(1) s'(2)]) simp_all
  ultimately show ?case by simp
qed

lemma prev_restart_layout:
  assumes "layout bs R" "bi_base bs R s" "i < length bs" "j < length R"
  shows "if i = 0 then prev_restart s (word_of_nat (boff bs i)) (word_of_nat j) = None
    else \<exists>j' \<le> j. prev_restart s (word_of_nat (boff bs i)) (word_of_nat j) = Some (word_of_nat j') \<and> R ! j' < i"
  using assms(4)
proof (induction j)
  note b = layout_bounds [OF assms(1)]
  have small: "boff bs n < 2 ^ 32" if "n \<le> length bs" for n using boff_bound [OF that] b(2) by linarith
  have cmp: "word_of_nat (boff bs i) \<le> GetRestartPoint s (word_of_nat j) \<longleftrightarrow> i \<le> R ! j" if "j < length R" for j
    using layout_restart(1) [OF assms(1) that] assms(3) small
    unfolding GetRestartPoint_layout [OF assms(1,2) that]
    by (subst u32_of_nat_order) (simp_all add: boff_le_iff)
  {
    case 0
    have "R ! 0 = 0" using assms(1) by (simp add: layout_def restarts_ok_def)
    then show ?case using cmp [OF 0] by (subst (1 2) prev_restart.simps) auto
  next
    case (Suc j)
    have nz: "(word_of_nat (Suc j) :: u32) \<noteq> 0"
      using word_of_nat_eq_small [where 'a = 32, of "Suc j" 0] Suc.prems b(1) by simp
    have dec: "(word_of_nat (Suc j) :: u32) - 1 = word_of_nat j" by simp
    show ?case
    proof (cases "R ! Suc j < i")
      case True
      then show ?thesis using cmp [OF Suc.prems]
        by (auto simp: prev_restart.simps [of s _ "word_of_nat (Suc j)"] intro: exI [of _ "Suc j"] simp del: of_nat_Suc)
    next
      case False
      then have "prev_restart s (word_of_nat (boff bs i)) (word_of_nat (Suc j)) =
          prev_restart s (word_of_nat (boff bs i)) (word_of_nat j)"
        using cmp [OF Suc.prems] nz dec
        by (subst prev_restart.simps) (simp del: of_nat_Suc)
      moreover have "j < length R" using Suc.prems by simp
      note Suc.IH [OF this]
      ultimately show ?thesis by (simp del: of_nat_Suc split: if_splits) (meson le_SucI)
    qed
  }
qed

lemma word_mid:
  assumes "l + r + 1 < 2 ^ 32"
  shows "(word_of_nat l + word_of_nat r + 1 :: u32) div 2 = word_of_nat ((l + r + 1) div 2)"
proof -
  have "(word_of_nat l + word_of_nat r + 1 :: u32) = word_of_nat (l + r + 1)" by simp
  then show ?thesis using assms by (simp only:) (simp add: word_unat_eq_iff unat_div del: of_nat_add of_nat_Suc)
qed

lemma seek_restart_layout:
  assumes "layout bs R" "bi_base bs R s" "n \<le> length bs"
    and "\<And>j. j < length bs \<Longrightarrow> Compare cmp (bkey bs j) t < 0 \<longleftrightarrow> j < n"
    and "l \<le> r" "r < length R" "R ! l \<le> n"
  shows "\<exists>l' < length R. seek_restart cmp t s (word_of_nat l) (word_of_nat r) = Some (Some (word_of_nat l')) \<and> R ! l' \<le> n"
  using assms(5-)
proof (induction "r - l" arbitrary: l r rule: less_induct)
  case less
  note b = layout_bounds [OF assms(1)]
  have lr: "(word_of_nat l :: u32) < word_of_nat r \<longleftrightarrow> l < r"
    using less.prems b(1) by (subst u32_of_nat_order) simp_all
  show ?case
  proof (cases "l < r")
    case False
    then show ?thesis using lr less.prems by (subst seek_restart.simps) (auto intro!: exI [of _ l])
  next
    case True
    define mid where "mid = (l + r + 1) div 2"
    have mid: "l < mid" "mid \<le> r" "mid < length R" using True less.prems by (simp_all add: mid_def)
    have wm: "(word_of_nat l + word_of_nat r + 1 :: u32) div 2 = word_of_nat mid"
      unfolding mid_def using less.prems b(2) by (intro word_mid) linarith
    have "bs \<noteq> []"
      using layout_restart_mono [OF assms(1) mid(1,3)] layout_restart(1) [OF assms(1) mid(3)] by auto
    note rm = layout_restart [OF assms(1) mid(3)]
    obtain sh k v where e: "bs ! (R ! mid) = (sh, k, v)" by (cases "bs ! (R ! mid)")
    have i: "R ! mid < length bs" using rm(2) \<open>bs \<noteq> []\<close> .
    then have sh: "sh = 0" using rm(3) e by simp
    from block_image_split [OF assms(1) i e] obtain off tl where off:
      "off + (length k - sh) + length v = boff bs (Suc (R ! mid))"
      "DecodeEntry (drop (boff bs (R ! mid)) (take (length (bdata bs)) (block_image bs R))) =
        Some (word_of_nat sh, word_of_nat (length k - sh), word_of_nat (length v), drop sh k @ v @ bdata (drop (Suc (R ! mid)) bs))"
      "length k - sh < 2 ^ 32"
      "off = length (bdata bs) - length (drop sh k @ v @ bdata (drop (Suc (R ! mid)) bs))"
      "drop off (block_image bs R) = drop sh k @ v @ tl" by blast
    have un: "unat (GetRestartPoint s (word_of_nat mid)) = boff bs (R ! mid)" "unat (bi_restarts s) = length (bdata bs)"
      "bi_data s = block_image bs R" "unat (word_of_nat (length k) :: u32) = length k"
      using boff_bound [of "R ! mid" bs] rm(1) b(2) assms(2) GetRestartPoint_layout [OF assms(1,2) mid(3)] off(3) sh
      by (simp_all add: bi_base_def)
    have rd: "read_mem (block_image bs R) off (length k) = Some k"
      using off(5) sh off(1) boff_bound [of "Suc (R ! mid)" bs] i by (simp add: read_mem_def block_image_def)
    have de: "DecodeEntry (drop (boff bs (R ! mid)) (take (length (bdata bs)) (block_image bs R))) =
        Some (0, word_of_nat (length k), word_of_nat (length v), k @ v @ bdata (drop (Suc (R ! mid)) bs))"
      using off(2) sh by simp
    have lo: "length (bdata bs) - length (k @ v @ bdata (drop (Suc (R ! mid)) bs)) = off"
      using off(4) sh by simp
    have step: "seek_restart cmp t s (word_of_nat l) (word_of_nat r) =
        (if Compare cmp k t < 0 then seek_restart cmp t s (word_of_nat mid) (word_of_nat r)
         else seek_restart cmp t s (word_of_nat l) (word_of_nat mid - 1))"
      by (subst seek_restart.simps)
        (simp only: lr True if_True Let_def wm un de option.case prod.case simp_thms if_False lo rd bind.simps)
    have pred: "(word_of_nat mid - 1 :: u32) = word_of_nat (mid - 1)" using mid(1) by (simp add: of_nat_diff)
    show ?thesis
    proof (cases "Compare cmp k t < 0")
      case True
      then have "R ! mid \<le> n" using assms(4) [OF i] e by simp
      from less.hyps [OF _ mid(2) less.prems(2) this] mid(1) \<open>l < r\<close> show ?thesis
        unfolding step using True by (simp add: diff_less_mono2)
    next
      case False
      have "\<exists>l' < length R. seek_restart cmp t s (word_of_nat l) (word_of_nat (mid - 1)) = Some (Some (word_of_nat l')) \<and> R ! l' \<le> n"
        by (rule less.hyps) (use mid less.prems in auto)
      with False show ?thesis unfolding step pred by simp
    qed
  qed
qed

section \<open>The iterator contract\<close>

definition bi_index :: "bent list \<Rightarrow> Block_Iter \<Rightarrow> nat" where
  "bi_index bs s = length (takeWhile (\<lambda>i. boff bs i \<noteq> unat (bi_current s)) [0..<length bs])"

lemma bi_index_pos:
  assumes "layout bs R" "bi_pos bs R s i"
  shows "bi_index bs s = i"
proof -
  have le: "i \<le> length bs" using assms(2) by (simp add: bi_pos_def split: if_splits)
  have cur: "unat (bi_current s) = boff bs i"
    using assms(2) boff_bound [OF le] layout_bounds(2) [OF assms(1)]
    by (auto simp: bi_pos_def bi_at_def bi_end_def bi_base_def split: if_splits)
  have ne: "boff bs j \<noteq> boff bs i" if "j < i" for j using boff_strict [OF that le] by simp
  have "takeWhile (\<lambda>j. boff bs j \<noteq> unat (bi_current s)) [0..<length bs] = [0..<i]"
  proof (rule takeWhile_eq_take_P_nth [where n = i, THEN trans])
    show "take i [0..<length bs] = [0..<i]" using le by simp
  qed (use cur ne le in auto)
  then show ?thesis by (simp add: bi_index_def)
qed

lemma bi_pos_base: "bi_pos bs R s i \<Longrightarrow> bi_base bs R s"
  by (auto simp: bi_pos_def bi_at_def bi_end_def split: if_splits)

lemma bi_pos_valid:
  assumes "layout bs R" "bi_pos bs R s i"
  shows "bi_current s < bi_restarts s \<longleftrightarrow> i < length bs"
proof (cases "i < length bs")
  case True
  have "boff bs i < length (bdata bs)" using boff_less_iff [of i bs "length bs"] True by simp
  then show ?thesis using assms(2) True layout_bounds(2) [OF assms(1)] u32_of_nat_order(1) [of "boff bs i" "length (bdata bs)"]
    by (simp add: bi_pos_def bi_at_def bi_base_def)
qed (use assms(2) in \<open>simp add: bi_pos_def bi_end_def\<close>)

lemma last_restart:
  assumes "layout bs R" "bi_base bs R s"
  shows "bi_num_restarts s - 1 = word_of_nat (length R - 1)"
  using assms layout_bounds(3) [OF assms(1)] by (cases R) (simp_all add: bi_base_def)

lemma Seek_layout:
  assumes "layout bs R" "bi_base bs R s" "n \<le> length bs"
    and "\<And>j. j < length bs \<Longrightarrow> Compare cmp (bkey bs j) t < 0 \<longleftrightarrow> j < n"
  shows "\<exists>s'. Block_Iter_Seek cmp t s = Some s' \<and> bi_pos bs R s' n"
proof -
  note b = layout_bounds [OF assms(1)]
  note num = last_restart [OF assms(1,2)]
  have "R ! 0 = 0" using assms(1) by (simp add: layout_def restarts_ok_def)
  with seek_restart_layout [OF assms, of 0 "length R - 1"] b(3) obtain l where
    l: "l < length R" "seek_restart cmp t s 0 (bi_num_restarts s - 1) = Some (Some (word_of_nat l))" "R ! l \<le> n"
    unfolding num by auto
  from seek_linear_layout [OF assms(1) restart_before [OF assms(1,2) l(1)] l(3) assms(3,4)] l(2)
  show ?thesis by (simp add: Block_Iter_Seek_def)
qed

lemma SeekToLast_layout:
  assumes "layout bs R" "bi_base bs R s"
  shows "\<exists>s'. Block_Iter_SeekToLast s = Some s' \<and> bi_pos bs R s' (length bs - 1)"
proof -
  note b = layout_bounds [OF assms(1)]
  have num: "bi_num_restarts s - 1 = word_of_nat (length R - 1)" "bi_restarts s = word_of_nat (length (bdata bs))"
    using last_restart [OF assms] assms(2) by (simp_all add: bi_base_def)
  have j: "length R - 1 < length R" using b(3) by simp
  note rb = restart_before [OF assms j]
  show ?thesis
  proof (cases "bs = []")
    case True
    then have "R ! (length R - 1) = length bs" using layout_restart(1) [OF assms(1) j] by simp
    with parse_end [OF assms(1)] rb obtain s' where
      "ParseNextKey (SeekToRestartPoint (word_of_nat (length R - 1)) s) = Some (False, s')" "bi_end bs R s'" by auto
    with True show ?thesis
      unfolding Block_Iter_SeekToLast_def num by (subst parse_until.simps) (simp add: bi_pos_def)
  next
    case False
    then have "R ! (length R - 1) \<le> length bs - 1" "length bs - 1 < length bs" "Suc (length bs - 1) = length bs"
      using layout_restart(2) [OF assms(1) j] by auto
    with parse_until_layout [OF assms(1) rb, of "length bs - 1"] show ?thesis
      unfolding Block_Iter_SeekToLast_def num by (simp add: bi_pos_def)
  qed
qed

lemma Prev_layout:
  assumes "layout bs R" "bi_at bs R s i"
  shows "\<exists>s'. Block_Iter_Prev s = Some s' \<and> bi_pos bs R s' (prev_pos bs i)"
proof -
  from assms(2) obtain j where st: "bi_base bs R s" "i < length bs" "bi_current s = word_of_nat (boff bs i)"
      "j < length R" "bi_restart_index s = word_of_nat j" by (auto simp: bi_at_def)
  note pr = prev_restart_layout [OF assms(1) st(1,2,4)]
  show ?thesis
  proof (cases "i = 0")
    case True
    with pr st show ?thesis
      by (simp add: Block_Iter_Prev_def prev_pos_def bi_pos_def bi_end_def bi_base_def)
  next
    case False
    with pr obtain j' where j': "j' \<le> j" "prev_restart s (word_of_nat (boff bs i)) (word_of_nat j) = Some (word_of_nat j')"
      "R ! j' < i" by auto
    have "R ! j' \<le> i - 1" "i - 1 < length bs" "Suc (i - 1) = i" "j' < length R"
      using j' st False by auto
    with parse_until_layout [OF assms(1) restart_before [OF assms(1) st(1)], of j' "i - 1"] j'(2) st False show ?thesis
      by (simp add: Block_Iter_Prev_def prev_pos_def bi_pos_def)
  qed
qed

lemma block_value:
  assumes "layout bs R" "bi_at bs R s i"
  shows "(case bi_value s of None \<Rightarrow> [] | Some (off, len) \<Rightarrow> take len (drop off (bi_data s))) = bval bs i"
proof -
  have i: "i < length bs" using assms(2) by (simp add: bi_at_def)
  obtain sh k v where e: "bs ! i = (sh, k, v)" by (cases "bs ! i")
  from block_image_split [OF assms(1) i e] obtain off tl where
    off: "off + (length k - sh) + length v = boff bs (Suc i)"
      "drop off (block_image bs R) = drop sh k @ v @ tl" by blast
  have "drop (boff bs (Suc i) - length v) (block_image bs R) = drop (length k - sh) (drop off (block_image bs R))"
    unfolding off(1) [symmetric] by (simp add: add.commute)
  then show ?thesis using assms(2) e off(2) by (simp add: bi_at_def bi_base_def)
qed

lemma block_iter_list_iterator:
  assumes "layout bs R" "key_order cmp valid" "\<forall>e \<in> set bs. valid (fst (snd e))"
    and "sorted_entries (Compare cmp) (map snd bs)"
  shows "list_iterator (Block_Iter_ops cmp) (Compare cmp) valid (\<lambda>s. \<exists>i. bi_pos bs R s i) (map snd bs) (bi_index bs)"
proof -
  note ix = bi_index_pos [OF assms(1)]
  have next_before: "bi_before bs R s (Suc i)" if "bi_pos bs R s i" "i < length bs" for s i
    using that at_before [OF assms(1)] by (simp add: bi_pos_def)
  have seek: "\<exists>s'. Block_Iter_Seek cmp t s = Some s' \<and> bi_pos bs R s' (seek_pos (Compare cmp) t (map snd bs))"
    if "bi_base bs R s" "valid t" for s t
  proof (rule Seek_layout [OF assms(1) that(1)])
    let ?n = "seek_pos (Compare cmp) t (map snd bs)"
    show "?n \<le> length bs" using seek_pos_le [of "Compare cmp" t "map snd bs"] by simp
    show "Compare cmp (bkey bs j) t < 0 \<longleftrightarrow> j < ?n" if "j < length bs" for j
      using seek_pos_iff [OF assms(2,4) _ \<open>valid t\<close>, of j] assms(3) that by simp
  qed
  show ?thesis
  proof (unfold_locales, goal_cases)
    case (1 s)
    then obtain i where i: "bi_pos bs R s i" by blast
    with ix [OF i] show ?case by (auto simp: bi_pos_def split: if_splits)
  next
    case (2 s) then show ?case using ix bi_pos_valid [OF assms(1)] by (auto simp: Block_Iter_ops_def)
  next
    case (3 s)
    then have base: "bi_base bs R s" using bi_pos_base by blast
    have "R ! 0 = 0" using assms(1) by (simp add: layout_def restarts_ok_def)
    with restart_before [OF assms(1) base, of 0] layout_bounds(3) [OF assms(1)]
    have "bi_before bs R (SeekToRestartPoint 0 s) 0" by simp
    from parse_step [OF assms(1) this] obtain s' where
      "ParseNextKey (SeekToRestartPoint 0 s) = Some (0 < length bs, s')" "bi_pos bs R s' 0" by blast
    with ix show ?case by (auto simp: Block_Iter_ops_def)
  next
    case (4 s)
    then have "bi_base bs R s" using bi_pos_base by blast
    from SeekToLast_layout [OF assms(1) this] ix show ?case by (auto simp: Block_Iter_ops_def last_pos_def)
  next
    case (5 s t)
    then have "bi_base bs R s" using bi_pos_base by blast
    from seek [OF this 5(2)] ix show ?case by (auto simp: Block_Iter_ops_def)
  next
    case (6 s)
    then obtain i where i: "bi_pos bs R s i" "i < length bs" "bi_index bs s = i" using ix by auto
    from parse_step [OF assms(1) next_before [OF i(1,2)]] obtain s' where
      "ParseNextKey s = Some (Suc i < length bs, s')" "bi_pos bs R s' (Suc i)" by blast
    with ix i(3) show ?case by (auto simp: Block_Iter_ops_def)
  next
    case (7 s)
    then obtain i where i: "bi_pos bs R s i" "i < length bs" "bi_index bs s = i" using ix by auto
    then have "bi_at bs R s i" by (simp add: bi_pos_def)
    from Prev_layout [OF assms(1) this] ix i(3) show ?case by (auto simp: Block_Iter_ops_def prev_pos_def)
  next
    case (8 s)
    then obtain i where i: "bi_pos bs R s i" "i < length bs" "bi_index bs s = i" using ix by auto
    then show ?case by (simp add: Block_Iter_ops_def bi_pos_def bi_at_def)
  next
    case (9 s)
    then obtain i where i: "bi_pos bs R s i" "i < length bs" "bi_index bs s = i" using ix by auto
    then have "bi_at bs R s i" by (simp add: bi_pos_def)
    from block_value [OF assms(1) this] i show ?case by (simp add: Block_Iter_ops_def)
  next
    case (10 s)
    then show ?case using bi_pos_base by (auto simp: Block_Iter_ops_def bi_base_def)
  qed
qed

section \<open>What the builder writes\<close>

lemma shared_loop_spec:
  assumes "i \<le> length a" "i \<le> length b" "take i a = take i b"
  shows "shared_loop a b i \<le> length a \<and> shared_loop a b i \<le> length b \<and>
    take (shared_loop a b i) a = take (shared_loop a b i) b"
  using assms
proof (induction a b i rule: shared_loop.induct)
  case (1 a b i)
  show ?case
  proof (cases "i < min (length a) (length b) \<and> a ! i = b ! i")
    case True
    then show ?thesis using 1 by (subst (1 2 3 4) shared_loop.simps) (simp add: take_Suc_conv_app_nth)
  next
    case False
    then have "shared_loop a b i = i" by (intro trans [OF shared_loop.simps] if_not_P)
    with 1 show ?thesis by simp
  qed
qed

lemma bchain_append:
  "bchain prev (bs @ [(s, k, v)]) \<longleftrightarrow> bchain prev bs \<and>
     (let p = (if bs = [] then prev else fst (snd (last bs))) in
      s \<le> length k \<and> s \<le> length p \<and> take s p = take s k)"
  by (induction prev bs rule: bchain.induct) (auto simp: Let_def)

lemma boff_append: "i \<le> length bs \<Longrightarrow> boff (bs @ cs) i = boff bs i"
  by (simp add: boff_def)

definition bb_inv :: "BlockBuilder \<Rightarrow> bent list \<Rightarrow> nat list \<Rightarrow> bool" where
  "bb_inv b bs R \<longleftrightarrow> bb_buffer b = bdata bs \<and> bb_restarts b = map (\<lambda>i. word_of_nat (boff bs i)) R \<and>
     bchain [] bs \<and> restarts_ok bs R \<and> bb_last_key b = (if bs = [] then [] else fst (snd (last bs))) \<and>
     (bs = [] \<longrightarrow> bb_counter b = 0)"

lemma bb_inv_new: "bb_inv BlockBuilder_new [] [0]"
  by (simp add: bb_inv_def BlockBuilder_new_def restarts_ok_def)

lemma restarts_ok_bounds: "restarts_ok bs R \<Longrightarrow> i \<in> set R \<Longrightarrow> i \<le> length bs"
  by (auto simp: restarts_ok_def split: if_splits)

lemma BlockBuilder_Add_eq:
  defines "sh b k I \<equiv> (if bb_counter b < I then shared_loop (bb_last_key b) k 0 else 0)"
  shows "BlockBuilder_Add I k v b =
    b\<lparr> bb_buffer := bb_buffer b @ enc_entry (sh b k I, k, v),
       bb_restarts := (if bb_counter b < I then bb_restarts b else bb_restarts b @ [word_of_nat (length (bb_buffer b))]),
       bb_counter := (if bb_counter b < I then bb_counter b else 0) + 1,
       bb_last_key := take (sh b k I) (bb_last_key b) @ drop (sh b k I) k \<rparr>"
  by (simp add: BlockBuilder_Add_def Let_def PutVarint32_def sh_def)

lemma bb_inv_Add:
  assumes "bb_inv b bs R" "1 \<le> I"
  shows "\<exists>s R'. bb_inv (BlockBuilder_Add I k v b) (bs @ [(s, k, v)]) R'"
proof (cases "bb_counter b < I")
  case True
  define s where "s = shared_loop (bb_last_key b) k 0"
  have s: "s \<le> length (bb_last_key b)" "s \<le> length k" "take s (bb_last_key b) = take s k"
    using shared_loop_spec [of 0 "bb_last_key b" k] by (simp_all add: s_def)
  have ch: "bchain [] (bs @ [(s, k, v)])" using assms(1) s by (auto simp: bb_inv_def bchain_append Let_def)
  have ro: "restarts_ok (bs @ [(s, k, v)]) R"
    using assms(1) s(1) unfolding bb_inv_def restarts_ok_def by (auto simp: nth_append split: if_splits)
  have "map (\<lambda>i. word_of_nat (boff bs i) :: u32) R = map (\<lambda>i. word_of_nat (boff (bs @ [(s, k, v)]) i)) R"
    using assms(1) restarts_ok_bounds [of bs R] by (intro map_cong) (auto simp: bb_inv_def boff_append)
  moreover have "take s (bb_last_key b) @ drop s k = k" using s(3) by simp
  then have "BlockBuilder_Add I k v b = b\<lparr> bb_buffer := bb_buffer b @ enc_entry (s, k, v),
      bb_restarts := bb_restarts b, bb_counter := bb_counter b + 1, bb_last_key := k \<rparr>"
    unfolding BlockBuilder_Add_eq using True by (simp add: s_def [symmetric] del: enc_entry.simps)
  ultimately have "bb_inv (BlockBuilder_Add I k v b) (bs @ [(s, k, v)]) R"
    using assms(1) ch ro unfolding bb_inv_def by (simp add: bdata_append del: enc_entry.simps)
  then show ?thesis by blast
next
  case False
  then have ne: "bs \<noteq> []" using assms by (auto simp: bb_inv_def)
  have ch: "bchain [] (bs @ [(0, k, v)])" using assms(1) by (auto simp: bb_inv_def bchain_append Let_def)
  have ro: "restarts_ok (bs @ [(0, k, v)]) (R @ [length bs])"
    using assms(1) ne unfolding bb_inv_def restarts_ok_def by (auto simp: nth_append sorted_wrt_append)
  have "map (\<lambda>i. word_of_nat (boff bs i) :: u32) R = map (\<lambda>i. word_of_nat (boff (bs @ [(0, k, v)]) i)) R"
    using assms(1) restarts_ok_bounds [of bs R] by (intro map_cong) (auto simp: bb_inv_def boff_append)
  then have "bb_inv (BlockBuilder_Add I k v b) (bs @ [(0, k, v)]) (R @ [length bs])"
    using assms(1) ch ro False unfolding bb_inv_def BlockBuilder_Add_eq
    by (simp add: bdata_append boff_append del: enc_entry.simps)
  then show ?thesis by blast
qed

text \<open>The block of a list of entries.\<close>

definition block_of :: "nat \<Rightarrow> entry list \<Rightarrow> bytes" where
  "block_of I es = snd (BlockBuilder_Finish (fold (\<lambda>(k, v). BlockBuilder_Add I k v) es BlockBuilder_new))"

lemma bb_inv_fold:
  assumes "1 \<le> I" "bb_inv b bs R"
  shows "\<exists>bs' R'. bb_inv (fold (\<lambda>(k, v). BlockBuilder_Add I k v) es b) bs' R' \<and> map snd bs' = map snd bs @ es"
  using assms(2)
proof (induction es arbitrary: b bs R)
  case (Cons e es)
  obtain k v where e: "e = (k, v)" by (cases e)
  from bb_inv_Add [OF Cons.prems assms(1), of k v] obtain s R' where
    "bb_inv (BlockBuilder_Add I k v b) (bs @ [(s, k, v)]) R'" by blast
  from Cons.IH [OF this] show ?case by (simp add: e)
qed auto

lemma Finish_image: "bb_inv b bs R \<Longrightarrow> snd (BlockBuilder_Finish b) = block_image bs R"
  by (simp add: bb_inv_def BlockBuilder_Finish_def block_image_def foldl_PutFixed32 Let_def)
    (simp add: PutFixed32_def fixed_array_def)

lemma block_of_layout:
  assumes "1 \<le> I" "length (block_of I es) < 2 ^ 32"
  shows "\<exists>bs R. layout bs R \<and> block_of I es = block_image bs R \<and> map snd bs = es"
proof -
  from bb_inv_fold [OF assms(1) bb_inv_new, of es] obtain bs R where
    b: "bb_inv (fold (\<lambda>(k, v). BlockBuilder_Add I k v) es BlockBuilder_new) bs R" "map snd bs = es" by auto
  from Finish_image [OF b(1)] have "block_of I es = block_image bs R" by (simp add: block_of_def)
  with b assms(2) show ?thesis unfolding layout_def bb_inv_def by metis
qed

section \<open>Correctness\<close>

lemma block_new_iterator:
  assumes "layout bs R"
  shows "\<exists>s. Block_NewIterator (Block_new (block_image bs R)) = Inr s \<and> bi_pos bs R s (length bs)"
proof -
  note b = layout_bounds [OF assms]
  let ?c = "block_image bs R"
  have len: "length ?c = length (bdata bs) + 4 * length R + 4" by (simp add: block_image_def)
  have "drop (length ?c - 4) ?c = drop (length R * 4)
      (fixed_array (map (\<lambda>i. word_of_nat (boff bs i)) R @ [word_of_nat (length R)]) @ [])"
    unfolding len by (simp add: block_image_def mult.commute)
  then have n: "NumRestarts ?c (length ?c) = word_of_nat (length R)"
    unfolding NumRestarts_def by (simp only:) (subst DecodeFixed32_fixed_array, simp_all add: nth_append)
  have un: "unat (word_of_nat (length R) :: u32) = length R" "unat (1 + word_of_nat (length R) :: u32) = 1 + length R"
    using b(1,2) unat_word_of_nat_small [where 'a = 32, of "1 + length R"] by simp_all
  have "(length ?c - 4) div 4 \<ge> length R" unfolding len by simp
  then have "Block_new ?c = \<lparr> blk_data = ?c, blk_size = length ?c, blk_restart_offset = word_of_nat (length (bdata bs)) \<rparr>"
    by (simp add: Block_new_def Let_def n [unfolded len] un len)
  moreover have "(word_of_nat (length R) :: u32) \<noteq> 0"
    using word_of_nat_eq_small [where 'a = 32, of "length R" 0] b by simp
  ultimately have "Block_NewIterator (Block_new ?c) =
      Inr (Block_Iter_new ?c (word_of_nat (length (bdata bs))) (word_of_nat (length R)))"
    by (simp add: Block_NewIterator_def Let_def n [unfolded len] len)
  then show ?thesis by (simp add: bi_pos_def bi_end_def bi_base_def Block_Iter_new_def)
qed

text \<open>The iterator of a built block meets the contract of iterators over its entries.\<close>

lemma built_block_iterator:
  assumes "1 \<le> I" "length (block_of I es) < 2 ^ 32" "key_order cmp valid"
    and "\<forall>e \<in> set es. valid (fst e)" "sorted_entries (Compare cmp) es"
  shows "\<exists>inv pos. list_iterator (Block_ops cmp) (Compare cmp) valid inv es pos \<and>
    inv (Block_NewIterator (Block_new (block_of I es))) \<and>
    pos (Block_NewIterator (Block_new (block_of I es))) = length es"
proof -
  from block_of_layout [OF assms(1,2)] obtain bs R where
    b: "layout bs R" "block_of I es = block_image bs R" "map snd bs = es" by blast
  have "\<forall>e \<in> set bs. valid (fst (snd e))" using assms(4) unfolding b(3) [symmetric] by simp
  from sum_list_iterator [OF block_iter_list_iterator [OF b(1) assms(3) this], of EmptyIterator] assms(5) b(3)
  have "list_iterator (Block_ops cmp) (Compare cmp) valid (case_sum (\<lambda>_. False) (\<lambda>s. \<exists>i. bi_pos bs R s i)) es
      (case_sum (\<lambda>_. 0) (bi_index bs))" by (simp add: Block_ops_def)
  moreover from block_new_iterator [OF b(1)] obtain s where
    s: "Block_NewIterator (Block_new (block_image bs R)) = Inr s" "bi_pos bs R s (length bs)" by blast
  moreover have "length bs = length es" using b(3) by auto
  ultimately show ?thesis using bi_index_pos [OF b(1) s(2)] b(2)
    by (intro exI [of _ "case_sum (\<lambda>_. False) (\<lambda>s. \<exists>i. bi_pos bs R s i)"]
        exI [of _ "case_sum (\<lambda>_. 0) (bi_index bs)"] conjI) auto
qed

text \<open>
  C9. A block built from entries in key order gives them back: the iterator over the
  bytes of the block yields exactly the entries forwards and in reverse backwards, and a seek
  finds the first entry at or after the target, for every restart interval and every
  comparator that orders the keys.
\<close>

theorem block_roundtrip:
  assumes "1 \<le> I" "length (block_of I es) < 2 ^ 32" "key_order cmp valid"
    and "\<forall>e \<in> set es. valid (fst e)" "sorted_entries (Compare cmp) es"
  shows "it_forward (Block_ops cmp) (length es) (Block_NewIterator (Block_new (block_of I es))) = Some es \<and>
    it_backward (Block_ops cmp) (length es) (Block_NewIterator (Block_new (block_of I es))) = Some (rev es) \<and>
    (\<forall>t. valid t \<longrightarrow> it_lookup (Block_ops cmp) t (Block_NewIterator (Block_new (block_of I es))) =
       Some (List.find (\<lambda>e. 0 \<le> Compare cmp (fst e) t) es))"
proof -
  from built_block_iterator [OF assms] obtain inv pos where
    l: "list_iterator (Block_ops cmp) (Compare cmp) valid inv es pos"
      "inv (Block_NewIterator (Block_new (block_of I es)))" by blast
  show ?thesis
    using list_iterator.forward_scan [OF l] list_iterator.backward_scan [OF l]
      list_iterator.lookup_at [OF l] find_seek_pos [OF assms(3,5,4)] by simp
qed

theorem block_roundtrip_witness:
  "it_forward (Block_ops BytewiseComparator) 2
     (Block_NewIterator (Block_new (block_of 16 [(cstr ''ab'', cstr ''1''), (cstr ''ac'', cstr ''2'')]))) =
     Some [(cstr ''ab'', cstr ''1''), (cstr ''ac'', cstr ''2'')] \<and>
   it_lookup (Block_ops BytewiseComparator) (cstr ''abc'')
     (Block_NewIterator (Block_new (block_of 16 [(cstr ''ab'', cstr ''1''), (cstr ''ac'', cstr ''2'')]))) =
     Some (Some (cstr ''ac'', cstr ''2''))"
proof -
  let ?es = "[(cstr ''ab'', cstr ''1''), (cstr ''ac'', cstr ''2'')]"
  have "block_of 16 ?es = [0, 2, 1, 97, 98, 49, 1, 1, 1, 99, 50, 0, 0, 0, 0, 1, 0, 0, 0]" by code_simp
  then have "length (block_of 16 ?es) < 2 ^ 32" by simp
  moreover have "sorted_entries (Compare BytewiseComparator) ?es" by code_simp
  moreover have "List.find (\<lambda>e. 0 \<le> Compare BytewiseComparator (fst e) (cstr ''abc'')) ?es = Some (cstr ''ac'', cstr ''2'')"
    by code_simp
  ultimately show ?thesis
    using block_roundtrip [of 16 ?es BytewiseComparator "\<lambda>_. True"] bytewise.key_order_axioms
    by (simp add: numeral_2_eq_2 del: cstr_Cons)
qed

end
