(* ===== verification/Block_Safety.thy ===== *)
theory Block_Safety
  imports Block_Correctness
begin

text \<open>
  Block iterators over arbitrary bytes. Whatever a block contains, every operation returns
  and stays inside the block, as long as no entry has a key and a value length whose sum
  reaches \<open>2 ^ 32\<close>; the bounds test of \<open>DecodeEntry\<close> adds the two lengths in 32 bits, and a
  block with such an entry makes the iterator read past the end of the block.
\<close>

section \<open>States over arbitrary contents\<close>

text \<open>No entry that decodes at any offset has lengths whose sum wraps around.\<close>

definition entries_fit :: "bytes \<Rightarrow> nat \<Rightarrow> bool" where
  "entries_fit c r = list_all (\<lambda>i. case DecodeEntry (drop i (take r c)) of
     None \<Rightarrow> True | Some (s, n, v, q) \<Rightarrow> n \<le> n + v) [0..<r]"

definition bi_shape :: "bytes \<Rightarrow> nat \<Rightarrow> Block_Iter \<Rightarrow> bool" where
  "bi_shape c r s \<longleftrightarrow> bi_data s = c \<and> unat (bi_restarts s) = r \<and> 0 < bi_num_restarts s \<and>
     r + 4 * unat (bi_num_restarts s) + 4 = length c"

definition bi_live :: "Block_Iter \<Rightarrow> bool" where
  "bi_live s \<longleftrightarrow> bi_restart_index s < bi_num_restarts s \<and>
     (\<exists>off len. bi_value s = Some (off, len) \<and> unat (bi_current s) < off + len \<and> off + len \<le> unat (bi_restarts s))"

definition bi_ok :: "bytes \<Rightarrow> nat \<Rightarrow> Block_Iter \<Rightarrow> bool" where
  "bi_ok c r s \<longleftrightarrow> bi_shape c r s \<and> (bi_current s < bi_restarts s \<longrightarrow> bi_live s)"

text \<open>Ready to parse the entry at offset \<open>o\<close>.\<close>

definition bi_ready :: "Block_Iter \<Rightarrow> nat \<Rightarrow> bool" where
  "bi_ready s x \<longleftrightarrow> bi_restart_index s < bi_num_restarts s \<and> x < 2 ^ 32 \<and>
     (\<exists>off len. bi_value s = Some (off, len) \<and> off + len = x)"

lemma entries_fitD:
  assumes "entries_fit c r" "x < r" "DecodeEntry (drop x (take r c)) = Some (a, n, v, q)"
  shows "unat n + unat v < 2 ^ 32"
proof -
  have "x \<in> set [0..<r]" using assms(2) by simp
  with assms(1) have "case DecodeEntry (drop x (take r c)) of
      None \<Rightarrow> True | Some (s, n, v, q) \<Rightarrow> n \<le> n + v"
    unfolding entries_fit_def list_all_iff by (rule bspec)
  with assms(3) show ?thesis by (simp add: no_olen_add_nat)
qed

lemma entry_header_shorter:
  assumes "entry_header p = Some (s, n, v, q)"
  shows "length q + 3 \<le> length p"
proof -
  from assms obtain p1 p2 where
    "GetVarint32 p = Some (s, p1)" "GetVarint32 p1 = Some (n, p2)" "GetVarint32 p2 = Some (v, q)"
    by (auto simp: entry_header_def split: bind_splits)
  from this [THEN varint32.read_shorter] show ?thesis by linarith
qed

lemma DecodeEntry_bounds:
  assumes "DecodeEntry p = Some (s, n, v, q)" "length p < 2 ^ 32" "unat n + unat v < 2 ^ 32"
  shows "unat n + unat v \<le> length q" "length q + 3 \<le> length p"
proof -
  from assms(1) have h: "entry_header p = Some (s, n, v, q)" "\<not> (word_of_nat (length q) :: u32) < n + v"
    by (auto simp: DecodeEntry_eq split: if_splits bind_splits)
  show q: "length q + 3 \<le> length p" using entry_header_shorter [OF h(1)] .
  have "unat (n + v) = unat n + unat v" using assms(3) by (simp add: unat_plus_if')
  moreover have "unat (word_of_nat (length q) :: u32) = length q" using q assms(2) by simp
  ultimately show "unat n + unat v \<le> length q" using h(2) by (simp add: word_less_nat_alt)
qed

lemma advance_restart_total:
  assumes "unat (bi_num_restarts s) < 2 ^ 31" "i < bi_num_restarts s"
  shows "\<exists>i'. advance_restart s i = Some i' \<and> i' < bi_num_restarts s"
  using assms(2)
proof (induction "unat (bi_num_restarts s) - unat i" arbitrary: i rule: less_induct)
  case less
  have "unat i < unat (bi_num_restarts s)" using less.prems by (simp add: word_less_nat_alt)
  then have u: "unat (i + 1) = unat i + 1" using assms(1) by (simp add: unat_plus_if')
  show ?case
  proof (cases "i + 1 < bi_num_restarts s \<and> GetRestartPoint s (i + 1) < bi_current s")
    case True
    then have "unat (bi_num_restarts s) - unat (i + 1) < unat (bi_num_restarts s) - unat i"
      using u by (simp add: word_less_nat_alt) linarith
    from less.hyps [OF this] True show ?thesis by (subst advance_restart.simps) simp
  next
    case False
    then have "advance_restart s i = Some i" by (subst advance_restart.simps) (rule if_not_P)
    with less.prems show ?thesis by simp
  qed
qed

lemma parse_total:
  assumes "bi_shape c r s" "entries_fit c r" "length c < 2 ^ 32" "bi_ready s x"
  shows "\<exists>b s'. ParseNextKey s = Some (b, s') \<and> bi_shape c r s' \<and>
    (b \<longrightarrow> bi_live s' \<and> unat (bi_current s') = x \<and> x < r) \<and> (\<not> b \<longrightarrow> bi_current s' = bi_restarts s')"
proof -
  have sh: "bi_data s = c" "unat (bi_restarts s) = r" "r + 4 * unat (bi_num_restarts s) + 4 = length c"
    using assms(1) by (simp_all add: bi_shape_def)
  have ne: "NextEntryOffset s = Some (word_of_nat x)" and x: "x < 2 ^ 32" and ri: "bi_restart_index s < bi_num_restarts s"
    using assms(4) by (auto simp: bi_ready_def NextEntryOffset_def simp del: of_nat_add)
  have ge: "bi_restarts s \<le> word_of_nat x \<longleftrightarrow> r \<le> x" using x sh(2) by (simp add: word_le_nat_alt)
  show ?thesis
  proof (cases "r \<le> x")
    case True
    with ge show ?thesis using assms(1)
      by (intro exI [of _ False]) (simp add: ParseNextKey_def ne Let_def bi_shape_def)
  next
    case False
    let ?s1 = "s\<lparr> bi_current := word_of_nat x \<rparr>"
    let ?d = "DecodeEntry (drop x (take r c))"
    show ?thesis
    proof (cases "?d = None \<or> (\<exists>a n v q. ?d = Some (a, n, v, q) \<and> length (bi_key s) < unat a)")
      case True
      then have "ParseNextKey s = Some (False, CorruptionError ?s1)"
        using False ge x sh by (auto simp: ParseNextKey_def ne Let_def)
      then show ?thesis using assms(1)
        by (intro exI [of _ False]) (simp add: CorruptionError_def bi_shape_def del: cstr_Cons)
    next
      case False
      then obtain a n v q where d: "?d = Some (a, n, v, q)" "\<not> length (bi_key s) < unat a"
        by (cases ?d) auto
      have "unat n + unat v < 2 ^ 32"
        using entries_fitD [OF assms(2) _ d(1)] \<open>\<not> r \<le> x\<close> by simp
      from DecodeEntry_bounds [OF d(1) _ this] assms(3) have q: "unat n + unat v \<le> length q" "length q + 3 \<le> r - x"
        using \<open>\<not> r \<le> x\<close> sh(3) by auto
      define off where "off = r - length q"
      have off: "x < off" "off + unat n + unat v \<le> r" using q by (auto simp: off_def)
      have rd: "read_mem c off (unat n) = Some (take (unat n) (drop off c))"
        using off(2) sh(3) by (simp add: read_mem_def)
      let ?s2 = "?s1\<lparr> bi_key := take (unat a) (bi_key s) @ take (unat n) (drop off c),
        bi_value := Some (off + unat n, unat v) \<rparr>"
      have "unat (bi_num_restarts ?s2) < 2 ^ 31" using sh(3) assms(3) by simp
      from advance_restart_total [OF this, of "bi_restart_index s"] ri obtain i where
        i: "advance_restart ?s2 (bi_restart_index s) = Some i" "i < bi_num_restarts s" by auto
      have "ParseNextKey s = Some (True, ?s2\<lparr> bi_restart_index := i \<rparr>)"
        using \<open>\<not> r \<le> x\<close> ge x sh d rd i(1) by (simp add: ParseNextKey_def ne Let_def off_def [symmetric])
      then show ?thesis using assms(1) i(2) off x sh(2) \<open>\<not> r \<le> x\<close>
        by (auto simp: bi_shape_def bi_live_def)
    qed
  qed
qed

lemma live_ready:
  assumes "bi_live s"
  shows "\<exists>y. bi_ready s y \<and> unat (bi_current s) < y \<and> y \<le> unat (bi_restarts s) \<and> NextEntryOffset s = Some (word_of_nat y)"
proof -
  from assms obtain off len where v: "bi_value s = Some (off, len)" "unat (bi_current s) < off + len"
      "off + len \<le> unat (bi_restarts s)" "bi_restart_index s < bi_num_restarts s" by (auto simp: bi_live_def)
  moreover have "off + len < 2 ^ 32" using v(3) unat_u32_less [of "bi_restarts s"] by linarith
  ultimately show ?thesis
    by (intro exI [of _ "off + len"]) (auto simp: bi_ready_def NextEntryOffset_def simp del: of_nat_add)
qed

lemma parse_ok: "bi_shape c r s \<Longrightarrow> bi_live s \<or> bi_current s = bi_restarts s \<Longrightarrow> bi_ok c r s"
  by (auto simp: bi_ok_def)

lemma parse_until_total:
  assumes "entries_fit c r" "length c < 2 ^ 32" "bi_shape c r s" "bi_ready s x"
  shows "\<exists>s'. parse_until lim s = Some s' \<and> bi_ok c r s'"
  using assms(3,4)
proof (induction "r - x" arbitrary: s x rule: less_induct)
  case less
  from parse_total [OF less.prems(1) assms(1,2) less.prems(2)] obtain b s' where
    p: "ParseNextKey s = Some (b, s')" "bi_shape c r s'"
      "b \<longrightarrow> bi_live s' \<and> unat (bi_current s') = x \<and> x < r" "\<not> b \<longrightarrow> bi_current s' = bi_restarts s'" by blast
  have ok: "bi_ok c r s'" using p by (intro parse_ok) auto
  show ?case
  proof (cases b)
    case True
    with p(3) live_ready [of s'] obtain y where
      y: "bi_ready s' y" "x < y" "y \<le> unat (bi_restarts s')" "NextEntryOffset s' = Some (word_of_nat y)" by auto
    have "unat (bi_restarts s') = r" using p(2) by (simp add: bi_shape_def)
    then have "r - y < r - x" using y p(3) True by simp
    from less.hyps [OF this p(2) y(1)] ok True p(1) y(4) show ?thesis
      by (subst parse_until.simps) simp
  qed (use p ok in \<open>subst parse_until.simps, simp\<close>)
qed

lemma seek_linear_total:
  assumes "entries_fit c r" "length c < 2 ^ 32" "bi_shape c r s" "bi_ready s x"
  shows "\<exists>s'. seek_linear cmp t s = Some s' \<and> bi_ok c r s'"
  using assms(3,4)
proof (induction "r - x" arbitrary: s x rule: less_induct)
  case less
  from parse_total [OF less.prems(1) assms(1,2) less.prems(2)] obtain b s' where
    p: "ParseNextKey s = Some (b, s')" "bi_shape c r s'"
      "b \<longrightarrow> bi_live s' \<and> unat (bi_current s') = x \<and> x < r" "\<not> b \<longrightarrow> bi_current s' = bi_restarts s'" by blast
  have ok: "bi_ok c r s'" using p by (intro parse_ok) auto
  show ?case
  proof (cases b)
    case True
    with p(3) live_ready [of s'] obtain y where
      y: "bi_ready s' y" "x < y" "y \<le> unat (bi_restarts s')" by auto
    have "unat (bi_restarts s') = r" using p(2) by (simp add: bi_shape_def)
    then have "r - y < r - x" using y p(3) True by simp
    from less.hyps [OF this p(2) y(1)] ok True p(1) show ?thesis
      by (subst seek_linear.simps) simp
  qed (use p ok in \<open>subst seek_linear.simps, simp\<close>)
qed

lemma restart_ready:
  assumes "bi_shape c r s" "i < bi_num_restarts s"
  shows "bi_shape c r (SeekToRestartPoint i s)" "bi_ready (SeekToRestartPoint i s) (unat (GetRestartPoint s i))"
  using assms unat_u32_less [of "GetRestartPoint s i"]
  by (auto simp: bi_shape_def bi_ready_def SeekToRestartPoint_def)

lemma seek_restart_total:
  assumes "bi_shape c r s" "entries_fit c r" "length c < 2 ^ 32" "l \<le> h" "h < bi_num_restarts s"
  shows "\<exists>res. seek_restart cmp t s l h = Some res \<and> (\<forall>i. res = Some i \<longrightarrow> i < bi_num_restarts s)"
  using assms(4,5)
proof (induction "unat h - unat l" arbitrary: l h rule: less_induct)
  case less
  have sh: "bi_data s = c" "unat (bi_restarts s) = r" "r + 4 * unat (bi_num_restarts s) + 4 = length c"
    using assms(1) by (simp_all add: bi_shape_def)
  show ?case
  proof (cases "l < h")
    case False
    then show ?thesis using less.prems by (subst seek_restart.simps) auto
  next
    case True
    let ?m = "(l + h + 1) div 2"
    have n: "unat l < unat h" "unat h < unat (bi_num_restarts s)" "unat (bi_num_restarts s) < 2 ^ 30"
      using True less.prems sh(3) assms(3) by (simp_all add: word_less_nat_alt)
    have m: "unat ?m = (unat l + unat h + 1) div 2"
    proof -
      have "unat (l + h) = unat l + unat h" using n by (simp add: unat_plus_if')
      then have "unat (l + h + 1) = unat l + unat h + 1" using n by (simp add: unat_plus_if')
      then show ?thesis by (simp add: unat_div)
    qed
    have m1: "unat (?m - 1) = unat ?m - 1" using m n(1) by (subst unat_minus_one) (auto simp: unat_eq_0)
    have ord: "l \<le> ?m" "?m \<le> h" "l \<le> ?m - 1" "?m - 1 \<le> h" using m m1 n(1) by (simp_all add: word_le_nat_alt)
    let ?x = "unat (GetRestartPoint s ?m)"
    let ?d = "DecodeEntry (drop ?x (take r c))"
    show ?thesis
    proof (cases "?d = None \<or> (\<exists>a n v q. ?d = Some (a, n, v, q) \<and> a \<noteq> 0)")
      case True
      then have "seek_restart cmp t s l h = Some None"
        using \<open>l < h\<close> sh by (subst seek_restart.simps) (auto simp: Let_def)
      then show ?thesis by simp
    next
      case False
      then obtain n v q where d: "?d = Some (0, n, v, q)" by (cases ?d) auto
      have "?x < r" using d by (cases "?x < r") (simp_all add: DecodeEntry_def)
      then have "unat n + unat v < 2 ^ 32"
        using entries_fitD [OF assms(2) _ d] by simp
      moreover have "length (drop ?x (take r c)) < 2 ^ 32" using assms(3) sh(3) by simp
      ultimately have "unat n + unat v \<le> length q" "length q + 3 \<le> length (drop ?x (take r c))"
        using DecodeEntry_bounds [OF d] by blast+
      then have "unat n + unat v \<le> length q" "length q \<le> r" using sh(3) by simp_all
      then have "r - length q + unat n \<le> length c" using sh(3) by linarith
      then obtain k where "read_mem c (r - length q) (unat n) = Some k"
        by (simp add: read_mem_def)
      then have step: "seek_restart cmp t s l h =
          (if Compare cmp k t < 0 then seek_restart cmp t s ?m h else seek_restart cmp t s l (?m - 1))"
        using \<open>l < h\<close> sh d by (subst seek_restart.simps) (simp add: Let_def)
      have "\<exists>res. seek_restart cmp t s ?m h = Some res \<and> (\<forall>i. res = Some i \<longrightarrow> i < bi_num_restarts s)"
        using m n(1) ord less.prems by (intro less.hyps) linarith+
      moreover have "\<exists>res. seek_restart cmp t s l (?m - 1) = Some res \<and> (\<forall>i. res = Some i \<longrightarrow> i < bi_num_restarts s)"
        using m m1 n(1) ord less.prems by (intro less.hyps) (linarith | rule le_less_trans)+
      ultimately show ?thesis unfolding step by simp
    qed
  qed
qed

section \<open>Safety and termination\<close>

lemma new_iterator_ok:
  assumes "length c < 2 ^ 32" "Block_NewIterator (Block_new c) = Inr s0"
  shows "bi_ok c (unat (bi_restarts s0)) s0"
proof -
  define n where "n = NumRestarts c (length c)"
  from assms(2) have c: "4 \<le> length c" "unat n \<le> (length c - 4) div 4" "n \<noteq> 0"
      and s0: "s0 = Block_Iter_new c (word_of_nat (length c - unat (1 + n) * 4)) n"
    by (auto simp: Block_NewIterator_def Block_new_def n_def Let_def split: if_splits)
  have "unat n < 2 ^ 30" using c(2) assms(1) by (simp add: less_eq_div_iff_mult_less_eq)
  then have u: "unat (1 + n) = 1 + unat n" by (simp add: unat_plus_if')
  have "4 * unat n + 4 \<le> length c" using c by (simp add: less_eq_div_iff_mult_less_eq)
  then have "unat (bi_restarts s0) + 4 * unat n + 4 = length c"
    using assms(1) unat_word_of_nat_small [where 'a = 32, of "length c - unat (1 + n) * 4"]
    by (simp add: s0 Block_Iter_new_def u del: of_nat_diff of_nat_mult of_nat_add)
  then show ?thesis using c(3) by (simp add: bi_ok_def bi_shape_def s0 Block_Iter_new_def word_neq_0_conv)
qed

lemma last_restart_less: "bi_shape c r s \<Longrightarrow> bi_num_restarts s - 1 < bi_num_restarts s"
  by (simp add: bi_shape_def word_less_nat_alt unat_minus_one unat_gt_0)

lemma parse_move:
  assumes "entries_fit c r" "length c < 2 ^ 32" "bi_shape c r s" "bi_ready s x"
  shows "\<exists>s'. map_option snd (ParseNextKey s) = Some s' \<and> bi_ok c r s'"
proof -
  from parse_total [OF assms(3,1,2,4)] obtain b s' where
    "ParseNextKey s = Some (b, s')" "bi_shape c r s'" "bi_live s' \<or> bi_current s' = bi_restarts s'" by blast
  with parse_ok [of c r s'] show ?thesis by simp
qed

lemma Seek_total:
  assumes "entries_fit c r" "length c < 2 ^ 32" "bi_shape c r s"
  shows "\<exists>s'. Block_Iter_Seek cmp t s = Some s' \<and> bi_ok c r s'"
proof -
  from seek_restart_total [OF assms(3,1,2) _ last_restart_less [OF assms(3)], of 0 cmp t] obtain res where
    r: "seek_restart cmp t s 0 (bi_num_restarts s - 1) = Some res" "\<forall>i. res = Some i \<longrightarrow> i < bi_num_restarts s"
    by auto
  show ?thesis
  proof (cases res)
    case None
    then show ?thesis using r(1) assms(3)
      by (simp add: Block_Iter_Seek_def CorruptionError_def bi_ok_def bi_shape_def)
  next
    case (Some i)
    with r(2) have "i < bi_num_restarts s" by simp
    from seek_linear_total [OF assms(1,2) restart_ready [OF assms(3) this]] r(1) Some show ?thesis
      by (simp add: Block_Iter_Seek_def)
  qed
qed

lemma prev_restart_le: "prev_restart s x i = Some j \<Longrightarrow> j \<le> i"
proof (induction s x i rule: prev_restart.induct)
  case (1 s x i)
  show ?case
  proof (cases "GetRestartPoint s i \<ge> x")
    case True
    with 1(2) have i: "i \<noteq> 0" "prev_restart s x (i - 1) = Some j"
      by (auto simp: prev_restart.simps [of s x i] split: if_splits)
    with 1(1) [OF True] have "j \<le> i - 1" by simp
    moreover have "i - 1 \<le> i" using i(1) by (simp add: word_le_nat_alt unat_minus_one)
    ultimately show ?thesis by (rule order_trans)
  qed (use 1(2) in \<open>simp add: prev_restart.simps [of s x i]\<close>)
qed

lemma Prev_total:
  assumes "entries_fit c r" "length c < 2 ^ 32" "bi_shape c r s" "bi_restart_index s < bi_num_restarts s"
  shows "\<exists>s'. Block_Iter_Prev s = Some s' \<and> bi_ok c r s'"
proof (cases "prev_restart s (bi_current s) (bi_restart_index s)")
  case None
  then show ?thesis using assms(3) by (simp add: Block_Iter_Prev_def bi_ok_def bi_shape_def)
next
  case (Some i)
  have "i < bi_num_restarts s" using prev_restart_le [OF Some] assms(4) by (rule le_less_trans)
  from parse_until_total [OF assms(1,2) restart_ready [OF assms(3) this]] Some show ?thesis
    by (simp add: Block_Iter_Prev_def)
qed

definition evil_block :: bytes where
  "evil_block = [0, 255, 255, 255, 255, 15, 1] @ EncodeFixed32 0 @ EncodeFixed32 1"

lemma evil_block_overrun: "it_SeekToFirst (Block_ops cmp) (Block_NewIterator (Block_new evil_block)) = None"
proof -
  have e: "evil_block = [0, 255, 255, 255, 255, 15, 1, 0, 0, 0, 0, 1, 0, 0, 0]" by code_simp
  have "Block_NewIterator (Block_new evil_block) = Inr (Block_Iter_new evil_block 7 1)" by code_simp
  moreover have "GetRestartPoint (Block_Iter_new evil_block 7 1) 0 = 0" by code_simp
  moreover have "DecodeEntry [0, 255, 255, 255, 255, 15, 1] = Some (0, 4294967295, 1, [])" by code_simp
  ultimately show ?thesis
    by (simp add: Block_ops_def sum_ops_def Block_Iter_ops_def SeekToRestartPoint_def ParseNextKey_def
        NextEntryOffset_def Block_Iter_new_def read_mem_def Let_def e)
qed

text \<open>
  C12. Whatever bytes a block holds, every move of its iterator returns, keeps the
  iterator inside the block (so does the value it shows), and leaves a state from which every
  further move returns, provided no entry of the block has a key and a value length that
  together reach \<open>2 ^ 32\<close>. The condition is needed: on the block \<open>evil_block\<close> of 15 bytes, whose
  only entry has such lengths, the first move reads memory behind the block.
\<close>

theorem block_moves_return:
  assumes "length c < 2 ^ 32" "Block_NewIterator (Block_new c) = Inr s0"
    and "entries_fit c (unat (bi_restarts s0))"
  shows "bi_ok c (unat (bi_restarts s0)) s0 \<and>
    (\<forall>s. bi_ok c (unat (bi_restarts s0)) s \<longrightarrow>
       (\<exists>s'. it_SeekToFirst (Block_Iter_ops cmp) s = Some s' \<and> bi_ok c (unat (bi_restarts s0)) s') \<and>
       (\<exists>s'. it_SeekToLast (Block_Iter_ops cmp) s = Some s' \<and> bi_ok c (unat (bi_restarts s0)) s') \<and>
       (\<forall>t. \<exists>s'. it_Seek (Block_Iter_ops cmp) t s = Some s' \<and> bi_ok c (unat (bi_restarts s0)) s') \<and>
       (it_Valid (Block_Iter_ops cmp) s \<longrightarrow>
          (\<exists>s'. it_Next (Block_Iter_ops cmp) s = Some s' \<and> bi_ok c (unat (bi_restarts s0)) s') \<and>
          (\<exists>s'. it_Prev (Block_Iter_ops cmp) s = Some s' \<and> bi_ok c (unat (bi_restarts s0)) s') \<and>
          (\<exists>off len. bi_value s = Some (off, len) \<and> off + len \<le> length c))) \<and>
    it_SeekToFirst (Block_ops cmp) (Block_NewIterator (Block_new evil_block)) = None"
proof (intro conjI allI impI)
  let ?r = "unat (bi_restarts s0)"
  show "bi_ok c ?r s0" by (rule new_iterator_ok [OF assms(1,2)])
  show "it_SeekToFirst (Block_ops cmp) (Block_NewIterator (Block_new evil_block)) = None"
    by (rule evil_block_overrun)
  fix s assume ok: "bi_ok c ?r s"
  then have sh: "bi_shape c ?r s" "0 < bi_num_restarts s" by (simp_all add: bi_ok_def bi_shape_def)
  show "\<exists>s'. it_SeekToFirst (Block_Iter_ops cmp) s = Some s' \<and> bi_ok c ?r s'"
    using parse_move [OF assms(3,1) restart_ready [OF sh]] by (simp add: Block_Iter_ops_def)
  show "\<exists>s'. it_SeekToLast (Block_Iter_ops cmp) s = Some s' \<and> bi_ok c ?r s'"
    using parse_until_total [OF assms(3,1) restart_ready [OF sh(1) last_restart_less [OF sh(1)]]]
    by (simp add: Block_Iter_ops_def Block_Iter_SeekToLast_def)
  show "\<exists>s'. it_Seek (Block_Iter_ops cmp) t s = Some s' \<and> bi_ok c ?r s'" for t
    using Seek_total [OF assms(3,1) sh(1)] by (simp add: Block_Iter_ops_def)
  assume "it_Valid (Block_Iter_ops cmp) s"
  with ok have live: "bi_live s" by (simp add: Block_Iter_ops_def bi_ok_def)
  then obtain y where "bi_ready s y" using live_ready by blast
  from parse_move [OF assms(3,1) sh(1) this]
  show "\<exists>s'. it_Next (Block_Iter_ops cmp) s = Some s' \<and> bi_ok c ?r s'" by (simp add: Block_Iter_ops_def)
  show "\<exists>s'. it_Prev (Block_Iter_ops cmp) s = Some s' \<and> bi_ok c ?r s'"
    using Prev_total [OF assms(3,1) sh(1)] live by (simp add: Block_Iter_ops_def bi_live_def)
  show "\<exists>off len. bi_value s = Some (off, len) \<and> off + len \<le> length c"
    using live sh(1) by (auto simp: bi_live_def bi_shape_def)
qed

theorem block_moves_return_witness:
  "\<exists>s'. it_Seek (Block_Iter_ops BytewiseComparator) (cstr ''b'')
      (Block_Iter_new [0, 1, 1, 97, 49, 9, 9, 9, 0, 0, 0, 0, 1, 0, 0, 0] 8 1) = Some s'"
proof -
  let ?c = "[0, 1, 1, 97, 49, 9, 9, 9, 0, 0, 0, 0, 1, 0, 0, 0] :: bytes"
  have n: "Block_NewIterator (Block_new ?c) = Inr (Block_Iter_new ?c 8 1)" by code_simp
  have "entries_fit ?c 8" by code_simp
  then have "entries_fit ?c (unat (bi_restarts (Block_Iter_new ?c 8 1)))" by (simp add: Block_Iter_new_def)
  moreover have "length ?c < 2 ^ 32" by simp
  ultimately show ?thesis using block_moves_return [OF _ n, of BytewiseComparator] by blast
qed

end
