(* ===== verification/Sorted_Runs.thy ===== *)
theory Sorted_Runs
  imports Iterator
begin

text \<open>
  Sorted lists of entries with valid keys, and the positions that sets of keys closed downwards
  have in them. The proofs about the merging iterator and about the iterator of a database
  describe their states by such cuts.
\<close>

section \<open>Cuts of sorted lists\<close>

definition count_in :: "(bytes \<Rightarrow> bool) \<Rightarrow> entry list \<Rightarrow> nat" where
  "count_in L es = length (filter (\<lambda>e. L (fst e)) es)"

lemma seek_pos_count: "seek_pos (Compare cmp) t es = count_in (\<lambda>k. Compare cmp k t < 0) es"
  by (simp add: seek_pos_def count_in_def)

lemma count_in_le [simp]: "count_in L es \<le> length es"
  by (simp add: count_in_def)

lemma count_in_eqI:
  assumes "\<And>i. i < length es \<Longrightarrow> L (fst (es ! i)) \<longleftrightarrow> i < c" "c \<le> length es"
  shows "count_in L es = c"
proof -
  have "{i. i < length es \<and> L (fst (es ! i))} = {..<c}" using assms by fastforce
  then show ?thesis by (simp add: count_in_def length_filter_conv_card)
qed

lemma count_in_cong: "(\<And>e. e \<in> set es \<Longrightarrow> L (fst e) = L' (fst e)) \<Longrightarrow> count_in L es = count_in L' es"
  unfolding count_in_def by (metis (no_types, lifting) filter_cong)

text \<open>A sorted list of valid keys in a total order, and a set of keys closed downwards.\<close>

definition sorted_run :: "Comparator \<Rightarrow> (bytes \<Rightarrow> bool) \<Rightarrow> entry list \<Rightarrow> bool" where
  "sorted_run cmp valid es \<longleftrightarrow> sorted_entries (Compare cmp) es \<and> (\<forall>e \<in> set es. valid (fst e))"

definition key_cut :: "Comparator \<Rightarrow> (bytes \<Rightarrow> bool) \<Rightarrow> (bytes \<Rightarrow> bool) \<Rightarrow> bool" where
  "key_cut cmp valid L \<longleftrightarrow> (\<forall>a b. valid a \<longrightarrow> valid b \<longrightarrow> L b \<longrightarrow> Compare cmp a b < 0 \<longrightarrow> L a)"

lemma sorted_run_less:
  "sorted_run cmp valid es \<Longrightarrow> i < j \<Longrightarrow> j < length es \<Longrightarrow> Compare cmp (fst (es ! i)) (fst (es ! j)) < 0"
  using sorted_wrt_nth_less [of "\<lambda>a b. Compare cmp (fst a) (fst b) < 0" es i j]
  by (simp add: sorted_run_def sorted_entries_def)

lemma sorted_run_valid: "sorted_run cmp valid es \<Longrightarrow> i < length es \<Longrightarrow> valid (fst (es ! i))"
  by (simp add: sorted_run_def)

lemma cut_nth:
  assumes "key_cut cmp valid L" "sorted_run cmp valid es" "i < length es"
  shows "L (fst (es ! i)) \<longleftrightarrow> i < count_in L es"
proof -
  have down: "L (fst (es ! i))" if "L (fst (es ! j))" "i \<le> j" "j < length es" for i j
  proof (cases "i = j")
    case False
    with that have "Compare cmp (fst (es ! i)) (fst (es ! j)) < 0" "valid (fst (es ! i))" "valid (fst (es ! j))"
      using sorted_run_less [OF assms(2)] sorted_run_valid [OF assms(2)] by simp_all
    with assms(1) that(1) show ?thesis unfolding key_cut_def by blast
  qed (use that in simp)
  show ?thesis using assms(3) down unfolding count_in_def
  proof (induction es arbitrary: i)
    case (Cons e es)
    have down': "L (fst (es ! i))" if "L (fst (es ! j))" "i \<le> j" "j < length es" for i j
      using Cons.prems(2) [of "Suc j" "Suc i"] that by simp
    show ?case
    proof (cases "L (fst e)")
      case True
      then show ?thesis using Cons.IH [of "i - 1", OF _ down'] Cons.prems(1) by (cases i) auto
    next
      case False
      have "\<not> L (fst ((e # es) ! j))" if "j < length (e # es)" for j
        using Cons.prems(2) [of j 0] that False by auto
      then have "filter (\<lambda>e. L (fst e)) (e # es) = []" by (metis filter_False in_set_conv_nth)
      with \<open>\<And>j. j < length (e # es) \<Longrightarrow> \<not> L (fst ((e # es) ! j))\<close> Cons.prems(1) show ?thesis by auto
    qed
  qed simp
qed

lemma key_cut_less: "key_order cmp valid \<Longrightarrow> valid k \<Longrightarrow> key_cut cmp valid (\<lambda>a. Compare cmp a k < 0)"
  unfolding key_cut_def by (meson key_order.compare_trans)

lemma key_cut_le: "key_order cmp valid \<Longrightarrow> valid k \<Longrightarrow> key_cut cmp valid (\<lambda>a. Compare cmp a k \<le> 0)"
  unfolding key_cut_def by (meson key_order.compare_less_le_trans less_imp_le)

lemma sorted_run_cmp:
  assumes "key_order cmp valid" "sorted_run cmp valid es" "i < length es" "j < length es"
  shows "Compare cmp (fst (es ! i)) (fst (es ! j)) < 0 \<longleftrightarrow> i < j"
    and "Compare cmp (fst (es ! i)) (fst (es ! j)) \<le> 0 \<longleftrightarrow> i \<le> j"
proof -
  note v = sorted_run_valid [OF assms(2,3)] sorted_run_valid [OF assms(2,4)]
  note ij = sorted_run_less [OF assms(2), of i j] and ji = sorted_run_less [OF assms(2), of j i]
  show "Compare cmp (fst (es ! i)) (fst (es ! j)) < 0 \<longleftrightarrow> i < j"
    using ij ji assms key_order.compare_less_asym [OF assms(1) v] key_order.compare_refl [OF assms(1) v(1)]
    by (cases i j rule: linorder_cases) auto
  show "Compare cmp (fst (es ! i)) (fst (es ! j)) \<le> 0 \<longleftrightarrow> i \<le> j"
    using ij ji assms key_order.compare_not_less [OF assms(1) v(2,1)] key_order.compare_refl [OF assms(1) v(1)]
    by (cases i j rule: linorder_cases) auto
qed

text \<open>The cuts below and up to a key of the list, and at a key that is not in it.\<close>

lemma count_at_key:
  assumes "key_order cmp valid" "sorted_run cmp valid es" "i < length es"
  shows "count_in (\<lambda>a. Compare cmp a (fst (es ! i)) < 0) es = i"
    and "count_in (\<lambda>a. Compare cmp a (fst (es ! i)) \<le> 0) es = Suc i"
  using assms(3) sorted_run_cmp [OF assms(1,2) _ assms(3)] by (auto intro!: count_in_eqI)

lemma count_off_key:
  assumes "key_order cmp valid" "sorted_run cmp valid es" "valid k" "k \<notin> fst ` set es"
  shows "count_in (\<lambda>a. Compare cmp a k \<le> 0) es = count_in (\<lambda>a. Compare cmp a k < 0) es"
proof (rule count_in_cong)
  fix e assume "e \<in> set es"
  then show "(Compare cmp (fst e) k \<le> 0) = (Compare cmp (fst e) k < 0)"
    using key_order.compare_le_iff [OF assms(1) _ assms(3), of "fst e"] assms(2,4)
    by (auto simp: sorted_run_def)
qed

lemma sorted_run_unique:
  assumes "key_order cmp valid" "sorted_run cmp valid xs" "sorted_run cmp valid ys" "set xs = set ys"
  shows "xs = ys"
  using assms(2-)
proof (induction xs arbitrary: ys)
  case (Cons x xs)
  then obtain y zs where ys: "ys = y # zs" by (cases ys) auto
  have v: "valid (fst x)" "valid (fst y)" and lt: "\<And>z. z \<in> set xs \<Longrightarrow> Compare cmp (fst x) (fst z) < 0"
      "\<And>z. z \<in> set zs \<Longrightarrow> Compare cmp (fst y) (fst z) < 0"
    and runs: "sorted_run cmp valid xs" "sorted_run cmp valid zs"
    using Cons.prems ys by (auto simp: sorted_run_def sorted_entries_def)
  have xy: "x = y"
  proof (rule ccontr)
    assume "x \<noteq> y"
    then have "x \<in> set zs" "y \<in> set xs" using Cons.prems(3) ys by auto
    with lt have "Compare cmp (fst x) (fst y) < 0" "Compare cmp (fst y) (fst x) < 0" by blast+
    with key_order.compare_less_asym [OF assms(1) v] show False by blast
  qed
  have irrefl: "\<not> Compare cmp (fst x) (fst x) < 0" using key_order.compare_less_irrefl [OF assms(1) v(1)] .
  then have "x \<notin> set xs" "x \<notin> set zs" using lt xy by blast+
  then have "set xs = set zs" using Cons.prems(3) ys xy by auto
  with Cons.IH [OF runs] xy ys show ?case by simp
qed simp

end
