(* ===== verification/Iterator_Wrapper.thy ===== *)
theory Iterator_Wrapper
  imports Iterator
begin

text \<open>
  The wrapper of \<open>table/iterator_wrapper.h\<close>, which caches the validity and the key of the
  iterator it holds. An iterator that is not set is \<open>None\<close>, and using it has no result.
\<close>

section \<open>The wrapper\<close>

record 's IteratorWrapper =
  iw_iter :: "'s option"
  iw_valid :: bool
  iw_key :: bytes

definition IteratorWrapper_new :: "'s IteratorWrapper" where
  "IteratorWrapper_new = \<lparr> iw_iter = None, iw_valid = False, iw_key = [] \<rparr>"

definition iw_Update :: "'s Iterator \<Rightarrow> 's \<Rightarrow> 's IteratorWrapper \<Rightarrow> 's IteratorWrapper" where
  "iw_Update ops it w =
     (let w = w\<lparr> iw_iter := Some it, iw_valid := it_Valid ops it \<rparr> in
      if iw_valid w then w\<lparr> iw_key := it_key ops it \<rparr> else w)"

definition iw_Set :: "'s Iterator \<Rightarrow> 's option \<Rightarrow> 's IteratorWrapper \<Rightarrow> 's IteratorWrapper" where
  "iw_Set ops iter w =
     (case iter of None \<Rightarrow> w\<lparr> iw_iter := None, iw_valid := False \<rparr> | Some it \<Rightarrow> iw_Update ops it w)"

definition iw_move :: "'s Iterator \<Rightarrow> ('s \<Rightarrow> 's option) \<Rightarrow> 's IteratorWrapper \<Rightarrow> 's IteratorWrapper option" where
  "iw_move ops f w =
     (case iw_iter w of None \<Rightarrow> None | Some it \<Rightarrow> map_option (\<lambda>it'. iw_Update ops it' w) (f it))"

definition iw_Next :: "'s Iterator \<Rightarrow> 's IteratorWrapper \<Rightarrow> 's IteratorWrapper option" where
  "iw_Next ops = iw_move ops (it_Next ops)"

definition iw_Prev :: "'s Iterator \<Rightarrow> 's IteratorWrapper \<Rightarrow> 's IteratorWrapper option" where
  "iw_Prev ops = iw_move ops (it_Prev ops)"

definition iw_Seek :: "'s Iterator \<Rightarrow> bytes \<Rightarrow> 's IteratorWrapper \<Rightarrow> 's IteratorWrapper option" where
  "iw_Seek ops k = iw_move ops (it_Seek ops k)"

definition iw_SeekToFirst :: "'s Iterator \<Rightarrow> 's IteratorWrapper \<Rightarrow> 's IteratorWrapper option" where
  "iw_SeekToFirst ops = iw_move ops (it_SeekToFirst ops)"

definition iw_SeekToLast :: "'s Iterator \<Rightarrow> 's IteratorWrapper \<Rightarrow> 's IteratorWrapper option" where
  "iw_SeekToLast ops = iw_move ops (it_SeekToLast ops)"

definition iw_value :: "'s Iterator \<Rightarrow> 's IteratorWrapper \<Rightarrow> bytes" where
  "iw_value ops w = (case iw_iter w of None \<Rightarrow> [] | Some it \<Rightarrow> it_value ops it)"

definition iw_status :: "'s Iterator \<Rightarrow> 's IteratorWrapper \<Rightarrow> Status" where
  "iw_status ops w = (case iw_iter w of None \<Rightarrow> OK | Some it \<Rightarrow> it_status ops it)"

section \<open>Wrapped children\<close>

text \<open>The wrapper holds an iterator at position \<open>c\<close> and its cached values are up to date.\<close>

definition wrapped :: "'s Iterator \<Rightarrow> ('s \<Rightarrow> bool) \<Rightarrow> ('s \<Rightarrow> nat) \<Rightarrow> 's IteratorWrapper \<Rightarrow> nat \<Rightarrow> bool" where
  "wrapped ops I p w c \<longleftrightarrow> (\<exists>it. iw_iter w = Some it \<and> I it \<and> p it = c \<and> iw_valid w = it_Valid ops it \<and>
     (iw_valid w \<longrightarrow> iw_key w = it_key ops it))"

lemma wrapped_Update: "I it \<Longrightarrow> wrapped ops I p (iw_Update ops it w) (p it)"
  by (simp add: wrapped_def iw_Update_def Let_def)

lemma wrapped_move:
  assumes "wrapped ops I p w c" "\<And>it. I it \<Longrightarrow> p it = c \<Longrightarrow> \<exists>it'. f it = Some it' \<and> I it' \<and> p it' = c'"
  shows "\<exists>w'. iw_move ops f w = Some w' \<and> wrapped ops I p w' c'"
proof -
  from assms(1) obtain it where it: "iw_iter w = Some it" "I it" "p it = c" by (auto simp: wrapped_def)
  with assms(2) obtain it' where "f it = Some it'" "I it'" "p it' = c'" by blast
  note it(1) this
  then show ?thesis using wrapped_Update [of I it' ops p w] by (simp add: iw_move_def)
qed

context list_iterator
begin

lemma wrapped_ops:
  assumes "wrapped ops inv pos w c"
  shows "\<exists>w'. iw_SeekToFirst ops w = Some w' \<and> wrapped ops inv pos w' 0"
    and "\<exists>w'. iw_SeekToLast ops w = Some w' \<and> wrapped ops inv pos w' (last_pos entries)"
    and "ok t \<Longrightarrow> \<exists>w'. iw_Seek ops t w = Some w' \<and> wrapped ops inv pos w' (seek_pos cmp t entries)"
    and "c < length entries \<Longrightarrow> \<exists>w'. iw_Next ops w = Some w' \<and> wrapped ops inv pos w' (Suc c)"
    and "c < length entries \<Longrightarrow> \<exists>w'. iw_Prev ops w = Some w' \<and> wrapped ops inv pos w' (Iterator.prev_pos entries c)"
  unfolding iw_SeekToFirst_def iw_SeekToLast_def iw_Seek_def iw_Next_def iw_Prev_def
  using seek_first seek_last seek next_pos prev_pos by (auto intro!: wrapped_move [OF assms])

lemma wrapped_values:
  assumes "wrapped ops inv pos w c"
  shows "c \<le> length entries" "iw_valid w \<longleftrightarrow> c < length entries"
    and "c < length entries \<Longrightarrow> iw_key w = fst (entries ! c) \<and> iw_value ops w = snd (entries ! c)"
    and "iw_status ops w = OK"
  using assms pos_le valid_iff key val status_ok
  by (auto simp: wrapped_def iw_value_def iw_status_def)

end

end
