(* ===== verification/Merger.thy ===== *)
theory Merger
  imports Iterator_Wrapper
begin

text \<open>
  \<open>table/merger.cc\<close>: an iterator over the union of several sorted sequences, which can change
  direction at any entry. Children are reached through the record of their operations.
\<close>

section \<open>The merging iterator\<close>

datatype Direction = kForward | kReverse

text \<open>The pointer \<open>current_\<close> is the index of a child.\<close>

record 's MergingIterator =
  mi_children :: "'s IteratorWrapper list"
  mi_current :: "nat option"
  mi_direction :: Direction

definition MergingIterator_new :: "'s Iterator \<Rightarrow> 's list \<Rightarrow> 's MergingIterator" where
  "MergingIterator_new ops children =
     \<lparr> mi_children = map (\<lambda>it. iw_Set ops (Some it) IteratorWrapper_new) children,
       mi_current = None, mi_direction = kForward \<rparr>"

text \<open>The loop \<open>for (i = 0; i < n; i++)\<close> that runs \<open>f i\<close> on child \<open>i\<close>.\<close>

fun for_children :: "(nat \<Rightarrow> 'w \<Rightarrow> 'w option) \<Rightarrow> nat \<Rightarrow> 'w list \<Rightarrow> 'w list option" where
  "for_children f i [] = Some []"
| "for_children f i (w # ws) =
     Option.bind (f i w) (\<lambda>w'. map_option (Cons w') (for_children f (Suc i) ws))"

fun find_smallest :: "Comparator \<Rightarrow> 's IteratorWrapper list \<Rightarrow> nat list \<Rightarrow> nat option \<Rightarrow> nat option" where
  "find_smallest cmp ws [] smallest = smallest"
| "find_smallest cmp ws (i # is) smallest =
     find_smallest cmp ws is
       (if iw_valid (ws ! i) then
          (case smallest of
             None \<Rightarrow> Some i
           | Some s \<Rightarrow> if Compare cmp (iw_key (ws ! i)) (iw_key (ws ! s)) < 0 then Some i else smallest)
        else smallest)"

definition FindSmallest :: "Comparator \<Rightarrow> 's MergingIterator \<Rightarrow> 's MergingIterator" where
  "FindSmallest cmp m =
     m\<lparr> mi_current := find_smallest cmp (mi_children m) [0..<length (mi_children m)] None \<rparr>"

fun find_largest :: "Comparator \<Rightarrow> 's IteratorWrapper list \<Rightarrow> nat list \<Rightarrow> nat option \<Rightarrow> nat option" where
  "find_largest cmp ws [] largest = largest"
| "find_largest cmp ws (i # is) largest =
     find_largest cmp ws is
       (if iw_valid (ws ! i) then
          (case largest of
             None \<Rightarrow> Some i
           | Some s \<Rightarrow> if Compare cmp (iw_key (ws ! i)) (iw_key (ws ! s)) > 0 then Some i else largest)
        else largest)"

definition FindLargest :: "Comparator \<Rightarrow> 's MergingIterator \<Rightarrow> 's MergingIterator" where
  "FindLargest cmp m =
     m\<lparr> mi_current := find_largest cmp (mi_children m) (rev [0..<length (mi_children m)]) None \<rparr>"

definition Merging_SeekToFirst :: "Comparator \<Rightarrow> 's Iterator \<Rightarrow> 's MergingIterator \<Rightarrow> 's MergingIterator option" where
  "Merging_SeekToFirst cmp ops m =
     map_option (\<lambda>ws. (FindSmallest cmp (m\<lparr> mi_children := ws \<rparr>))\<lparr> mi_direction := kForward \<rparr>)
       (for_children (\<lambda>_. iw_SeekToFirst ops) 0 (mi_children m))"

definition Merging_SeekToLast :: "Comparator \<Rightarrow> 's Iterator \<Rightarrow> 's MergingIterator \<Rightarrow> 's MergingIterator option" where
  "Merging_SeekToLast cmp ops m =
     map_option (\<lambda>ws. (FindLargest cmp (m\<lparr> mi_children := ws \<rparr>))\<lparr> mi_direction := kReverse \<rparr>)
       (for_children (\<lambda>_. iw_SeekToLast ops) 0 (mi_children m))"

definition Merging_Seek :: "Comparator \<Rightarrow> 's Iterator \<Rightarrow> bytes \<Rightarrow> 's MergingIterator \<Rightarrow> 's MergingIterator option" where
  "Merging_Seek cmp ops target m =
     map_option (\<lambda>ws. (FindSmallest cmp (m\<lparr> mi_children := ws \<rparr>))\<lparr> mi_direction := kForward \<rparr>)
       (for_children (\<lambda>_. iw_Seek ops target) 0 (mi_children m))"

definition Merging_key :: "'s MergingIterator \<Rightarrow> bytes" where
  "Merging_key m = (case mi_current m of None \<Rightarrow> [] | Some c \<Rightarrow> iw_key (mi_children m ! c))"

text \<open>The repositioning of the other children when the direction changes.\<close>

definition child_after :: "Comparator \<Rightarrow> 's Iterator \<Rightarrow> bytes \<Rightarrow> 's IteratorWrapper \<Rightarrow> 's IteratorWrapper option" where
  "child_after cmp ops k w =
     Option.bind (iw_Seek ops k w) (\<lambda>w.
       if iw_valid w \<and> Compare cmp k (iw_key w) = 0 then iw_Next ops w else Some w)"

definition child_before :: "'s Iterator \<Rightarrow> bytes \<Rightarrow> 's IteratorWrapper \<Rightarrow> 's IteratorWrapper option" where
  "child_before ops k w =
     Option.bind (iw_Seek ops k w) (\<lambda>w. if iw_valid w then iw_Prev ops w else iw_SeekToLast ops w)"

definition Merging_Next :: "Comparator \<Rightarrow> 's Iterator \<Rightarrow> 's MergingIterator \<Rightarrow> 's MergingIterator option" where
  "Merging_Next cmp ops m =
     (case mi_current m of
        None \<Rightarrow> None
      | Some c \<Rightarrow>
          Option.bind
            (if mi_direction m \<noteq> kForward then
               for_children (\<lambda>i w. if i \<noteq> c then child_after cmp ops (Merging_key m) w else Some w) 0 (mi_children m)
             else Some (mi_children m))
            (\<lambda>ws. map_option (\<lambda>w. FindSmallest cmp (m\<lparr> mi_children := ws[c := w], mi_direction := kForward \<rparr>))
               (iw_Next ops (ws ! c))))"

definition Merging_Prev :: "Comparator \<Rightarrow> 's Iterator \<Rightarrow> 's MergingIterator \<Rightarrow> 's MergingIterator option" where
  "Merging_Prev cmp ops m =
     (case mi_current m of
        None \<Rightarrow> None
      | Some c \<Rightarrow>
          Option.bind
            (if mi_direction m \<noteq> kReverse then
               for_children (\<lambda>i w. if i \<noteq> c then child_before ops (Merging_key m) w else Some w) 0 (mi_children m)
             else Some (mi_children m))
            (\<lambda>ws. map_option (\<lambda>w. FindLargest cmp (m\<lparr> mi_children := ws[c := w], mi_direction := kReverse \<rparr>))
               (iw_Prev ops (ws ! c))))"

definition Merging_value :: "'s Iterator \<Rightarrow> 's MergingIterator \<Rightarrow> bytes" where
  "Merging_value ops m = (case mi_current m of None \<Rightarrow> [] | Some c \<Rightarrow> iw_value ops (mi_children m ! c))"

fun Merging_status :: "'s Iterator \<Rightarrow> 's IteratorWrapper list \<Rightarrow> Status \<Rightarrow> Status" where
  "Merging_status ops [] status = status"
| "Merging_status ops (w # ws) status =
     (let status = iw_status ops w in if \<not> Status_ok status then status else Merging_status ops ws status)"

definition MergingIterator_ops :: "Comparator \<Rightarrow> 's Iterator \<Rightarrow> 's MergingIterator Iterator" where
  "MergingIterator_ops cmp ops =
     \<lparr> it_Valid = (\<lambda>m. mi_current m \<noteq> None),
       it_SeekToFirst = Merging_SeekToFirst cmp ops,
       it_SeekToLast = Merging_SeekToLast cmp ops,
       it_Seek = Merging_Seek cmp ops,
       it_Next = Merging_Next cmp ops,
       it_Prev = Merging_Prev cmp ops,
       it_key = Merging_key,
       it_value = Merging_value ops,
       it_status = (\<lambda>m. Merging_status ops (mi_children m) OK) \<rparr>"

text \<open>\<open>NewMergingIterator\<close> returns an empty iterator, the only child, or a merging iterator.\<close>

type_synonym 's merged = "Status + ('s + 's MergingIterator)"

definition Merged_ops :: "Comparator \<Rightarrow> 's Iterator \<Rightarrow> 's merged Iterator" where
  "Merged_ops cmp ops = sum_ops EmptyIterator (sum_ops ops (MergingIterator_ops cmp ops))"

definition NewMergingIterator :: "'s Iterator \<Rightarrow> 's list \<Rightarrow> 's merged" where
  "NewMergingIterator ops list =
     (case list of
        [] \<Rightarrow> Inl NewEmptyIterator
      | [it] \<Rightarrow> Inr (Inl it)
      | _ \<Rightarrow> Inr (Inr (MergingIterator_new ops list)))"

end
