(* ===== verification/Merger_Correctness.thy ===== *)
theory Merger_Correctness
  imports Merger Sorted_Runs Block_Correctness
begin

text \<open>
  The merging iterator over children that meet the iterator contract meets it itself, for the
  sorted union of the children's entries. A state is described by a cut of the key order: the
  forward moves leave every child at its first entry outside the cut, the backward moves at its
  last entry inside.
\<close>

section \<open>Loops over the children\<close>

lemma for_children_spec:
  assumes "\<And>i. i < length ws \<Longrightarrow> \<exists>w'. f (k + i) (ws ! i) = Some w' \<and> Q (k + i) w'"
  shows "\<exists>ws'. for_children f k ws = Some ws' \<and> length ws' = length ws \<and> (\<forall>i < length ws. Q (k + i) (ws' ! i))"
  using assms
proof (induction ws arbitrary: k)
  case (Cons w ws)
  from Cons.prems [of 0] obtain w' where w': "f k w = Some w'" "Q k w'" by auto
  have "\<exists>ws'. for_children f (Suc k) ws = Some ws' \<and> length ws' = length ws \<and> (\<forall>i < length ws. Q (Suc k + i) (ws' ! i))"
    using Cons.prems [of "Suc i" for i] by (intro Cons.IH) simp
  then obtain ws' where ws': "for_children f (Suc k) ws = Some ws'" "length ws' = length ws"
    "\<And>i. i < length ws \<Longrightarrow> Q (Suc k + i) (ws' ! i)" by blast
  have "Q (k + i) ((w' # ws') ! i)" if "i < length (w # ws)" for i
    using that w'(2) ws'(3) [of "i - 1"] by (cases i) simp_all
  with w'(1) ws'(1,2) show ?case by simp
qed simp

text \<open>What \<open>FindSmallest\<close> and \<open>FindLargest\<close> find.\<close>

definition best :: "(bytes \<Rightarrow> bytes \<Rightarrow> bool) \<Rightarrow> 's IteratorWrapper list \<Rightarrow> nat set \<Rightarrow> nat option \<Rightarrow> bool" where
  "best le ws S r \<longleftrightarrow> (case r of
     None \<Rightarrow> \<forall>i \<in> S. \<not> iw_valid (ws ! i)
   | Some j \<Rightarrow> j \<in> S \<and> iw_valid (ws ! j) \<and> (\<forall>i \<in> S. iw_valid (ws ! i) \<longrightarrow> le (iw_key (ws ! j)) (iw_key (ws ! i))))"

lemma find_smallest_best:
  assumes "key_order cmp valid" "\<forall>i \<in> S \<union> set is. iw_valid (ws ! i) \<longrightarrow> valid (iw_key (ws ! i))"
    and "best (\<lambda>a b. Compare cmp a b \<le> 0) ws S r"
  shows "best (\<lambda>a b. Compare cmp a b \<le> 0) ws (S \<union> set is) (find_smallest cmp ws is r)"
  using assms(2,3)
proof (induction "is" arbitrary: S r)
  case (Cons i js)
  let ?r = "if iw_valid (ws ! i) then (case r of None \<Rightarrow> Some i
    | Some s \<Rightarrow> if Compare cmp (iw_key (ws ! i)) (iw_key (ws ! s)) < 0 then Some i else r) else r"
  note ko = key_order.compare_refl [OF assms(1)] key_order.compare_less_le_trans [OF assms(1)]
    key_order.compare_not_less [OF assms(1)] key_order.compare_le_trans [OF assms(1)]
  have "best (\<lambda>a b. Compare cmp a b \<le> 0) ws (insert i S) ?r"
  proof (cases r)
    case None
    then show ?thesis using Cons.prems ko(1) by (auto simp: best_def)
  next
    case (Some s)
    with Cons.prems have s: "s \<in> S" "iw_valid (ws ! s)" "valid (iw_key (ws ! s))"
      "\<forall>i \<in> S. iw_valid (ws ! i) \<longrightarrow> Compare cmp (iw_key (ws ! s)) (iw_key (ws ! i)) \<le> 0"
      by (auto simp: best_def)
    show ?thesis
    proof (cases "iw_valid (ws ! i) \<and> Compare cmp (iw_key (ws ! i)) (iw_key (ws ! s)) < 0")
      case True
      then have "valid (iw_key (ws ! i))" using Cons.prems(1) by simp
      with True s Some Cons.prems(1) ko(1) show ?thesis
        by (auto simp: best_def intro: less_imp_le ko(2) [THEN less_imp_le])
    next
      case False
      then have "iw_valid (ws ! i) \<Longrightarrow> Compare cmp (iw_key (ws ! s)) (iw_key (ws ! i)) \<le> 0"
        using ko(3) [of "iw_key (ws ! i)" "iw_key (ws ! s)"] Cons.prems(1) s(3) by simp
      with False s Some show ?thesis by (auto simp: best_def)
    qed
  qed
  from Cons.IH [OF _ this] Cons.prems(1) show ?case by simp
qed simp

lemma find_largest_best:
  assumes "key_order cmp valid" "\<forall>i \<in> S \<union> set is. iw_valid (ws ! i) \<longrightarrow> valid (iw_key (ws ! i))"
    and "best (\<lambda>a b. Compare cmp b a \<le> 0) ws S r"
  shows "best (\<lambda>a b. Compare cmp b a \<le> 0) ws (S \<union> set is) (find_largest cmp ws is r)"
  using assms(2,3)
proof (induction "is" arbitrary: S r)
  case (Cons i js)
  let ?r = "if iw_valid (ws ! i) then (case r of None \<Rightarrow> Some i
    | Some s \<Rightarrow> if Compare cmp (iw_key (ws ! i)) (iw_key (ws ! s)) > 0 then Some i else r) else r"
  note ko = key_order.compare_refl [OF assms(1)] key_order.compare_le_less_trans [OF assms(1)]
    key_order.compare_swap [OF assms(1)]
  have "best (\<lambda>a b. Compare cmp b a \<le> 0) ws (insert i S) ?r"
  proof (cases r)
    case None
    then show ?thesis using Cons.prems ko(1) by (auto simp: best_def)
  next
    case (Some s)
    with Cons.prems have s: "s \<in> S" "iw_valid (ws ! s)" "valid (iw_key (ws ! s))"
      "\<forall>i \<in> S. iw_valid (ws ! i) \<longrightarrow> Compare cmp (iw_key (ws ! i)) (iw_key (ws ! s)) \<le> 0"
      by (auto simp: best_def)
    show ?thesis
    proof (cases "iw_valid (ws ! i) \<and> Compare cmp (iw_key (ws ! i)) (iw_key (ws ! s)) > 0")
      case True
      then have v: "valid (iw_key (ws ! i))" using Cons.prems(1) by simp
      with True s(3) ko(3) have lt: "Compare cmp (iw_key (ws ! s)) (iw_key (ws ! i)) < 0" by blast
      have "Compare cmp (iw_key (ws ! x)) (iw_key (ws ! i)) \<le> 0" if "x \<in> S" "iw_valid (ws ! x)" for x
        using ko(2) [OF _ s(3) v _ lt, of "iw_key (ws ! x)"] Cons.prems(1) s(4) that by (simp add: less_imp_le)
      with True s Some v ko(1) show ?thesis by (auto simp: best_def)
    next
      case False
      with s Some show ?thesis by (auto simp: best_def)
    qed
  qed
  from Cons.IH [OF _ this] Cons.prems(1) show ?case by simp
qed simp

section \<open>The invariant of the merge\<close>

text \<open>
  Child \<open>i\<close> of \<open>n\<close> is an iterator over \<open>es i\<close>; no key occurs in two children; \<open>M\<close> is the sorted
  union.
\<close>

definition merge_ok :: "Comparator \<Rightarrow> (bytes \<Rightarrow> bool) \<Rightarrow> 's Iterator \<Rightarrow> nat \<Rightarrow> (nat \<Rightarrow> 's \<Rightarrow> bool) \<Rightarrow>
    (nat \<Rightarrow> entry list) \<Rightarrow> (nat \<Rightarrow> 's \<Rightarrow> nat) \<Rightarrow> entry list \<Rightarrow> bool" where
  "merge_ok cmp valid ops n I es p M \<longleftrightarrow> key_order cmp valid \<and>
     (\<forall>i < n. list_iterator ops (Compare cmp) valid (I i) (es i) (p i) \<and> sorted_run cmp valid (es i)) \<and>
     (\<forall>i < n. \<forall>j < n. i \<noteq> j \<longrightarrow> fst ` set (es i) \<inter> fst ` set (es j) = {}) \<and>
     sorted_run cmp valid M \<and> set M = (\<Union>i < n. set (es i))"

definition children_at :: "'s Iterator \<Rightarrow> nat \<Rightarrow> (nat \<Rightarrow> 's \<Rightarrow> bool) \<Rightarrow> (nat \<Rightarrow> 's \<Rightarrow> nat) \<Rightarrow>
    's IteratorWrapper list \<Rightarrow> (nat \<Rightarrow> nat) \<Rightarrow> bool" where
  "children_at ops n I p ws c \<longleftrightarrow> length ws = n \<and> (\<forall>i < n. wrapped ops (I i) (p i) (ws ! i) (c i))"

definition merging_inv :: "Comparator \<Rightarrow> 's Iterator \<Rightarrow> nat \<Rightarrow> (nat \<Rightarrow> 's \<Rightarrow> bool) \<Rightarrow>
    (nat \<Rightarrow> entry list) \<Rightarrow> (nat \<Rightarrow> 's \<Rightarrow> nat) \<Rightarrow> 's MergingIterator \<Rightarrow> bool" where
  "merging_inv cmp ops n I es p m \<longleftrightarrow> (\<exists>c. children_at ops n I p (mi_children m) c \<and>
     (case mi_current m of
        None \<Rightarrow> True
      | Some j \<Rightarrow> j < n \<and> c j < length (es j) \<and>
          (\<forall>i < n. i \<noteq> j \<longrightarrow> c i = (let s = seek_pos (Compare cmp) (fst (es j ! c j)) (es i) in
             if mi_direction m = kForward then s else prev_pos (es i) s))))"

definition merging_pos :: "Comparator \<Rightarrow> entry list \<Rightarrow> 's MergingIterator \<Rightarrow> nat" where
  "merging_pos cmp M m =
     (case mi_current m of None \<Rightarrow> length M | Some j \<Rightarrow> seek_pos (Compare cmp) (iw_key (mi_children m ! j)) M)"

lemma merge_ok_child:
  assumes "merge_ok cmp valid ops n I es p M" "i < n"
  shows "list_iterator ops (Compare cmp) valid (I i) (es i) (p i)" "sorted_run cmp valid (es i)" "set (es i) \<subseteq> set M"
  using assms by (auto simp: merge_ok_def)

lemma merge_ok_disjoint:
  assumes "merge_ok cmp valid ops n I es p M" "i < n" "j < n" "i \<noteq> j" "e \<in> set (es i)"
  shows "fst e \<notin> fst ` set (es j)"
  using assms unfolding merge_ok_def by blast

lemma children_values:
  assumes "merge_ok cmp valid ops n I es p M" "children_at ops n I p ws c" "i < n"
  shows "c i \<le> length (es i)" "iw_valid (ws ! i) \<longleftrightarrow> c i < length (es i)"
    "c i < length (es i) \<Longrightarrow> iw_key (ws ! i) = fst (es i ! c i) \<and> iw_value ops (ws ! i) = snd (es i ! c i)"
    "iw_status ops (ws ! i) = OK"
proof -
  have "wrapped ops (I i) (p i) (ws ! i) (c i)" using assms(2,3) by (simp add: children_at_def)
  note v = list_iterator.wrapped_values [OF merge_ok_child(1) [OF assms(1,3)] this]
  show "c i \<le> length (es i)" "iw_valid (ws ! i) \<longleftrightarrow> c i < length (es i)"
    "c i < length (es i) \<Longrightarrow> iw_key (ws ! i) = fst (es i ! c i) \<and> iw_value ops (ws ! i) = snd (es i ! c i)"
    "iw_status ops (ws ! i) = OK" using v by simp_all
qed

lemma children_keys_valid:
  assumes "merge_ok cmp valid ops n I es p M" "children_at ops n I p ws c"
  shows "\<forall>i \<in> {..<n}. iw_valid (ws ! i) \<longrightarrow> valid (iw_key (ws ! i))"
proof (intro ballI impI)
  fix i assume i: "i \<in> {..<n}" "iw_valid (ws ! i)"
  note v = children_values [OF assms, of i]
  show "valid (iw_key (ws ! i))"
    using i v sorted_run_valid [OF merge_ok_child(2) [OF assms(1), of i], of "c i"] by simp
qed

lemma smallest_best:
  assumes "merge_ok cmp valid ops n I es p M" "children_at ops n I p ws c"
  shows "best (\<lambda>a b. Compare cmp a b \<le> 0) ws {..<n} (find_smallest cmp ws [0..<length ws] None)"
    and "best (\<lambda>a b. Compare cmp b a \<le> 0) ws {..<n} (find_largest cmp ws (rev [0..<length ws]) None)"
proof -
  have k: "key_order cmp valid" "length ws = n" using assms by (simp_all add: merge_ok_def children_at_def)
  note kv = children_keys_valid [OF assms]
  show "best (\<lambda>a b. Compare cmp a b \<le> 0) ws {..<n} (find_smallest cmp ws [0..<length ws] None)"
    using find_smallest_best [OF k(1), of "{}" "[0..<length ws]" ws None] kv k(2)
    by (simp add: best_def atLeast0LessThan)
  show "best (\<lambda>a b. Compare cmp b a \<le> 0) ws {..<n} (find_largest cmp ws (rev [0..<length ws]) None)"
    using find_largest_best [OF k(1), of "{}" "rev [0..<length ws]" ws None] kv k(2)
    by (simp add: best_def atLeast0LessThan)
qed

lemma set_M_child:
  assumes "merge_ok cmp valid ops n I es p M" "e \<in> set M"
  shows "\<exists>i < n. \<exists>m < length (es i). e = es i ! m"
proof -
  from assms obtain i where "i < n" "e \<in> set (es i)" by (auto simp: merge_ok_def)
  then show ?thesis by (metis in_set_conv_nth)
qed

text \<open>After a forward move: every child stands at its first entry outside the cut.\<close>

lemma smallest_cut:
  assumes mo: "merge_ok cmp valid ops n I es p M" and cut: "key_cut cmp valid L"
    and ch: "children_at ops n I p ws (\<lambda>i. count_in L (es i))"
  shows "case find_smallest cmp ws [0..<length ws] None of
      None \<Rightarrow> count_in L M = length M
    | Some j \<Rightarrow> j < n \<and> count_in L (es j) < length (es j) \<and>
        (\<forall>e \<in> set M. L (fst e) \<longleftrightarrow> Compare cmp (fst e) (fst (es j ! count_in L (es j))) < 0)"
proof -
  have ko: "key_order cmp valid" using mo by (simp add: merge_ok_def)
  note best = smallest_best(1) [OF mo ch] and val = children_values [OF mo ch]
  show ?thesis
  proof (cases "find_smallest cmp ws [0..<length ws] None")
    case None
    have full: "count_in L (es i) = length (es i)" if "i < n" for i
    proof -
      have "\<not> iw_valid (ws ! i)" using best None that by (simp add: best_def)
      with val(2) [OF that] show ?thesis by (simp add: le_antisym)
    qed
    have "L (fst e)" if "e \<in> set M" for e
    proof -
      from set_M_child [OF mo that] obtain i m where im: "i < n" "m < length (es i)" "e = es i ! m" by blast
      with cut_nth [OF cut merge_ok_child(2) [OF mo im(1)] im(2)] full show ?thesis by simp
    qed
    then have "count_in L M = length M" by (simp add: count_in_def)
    with None show ?thesis by simp
  next
    case (Some j)
    with best have j: "j < n" "iw_valid (ws ! j)"
      "\<And>i. i < n \<Longrightarrow> iw_valid (ws ! i) \<Longrightarrow> Compare cmp (iw_key (ws ! j)) (iw_key (ws ! i)) \<le> 0"
      by (simp_all add: best_def)
    have cj: "count_in L (es j) < length (es j)" using val(2) [OF j(1)] j(2) by simp
    define k where "k = fst (es j ! count_in L (es j))"
    have k: "valid k" "\<not> L k" "iw_key (ws ! j) = k"
      using sorted_run_valid [OF merge_ok_child(2) [OF mo j(1)] cj]
        cut_nth [OF cut merge_ok_child(2) [OF mo j(1)] cj] val(3) [OF j(1) cj] by (simp_all add: k_def)
    have "L (fst e) \<longleftrightarrow> Compare cmp (fst e) k < 0" if "e \<in> set M" for e
    proof -
      from set_M_child [OF mo that] obtain i m where im: "i < n" "m < length (es i)" "e = es i ! m" by blast
      note run = merge_ok_child(2) [OF mo im(1)]
      have ve: "valid (fst e)" using sorted_run_valid [OF run im(2)] im(3) by simp
      have Le: "L (fst e) \<longleftrightarrow> m < count_in L (es i)" using cut_nth [OF cut run im(2)] im(3) by simp
      show ?thesis
      proof
        assume L: "L (fst e)"
        have "fst e \<noteq> k" using L k(2) by auto
        moreover have "\<not> Compare cmp k (fst e) < 0" using cut L k ve unfolding key_cut_def by blast
        ultimately show "Compare cmp (fst e) k < 0"
          using key_order.compare_not_less [OF ko k(1) ve] key_order.compare_le_iff [OF ko ve k(1)] by simp
      next
        assume less: "Compare cmp (fst e) k < 0"
        show "L (fst e)"
        proof (rule ccontr)
          assume "\<not> L (fst e)"
          with Le im(2) have c: "count_in L (es i) \<le> m" "count_in L (es i) < length (es i)" by simp_all
          have "Compare cmp k (fst (es i ! count_in L (es i))) \<le> 0"
            using j(3) [OF im(1)] val(2,3) [OF im(1)] c(2) k(3) by simp
          moreover have "Compare cmp (fst (es i ! count_in L (es i))) (fst e) \<le> 0"
            using sorted_run_cmp(2) [OF ko run c(2) im(2)] c(1) im(3) by simp
          ultimately have "Compare cmp k (fst e) \<le> 0"
            using key_order.compare_le_trans [OF ko k(1) sorted_run_valid [OF run c(2)] ve] by simp
          with less show False using key_order.compare_not_less [OF ko ve k(1)] by simp
        qed
      qed
    qed
    with Some j(1) cj show ?thesis by (simp add: k_def)
  qed
qed

lemma forward_state:
  assumes mo: "merge_ok cmp valid ops n I es p M" and cut: "key_cut cmp valid L"
    and ch: "children_at ops n I p ws (\<lambda>i. count_in L (es i))"
    and m': "mi_children m' = ws" "mi_current m' = find_smallest cmp ws [0..<length ws] None" "mi_direction m' = kForward"
  shows "merging_inv cmp ops n I es p m'" "merging_pos cmp M m' = count_in L M"
proof -
  note sc = smallest_cut [OF mo cut ch]
  have "merging_inv cmp ops n I es p m' \<and> merging_pos cmp M m' = count_in L M"
  proof (cases "find_smallest cmp ws [0..<length ws] None")
    case None
    with sc ch m' show ?thesis by (auto simp: merging_inv_def merging_pos_def)
  next
    case (Some j)
    define k where "k = fst (es j ! count_in L (es j))"
    from sc Some have j: "j < n" "count_in L (es j) < length (es j)"
      and L: "\<And>e. e \<in> set M \<Longrightarrow> L (fst e) \<longleftrightarrow> Compare cmp (fst e) k < 0" by (simp_all add: k_def)
    have "seek_pos (Compare cmp) k (es i) = count_in L (es i)" if "i < n" for i
      unfolding seek_pos_count using L merge_ok_child(3) [OF mo that] by (intro count_in_cong) auto
    moreover have "seek_pos (Compare cmp) k M = count_in L M"
      unfolding seek_pos_count using L by (intro count_in_cong) auto
    moreover have "iw_key (ws ! j) = k" using children_values(3) [OF mo ch j] by (simp add: k_def)
    ultimately show ?thesis using Some ch j m'
      by (auto simp: merging_inv_def merging_pos_def k_def [symmetric] intro!: exI [of _ "\<lambda>i. count_in L (es i)"])
  qed
  then show "merging_inv cmp ops n I es p m'" "merging_pos cmp M m' = count_in L M" by simp_all
qed

lemma prev_pos_less: "c \<le> length es \<Longrightarrow> prev_pos es c < length es \<longleftrightarrow> 0 < c"
  by (auto simp: prev_pos_def)

text \<open>After a backward move: every child stands at its last entry inside the cut.\<close>

lemma largest_cut:
  assumes mo: "merge_ok cmp valid ops n I es p M" and cut: "key_cut cmp valid L"
    and ch: "children_at ops n I p ws (\<lambda>i. prev_pos (es i) (count_in L (es i)))"
  shows "case find_largest cmp ws (rev [0..<length ws]) None of
      None \<Rightarrow> count_in L M = 0
    | Some j \<Rightarrow> j < n \<and> 0 < count_in L (es j) \<and>
        (\<forall>e \<in> set M. L (fst e) \<longleftrightarrow> Compare cmp (fst e) (fst (es j ! (count_in L (es j) - 1))) \<le> 0)"
proof -
  have ko: "key_order cmp valid" using mo by (simp add: merge_ok_def)
  note best = smallest_best(2) [OF mo ch] and val = children_values [OF mo ch]
  have iv: "iw_valid (ws ! i) \<longleftrightarrow> 0 < count_in L (es i)" if "i < n" for i
    using val(2) [OF that] by (simp add: prev_pos_less)
  have ky: "iw_key (ws ! i) = fst (es i ! (count_in L (es i) - 1))" if "i < n" "0 < count_in L (es i)" for i
    using val(3) [OF that(1)] that(2) by (simp add: prev_pos_less) (simp add: prev_pos_def)
  show ?thesis
  proof (cases "find_largest cmp ws (rev [0..<length ws]) None")
    case None
    have "\<not> L (fst e)" if "e \<in> set M" for e
    proof -
      from set_M_child [OF mo that] obtain i m where im: "i < n" "m < length (es i)" "e = es i ! m" by blast
      have "\<not> iw_valid (ws ! i)" using best None im(1) by (simp add: best_def)
      with cut_nth [OF cut merge_ok_child(2) [OF mo im(1)] im(2)] iv [OF im(1)] im(3) show ?thesis by simp
    qed
    then have "count_in L M = 0" by (simp add: count_in_def)
    with None show ?thesis by simp
  next
    case (Some j)
    with best have j: "j < n" "iw_valid (ws ! j)"
      "\<And>i. i < n \<Longrightarrow> iw_valid (ws ! i) \<Longrightarrow> Compare cmp (iw_key (ws ! i)) (iw_key (ws ! j)) \<le> 0"
      by (simp_all add: best_def)
    have cj: "0 < count_in L (es j)" using iv [OF j(1)] j(2) by simp
    define k where "k = fst (es j ! (count_in L (es j) - 1))"
    have lj: "count_in L (es j) - 1 < length (es j)" using cj count_in_le [of L "es j"] by linarith
    have k: "valid k" "L k" "iw_key (ws ! j) = k"
      using sorted_run_valid [OF merge_ok_child(2) [OF mo j(1)] lj]
        cut_nth [OF cut merge_ok_child(2) [OF mo j(1)] lj] cj ky [OF j(1) cj] by (simp_all add: k_def)
    have "L (fst e) \<longleftrightarrow> Compare cmp (fst e) k \<le> 0" if "e \<in> set M" for e
    proof -
      from set_M_child [OF mo that] obtain i m where im: "i < n" "m < length (es i)" "e = es i ! m" by blast
      note run = merge_ok_child(2) [OF mo im(1)]
      have ve: "valid (fst e)" using sorted_run_valid [OF run im(2)] im(3) by simp
      show ?thesis
      proof
        assume "L (fst e)"
        then have m: "m < count_in L (es i)" using cut_nth [OF cut run im(2)] im(3) by simp
        then have c: "count_in L (es i) - 1 < length (es i)" "m \<le> count_in L (es i) - 1"
          using count_in_le [of L "es i"] by linarith+
        have "Compare cmp (fst e) (fst (es i ! (count_in L (es i) - 1))) \<le> 0"
          using sorted_run_cmp(2) [OF ko run im(2) c(1)] c(2) im(3) by simp
        moreover have "Compare cmp (fst (es i ! (count_in L (es i) - 1))) k \<le> 0"
          using j(3) [OF im(1)] iv [OF im(1)] ky [OF im(1)] m k(3) by simp
        ultimately show "Compare cmp (fst e) k \<le> 0"
          using key_order.compare_le_trans [OF ko ve sorted_run_valid [OF run c(1)] k(1)] by simp
      next
        assume "Compare cmp (fst e) k \<le> 0"
        then show "L (fst e)"
          using key_order.compare_le_iff [OF ko ve k(1)] cut k(1,2) ve unfolding key_cut_def by blast
      qed
    qed
    with Some j(1) cj show ?thesis by (simp add: k_def)
  qed
qed

lemma backward_state:
  assumes mo: "merge_ok cmp valid ops n I es p M" and cut: "key_cut cmp valid L"
    and ch: "children_at ops n I p ws (\<lambda>i. prev_pos (es i) (count_in L (es i)))"
    and m': "mi_children m' = ws" "mi_current m' = find_largest cmp ws (rev [0..<length ws]) None" "mi_direction m' = kReverse"
  shows "merging_inv cmp ops n I es p m'" "merging_pos cmp M m' = prev_pos M (count_in L M)"
proof -
  have ko: "key_order cmp valid" "sorted_run cmp valid M" using mo by (simp_all add: merge_ok_def)
  note sc = largest_cut [OF mo cut ch]
  have "merging_inv cmp ops n I es p m' \<and> merging_pos cmp M m' = prev_pos M (count_in L M)"
  proof (cases "find_largest cmp ws (rev [0..<length ws]) None")
    case None
    with sc ch m' show ?thesis by (auto simp: merging_inv_def merging_pos_def prev_pos_def)
  next
    case (Some j)
    define k where "k = fst (es j ! (count_in L (es j) - 1))"
    from sc Some have j: "j < n" "0 < count_in L (es j)"
      and L: "\<And>e. e \<in> set M \<Longrightarrow> L (fst e) \<longleftrightarrow> Compare cmp (fst e) k \<le> 0" by (simp_all add: k_def)
    have lj: "count_in L (es j) - 1 < length (es j)" using j(2) count_in_le [of L "es j"] by linarith
    have pj: "prev_pos (es j) (count_in L (es j)) = count_in L (es j) - 1" using j(2) by (simp add: prev_pos_def)
    have kin: "es j ! (count_in L (es j) - 1) \<in> set (es j)" using lj by simp
    have vk: "valid k" using sorted_run_valid [OF merge_ok_child(2) [OF mo j(1)] lj] by (simp add: k_def)
    have ci: "count_in L (es i) = seek_pos (Compare cmp) k (es i)" if "i < n" "i \<noteq> j" for i
    proof -
      have "count_in L (es i) = count_in (\<lambda>a. Compare cmp a k \<le> 0) (es i)"
        using L merge_ok_child(3) [OF mo that(1)] by (intro count_in_cong) auto
      also have "\<dots> = seek_pos (Compare cmp) k (es i)"
        unfolding seek_pos_count
        using merge_ok_disjoint [OF mo j(1) that(1) that(2) [symmetric] kin]
        by (intro count_off_key [OF ko(1) merge_ok_child(2) [OF mo that(1)] vk]) (simp add: k_def)
      finally show ?thesis .
    qed
    have "es j ! (count_in L (es j) - 1) \<in> set M" using kin merge_ok_child(3) [OF mo j(1)] by blast
    then obtain q where q: "q < length M" "k = fst (M ! q)" by (auto simp: k_def in_set_conv_nth)
    have "count_in L M = Suc q"
      using count_at_key(2) [OF ko q(1)] L q(2) count_in_cong [of M L "\<lambda>a. Compare cmp a k \<le> 0"] by auto
    moreover have "seek_pos (Compare cmp) k M = q"
      using count_at_key(1) [OF ko q(1)] q(2) by (simp add: seek_pos_count)
    moreover have "iw_key (ws ! j) = k"
      using children_values(3) [OF mo ch j(1)] lj pj by (simp add: k_def)
    moreover have "fst (es j ! (count_in L (es j) - Suc 0)) = k" by (simp add: k_def)
    ultimately show ?thesis using Some ch j(1) lj pj m' ci
      by (auto simp: merging_inv_def merging_pos_def prev_pos_def [of M]
          intro!: exI [of _ "\<lambda>i. prev_pos (es i) (count_in L (es i))"])
  qed
  then show "merging_inv cmp ops n I es p m'" "merging_pos cmp M m' = prev_pos M (count_in L M)" by simp_all
qed

section \<open>The moves\<close>

lemma move_children:
  assumes "length ws = n" "\<And>i. i < n \<Longrightarrow> \<exists>w'. f i (ws ! i) = Some w' \<and> wrapped ops (I i) (p i) w' (c' i)"
  shows "\<exists>ws'. for_children f 0 ws = Some ws' \<and> children_at ops n I p ws' c'"
  using for_children_spec [of ws f 0 "\<lambda>i w. wrapped ops (I i) (p i) w (c' i)"] assms
  by (auto simp: children_at_def)

lemma children_wrapped: "children_at ops n I p ws c \<Longrightarrow> i < n \<Longrightarrow> wrapped ops (I i) (p i) (ws ! i) (c i)"
  by (simp add: children_at_def)

lemma key_cut_trivial: "key_cut cmp valid (\<lambda>_. b)"
  by (simp add: key_cut_def)

lemma merging_SeekToFirst:
  assumes mo: "merge_ok cmp valid ops n I es p M" and inv: "merging_inv cmp ops n I es p m"
  shows "\<exists>m'. Merging_SeekToFirst cmp ops m = Some m' \<and> merging_inv cmp ops n I es p m' \<and> merging_pos cmp M m' = 0"
proof -
  from inv obtain c where c: "children_at ops n I p (mi_children m) c" by (auto simp: merging_inv_def)
  have "\<exists>ws. for_children (\<lambda>_. iw_SeekToFirst ops) 0 (mi_children m) = Some ws \<and>
      children_at ops n I p ws (\<lambda>i. count_in (\<lambda>_. False) (es i))"
  proof (rule move_children)
    fix i assume "i < n"
    from list_iterator.wrapped_ops(1) [OF merge_ok_child(1) [OF mo this] children_wrapped [OF c this]]
    show "\<exists>w'. iw_SeekToFirst ops (mi_children m ! i) = Some w' \<and> wrapped ops (I i) (p i) w' (count_in (\<lambda>_. False) (es i))"
      by (simp add: count_in_def)
  qed (use c in \<open>simp add: children_at_def\<close>)
  then obtain ws where ws: "for_children (\<lambda>_. iw_SeekToFirst ops) 0 (mi_children m) = Some ws"
      "children_at ops n I p ws (\<lambda>i. count_in (\<lambda>_. False) (es i))" by blast
  note st = forward_state [OF mo key_cut_trivial ws(2)]
  show ?thesis using ws(1) st [of "(FindSmallest cmp (m\<lparr> mi_children := ws \<rparr>))\<lparr> mi_direction := kForward \<rparr>"]
    by (simp add: Merging_SeekToFirst_def FindSmallest_def) (simp add: count_in_def)
qed

lemma merging_Seek:
  assumes mo: "merge_ok cmp valid ops n I es p M" and inv: "merging_inv cmp ops n I es p m" and t: "valid t"
  shows "\<exists>m'. Merging_Seek cmp ops t m = Some m' \<and> merging_inv cmp ops n I es p m' \<and>
    merging_pos cmp M m' = seek_pos (Compare cmp) t M"
proof -
  from inv obtain c where c: "children_at ops n I p (mi_children m) c" by (auto simp: merging_inv_def)
  have ko: "key_order cmp valid" using mo by (simp add: merge_ok_def)
  have "\<exists>ws. for_children (\<lambda>_. iw_Seek ops t) 0 (mi_children m) = Some ws \<and>
      children_at ops n I p ws (\<lambda>i. count_in (\<lambda>k. Compare cmp k t < 0) (es i))"
  proof (rule move_children)
    fix i assume "i < n"
    from list_iterator.wrapped_ops(3) [OF merge_ok_child(1) [OF mo this] children_wrapped [OF c this] t]
    show "\<exists>w'. iw_Seek ops t (mi_children m ! i) = Some w' \<and>
        wrapped ops (I i) (p i) w' (count_in (\<lambda>k. Compare cmp k t < 0) (es i))"
      by (simp add: seek_pos_count)
  qed (use c in \<open>simp add: children_at_def\<close>)
  then obtain ws where ws: "for_children (\<lambda>_. iw_Seek ops t) 0 (mi_children m) = Some ws"
      "children_at ops n I p ws (\<lambda>i. count_in (\<lambda>k. Compare cmp k t < 0) (es i))" by blast
  note st = forward_state [OF mo key_cut_less [OF ko t] ws(2)]
  show ?thesis using ws(1) st [of "(FindSmallest cmp (m\<lparr> mi_children := ws \<rparr>))\<lparr> mi_direction := kForward \<rparr>"]
    by (simp add: Merging_Seek_def FindSmallest_def seek_pos_count)
qed

lemma last_pos_prev: "last_pos es = prev_pos es (length es)"
  by (simp add: last_pos_def prev_pos_def)

lemma merging_SeekToLast:
  assumes mo: "merge_ok cmp valid ops n I es p M" and inv: "merging_inv cmp ops n I es p m"
  shows "\<exists>m'. Merging_SeekToLast cmp ops m = Some m' \<and> merging_inv cmp ops n I es p m' \<and>
    merging_pos cmp M m' = last_pos M"
proof -
  from inv obtain c where c: "children_at ops n I p (mi_children m) c" by (auto simp: merging_inv_def)
  have all: "count_in (\<lambda>_. True) xs = length xs" for xs by (simp add: count_in_def)
  have "\<exists>ws. for_children (\<lambda>_. iw_SeekToLast ops) 0 (mi_children m) = Some ws \<and>
      children_at ops n I p ws (\<lambda>i. prev_pos (es i) (count_in (\<lambda>_. True) (es i)))"
  proof (rule move_children)
    fix i assume "i < n"
    from list_iterator.wrapped_ops(2) [OF merge_ok_child(1) [OF mo this] children_wrapped [OF c this]]
    show "\<exists>w'. iw_SeekToLast ops (mi_children m ! i) = Some w' \<and>
        wrapped ops (I i) (p i) w' (prev_pos (es i) (count_in (\<lambda>_. True) (es i)))"
      by (simp add: all last_pos_prev)
  qed (use c in \<open>simp add: children_at_def\<close>)
  then obtain ws where ws: "for_children (\<lambda>_. iw_SeekToLast ops) 0 (mi_children m) = Some ws"
      "children_at ops n I p ws (\<lambda>i. prev_pos (es i) (count_in (\<lambda>_. True) (es i)))" by blast
  note st = backward_state [OF mo key_cut_trivial ws(2)]
  show ?thesis using ws(1) st [of "(FindLargest cmp (m\<lparr> mi_children := ws \<rparr>))\<lparr> mi_direction := kReverse \<rparr>"]
    by (simp add: Merging_SeekToLast_def FindLargest_def all last_pos_prev)
qed

text \<open>The current child of a valid merging iterator and the key it shows.\<close>

lemma merging_current:
  assumes mo: "merge_ok cmp valid ops n I es p M" and inv: "merging_inv cmp ops n I es p m"
    and cur: "mi_current m = Some j"
  obtains c where "children_at ops n I p (mi_children m) c" "j < n" "c j < length (es j)"
    "Merging_key m = fst (es j ! c j)" "Merging_value ops m = snd (es j ! c j)" "valid (fst (es j ! c j))"
    "\<And>i. i < n \<Longrightarrow> i \<noteq> j \<Longrightarrow> c i = (let s = seek_pos (Compare cmp) (Merging_key m) (es i) in
             if mi_direction m = kForward then s else prev_pos (es i) s)"
    "\<And>i. i < n \<Longrightarrow> i \<noteq> j \<Longrightarrow> Merging_key m \<notin> fst ` set (es i)"
    "\<exists>q < length M. M ! q = es j ! c j \<and> merging_pos cmp M m = q \<and> count_in (\<lambda>a. Compare cmp a (Merging_key m) < 0) M = q \<and>
       count_in (\<lambda>a. Compare cmp a (Merging_key m) \<le> 0) M = Suc q"
proof -
  from inv cur obtain c where c: "children_at ops n I p (mi_children m) c" "j < n" "c j < length (es j)"
      "\<forall>i < n. i \<noteq> j \<longrightarrow> c i = (let s = seek_pos (Compare cmp) (fst (es j ! c j)) (es i) in
             if mi_direction m = kForward then s else prev_pos (es i) s)" by (auto simp: merging_inv_def)
  have ko: "key_order cmp valid" "sorted_run cmp valid M" using mo by (simp_all add: merge_ok_def)
  have kv: "Merging_key m = fst (es j ! c j)" "Merging_value ops m = snd (es j ! c j)"
    using children_values(3) [OF mo c(1,2,3)] cur by (simp_all add: Merging_key_def Merging_value_def)
  have v: "valid (fst (es j ! c j))" using sorted_run_valid [OF merge_ok_child(2) [OF mo c(2)] c(3)] .
  have mem: "es j ! c j \<in> set (es j)" using c(3) by simp
  then have "es j ! c j \<in> set M" using merge_ok_child(3) [OF mo c(2)] by blast
  then obtain q where q: "q < length M" "M ! q = es j ! c j" by (auto simp: in_set_conv_nth)
  have "merging_pos cmp M m = q"
    using count_at_key(1) [OF ko q(1)] q(2) cur kv(1) by (simp add: merging_pos_def seek_pos_count Merging_key_def)
  with q kv count_at_key [OF ko q(1)] have pos: "\<exists>q < length M. M ! q = es j ! c j \<and> merging_pos cmp M m = q \<and>
      count_in (\<lambda>a. Compare cmp a (Merging_key m) < 0) M = q \<and> count_in (\<lambda>a. Compare cmp a (Merging_key m) \<le> 0) M = Suc q"
    by auto
  show ?thesis
  proof (rule that [OF c(1-3) kv v _ _ pos])
    show "Merging_key m \<notin> fst ` set (es i)" if "i < n" "i \<noteq> j" for i
      using merge_ok_disjoint [OF mo c(2) that(1) that(2) [symmetric] mem] kv(1) by simp
  qed (use c(4) kv(1) in simp)
qed

lemma merging_Next:
  assumes mo: "merge_ok cmp valid ops n I es p M" and inv: "merging_inv cmp ops n I es p m"
    and cur: "mi_current m = Some j"
  shows "\<exists>m'. Merging_Next cmp ops m = Some m' \<and> merging_inv cmp ops n I es p m' \<and>
    merging_pos cmp M m' = Suc (merging_pos cmp M m)"
proof -
  obtain c where c: "children_at ops n I p (mi_children m) c" "j < n" "c j < length (es j)"
      "Merging_key m = fst (es j ! c j)" "Merging_value ops m = snd (es j ! c j)" "valid (fst (es j ! c j))"
      "\<And>i. i < n \<Longrightarrow> i \<noteq> j \<Longrightarrow> c i = (let s = seek_pos (Compare cmp) (Merging_key m) (es i) in
             if mi_direction m = kForward then s else prev_pos (es i) s)"
      "\<And>i. i < n \<Longrightarrow> i \<noteq> j \<Longrightarrow> Merging_key m \<notin> fst ` set (es i)"
      "\<exists>q < length M. M ! q = es j ! c j \<and> merging_pos cmp M m = q \<and> count_in (\<lambda>a. Compare cmp a (Merging_key m) < 0) M = q \<and>
         count_in (\<lambda>a. Compare cmp a (Merging_key m) \<le> 0) M = Suc q"
    by (rule merging_current [OF mo inv cur], rule that)
  define k where "k = Merging_key m"
  have ko: "key_order cmp valid" using mo by (simp add: merge_ok_def)
  have vk: "valid k" using c(4,6) by (simp add: k_def)
  let ?c' = "\<lambda>i. if i = j then c j else seek_pos (Compare cmp) k (es i)"
  have "\<exists>ws. (if mi_direction m \<noteq> kForward then
       for_children (\<lambda>i w. if i \<noteq> j then child_after cmp ops k w else Some w) 0 (mi_children m)
     else Some (mi_children m)) = Some ws \<and> children_at ops n I p ws ?c'"
  proof (cases "mi_direction m = kForward")
    case True
    have "?c' i = c i" if "i < n" for i using True c(7) [OF that] by (cases "i = j") (simp_all add: k_def)
    with c(1) have "children_at ops n I p (mi_children m) ?c'" by (simp add: children_at_def)
    with True show ?thesis by simp
  next
    case False
    have "\<exists>w'. (if i \<noteq> j then child_after cmp ops k (mi_children m ! i) else Some (mi_children m ! i)) = Some w' \<and>
        wrapped ops (I i) (p i) w' (?c' i)" if i: "i < n" for i
    proof (cases "i = j")
      case neq: False
      note li = merge_ok_child(1) [OF mo i]
      from list_iterator.wrapped_ops(3) [OF li children_wrapped [OF c(1) i] vk] obtain w where
        w: "iw_Seek ops k (mi_children m ! i) = Some w" "wrapped ops (I i) (p i) w (seek_pos (Compare cmp) k (es i))" by blast
      note v = list_iterator.wrapped_values [OF li w(2)]
      have "Compare cmp k (iw_key w) \<noteq> 0" if "iw_valid w"
      proof -
        let ?e = "es i ! seek_pos (Compare cmp) k (es i)"
        have e: "?e \<in> set (es i)" "iw_key w = fst ?e" using v that by simp_all
        then have "iw_key w \<in> fst ` set (es i)" by simp
        then have "iw_key w \<noteq> k" using c(8) [OF i neq] unfolding k_def by metis
        moreover have "valid (iw_key w)" using merge_ok_child(2) [OF mo i] e by (auto simp: sorted_run_def)
        ultimately have "iw_key w \<noteq> k" "valid (iw_key w)" by blast+
        with key_order.compare_eq [OF ko vk] show ?thesis by auto
      qed
      with w neq show ?thesis by (auto simp: child_after_def)
    qed (use children_wrapped [OF c(1) i] in simp)
    with move_children [of "mi_children m" n _ ops I p ?c'] c(1) False show ?thesis
      by (simp add: children_at_def)
  qed
  then obtain ws where ws: "(if mi_direction m \<noteq> kForward then
       for_children (\<lambda>i w. if i \<noteq> j then child_after cmp ops k w else Some w) 0 (mi_children m)
     else Some (mi_children m)) = Some ws" "children_at ops n I p ws ?c'" by blast
  from list_iterator.wrapped_ops(4) [OF merge_ok_child(1) [OF mo c(2)] children_wrapped [OF ws(2) c(2)]] c(3)
  obtain w where w: "iw_Next ops (ws ! j) = Some w" "wrapped ops (I j) (p j) w (Suc (c j))" by auto
  have "children_at ops n I p (ws[j := w]) (\<lambda>i. count_in (\<lambda>a. Compare cmp a k \<le> 0) (es i))"
  proof -
    have "count_in (\<lambda>a. Compare cmp a k \<le> 0) (es j) = Suc (c j)"
      using count_at_key(2) [OF ko merge_ok_child(2) [OF mo c(2)] c(3)] c(4) by (simp add: k_def)
    moreover have "count_in (\<lambda>a. Compare cmp a k \<le> 0) (es i) = seek_pos (Compare cmp) k (es i)" if "i < n" "i \<noteq> j" for i
      using count_off_key [OF ko merge_ok_child(2) [OF mo that(1)] vk] c(8) [OF that] by (simp add: seek_pos_count k_def)
    ultimately show ?thesis using ws(2) w(2) c(2) by (auto simp: children_at_def nth_list_update)
  qed
  note st = forward_state [OF mo key_cut_le [OF ko vk] this,
      of "FindSmallest cmp (m\<lparr> mi_children := ws[j := w], mi_direction := kForward \<rparr>)"]
  have "Merging_Next cmp ops m = Some (FindSmallest cmp (m\<lparr> mi_children := ws[j := w], mi_direction := kForward \<rparr>))"
    unfolding Merging_Next_def using cur ws(1) w(1) by (simp only: option.case k_def bind.simps option.map)
  moreover have "count_in (\<lambda>a. Compare cmp a k \<le> 0) M = Suc (merging_pos cmp M m)" using c(9) by (auto simp: k_def)
  ultimately show ?thesis using st by (simp add: FindSmallest_def)
qed

lemma merging_Prev:
  assumes mo: "merge_ok cmp valid ops n I es p M" and inv: "merging_inv cmp ops n I es p m"
    and cur: "mi_current m = Some j"
  shows "\<exists>m'. Merging_Prev cmp ops m = Some m' \<and> merging_inv cmp ops n I es p m' \<and>
    merging_pos cmp M m' = prev_pos M (merging_pos cmp M m)"
proof -
  obtain c where c: "children_at ops n I p (mi_children m) c" "j < n" "c j < length (es j)"
      "Merging_key m = fst (es j ! c j)" "Merging_value ops m = snd (es j ! c j)" "valid (fst (es j ! c j))"
      "\<And>i. i < n \<Longrightarrow> i \<noteq> j \<Longrightarrow> c i = (let s = seek_pos (Compare cmp) (Merging_key m) (es i) in
             if mi_direction m = kForward then s else prev_pos (es i) s)"
      "\<And>i. i < n \<Longrightarrow> i \<noteq> j \<Longrightarrow> Merging_key m \<notin> fst ` set (es i)"
      "\<exists>q < length M. M ! q = es j ! c j \<and> merging_pos cmp M m = q \<and> count_in (\<lambda>a. Compare cmp a (Merging_key m) < 0) M = q \<and>
         count_in (\<lambda>a. Compare cmp a (Merging_key m) \<le> 0) M = Suc q"
    by (rule merging_current [OF mo inv cur], rule that)
  define k where "k = Merging_key m"
  have ko: "key_order cmp valid" using mo by (simp add: merge_ok_def)
  have vk: "valid k" using c(4,6) by (simp add: k_def)
  let ?c' = "\<lambda>i. if i = j then c j else prev_pos (es i) (seek_pos (Compare cmp) k (es i))"
  have "\<exists>ws. (if mi_direction m \<noteq> kReverse then
       for_children (\<lambda>i w. if i \<noteq> j then child_before ops k w else Some w) 0 (mi_children m)
     else Some (mi_children m)) = Some ws \<and> children_at ops n I p ws ?c'"
  proof (cases "mi_direction m = kReverse")
    case True
    have "?c' i = c i" if "i < n" for i using True c(7) [OF that] by (cases "i = j") (simp_all add: k_def)
    with c(1) have "children_at ops n I p (mi_children m) ?c'" by (simp add: children_at_def)
    with True show ?thesis by simp
  next
    case False
    have "\<exists>w'. (if i \<noteq> j then child_before ops k (mi_children m ! i) else Some (mi_children m ! i)) = Some w' \<and>
        wrapped ops (I i) (p i) w' (?c' i)" if i: "i < n" for i
    proof (cases "i = j")
      case neq: False
      note li = merge_ok_child(1) [OF mo i]
      from list_iterator.wrapped_ops(3) [OF li children_wrapped [OF c(1) i] vk] obtain w where
        w: "iw_Seek ops k (mi_children m ! i) = Some w" "wrapped ops (I i) (p i) w (seek_pos (Compare cmp) k (es i))" by blast
      have "\<exists>w'. (if iw_valid w then iw_Prev ops w else iw_SeekToLast ops w) = Some w' \<and>
          wrapped ops (I i) (p i) w' (prev_pos (es i) (seek_pos (Compare cmp) k (es i)))"
      proof (cases "seek_pos (Compare cmp) k (es i) < length (es i)")
        case True
        with list_iterator.wrapped_ops(5) [OF li w(2)] list_iterator.wrapped_values(2) [OF li w(2)] show ?thesis by simp
      next
        case False
        then have "seek_pos (Compare cmp) k (es i) = length (es i)" by (simp add: le_antisym)
        with list_iterator.wrapped_ops(2) [OF li w(2)] list_iterator.wrapped_values(2) [OF li w(2)] show ?thesis
          by (simp add: last_pos_prev)
      qed
      with w(1) neq show ?thesis by (simp add: child_before_def)
    qed (use children_wrapped [OF c(1) i] in simp)
    with move_children [of "mi_children m" n _ ops I p ?c'] c(1) False show ?thesis
      by (simp add: children_at_def)
  qed
  then obtain ws where ws: "(if mi_direction m \<noteq> kReverse then
       for_children (\<lambda>i w. if i \<noteq> j then child_before ops k w else Some w) 0 (mi_children m)
     else Some (mi_children m)) = Some ws" "children_at ops n I p ws ?c'" by blast
  from list_iterator.wrapped_ops(5) [OF merge_ok_child(1) [OF mo c(2)] children_wrapped [OF ws(2) c(2)]] c(3)
  obtain w where w: "iw_Prev ops (ws ! j) = Some w" "wrapped ops (I j) (p j) w (prev_pos (es j) (c j))" by auto
  have "children_at ops n I p (ws[j := w]) (\<lambda>i. prev_pos (es i) (count_in (\<lambda>a. Compare cmp a k < 0) (es i)))"
  proof -
    have "count_in (\<lambda>a. Compare cmp a k < 0) (es j) = c j"
      using count_at_key(1) [OF ko merge_ok_child(2) [OF mo c(2)] c(3)] c(4) by (simp add: k_def)
    then show ?thesis using ws(2) w(2) c(2) by (auto simp: children_at_def nth_list_update seek_pos_count)
  qed
  note st = backward_state [OF mo key_cut_less [OF ko vk] this,
      of "FindLargest cmp (m\<lparr> mi_children := ws[j := w], mi_direction := kReverse \<rparr>)"]
  have "Merging_Prev cmp ops m = Some (FindLargest cmp (m\<lparr> mi_children := ws[j := w], mi_direction := kReverse \<rparr>))"
    unfolding Merging_Prev_def using cur ws(1) w(1) by (simp only: option.case k_def bind.simps option.map)
  moreover have "count_in (\<lambda>a. Compare cmp a k < 0) M = merging_pos cmp M m" using c(9) by (auto simp: k_def)
  ultimately show ?thesis using st by (simp add: FindLargest_def)
qed

lemma Merging_status_OK: "\<forall>w \<in> set ws. iw_status ops w = OK \<Longrightarrow> Merging_status ops ws OK = OK"
  by (induction ws) (simp_all add: Status_ok_def OK_def)

lemma merging_list_iterator:
  assumes mo: "merge_ok cmp valid ops n I es p M"
  shows "list_iterator (MergingIterator_ops cmp ops) (Compare cmp) valid (merging_inv cmp ops n I es p) M (merging_pos cmp M)"
proof -
  have pos: "(mi_current m \<noteq> None \<longleftrightarrow> merging_pos cmp M m < length M) \<and> merging_pos cmp M m \<le> length M \<and>
      (merging_pos cmp M m < length M \<longrightarrow> Merging_key m = fst (M ! merging_pos cmp M m) \<and>
         Merging_value ops m = snd (M ! merging_pos cmp M m))" if inv: "merging_inv cmp ops n I es p m" for m
  proof (cases "mi_current m")
    case (Some j)
    show ?thesis by (rule merging_current [OF mo inv Some]) (use Some in auto)
  qed (simp add: merging_pos_def)
  have st: "Merging_status ops (mi_children m) OK = OK" if inv: "merging_inv cmp ops n I es p m" for m
  proof -
    from inv obtain c where c: "children_at ops n I p (mi_children m) c" by (auto simp: merging_inv_def)
    have "iw_status ops w = OK" if "w \<in> set (mi_children m)" for w
      using that children_values(4) [OF mo c] c by (auto simp: in_set_conv_nth children_at_def)
    then show ?thesis by (intro Merging_status_OK) blast
  qed
  show ?thesis
  proof (unfold_locales, goal_cases)
    case (1 m) then show ?case using pos by blast
  next
    case (2 m) then show ?case using pos by (simp add: MergingIterator_ops_def)
  next
    case (3 m) from merging_SeekToFirst [OF mo this] show ?case by (simp add: MergingIterator_ops_def)
  next
    case (4 m) from merging_SeekToLast [OF mo this] show ?case by (simp add: MergingIterator_ops_def)
  next
    case (5 m t) from merging_Seek [OF mo this] show ?case by (simp add: MergingIterator_ops_def)
  next
    case (6 m)
    then obtain j where "mi_current m = Some j" using pos by blast
    from merging_Next [OF mo 6(1) this] show ?case by (simp add: MergingIterator_ops_def)
  next
    case (7 m)
    then obtain j where "mi_current m = Some j" using pos by blast
    from merging_Prev [OF mo 7(1) this] show ?case by (simp add: MergingIterator_ops_def)
  next
    case (8 m) then show ?case using pos by (simp add: MergingIterator_ops_def)
  next
    case (9 m) then show ?case using pos by (simp add: MergingIterator_ops_def)
  next
    case (10 m) then show ?case using st by (simp add: MergingIterator_ops_def)
  qed
qed

lemma merging_new:
  assumes "length its = n" "\<forall>i < n. I i (its ! i)"
  shows "merging_inv cmp ops n I es p (MergingIterator_new ops its)"
  using assms wrapped_Update [of "I i" "its ! i" for i]
  by (auto simp: merging_inv_def children_at_def MergingIterator_new_def iw_Set_def intro!: exI [of _ "\<lambda>i. p i (its ! i)"])

section \<open>Correctness\<close>

text \<open>
  C10. The iterator that \<open>NewMergingIterator\<close> returns for any number of iterators with disjoint
  keys is an iterator over the sorted union of their entries: every move from every reachable
  state, in either direction and across changes of direction, returns and ends at the right entry.
\<close>

theorem merging_iterator_correct:
  assumes "merge_ok cmp valid ops (length its) I es p M" "\<forall>i < length its. I i (its ! i)"
  shows "\<exists>inv pos. list_iterator (Merged_ops cmp ops) (Compare cmp) valid inv M pos \<and>
    inv (NewMergingIterator ops its)"
proof -
  consider "its = []" | it where "its = [it]" | a b cs where "its = a # b # cs"
    by (cases its rule: remdups_adj.cases) auto
  then show ?thesis
  proof cases
    case 1
    then have "M = []" using assms(1) by (simp add: merge_ok_def)
    with sum_list_iterator_Inl [OF empty_iterator.list_iterator_axioms, of "sum_ops ops (MergingIterator_ops cmp ops)"
        "Compare cmp"] 1
    have "list_iterator (Merged_ops cmp ops) (Compare cmp) (\<lambda>_. True) (case_sum (\<lambda>st. st = OK) (\<lambda>_. False)) M (case_sum (\<lambda>_. 0) (\<lambda>_. 0))"
      by (simp add: Merged_ops_def)
    then have "list_iterator (Merged_ops cmp ops) (Compare cmp) valid (case_sum (\<lambda>st. st = OK) (\<lambda>_. False)) M (case_sum (\<lambda>_. 0) (\<lambda>_. 0))"
      by (simp add: list_iterator_def)
    moreover have "case_sum (\<lambda>st. st = OK) (\<lambda>_. False) (NewMergingIterator ops its)"
      by (simp add: 1 NewMergingIterator_def NewEmptyIterator_def)
    ultimately show ?thesis by blast
  next
    case (2 it)
    have ko: "key_order cmp valid" "sorted_run cmp valid M" "set M = set (es 0)"
      using assms(1) 2 by (auto simp: merge_ok_def)
    note ch = merge_ok_child [OF assms(1), of 0]
    have "M = es 0" using sorted_run_unique [OF ko(1,2) ch(2) ko(3)] 2 by simp
    with sum_list_iterator [OF sum_list_iterator_Inl [OF ch(1)], of EmptyIterator "MergingIterator_ops cmp ops"] 2
    have "list_iterator (Merged_ops cmp ops) (Compare cmp) valid (case_sum (\<lambda>_. False) (case_sum (I 0) (\<lambda>_. False))) M
        (case_sum (\<lambda>_. 0) (case_sum (p 0) (\<lambda>_. 0)))" by (simp add: Merged_ops_def)
    moreover have "case_sum (\<lambda>_. False) (case_sum (I 0) (\<lambda>_. False)) (NewMergingIterator ops its)"
      using assms(2) by (simp add: 2 NewMergingIterator_def)
    ultimately show ?thesis by blast
  next
    case (3 a b cs)
    from sum_list_iterator [OF sum_list_iterator [OF merging_list_iterator [OF assms(1)]], of EmptyIterator ops]
    have "list_iterator (Merged_ops cmp ops) (Compare cmp) valid
        (case_sum (\<lambda>_. False) (case_sum (\<lambda>_. False) (merging_inv cmp ops (length its) I es p))) M
        (case_sum (\<lambda>_. 0) (case_sum (\<lambda>_. 0) (merging_pos cmp M)))" by (simp add: Merged_ops_def)
    moreover have "case_sum (\<lambda>_. False) (case_sum (\<lambda>_. False) (merging_inv cmp ops (length its) I es p)) (NewMergingIterator ops its)"
      using merging_new [of its "length its" I cmp ops es p] assms(2) by (simp add: 3 NewMergingIterator_def)
    ultimately show ?thesis by blast
  qed
qed

definition example_runs :: "entry list list" where
  "example_runs = [[(cstr ''a'', cstr ''1''), (cstr ''c'', cstr ''3'')], [(cstr ''b'', cstr ''2'')]]"

theorem merging_iterator_correct_witness:
  "it_forward (Merged_ops BytewiseComparator (Block_ops BytewiseComparator)) 3
     (NewMergingIterator (Block_ops BytewiseComparator)
        (map (\<lambda>es. Block_NewIterator (Block_new (block_of 16 es))) example_runs)) =
     Some [(cstr ''a'', cstr ''1''), (cstr ''b'', cstr ''2''), (cstr ''c'', cstr ''3'')]"
proof -
  let ?M = "[(cstr ''a'', cstr ''1''), (cstr ''b'', cstr ''2''), (cstr ''c'', cstr ''3'')]"
  let ?it = "\<lambda>es. Block_NewIterator (Block_new (block_of 16 es))"
  have sorted: "\<forall>es \<in> set (?M # example_runs). sorted_entries (Compare BytewiseComparator) es" by code_simp
  have len: "\<forall>es \<in> set example_runs. length (block_of 16 es) \<le> 40" by code_simp
  have "\<exists>inv pos. list_iterator (Block_ops BytewiseComparator) (Compare BytewiseComparator) (\<lambda>_. True) inv
      (example_runs ! i) pos \<and> inv (?it (example_runs ! i))" if "i < 2" for i
  proof -
    have "example_runs ! i \<in> set example_runs" using that by (intro nth_mem) (simp add: example_runs_def)
    then have l: "length (block_of 16 (example_runs ! i)) < 2 ^ 32" and s: "sorted_entries (Compare BytewiseComparator) (example_runs ! i)"
      using len sorted by fastforce+
    have "\<forall>e \<in> set (example_runs ! i). (\<lambda>_. True) (fst e)" "1 \<le> (16 :: nat)" by simp_all
    from built_block_iterator [OF this(2) l bytewise.key_order_axioms this(1) s] show ?thesis by (elim exE conjE) (intro exI conjI)
  qed
  then obtain I p where Ip: "\<And>i. i < 2 \<Longrightarrow> list_iterator (Block_ops BytewiseComparator) (Compare BytewiseComparator) (\<lambda>_. True)
      (I i) (example_runs ! i) (p i) \<and> I i (?it (example_runs ! i))" by metis
  have "merge_ok BytewiseComparator (\<lambda>_. True) (Block_ops BytewiseComparator) 2 I (\<lambda>i. example_runs ! i) p ?M"
    unfolding merge_ok_def
  proof (intro conjI allI impI bytewise.key_order_axioms)
    fix i :: nat assume i: "i < 2"
    show "list_iterator (Block_ops BytewiseComparator) (Compare BytewiseComparator) (\<lambda>_. True) (I i) (example_runs ! i) (p i)"
      using Ip [OF i] by blast
    show "sorted_run BytewiseComparator (\<lambda>_. True) (example_runs ! i)"
      using sorted i by (auto simp: sorted_run_def example_runs_def less_2_cases_iff simp del: cstr_Cons)
    show "fst ` set (example_runs ! i) \<inter> fst ` set (example_runs ! j) = {}" if "j < 2" "i \<noteq> j" for j
      using i that by (auto simp: example_runs_def less_2_cases_iff)
  next
    show "sorted_run BytewiseComparator (\<lambda>_. True) ?M" using sorted by (simp add: sorted_run_def)
    show "set ?M = (\<Union>i < 2. set (example_runs ! i))"
    proof -
      have "{..<2 :: nat} = {0, 1}" by auto
      then show ?thesis by (simp add: example_runs_def insert_commute del: cstr_Cons)
    qed
  qed
  moreover have n: "length (map ?it example_runs) = 2" by (simp add: example_runs_def)
  moreover have "\<forall>i < length (map ?it example_runs). I i (map ?it example_runs ! i)" using Ip n by simp
  ultimately obtain inv pos where
    "list_iterator (Merged_ops BytewiseComparator (Block_ops BytewiseComparator)) (Compare BytewiseComparator)
      (\<lambda>_. True) inv ?M pos" "inv (NewMergingIterator (Block_ops BytewiseComparator) (map ?it example_runs))"
    using merging_iterator_correct [of BytewiseComparator "\<lambda>_. True" "Block_ops BytewiseComparator" "map ?it example_runs" I
      "\<lambda>i. example_runs ! i" p ?M] by metis
  from list_iterator.forward_scan [OF this, of 3] show ?thesis by simp
qed

end
