(* ===== verification/Two_Level.thy ===== *)
theory Two_Level
  imports Iterator_Wrapper Sorted_Runs Block_Correctness
begin

text \<open>
  \<open>table/two_level_iterator.cc\<close>: an iterator over the concatenation of blocks that an index
  iterator names. The block function, which turns a handle into an iterator, is an argument; it may
  have no result, as reading a damaged block may not, and never returns a null pointer. The two loops that skip empty blocks return if the index iterator reaches an
  end; that they do is proved for an index that meets the iterator contract.
\<close>

section \<open>The model\<close>

record ('i, 'd) TwoLevelIterator =
  tl_status :: Status
  tl_index :: "'i IteratorWrapper"
  tl_data :: "'d IteratorWrapper"
  tl_handle :: bytes

definition TwoLevelIterator_new :: "'i Iterator \<Rightarrow> 'i \<Rightarrow> ('i, 'd) TwoLevelIterator" where
  "TwoLevelIterator_new iops index_iter =
     \<lparr> tl_status = OK, tl_index = iw_Set iops (Some index_iter) IteratorWrapper_new,
       tl_data = IteratorWrapper_new, tl_handle = [] \<rparr>"

definition TwoLevel_SaveError :: "Status \<Rightarrow> ('i, 'd) TwoLevelIterator \<Rightarrow> ('i, 'd) TwoLevelIterator" where
  "TwoLevel_SaveError st t = (if Status_ok (tl_status t) \<and> \<not> Status_ok st then t\<lparr> tl_status := st \<rparr> else t)"

definition SetDataIterator :: "'d Iterator \<Rightarrow> 'd option \<Rightarrow> ('i, 'd) TwoLevelIterator \<Rightarrow> ('i, 'd) TwoLevelIterator" where
  "SetDataIterator dops data_iter t =
     (let t = (if iw_iter (tl_data t) \<noteq> None then TwoLevel_SaveError (iw_status dops (tl_data t)) t else t) in
      t\<lparr> tl_data := iw_Set dops data_iter (tl_data t) \<rparr>)"

definition InitDataBlock :: "'i Iterator \<Rightarrow> 'd Iterator \<Rightarrow> (bytes \<Rightarrow> 'd option) \<Rightarrow>
    ('i, 'd) TwoLevelIterator \<Rightarrow> ('i, 'd) TwoLevelIterator option" where
  "InitDataBlock iops dops block_function t =
     (if \<not> iw_valid (tl_index t) then Some (SetDataIterator dops None t)
      else
        (let handle = iw_value iops (tl_index t) in
         if iw_iter (tl_data t) \<noteq> None \<and> handle = tl_handle t then Some t
         else map_option (\<lambda>iter. SetDataIterator dops (Some iter) (t\<lparr> tl_handle := handle \<rparr>)) (block_function handle)))"

text \<open>The guarded move \<open>if (data_iter_.iter() != NULL) data_iter_.f()\<close>.\<close>

definition data_move :: "('d IteratorWrapper \<Rightarrow> 'd IteratorWrapper option) \<Rightarrow>
    ('i, 'd) TwoLevelIterator \<Rightarrow> ('i, 'd) TwoLevelIterator option" where
  "data_move f t =
     (if iw_iter (tl_data t) \<noteq> None then map_option (\<lambda>d. t\<lparr> tl_data := d \<rparr>) (f (tl_data t)) else Some t)"

partial_function (option) SkipEmptyDataBlocksForward :: "'i Iterator \<Rightarrow> 'd Iterator \<Rightarrow> (bytes \<Rightarrow> 'd option) \<Rightarrow>
    ('i, 'd) TwoLevelIterator \<Rightarrow> ('i, 'd) TwoLevelIterator option" where
  "SkipEmptyDataBlocksForward iops dops block_function t =
     (if iw_iter (tl_data t) = None \<or> \<not> iw_valid (tl_data t) then
        (if \<not> iw_valid (tl_index t) then Some (SetDataIterator dops None t)
         else
           Option.bind (iw_Next iops (tl_index t)) (\<lambda>w.
             Option.bind (Option.bind (InitDataBlock iops dops block_function (t\<lparr> tl_index := w \<rparr>)) (data_move (iw_SeekToFirst dops)))
               (SkipEmptyDataBlocksForward iops dops block_function)))
      else Some t)"

partial_function (option) SkipEmptyDataBlocksBackward :: "'i Iterator \<Rightarrow> 'd Iterator \<Rightarrow> (bytes \<Rightarrow> 'd option) \<Rightarrow>
    ('i, 'd) TwoLevelIterator \<Rightarrow> ('i, 'd) TwoLevelIterator option" where
  "SkipEmptyDataBlocksBackward iops dops block_function t =
     (if iw_iter (tl_data t) = None \<or> \<not> iw_valid (tl_data t) then
        (if \<not> iw_valid (tl_index t) then Some (SetDataIterator dops None t)
         else
           Option.bind (iw_Prev iops (tl_index t)) (\<lambda>w.
             Option.bind (Option.bind (InitDataBlock iops dops block_function (t\<lparr> tl_index := w \<rparr>)) (data_move (iw_SeekToLast dops)))
               (SkipEmptyDataBlocksBackward iops dops block_function)))
      else Some t)"

definition TwoLevel_Seek :: "'i Iterator \<Rightarrow> 'd Iterator \<Rightarrow> (bytes \<Rightarrow> 'd option) \<Rightarrow> bytes \<Rightarrow>
    ('i, 'd) TwoLevelIterator \<Rightarrow> ('i, 'd) TwoLevelIterator option" where
  "TwoLevel_Seek iops dops block_function target t =
     Option.bind (iw_Seek iops target (tl_index t)) (\<lambda>w.
       Option.bind (Option.bind (InitDataBlock iops dops block_function (t\<lparr> tl_index := w \<rparr>)) (data_move (iw_Seek dops target)))
         (SkipEmptyDataBlocksForward iops dops block_function))"

definition TwoLevel_SeekToFirst :: "'i Iterator \<Rightarrow> 'd Iterator \<Rightarrow> (bytes \<Rightarrow> 'd option) \<Rightarrow>
    ('i, 'd) TwoLevelIterator \<Rightarrow> ('i, 'd) TwoLevelIterator option" where
  "TwoLevel_SeekToFirst iops dops block_function t =
     Option.bind (iw_SeekToFirst iops (tl_index t)) (\<lambda>w.
       Option.bind (Option.bind (InitDataBlock iops dops block_function (t\<lparr> tl_index := w \<rparr>)) (data_move (iw_SeekToFirst dops)))
         (SkipEmptyDataBlocksForward iops dops block_function))"

definition TwoLevel_SeekToLast :: "'i Iterator \<Rightarrow> 'd Iterator \<Rightarrow> (bytes \<Rightarrow> 'd option) \<Rightarrow>
    ('i, 'd) TwoLevelIterator \<Rightarrow> ('i, 'd) TwoLevelIterator option" where
  "TwoLevel_SeekToLast iops dops block_function t =
     Option.bind (iw_SeekToLast iops (tl_index t)) (\<lambda>w.
       Option.bind (Option.bind (InitDataBlock iops dops block_function (t\<lparr> tl_index := w \<rparr>)) (data_move (iw_SeekToLast dops)))
         (SkipEmptyDataBlocksBackward iops dops block_function))"

definition TwoLevel_Next :: "'i Iterator \<Rightarrow> 'd Iterator \<Rightarrow> (bytes \<Rightarrow> 'd option) \<Rightarrow>
    ('i, 'd) TwoLevelIterator \<Rightarrow> ('i, 'd) TwoLevelIterator option" where
  "TwoLevel_Next iops dops block_function t =
     Option.bind (iw_Next dops (tl_data t)) (\<lambda>d.
       SkipEmptyDataBlocksForward iops dops block_function (t\<lparr> tl_data := d \<rparr>))"

definition TwoLevel_Prev :: "'i Iterator \<Rightarrow> 'd Iterator \<Rightarrow> (bytes \<Rightarrow> 'd option) \<Rightarrow>
    ('i, 'd) TwoLevelIterator \<Rightarrow> ('i, 'd) TwoLevelIterator option" where
  "TwoLevel_Prev iops dops block_function t =
     Option.bind (iw_Prev dops (tl_data t)) (\<lambda>d.
       SkipEmptyDataBlocksBackward iops dops block_function (t\<lparr> tl_data := d \<rparr>))"

definition TwoLevel_status :: "'i Iterator \<Rightarrow> 'd Iterator \<Rightarrow> ('i, 'd) TwoLevelIterator \<Rightarrow> Status" where
  "TwoLevel_status iops dops t =
     (if \<not> Status_ok (iw_status iops (tl_index t)) then iw_status iops (tl_index t)
      else if iw_iter (tl_data t) \<noteq> None \<and> \<not> Status_ok (iw_status dops (tl_data t)) then iw_status dops (tl_data t)
      else tl_status t)"

definition TwoLevelIterator_ops :: "'i Iterator \<Rightarrow> 'd Iterator \<Rightarrow> (bytes \<Rightarrow> 'd option) \<Rightarrow>
    ('i, 'd) TwoLevelIterator Iterator" where
  "TwoLevelIterator_ops iops dops block_function =
     \<lparr> it_Valid = (\<lambda>t. iw_valid (tl_data t)),
       it_SeekToFirst = TwoLevel_SeekToFirst iops dops block_function,
       it_SeekToLast = TwoLevel_SeekToLast iops dops block_function,
       it_Seek = TwoLevel_Seek iops dops block_function,
       it_Next = TwoLevel_Next iops dops block_function,
       it_Prev = TwoLevel_Prev iops dops block_function,
       it_key = (\<lambda>t. iw_key (tl_data t)),
       it_value = (\<lambda>t. iw_value dops (tl_data t)),
       it_status = TwoLevel_status iops dops \<rparr>"

definition NewTwoLevelIterator :: "'i Iterator \<Rightarrow> 'i \<Rightarrow> ('i, 'd) TwoLevelIterator" where
  "NewTwoLevelIterator iops index_iter = TwoLevelIterator_new iops index_iter"

section \<open>What the index and the blocks promise\<close>

text \<open>
  The parties of a two-level iterator: the operations and invariants of the index iterator over
  \<open>ts_index\<close> and, for the handle \<open>h\<close> of a block, those of an iterator over \<open>ts_block h\<close>.
\<close>

record ('i, 'd) two_level_parts =
  ts_cmp :: Comparator
  ts_valid :: "bytes \<Rightarrow> bool"
  ts_iops :: "'i Iterator"
  ts_dops :: "'d Iterator"
  ts_bf :: "bytes \<Rightarrow> 'd option"
  ts_iinv :: "'i \<Rightarrow> bool"
  ts_ipos :: "'i \<Rightarrow> nat"
  ts_index :: "entry list"
  ts_dinv :: "bytes \<Rightarrow> 'd \<Rightarrow> bool"
  ts_dpos :: "bytes \<Rightarrow> 'd \<Rightarrow> nat"
  ts_block :: "bytes \<Rightarrow> entry list"

text \<open>A block function that gives for a handle an iterator over the block's entries.\<close>

definition block_ok :: "('i, 'd) two_level_parts \<Rightarrow> bytes \<Rightarrow> bool" where
  "block_ok S h \<longleftrightarrow> (\<exists>d. ts_bf S h = Some d \<and> ts_dinv S h d) \<and>
     list_iterator (ts_dops S) (Compare (ts_cmp S)) (ts_valid S) (ts_dinv S h) (ts_block S h) (ts_dpos S h)"

text \<open>The key of an index entry is at or past the keys of its block and before those of the next one.\<close>

definition two_level_ok :: "('i, 'd) two_level_parts \<Rightarrow> bool" where
  "two_level_ok S \<longleftrightarrow> key_order (ts_cmp S) (ts_valid S) \<and>
     list_iterator (ts_iops S) (Compare (ts_cmp S)) (ts_valid S) (ts_iinv S) (ts_index S) (ts_ipos S) \<and>
     sorted_run (ts_cmp S) (ts_valid S) (ts_index S) \<and>
     (\<forall>i < length (ts_index S). block_ok S (snd (ts_index S ! i)) \<and>
        (\<forall>e \<in> set (ts_block S (snd (ts_index S ! i))). ts_valid S (fst e) \<and>
           Compare (ts_cmp S) (fst e) (fst (ts_index S ! i)) \<le> 0 \<and>
           (\<forall>j < i. Compare (ts_cmp S) (fst (ts_index S ! j)) (fst e) < 0)))"

definition two_level_entries :: "('i, 'd) two_level_parts \<Rightarrow> entry list" where
  "two_level_entries S = concat (map (ts_block S \<circ> snd) (ts_index S))"

definition block_start :: "('i, 'd) two_level_parts \<Rightarrow> nat \<Rightarrow> nat" where
  "block_start S i = length (concat (map (ts_block S \<circ> snd) (take i (ts_index S))))"

abbreviation nth_block :: "('i, 'd) two_level_parts \<Rightarrow> nat \<Rightarrow> entry list" where
  "nth_block S i \<equiv> ts_block S (snd (ts_index S ! i))"

lemma block_start_simps:
  "block_start S 0 = 0"
  "i < length (ts_index S) \<Longrightarrow> block_start S (Suc i) = block_start S i + length (nth_block S i)"
  "length (ts_index S) \<le> i \<Longrightarrow> block_start S i = length (two_level_entries S)"
  by (simp_all add: block_start_def two_level_entries_def take_Suc_conv_app_nth)

lemma two_level_split:
  assumes "i < length (ts_index S)"
  shows "two_level_entries S = concat (map (ts_block S \<circ> snd) (take i (ts_index S))) @ nth_block S i @
    concat (map (ts_block S \<circ> snd) (drop (Suc i) (ts_index S)))"
  using arg_cong [OF id_take_nth_drop [OF assms], of "\<lambda>xs. concat (map (ts_block S \<circ> snd) xs)"]
  by (simp only: two_level_entries_def map_append list.map concat_append concat.simps comp_apply)

lemma nth_two_level:
  assumes "i < length (ts_index S)" "c < length (nth_block S i)"
  shows "block_start S i + c < length (two_level_entries S)"
    and "two_level_entries S ! (block_start S i + c) = nth_block S i ! c"
  using assms(2) by (simp_all add: two_level_split [OF assms(1)] block_start_def nth_append)

text \<open>A seek ends in the block that the index names, or behind its last entry.\<close>

lemma two_level_bounds:
  assumes "two_level_ok S" "i < length (ts_index S)" "e \<in> set (nth_block S i)"
  shows "ts_valid S (fst e)" "ts_valid S (fst (ts_index S ! i))"
    and "Compare (ts_cmp S) (fst e) (fst (ts_index S ! i)) \<le> 0"
    and "j < i \<Longrightarrow> Compare (ts_cmp S) (fst (ts_index S ! j)) (fst e) < 0"
  using assms by (simp_all add: two_level_ok_def sorted_run_def)

lemma two_level_seek_block:
  assumes "two_level_ok S" "ts_valid S t" "j < length (ts_index S)" "e \<in> set (nth_block S j)"
  shows "j < seek_pos (Compare (ts_cmp S)) t (ts_index S) \<Longrightarrow> Compare (ts_cmp S) (fst e) t < 0"
    and "seek_pos (Compare (ts_cmp S)) t (ts_index S) < j \<Longrightarrow> \<not> Compare (ts_cmp S) (fst e) t < 0"
proof -
  let ?i = "seek_pos (Compare (ts_cmp S)) t (ts_index S)"
  have ko: "key_order (ts_cmp S) (ts_valid S)" and ix: "sorted_run (ts_cmp S) (ts_valid S) (ts_index S)"
    using assms(1) by (simp_all add: two_level_ok_def)
  have iff: "Compare (ts_cmp S) (fst (ts_index S ! j)) t < 0 \<longleftrightarrow> j < ?i" if "j < length (ts_index S)" for j
    using seek_pos_iff [OF ko _ _ assms(2) that] ix by (simp add: sorted_run_def)
  note b = two_level_bounds [OF assms(1,3,4)]
  show "Compare (ts_cmp S) (fst e) t < 0" if "j < ?i"
    using key_order.compare_le_less_trans [OF ko b(1,2) assms(2) b(3)] iff [OF assms(3)] that by simp
  show "\<not> Compare (ts_cmp S) (fst e) t < 0" if "?i < j"
  proof
    assume "Compare (ts_cmp S) (fst e) t < 0"
    moreover have "ts_valid S (fst (ts_index S ! ?i))" using ix that assms(3) by (simp add: sorted_run_def)
    ultimately have "Compare (ts_cmp S) (fst (ts_index S ! ?i)) t < 0"
      using key_order.compare_trans [OF ko _ b(1) assms(2) b(4) [OF that]] by simp
    with iff [of ?i] that assms(3) show False by simp
  qed
qed

lemma two_level_seek_pos:
  assumes "two_level_ok S" "ts_valid S t" "i = seek_pos (Compare (ts_cmp S)) t (ts_index S)"
  shows "seek_pos (Compare (ts_cmp S)) t (two_level_entries S) =
    (if i < length (ts_index S) then block_start S i + seek_pos (Compare (ts_cmp S)) t (nth_block S i)
     else length (two_level_entries S))"
proof -
  let ?P = "\<lambda>e. Compare (ts_cmp S) (fst e) t < 0"
  let ?f = "\<lambda>xs. concat (map (ts_block S \<circ> snd) xs)"
  note blk = two_level_seek_block [OF assms(1,2), folded assms(3)]
  have "?P e" if "x \<in> set (take i (ts_index S))" "e \<in> set (ts_block S (snd x))" for x e
  proof -
    from that(1) obtain m where "x = ts_index S ! m" "m < i" "m < length (ts_index S)"
      by (auto simp: in_set_conv_nth)
    with blk(1) [of m e] that(2) show ?thesis by simp
  qed
  then have below: "filter ?P (?f (take i (ts_index S))) = ?f (take i (ts_index S))" by (intro filter_True) auto
  have "\<not> ?P e" if "x \<in> set (drop (Suc i) (ts_index S))" "e \<in> set (ts_block S (snd x))" for x e
  proof -
    from that(1) obtain m where "x = ts_index S ! (Suc i + m)" "Suc i + m < length (ts_index S)"
      by (auto simp: in_set_conv_nth)
    with blk(2) [of "Suc i + m" e] that(2) show ?thesis by simp
  qed
  then have above: "filter ?P (?f (drop (Suc i) (ts_index S))) = []" by (intro filter_False) auto
  show ?thesis
  proof (cases "i < length (ts_index S)")
    case True
    show ?thesis using True by (simp add: seek_pos_def two_level_split [OF True] below above block_start_def)
  next
    case False
    then have "filter ?P (two_level_entries S) = two_level_entries S" using below by (simp add: two_level_entries_def)
    with False show ?thesis by (simp add: seek_pos_def)
  qed
qed

section \<open>The states\<close>

abbreviation index_wrapped :: "('i, 'd) two_level_parts \<Rightarrow> 'i IteratorWrapper \<Rightarrow> nat \<Rightarrow> bool" where
  "index_wrapped S \<equiv> wrapped (ts_iops S) (ts_iinv S) (ts_ipos S)"

abbreviation data_wrapped :: "('i, 'd) two_level_parts \<Rightarrow> bytes \<Rightarrow> 'd IteratorWrapper \<Rightarrow> nat \<Rightarrow> bool" where
  "data_wrapped S h \<equiv> wrapped (ts_dops S) (ts_dinv S h) (ts_dpos S h)"

text \<open>
  Between the two levels' moves the data iterator may belong to another block than the index
  entry; at rest it is the block of the index entry, or no block at all.
\<close>

definition tl_mid :: "('i, 'd) two_level_parts \<Rightarrow> ('i, 'd) TwoLevelIterator \<Rightarrow> nat \<Rightarrow> bool" where
  "tl_mid S t i \<longleftrightarrow> tl_status t = OK \<and> index_wrapped S (tl_index t) i \<and>
     (iw_iter (tl_data t) = None \<and> \<not> iw_valid (tl_data t) \<or>
      (\<exists>c. block_ok S (tl_handle t) \<and> data_wrapped S (tl_handle t) (tl_data t) c))"

definition tl_at :: "('i, 'd) two_level_parts \<Rightarrow> ('i, 'd) TwoLevelIterator \<Rightarrow> nat \<Rightarrow> nat \<Rightarrow> bool" where
  "tl_at S t i c \<longleftrightarrow> tl_mid S t i \<and> i < length (ts_index S) \<and> tl_handle t = snd (ts_index S ! i) \<and>
     data_wrapped S (tl_handle t) (tl_data t) c"

definition tl_out :: "('i, 'd) two_level_parts \<Rightarrow> ('i, 'd) TwoLevelIterator \<Rightarrow> nat \<Rightarrow> bool" where
  "tl_out S t i \<longleftrightarrow> tl_mid S t i \<and> iw_iter (tl_data t) = None"

definition tl_inv :: "('i, 'd) two_level_parts \<Rightarrow> ('i, 'd) TwoLevelIterator \<Rightarrow> bool" where
  "tl_inv S t \<longleftrightarrow> (\<exists>i. tl_out S t i) \<or> (\<exists>i c. tl_at S t i c \<and> c < length (nth_block S i))"

definition tl_pos :: "('i, 'd) two_level_parts \<Rightarrow> ('i, 'd) TwoLevelIterator \<Rightarrow> nat" where
  "tl_pos S t =
     (case iw_iter (tl_data t) of
        None \<Rightarrow> length (two_level_entries S)
      | Some d \<Rightarrow> block_start S (ts_ipos S (the (iw_iter (tl_index t)))) + ts_dpos S (tl_handle t) d)"

lemma tl_pos_at: "tl_at S t i c \<Longrightarrow> tl_pos S t = block_start S i + c"
  by (auto simp: tl_at_def tl_mid_def wrapped_def tl_pos_def)

lemma tl_pos_out: "tl_out S t i \<Longrightarrow> tl_pos S t = length (two_level_entries S)"
  by (simp add: tl_out_def tl_pos_def)

lemma tl_out_invalid: "tl_out S t i \<Longrightarrow> \<not> iw_valid (tl_data t)"
  by (auto simp: tl_out_def tl_mid_def wrapped_def)

lemma two_level_index:
  assumes "two_level_ok S"
  shows "list_iterator (ts_iops S) (Compare (ts_cmp S)) (ts_valid S) (ts_iinv S) (ts_index S) (ts_ipos S)"
  using assms by (simp add: two_level_ok_def)

lemma two_level_block:
  assumes "two_level_ok S" "i < length (ts_index S)"
  shows "block_ok S (snd (ts_index S ! i))"
    and "list_iterator (ts_dops S) (Compare (ts_cmp S)) (ts_valid S) (ts_dinv S (snd (ts_index S ! i))) (nth_block S i)
      (ts_dpos S (snd (ts_index S ! i)))"
  using assms by (simp_all add: two_level_ok_def block_ok_def)

lemmas two_level_index_ops = list_iterator.wrapped_ops [OF two_level_index] list_iterator.wrapped_values [OF two_level_index]
lemmas two_level_block_ops = list_iterator.wrapped_ops [OF two_level_block(2)] list_iterator.wrapped_values [OF two_level_block(2)]

lemma tl_at_values:
  assumes "two_level_ok S" "tl_at S t i c"
  shows "c \<le> length (nth_block S i)" "iw_valid (tl_data t) \<longleftrightarrow> c < length (nth_block S i)"
    and "c < length (nth_block S i) \<Longrightarrow> iw_key (tl_data t) = fst (nth_block S i ! c)"
    and "c < length (nth_block S i) \<Longrightarrow> iw_value (ts_dops S) (tl_data t) = snd (nth_block S i ! c)"
proof -
  have i: "i < length (ts_index S)" "data_wrapped S (snd (ts_index S ! i)) (tl_data t) c"
    using assms(2) by (auto simp: tl_at_def)
  note v = two_level_block_ops(6-8) [OF assms(1) i]
  show "c \<le> length (nth_block S i)" "iw_valid (tl_data t) \<longleftrightarrow> c < length (nth_block S i)" using v(1,2) by simp_all
  show "iw_key (tl_data t) = fst (nth_block S i ! c)" "iw_value (ts_dops S) (tl_data t) = snd (nth_block S i ! c)"
    if "c < length (nth_block S i)" using v(3) [OF that] by simp_all
qed

section \<open>Entering a block\<close>

lemma tl_mid_index: "tl_mid S t i \<Longrightarrow> index_wrapped S w j \<Longrightarrow> tl_mid S (t\<lparr> tl_index := w \<rparr>) j"
  by (simp add: tl_mid_def)

lemma tl_mid_data_status: "tl_mid S t i \<Longrightarrow> iw_status (ts_dops S) (tl_data t) = OK"
  using list_iterator.wrapped_values(4) by (fastforce simp: tl_mid_def block_ok_def iw_status_def)

lemma SetDataIterator_mid:
  "tl_mid S t i \<Longrightarrow> SetDataIterator (ts_dops S) d t = t\<lparr> tl_data := iw_Set (ts_dops S) d (tl_data t) \<rparr>"
  using tl_mid_data_status [of S t i] by (simp add: SetDataIterator_def TwoLevel_SaveError_def)

lemma SetDataIterator_None: "tl_mid S t i \<Longrightarrow> tl_out S (SetDataIterator (ts_dops S) None t) i"
  by (subst SetDataIterator_mid, assumption) (simp add: tl_out_def tl_mid_def iw_Set_def)

lemma InitDataBlock_out:
  assumes "two_level_ok S" "tl_mid S t i" "\<not> i < length (ts_index S)"
  shows "\<exists>t'. InitDataBlock (ts_iops S) (ts_dops S) (ts_bf S) t = Some t' \<and> tl_out S t' i"
proof -
  have "\<not> iw_valid (tl_index t)" using two_level_index_ops(7) [OF assms(1)] assms(2,3) by (auto simp: tl_mid_def)
  then show ?thesis using SetDataIterator_None [OF assms(2)] by (simp add: InitDataBlock_def)
qed

lemma InitDataBlock_at:
  assumes "two_level_ok S" "tl_mid S t i" "i < length (ts_index S)"
  shows "\<exists>t' c. InitDataBlock (ts_iops S) (ts_dops S) (ts_bf S) t = Some t' \<and> tl_at S t' i c"
proof -
  let ?h = "snd (ts_index S ! i)"
  have ix: "index_wrapped S (tl_index t) i" "tl_status t = OK" using assms(2) by (simp_all add: tl_mid_def)
  have v: "iw_valid (tl_index t)" "iw_value (ts_iops S) (tl_index t) = ?h"
    using two_level_index_ops(7,8) [OF assms(1) ix(1)] assms(3) by simp_all
  show ?thesis
  proof (cases "iw_iter (tl_data t) \<noteq> None \<and> ?h = tl_handle t")
    case True
    then show ?thesis using v assms(2,3) by (auto simp: InitDataBlock_def tl_at_def tl_mid_def)
  next
    case False
    obtain d where d: "ts_bf S ?h = Some d" "ts_dinv S ?h d"
      using two_level_block(1) [OF assms(1,3)] by (auto simp: block_ok_def)
    have "SetDataIterator (ts_dops S) (Some d) (t\<lparr> tl_handle := ?h \<rparr>) =
        t\<lparr> tl_handle := ?h, tl_data := iw_Update (ts_dops S) d (tl_data t) \<rparr>"
      using tl_mid_data_status [OF assms(2)] by (simp add: SetDataIterator_def TwoLevel_SaveError_def iw_Set_def)
    then have "InitDataBlock (ts_iops S) (ts_dops S) (ts_bf S) t =
        Some (t\<lparr> tl_handle := ?h, tl_data := iw_Update (ts_dops S) d (tl_data t) \<rparr>)"
      using False v d(1) by (auto simp: InitDataBlock_def Let_def)
    moreover have "tl_at S (t\<lparr> tl_handle := ?h, tl_data := iw_Update (ts_dops S) d (tl_data t) \<rparr>) i (ts_dpos S ?h d)"
      using wrapped_Update [of "ts_dinv S ?h" d "ts_dops S" "ts_dpos S ?h" "tl_data t"] d(2) ix assms(3)
        two_level_block(1) [OF assms(1,3)] by (auto simp: tl_at_def tl_mid_def)
    ultimately show ?thesis by auto
  qed
qed

lemma data_move_at:
  assumes "tl_at S t i c" "\<exists>w'. f (tl_data t) = Some w' \<and> data_wrapped S (snd (ts_index S ! i)) w' c'"
  shows "\<exists>t'. data_move f t = Some t' \<and> tl_at S t' i c'"
proof -
  from assms(2) obtain w' where w': "f (tl_data t) = Some w'" "data_wrapped S (snd (ts_index S ! i)) w' c'" by blast
  have "iw_iter (tl_data t) \<noteq> None" using assms(1) by (auto simp: tl_at_def wrapped_def)
  then have "data_move f t = Some (t\<lparr> tl_data := w' \<rparr>)" using w'(1) by (simp add: data_move_def)
  moreover have "tl_at S (t\<lparr> tl_data := w' \<rparr>) i c'" using assms(1) w'(2)
    by (auto simp: tl_at_def tl_mid_def wrapped_def)
  ultimately show ?thesis by blast
qed

text \<open>A move of the index to entry \<open>j\<close>, and a move \<open>f\<close> of the iterator of that entry's block.\<close>

lemma enter_block:
  assumes "two_level_ok S" "tl_mid S t i" "index_wrapped S w j"
    and f: "\<And>w c. j < length (ts_index S) \<Longrightarrow> data_wrapped S (snd (ts_index S ! j)) w c \<Longrightarrow>
      \<exists>w'. f w = Some w' \<and> data_wrapped S (snd (ts_index S ! j)) w' c'"
  shows "\<exists>t'. Option.bind (InitDataBlock (ts_iops S) (ts_dops S) (ts_bf S) (t\<lparr> tl_index := w \<rparr>)) (data_move f) = Some t' \<and>
    (if j < length (ts_index S) then tl_at S t' j c' else tl_out S t' j)"
proof -
  have mid: "tl_mid S (t\<lparr> tl_index := w \<rparr>) j" using tl_mid_index [OF assms(2,3)] .
  show ?thesis
  proof (cases "j < length (ts_index S)")
    case True
    from InitDataBlock_at [OF assms(1) mid True] obtain t' c where
      c: "InitDataBlock (ts_iops S) (ts_dops S) (ts_bf S) (t\<lparr> tl_index := w \<rparr>) = Some t'" "tl_at S t' j c" by blast
    then have "data_wrapped S (snd (ts_index S ! j)) (tl_data t') c" by (auto simp: tl_at_def)
    from data_move_at [where f = f, OF c(2) f [OF True this]] show ?thesis using True c(1) by simp
  next
    case False
    from InitDataBlock_out [OF assms(1) mid False] obtain t' where
      "InitDataBlock (ts_iops S) (ts_dops S) (ts_bf S) (t\<lparr> tl_index := w \<rparr>) = Some t'" "tl_out S t' j" by blast
    then show ?thesis using False by (auto simp: data_move_def tl_out_def)
  qed
qed

lemma enter_ops:
  assumes "two_level_ok S" "tl_mid S t i" "index_wrapped S w j"
  shows "\<exists>t'. Option.bind (InitDataBlock (ts_iops S) (ts_dops S) (ts_bf S) (t\<lparr> tl_index := w \<rparr>)) (data_move (iw_SeekToFirst (ts_dops S))) =
      Some t' \<and> (if j < length (ts_index S) then tl_at S t' j 0 else tl_out S t' j)"
    and "\<exists>t'. Option.bind (InitDataBlock (ts_iops S) (ts_dops S) (ts_bf S) (t\<lparr> tl_index := w \<rparr>)) (data_move (iw_SeekToLast (ts_dops S))) =
      Some t' \<and> (if j < length (ts_index S) then tl_at S t' j (last_pos (nth_block S j)) else tl_out S t' j)"
    and "ts_valid S k \<Longrightarrow> \<exists>t'. Option.bind (InitDataBlock (ts_iops S) (ts_dops S) (ts_bf S) (t\<lparr> tl_index := w \<rparr>)) (data_move (iw_Seek (ts_dops S) k)) =
      Some t' \<and> (if j < length (ts_index S) then tl_at S t' j (seek_pos (Compare (ts_cmp S)) k (nth_block S j)) else tl_out S t' j)"
  by (rule enter_block [OF assms], erule (1) two_level_block_ops [OF assms(1)]; assumption)+

section \<open>Skipping empty blocks\<close>

text \<open>The iterator is at rest at position \<open>n\<close> of the concatenation.\<close>

definition tl_rests :: "('i, 'd) two_level_parts \<Rightarrow> ('i, 'd) TwoLevelIterator option \<Rightarrow> nat \<Rightarrow> bool" where
  "tl_rests S r n \<longleftrightarrow> (\<exists>t'. r = Some t' \<and> tl_inv S t' \<and> tl_pos S t' = n)"

abbreviation skip_forward :: "('i, 'd) two_level_parts \<Rightarrow> ('i, 'd) TwoLevelIterator \<Rightarrow> ('i, 'd) TwoLevelIterator option" where
  "skip_forward S \<equiv> SkipEmptyDataBlocksForward (ts_iops S) (ts_dops S) (ts_bf S)"

abbreviation skip_backward :: "('i, 'd) two_level_parts \<Rightarrow> ('i, 'd) TwoLevelIterator \<Rightarrow> ('i, 'd) TwoLevelIterator option" where
  "skip_backward S \<equiv> SkipEmptyDataBlocksBackward (ts_iops S) (ts_dops S) (ts_bf S)"

lemma skip_out:
  assumes "two_level_ok S" "tl_out S t i" "\<not> i < length (ts_index S)"
  shows "tl_rests S (skip_forward S t) (length (two_level_entries S))"
    and "tl_rests S (skip_backward S t) (length (two_level_entries S))"
proof -
  have mid: "tl_mid S t i" "iw_iter (tl_data t) = None" using assms(2) by (simp_all add: tl_out_def)
  then have "\<not> iw_valid (tl_index t)" using two_level_index_ops(7) [OF assms(1)] assms(3) by (auto simp: tl_mid_def)
  with mid(2) have r: "skip_forward S t = Some (SetDataIterator (ts_dops S) None t)"
      "skip_backward S t = Some (SetDataIterator (ts_dops S) None t)"
    by (simp_all add: SkipEmptyDataBlocksForward.simps SkipEmptyDataBlocksBackward.simps)
  have o: "tl_out S (SetDataIterator (ts_dops S) None t) i" using SetDataIterator_None [OF mid(1)] .
  show "tl_rests S (skip_forward S t) (length (two_level_entries S))"
    "tl_rests S (skip_backward S t) (length (two_level_entries S))"
    using o tl_pos_out [OF o] unfolding tl_rests_def r tl_inv_def by blast+
qed

lemma skip_valid:
  assumes "two_level_ok S" "tl_at S t i c" "c < length (nth_block S i)"
  shows "tl_rests S (skip_forward S t) (block_start S i + c)"
    and "tl_rests S (skip_backward S t) (block_start S i + c)"
proof -
  have "iw_valid (tl_data t)" using tl_at_values(2) [OF assms(1,2)] assms(3) by simp
  moreover obtain d where "iw_iter (tl_data t) = Some d" using assms(2) by (auto simp: tl_at_def wrapped_def)
  ultimately have r: "skip_forward S t = Some t" "skip_backward S t = Some t"
    by (simp_all add: SkipEmptyDataBlocksForward.simps SkipEmptyDataBlocksBackward.simps)
  show "tl_rests S (skip_forward S t) (block_start S i + c)" "tl_rests S (skip_backward S t) (block_start S i + c)"
    using tl_pos_at [OF assms(2)] assms(2,3) unfolding tl_rests_def r tl_inv_def by blast+
qed

lemma skip_step:
  assumes "two_level_ok S" "tl_at S t i c" "\<not> c < length (nth_block S i)"
  shows "\<exists>t'. skip_forward S t = skip_forward S t' \<and>
      (if Suc i < length (ts_index S) then tl_at S t' (Suc i) 0 else tl_out S t' (Suc i))"
    and "\<exists>t'. skip_backward S t = skip_backward S t' \<and>
      (if prev_pos (ts_index S) i < length (ts_index S)
       then tl_at S t' (prev_pos (ts_index S) i) (last_pos (nth_block S (prev_pos (ts_index S) i)))
       else tl_out S t' (prev_pos (ts_index S) i))"
proof -
  have i: "i < length (ts_index S)" "tl_mid S t i" "index_wrapped S (tl_index t) i"
    using assms(2) by (auto simp: tl_at_def tl_mid_def)
  have v: "\<not> iw_valid (tl_data t)" "iw_valid (tl_index t)"
    using tl_at_values(2) [OF assms(1,2)] assms(3) two_level_index_ops(7) [OF assms(1) i(3)] i(1) by simp_all
  obtain w where w: "iw_Next (ts_iops S) (tl_index t) = Some w" "index_wrapped S w (Suc i)"
    using two_level_index_ops(4) [OF assms(1) i(3,1)] by blast
  obtain w' where w': "iw_Prev (ts_iops S) (tl_index t) = Some w'" "index_wrapped S w' (prev_pos (ts_index S) i)"
    using two_level_index_ops(5) [OF assms(1) i(3,1)] by blast
  from enter_ops(1) [OF assms(1) i(2) w(2)] obtain t' where
    "Option.bind (InitDataBlock (ts_iops S) (ts_dops S) (ts_bf S) (t\<lparr> tl_index := w \<rparr>)) (data_move (iw_SeekToFirst (ts_dops S))) = Some t'"
    "if Suc i < length (ts_index S) then tl_at S t' (Suc i) 0 else tl_out S t' (Suc i)" by blast
  then show "\<exists>t'. skip_forward S t = skip_forward S t' \<and>
      (if Suc i < length (ts_index S) then tl_at S t' (Suc i) 0 else tl_out S t' (Suc i))"
    using v w(1) by (intro exI [of _ t']) (simp add: SkipEmptyDataBlocksForward.simps [of _ _ _ t] del: Option.bind_assoc)
  from enter_ops(2) [OF assms(1) i(2) w'(2)] obtain t' where
    "Option.bind (InitDataBlock (ts_iops S) (ts_dops S) (ts_bf S) (t\<lparr> tl_index := w' \<rparr>)) (data_move (iw_SeekToLast (ts_dops S))) = Some t'"
    "if prev_pos (ts_index S) i < length (ts_index S)
       then tl_at S t' (prev_pos (ts_index S) i) (last_pos (nth_block S (prev_pos (ts_index S) i)))
       else tl_out S t' (prev_pos (ts_index S) i)" by blast
  then show "\<exists>t'. skip_backward S t = skip_backward S t' \<and>
      (if prev_pos (ts_index S) i < length (ts_index S)
       then tl_at S t' (prev_pos (ts_index S) i) (last_pos (nth_block S (prev_pos (ts_index S) i)))
       else tl_out S t' (prev_pos (ts_index S) i))"
    using v w'(1) by (intro exI [of _ t']) (simp add: SkipEmptyDataBlocksBackward.simps [of _ _ _ t] del: Option.bind_assoc)
qed

lemma skip_forward_at:
  "two_level_ok S \<Longrightarrow> tl_at S t i c \<Longrightarrow> tl_rests S (skip_forward S t) (block_start S i + c)"
proof (induction "length (ts_index S) - i" arbitrary: t i c rule: less_induct)
  case less
  show ?case
  proof (cases "c < length (nth_block S i)")
    case True
    then show ?thesis using skip_valid(1) [OF less.prems] by simp
  next
    case False
    from skip_step(1) [OF less.prems False] obtain t' where t': "skip_forward S t = skip_forward S t'"
      "if Suc i < length (ts_index S) then tl_at S t' (Suc i) 0 else tl_out S t' (Suc i)" by blast
    have i: "i < length (ts_index S)" using less.prems(2) by (simp add: tl_at_def)
    have c: "block_start S i + c = block_start S (Suc i)"
      using False tl_at_values(1) [OF less.prems] block_start_simps(2) [OF i] by simp
    show ?thesis
    proof (cases "Suc i < length (ts_index S)")
      case True
      then show ?thesis using less.hyps [OF _ less.prems(1), of "Suc i" t' 0] t' i c by simp
    next
      case False
      then show ?thesis using skip_out(1) [OF less.prems(1), of t' "Suc i"] block_start_simps(3) [of S "Suc i"] t' c by simp
    qed
  qed
qed

lemma skip_backward_at:
  "two_level_ok S \<Longrightarrow> tl_at S t i c \<Longrightarrow> c = length (nth_block S i) \<Longrightarrow>
     tl_rests S (skip_backward S t) (prev_pos (two_level_entries S) (block_start S i))"
proof (induction i arbitrary: t c rule: less_induct)
  case (less i)
  have i: "i < length (ts_index S)" using less.prems(2) by (simp add: tl_at_def)
  let ?j = "prev_pos (ts_index S) i"
  have "\<not> c < length (nth_block S i)" using less.prems(3) by simp
  from skip_step(2) [OF less.prems(1,2) this] obtain t' where t': "skip_backward S t = skip_backward S t'"
    "if ?j < length (ts_index S) then tl_at S t' ?j (last_pos (nth_block S ?j)) else tl_out S t' ?j" by blast
  show ?case
  proof (cases i)
    case 0
    then have "\<not> ?j < length (ts_index S)" by (simp add: prev_pos_def)
    then show ?thesis using skip_out(2) [OF less.prems(1), of t' ?j] t' 0
      by (simp add: block_start_simps(1) prev_pos_def)
  next
    case (Suc k)
    then have k: "?j = k" "k < length (ts_index S)" using i by (simp_all add: prev_pos_def)
    with t'(2) have at: "tl_at S t' k (last_pos (nth_block S k))" by simp
    have start: "block_start S i = block_start S k + length (nth_block S k)"
      using block_start_simps(2) [OF k(2)] Suc by simp
    show ?thesis
    proof (cases "nth_block S k = []")
      case True
      then show ?thesis using less.IH [OF _ less.prems(1) at] t'(1) start Suc by (simp add: last_pos_def)
    next
      case False
      then show ?thesis using skip_valid(2) [OF less.prems(1) at] t'(1) start
        by (cases "nth_block S k") (simp_all add: last_pos_def prev_pos_def)
    qed
  qed
qed

section \<open>Correctness\<close>

lemma tl_inv_cases:
  assumes "tl_inv S t"
  obtains i where "tl_mid S t i" "tl_pos S t = length (two_level_entries S)" "iw_iter (tl_data t) = None" "\<not> iw_valid (tl_data t)"
  | i c where "tl_mid S t i" "tl_at S t i c" "c < length (nth_block S i)" "i < length (ts_index S)"
      "tl_pos S t = block_start S i + c"
proof -
  from assms consider i where "tl_out S t i" | i c where "tl_at S t i c" "c < length (nth_block S i)"
    by (auto simp: tl_inv_def)
  then show ?thesis
  proof cases
    case 1
    then show ?thesis using tl_pos_out [OF 1] tl_out_invalid [OF 1] by (intro that(1) [of i]) (simp_all add: tl_out_def)
  next
    case 2
    then show ?thesis using tl_pos_at [OF 2(1)] by (intro that(2) [of i c]) (auto simp: tl_at_def)
  qed
qed

lemma tl_inv_mid: "tl_inv S t \<Longrightarrow> \<exists>i. tl_mid S t i"
  by (erule tl_inv_cases) blast+

lemma tl_inv_valid:
  assumes "two_level_ok S" "tl_inv S t"
  shows "tl_pos S t \<le> length (two_level_entries S)"
    and "iw_valid (tl_data t) \<longleftrightarrow> tl_pos S t < length (two_level_entries S)"
proof -
  from assms(2) have "tl_pos S t \<le> length (two_level_entries S) \<and>
      (iw_valid (tl_data t) \<longleftrightarrow> tl_pos S t < length (two_level_entries S))"
  proof (cases rule: tl_inv_cases)
    case (2 i c)
    then show ?thesis using nth_two_level(1) [OF 2(4,3)] tl_at_values(2) [OF assms(1) 2(2)] by simp
  qed simp
  then show "tl_pos S t \<le> length (two_level_entries S)"
    "iw_valid (tl_data t) \<longleftrightarrow> tl_pos S t < length (two_level_entries S)" by simp_all
qed

lemma tl_inv_at:
  assumes "two_level_ok S" "tl_inv S t" "tl_pos S t < length (two_level_entries S)"
  obtains i c where "tl_at S t i c" "c < length (nth_block S i)" "tl_pos S t = block_start S i + c"
    "i < length (ts_index S)" "tl_handle t = snd (ts_index S ! i)" "data_wrapped S (snd (ts_index S ! i)) (tl_data t) c"
  using assms(2) by (rule tl_inv_cases) (use assms(3) in \<open>auto simp: tl_at_def intro: that\<close>)

lemma tl_SeekToFirst:
  assumes "two_level_ok S" "tl_inv S t"
  shows "tl_rests S (TwoLevel_SeekToFirst (ts_iops S) (ts_dops S) (ts_bf S) t) 0"
proof -
  obtain i where i: "tl_mid S t i" "index_wrapped S (tl_index t) i" using tl_inv_mid [OF assms(2)] by (auto simp: tl_mid_def)
  obtain w where w: "iw_SeekToFirst (ts_iops S) (tl_index t) = Some w" "index_wrapped S w 0"
    using two_level_index_ops(1) [OF assms(1) i(2)] by blast
  from enter_ops(1) [OF assms(1) i(1) w(2)] obtain t' where
    t': "TwoLevel_SeekToFirst (ts_iops S) (ts_dops S) (ts_bf S) t = skip_forward S t'"
      "if 0 < length (ts_index S) then tl_at S t' 0 0 else tl_out S t' 0"
    using w(1) by (auto simp: TwoLevel_SeekToFirst_def simp del: Option.bind_assoc)
  show ?thesis
  proof (cases "0 < length (ts_index S)")
    case True
    then show ?thesis using skip_forward_at [OF assms(1), of t' 0 0] t' by (simp add: block_start_simps(1))
  next
    case False
    then show ?thesis using skip_out(1) [OF assms(1), of t' 0] t' by (simp add: two_level_entries_def)
  qed
qed

lemma tl_SeekToLast:
  assumes "two_level_ok S" "tl_inv S t"
  shows "tl_rests S (TwoLevel_SeekToLast (ts_iops S) (ts_dops S) (ts_bf S) t) (last_pos (two_level_entries S))"
proof -
  let ?j = "last_pos (ts_index S)"
  obtain i where i: "tl_mid S t i" "index_wrapped S (tl_index t) i" using tl_inv_mid [OF assms(2)] by (auto simp: tl_mid_def)
  obtain w where w: "iw_SeekToLast (ts_iops S) (tl_index t) = Some w" "index_wrapped S w ?j"
    using two_level_index_ops(2) [OF assms(1) i(2)] by blast
  from enter_ops(2) [OF assms(1) i(1) w(2)] obtain t' where
    t': "TwoLevel_SeekToLast (ts_iops S) (ts_dops S) (ts_bf S) t = skip_backward S t'"
      "if ?j < length (ts_index S) then tl_at S t' ?j (last_pos (nth_block S ?j)) else tl_out S t' ?j"
    using w(1) by (auto simp: TwoLevel_SeekToLast_def simp del: Option.bind_assoc)
  show ?thesis
  proof (cases "ts_index S = []")
    case True
    then show ?thesis using skip_out(2) [OF assms(1), of t' ?j] t' by (simp add: two_level_entries_def last_pos_def)
  next
    case False
    then have j: "?j < length (ts_index S)" "Suc ?j = length (ts_index S)" by (simp_all add: last_pos_def)
    have e: "length (two_level_entries S) = block_start S ?j + length (nth_block S ?j)"
      using block_start_simps(2) [OF j(1)] block_start_simps(3) [of S "Suc ?j"] j(2) by simp
    have at: "tl_at S t' ?j (last_pos (nth_block S ?j))" using t'(2) j(1) by simp
    show ?thesis
    proof (cases "nth_block S ?j = []")
      case True
      then have "tl_rests S (skip_backward S t') (prev_pos (two_level_entries S) (block_start S ?j))"
        using skip_backward_at [OF assms(1) at] by (simp add: last_pos_def [of "[]"])
      with True e t'(1) show ?thesis by (simp add: prev_pos_def last_pos_def [of "two_level_entries S"] split: if_splits)
    next
      case False
      then have "last_pos (nth_block S ?j) < length (nth_block S ?j)" by (simp add: last_pos_def [of "nth_block S ?j"])
      from skip_valid(2) [OF assms(1) at this] False e t'(1) show ?thesis
        by (cases "nth_block S ?j") (simp_all add: last_pos_def [of "two_level_entries S"] last_pos_def [of "_ # _"])
    qed
  qed
qed

lemma tl_Seek:
  assumes "two_level_ok S" "tl_inv S t" "ts_valid S k"
  shows "tl_rests S (TwoLevel_Seek (ts_iops S) (ts_dops S) (ts_bf S) k t) (seek_pos (Compare (ts_cmp S)) k (two_level_entries S))"
proof -
  let ?j = "seek_pos (Compare (ts_cmp S)) k (ts_index S)"
  obtain i where i: "tl_mid S t i" "index_wrapped S (tl_index t) i" using tl_inv_mid [OF assms(2)] by (auto simp: tl_mid_def)
  obtain w where w: "iw_Seek (ts_iops S) k (tl_index t) = Some w" "index_wrapped S w ?j"
    using two_level_index_ops(3) [OF assms(1) i(2) assms(3)] by blast
  from enter_ops(3) [OF assms(1) i(1) w(2) assms(3)] obtain t' where
    t': "TwoLevel_Seek (ts_iops S) (ts_dops S) (ts_bf S) k t = skip_forward S t'"
      "if ?j < length (ts_index S) then tl_at S t' ?j (seek_pos (Compare (ts_cmp S)) k (nth_block S ?j)) else tl_out S t' ?j"
    using w(1) by (auto simp: TwoLevel_Seek_def simp del: Option.bind_assoc)
  then show ?thesis
    using skip_forward_at [OF assms(1)] skip_out(1) [OF assms(1)] two_level_seek_pos [OF assms(1,3) refl]
    by (auto split: if_splits)
qed

lemma tl_Next:
  assumes "two_level_ok S" "tl_inv S t" "tl_pos S t < length (two_level_entries S)"
  shows "tl_rests S (TwoLevel_Next (ts_iops S) (ts_dops S) (ts_bf S) t) (Suc (tl_pos S t))"
proof -
  from tl_inv_at [OF assms] obtain i c where at: "tl_at S t i c" "c < length (nth_block S i)"
    "tl_pos S t = block_start S i + c" "i < length (ts_index S)" "data_wrapped S (snd (ts_index S ! i)) (tl_data t) c" by metis
  obtain w where w: "iw_Next (ts_dops S) (tl_data t) = Some w" "data_wrapped S (snd (ts_index S ! i)) w (Suc c)"
    using two_level_block_ops(4) [OF assms(1) at(4,5,2)] by blast
  have "tl_at S (t\<lparr> tl_data := w \<rparr>) i (Suc c)" using at(1) w(2) by (auto simp: tl_at_def tl_mid_def wrapped_def)
  from skip_forward_at [OF assms(1) this] w(1) at(3) show ?thesis by (simp add: TwoLevel_Next_def)
qed

lemma tl_Prev:
  assumes "two_level_ok S" "tl_inv S t" "tl_pos S t < length (two_level_entries S)"
  shows "tl_rests S (TwoLevel_Prev (ts_iops S) (ts_dops S) (ts_bf S) t) (prev_pos (two_level_entries S) (tl_pos S t))"
proof -
  from tl_inv_at [OF assms] obtain i c where at: "tl_at S t i c" "c < length (nth_block S i)"
    "tl_pos S t = block_start S i + c" "i < length (ts_index S)" "data_wrapped S (snd (ts_index S ! i)) (tl_data t) c" by metis
  let ?c = "prev_pos (nth_block S i) c"
  obtain w where w: "iw_Prev (ts_dops S) (tl_data t) = Some w" "data_wrapped S (snd (ts_index S ! i)) w ?c"
    using two_level_block_ops(5) [OF assms(1) at(4,5,2)] by blast
  have "tl_at S (t\<lparr> tl_data := w \<rparr>) i ?c" using at(1) w(2) by (auto simp: tl_at_def tl_mid_def wrapped_def)
  note moves = skip_valid(2) [OF assms(1) this] skip_backward_at [OF assms(1) this]
  show ?thesis
  proof (cases c)
    case 0
    then show ?thesis using moves(2) w(1) at(3) by (simp add: TwoLevel_Prev_def prev_pos_def)
  next
    case (Suc c')
    then show ?thesis using moves(1) w(1) at(2,3) by (simp add: TwoLevel_Prev_def prev_pos_def)
  qed
qed

lemma two_level_list_iterator:
  assumes "two_level_ok S"
  shows "list_iterator (TwoLevelIterator_ops (ts_iops S) (ts_dops S) (ts_bf S)) (Compare (ts_cmp S)) (ts_valid S)
    (tl_inv S) (two_level_entries S) (tl_pos S)"
proof (unfold_locales, goal_cases)
  case (1 t) then show ?case by (rule tl_inv_valid(1) [OF assms])
next
  case (2 t) then show ?case using tl_inv_valid(2) [OF assms] by (simp add: TwoLevelIterator_ops_def)
next
  case (3 t) then show ?case using tl_SeekToFirst [OF assms] by (simp add: TwoLevelIterator_ops_def tl_rests_def)
next
  case (4 t) then show ?case using tl_SeekToLast [OF assms] by (simp add: TwoLevelIterator_ops_def tl_rests_def)
next
  case (5 t k) then show ?case using tl_Seek [OF assms] by (simp add: TwoLevelIterator_ops_def tl_rests_def)
next
  case (6 t) then show ?case using tl_Next [OF assms] by (simp add: TwoLevelIterator_ops_def tl_rests_def)
next
  case (7 t) then show ?case using tl_Prev [OF assms] by (simp add: TwoLevelIterator_ops_def tl_rests_def)
next
  case (8 t)
  from tl_inv_at [OF assms 8] obtain i c where "tl_at S t i c" "c < length (nth_block S i)" "tl_pos S t = block_start S i + c"
    "i < length (ts_index S)" by metis
  then show ?case using tl_at_values(3) [OF assms] nth_two_level(2) [of i S c] by (simp add: TwoLevelIterator_ops_def)
next
  case (9 t)
  from tl_inv_at [OF assms 9] obtain i c where "tl_at S t i c" "c < length (nth_block S i)" "tl_pos S t = block_start S i + c"
    "i < length (ts_index S)" by metis
  then show ?case using tl_at_values(4) [OF assms] nth_two_level(2) [of i S c] by (simp add: TwoLevelIterator_ops_def)
next
  case (10 t)
  then obtain i where "tl_mid S t i" using tl_inv_mid by blast
  then show ?case using tl_mid_data_status [of S t i] two_level_index_ops(9) [OF assms, of "tl_index t" i]
    by (simp add: TwoLevelIterator_ops_def TwoLevel_status_def tl_mid_def)
qed

lemma two_level_new: "ts_iinv S it \<Longrightarrow> tl_inv S (NewTwoLevelIterator (ts_iops S) it)"
  using wrapped_Update [of "ts_iinv S" it "ts_iops S" "ts_ipos S" IteratorWrapper_new]
  by (auto simp: tl_inv_def tl_out_def tl_mid_def NewTwoLevelIterator_def TwoLevelIterator_new_def iw_Set_def IteratorWrapper_new_def)

text \<open>
  C11. A two-level iterator over an index iterator and the iterators of the blocks it names, which
  all meet the iterator contract and whose index keys separate the blocks, is an iterator over the
  concatenation of the blocks: every move returns, in particular the loops that skip empty blocks,
  and ends at the right entry.
\<close>

theorem two_level_iterator_correct:
  assumes "two_level_ok S" "ts_iinv S index_iter"
  shows "list_iterator (TwoLevelIterator_ops (ts_iops S) (ts_dops S) (ts_bf S)) (Compare (ts_cmp S)) (ts_valid S)
      (tl_inv S) (two_level_entries S) (tl_pos S) \<and> tl_inv S (NewTwoLevelIterator (ts_iops S) index_iter)"
  using two_level_list_iterator [OF assms(1)] two_level_new [OF assms(2)] by blast

text \<open>An index of three blocks, the second of them empty, all built by the block builder.\<close>

definition example_blocks :: "(bytes \<times> entry list) list" where
  "example_blocks = [(cstr ''0'', [(cstr ''a'', cstr ''1''), (cstr ''b'', cstr ''2'')]), (cstr ''1'', []), (cstr ''2'', [(cstr ''e'', cstr ''5'')])]"

definition example_index :: "entry list" where
  "example_index = [(cstr ''b'', cstr ''0''), (cstr ''c'', cstr ''1''), (cstr ''e'', cstr ''2'')]"

definition example_iter :: "entry list \<Rightarrow> block_iterator" where
  "example_iter es = Block_NewIterator (Block_new (block_of 16 es))"

definition example_bf :: "bytes \<Rightarrow> block_iterator option" where
  "example_bf h = map_option example_iter (map_of example_blocks h)"

lemma example_runs_ok:
  "\<forall>es \<in> set (example_index # map snd example_blocks). sorted_entries (Compare BytewiseComparator) es \<and> length (block_of 16 es) \<le> 60"
  by code_simp

lemma example_iterator:
  assumes "es \<in> set (example_index # map snd example_blocks)"
  shows "\<exists>inv pos. list_iterator (Block_ops BytewiseComparator) (Compare BytewiseComparator) (\<lambda>_. True) inv es pos \<and> inv (example_iter es)"
proof -
  have l: "length (block_of 16 es) < 2 ^ 32" and s: "sorted_entries (Compare BytewiseComparator) es"
    using bspec [OF example_runs_ok assms] by auto
  have "\<forall>e \<in> set es. (\<lambda>_. True) (fst e)" "1 \<le> (16 :: nat)" by simp_all
  from built_block_iterator [OF this(2) l bytewise.key_order_axioms this(1) s] show ?thesis
    unfolding example_iter_def by (elim exE conjE) (intro exI conjI)
qed

theorem two_level_iterator_correct_witness:
  "it_forward (TwoLevelIterator_ops (Block_ops BytewiseComparator) (Block_ops BytewiseComparator) example_bf) 3
     (NewTwoLevelIterator (Block_ops BytewiseComparator) (example_iter example_index)) =
     Some [(cstr ''a'', cstr ''1''), (cstr ''b'', cstr ''2''), (cstr ''e'', cstr ''5'')]"
proof -
  let ?blk = "\<lambda>h. the (map_of example_blocks h)"
  obtain I p where Ip: "list_iterator (Block_ops BytewiseComparator) (Compare BytewiseComparator) (\<lambda>_. True) I example_index p"
    "I (example_iter example_index)" using example_iterator [of example_index] by auto
  have "\<forall>h. \<exists>DI dp. ?blk h \<in> set (map snd example_blocks) \<longrightarrow>
      list_iterator (Block_ops BytewiseComparator) (Compare BytewiseComparator) (\<lambda>_. True) DI (?blk h) dp \<and> DI (example_iter (?blk h))"
    using example_iterator by (metis list.set_intros(2))
  then obtain DI dp where D: "\<And>h. ?blk h \<in> set (map snd example_blocks) \<Longrightarrow>
      list_iterator (Block_ops BytewiseComparator) (Compare BytewiseComparator) (\<lambda>_. True) (DI h) (?blk h) (dp h) \<and> DI h (example_iter (?blk h))"
    by metis
  let ?S = "\<lparr> ts_cmp = BytewiseComparator, ts_valid = \<lambda>_. True, ts_iops = Block_ops BytewiseComparator,
    ts_dops = Block_ops BytewiseComparator, ts_bf = example_bf, ts_iinv = I, ts_ipos = p, ts_index = example_index,
    ts_dinv = DI, ts_dpos = dp, ts_block = ?blk \<rparr>"
  have handles: "\<forall>e \<in> set example_index. map_of example_blocks (snd e) \<noteq> None \<and> ?blk (snd e) \<in> set (map snd example_blocks)"
    and bounds: "\<forall>i < length example_index. \<forall>e \<in> set (?blk (snd (example_index ! i))).
      Compare BytewiseComparator (fst e) (fst (example_index ! i)) \<le> 0 \<and>
      (\<forall>j < i. Compare BytewiseComparator (fst (example_index ! j)) (fst e) < 0)"
    by code_simp+
  have "block_ok ?S (snd e)" if "e \<in> set example_index" for e
    using bspec [OF handles that] D [of "snd e"] by (auto simp: block_ok_def example_bf_def)
  then have ok: "two_level_ok ?S"
    using Ip(1) bounds example_runs_ok by (simp add: two_level_ok_def bytewise.key_order_axioms sorted_run_def)
  have E: "two_level_entries ?S = [(cstr ''a'', cstr ''1''), (cstr ''b'', cstr ''2''), (cstr ''e'', cstr ''5'')]"
    unfolding two_level_entries_def by (simp only: two_level_parts.simps) code_simp
  from two_level_iterator_correct [OF ok, of "example_iter example_index"] Ip(2)
  have "list_iterator (TwoLevelIterator_ops (Block_ops BytewiseComparator) (Block_ops BytewiseComparator) example_bf)
      (Compare BytewiseComparator) (\<lambda>_. True) (tl_inv ?S) (two_level_entries ?S) (tl_pos ?S)"
    "tl_inv ?S (NewTwoLevelIterator (Block_ops BytewiseComparator) (example_iter example_index))" by simp_all
  from list_iterator.forward_scan [OF this, of 3] E show ?thesis by simp
qed

end
