(* ===== verification/Format.thy ===== *)
theory Format
  imports Readers Crc32c Env Status
begin

text \<open>
  The layout of a table file: \<open>table/format.h\<close>, \<open>table/format.cc\<close> and the compression
  functions of \<open>port/port_posix.h\<close>. A block is followed by a type byte and a masked checksum;
  the file ends with a footer. Sizes read from a file are words of 64 bits, so that
  \<open>n + kBlockTrailerSize\<close> wraps around as in the source, and an operation that would read
  outside its buffer has no result.
\<close>

section \<open>Compression\<close>

datatype CompressionType = kNoCompression | kSnappyCompression

primrec CompressionType_val :: "CompressionType \<Rightarrow> byte" where
  "CompressionType_val kNoCompression = 0"
| "CompressionType_val kSnappyCompression = 1"

text \<open>The functions of the Snappy library that the port calls; no library if it is not compiled in.\<close>

record SnappyLib =
  RawCompress :: "bytes \<Rightarrow> bytes"
  UncompressedLength :: "bytes \<Rightarrow> nat option"
  RawUncompress :: "bytes \<Rightarrow> bytes option"

definition Snappy_Compress :: "SnappyLib option \<Rightarrow> bytes \<Rightarrow> bytes option" where
  "Snappy_Compress snappy input = (case snappy of None \<Rightarrow> None | Some lib \<Rightarrow> Some (RawCompress lib input))"

definition Snappy_GetUncompressedLength :: "SnappyLib option \<Rightarrow> bytes \<Rightarrow> nat option" where
  "Snappy_GetUncompressedLength snappy input = (case snappy of None \<Rightarrow> None | Some lib \<Rightarrow> UncompressedLength lib input)"

definition Snappy_Uncompress :: "SnappyLib option \<Rightarrow> bytes \<Rightarrow> bytes option" where
  "Snappy_Uncompress snappy input = (case snappy of None \<Rightarrow> None | Some lib \<Rightarrow> RawUncompress lib input)"

text \<open>What the table code relies on: decompression undoes compression.\<close>

locale snappy_port =
  fixes snappy :: "SnappyLib option"
  assumes uncompress_compress: "Snappy_Compress snappy x = Some y \<Longrightarrow>
    Snappy_GetUncompressedLength snappy y = Some (length x) \<and> Snappy_Uncompress snappy y = Some x"

interpretation no_snappy: snappy_port None
  by unfold_locales (simp add: Snappy_Compress_def)

section \<open>Block handles\<close>

record BlockHandle =
  bh_offset :: u64
  bh_size :: u64

definition BlockHandle_new :: BlockHandle where
  "BlockHandle_new = \<lparr> bh_offset = NOT 0, bh_size = NOT 0 \<rparr>"

definition kMaxEncodedLength :: nat where "kMaxEncodedLength = 10 + 10"

definition BlockHandle_EncodeTo :: "bytes \<Rightarrow> BlockHandle \<Rightarrow> bytes" where
  "BlockHandle_EncodeTo dst h = PutVarint64 (PutVarint64 dst (bh_offset h)) (bh_size h)"

text \<open>The status, the handle and the rest of the input; a failed read leaves the input alone.\<close>

definition BlockHandle_DecodeFrom :: "bytes \<Rightarrow> BlockHandle \<Rightarrow> Status \<times> BlockHandle \<times> bytes" where
  "BlockHandle_DecodeFrom input h =
     (case GetVarint64 input of
        None \<Rightarrow> (Corruption (cstr ''bad block handle'') [], h, input)
      | Some (off, input) \<Rightarrow>
          (let h = h\<lparr> bh_offset := off \<rparr> in
           case GetVarint64 input of
             None \<Rightarrow> (Corruption (cstr ''bad block handle'') [], h, input)
           | Some (sz, input) \<Rightarrow> (OK, h\<lparr> bh_size := sz \<rparr>, input)))"

section \<open>The footer\<close>

record Footer =
  ft_metaindex_handle :: BlockHandle
  ft_index_handle :: BlockHandle

definition Footer_new :: Footer where
  "Footer_new = \<lparr> ft_metaindex_handle = BlockHandle_new, ft_index_handle = BlockHandle_new \<rparr>"

definition Footer_kEncodedLength :: nat where "Footer_kEncodedLength = 2 * kMaxEncodedLength + 8"
definition kTableMagicNumber :: u64 where "kTableMagicNumber = 0xdb4775248b80fb57"
definition kBlockTrailerSize :: nat where "kBlockTrailerSize = 5"

text \<open>\<open>std::string::resize\<close>, which cuts the string or fills it with zero bytes.\<close>

definition string_resize :: "bytes \<Rightarrow> nat \<Rightarrow> bytes" where
  "string_resize s n = take n s @ replicate (n - length s) 0"

definition Footer_EncodeTo :: "bytes \<Rightarrow> Footer \<Rightarrow> bytes" where
  "Footer_EncodeTo dst f =
     (let dst = BlockHandle_EncodeTo dst (ft_metaindex_handle f);
          dst = BlockHandle_EncodeTo dst (ft_index_handle f);
          dst = string_resize dst (2 * kMaxEncodedLength);
          dst = PutFixed32 dst (ucast (kTableMagicNumber AND 0xffffffff))
      in PutFixed32 dst (ucast (drop_bit 32 kTableMagicNumber)))"

text \<open>The input has to have the bytes of a whole footer.\<close>

definition Footer_DecodeFrom :: "bytes \<Rightarrow> Footer \<Rightarrow> (Status \<times> Footer \<times> bytes) option" where
  "Footer_DecodeFrom input f =
     (if length input < Footer_kEncodedLength then None
      else
        (let magic_ptr = drop (Footer_kEncodedLength - 8) input;
             magic_lo = DecodeFixed32 magic_ptr;
             magic_hi = DecodeFixed32 (drop 4 magic_ptr);
             magic = push_bit 32 (ucast magic_hi :: u64) OR (ucast magic_lo :: u64)
         in if magic \<noteq> kTableMagicNumber
            then Some (Corruption (cstr ''not an sstable (bad magic number)'') [], f, input)
            else
              (case BlockHandle_DecodeFrom input (ft_metaindex_handle f) of
                 (result, meta, input') \<Rightarrow>
                   (let f = f\<lparr> ft_metaindex_handle := meta \<rparr> in
                    if \<not> Status_ok result then Some (result, f, input')
                    else
                      (case BlockHandle_DecodeFrom input' (ft_index_handle f) of
                         (result, index, input') \<Rightarrow>
                           (let f = f\<lparr> ft_index_handle := index \<rparr> in
                            if \<not> Status_ok result then Some (result, f, input')
                            else Some (result, f, drop 8 magic_ptr)))))))"

section \<open>Reading a block\<close>

record BlockContents =
  bc_data :: bytes
  bc_cachable :: bool
  bc_heap_allocated :: bool

text \<open>
  The comparison of the stored checksum with that of the data and the type byte. Every access
  to the buffer goes through \<open>read_mem\<close>, so that the result is missing if a byte outside of it is read.
\<close>

definition checksum_matches :: "bytes \<Rightarrow> nat \<Rightarrow> bool option" where
  "checksum_matches data n =
     Option.bind (read_mem data (n + 1) 4) (\<lambda>stored.
       let crc = Unmask (DecodeFixed32 stored) in
       map_option (\<lambda>covered. Value covered = crc) (read_mem data 0 (n + 1)))"

text \<open>
  \<open>ReadBlock\<close> for a file that does (\<open>scratch\<close>) or does not put what it reads into the buffer
  of the caller.
\<close>

definition ReadBlock :: "SnappyLib option \<Rightarrow> 'f RandomAccessFile \<Rightarrow> bool \<Rightarrow> 'f \<Rightarrow> bool \<Rightarrow> BlockHandle \<Rightarrow>
    (Status \<times> BlockContents) option" where
  "ReadBlock snappy rf scratch file verify_checksums handle =
     (let none = \<lparr> bc_data = [], bc_cachable = False, bc_heap_allocated = False \<rparr>;
          n = bh_size handle;
          len = n + word_of_nat kBlockTrailerSize
      in case ReadAt rf (bh_offset handle) (unat len) [] file of
           (contents, s) \<Rightarrow>
             if \<not> Status_ok s then Some (s, none)
             else if length contents \<noteq> unat len then Some (Corruption (cstr ''truncated block read'') [], none)
             else
               Option.bind (if verify_checksums then checksum_matches contents (unat n) else Some True) (\<lambda>match.
                 if \<not> match then Some (Corruption (cstr ''block checksum mismatch'') [], none)
                 else Option.bind (read_mem contents (unat n) 1) (\<lambda>type.
                   if type = [CompressionType_val kNoCompression] then
                     map_option (\<lambda>data. (OK, \<lparr> bc_data = data, bc_cachable = scratch, bc_heap_allocated = scratch \<rparr>))
                       (read_mem contents 0 (unat n))
                   else if type = [CompressionType_val kSnappyCompression] then
                     map_option (\<lambda>data.
                         case Snappy_GetUncompressedLength snappy data of
                           None \<Rightarrow> (Corruption (cstr ''corrupted compressed block contents'') [], none)
                         | Some ulength \<Rightarrow>
                             (case Snappy_Uncompress snappy data of
                                None \<Rightarrow> (Corruption (cstr ''corrupted compressed block contents'') [], none)
                              | Some ubuf \<Rightarrow>
                                  (OK, \<lparr> bc_data = take ulength ubuf, bc_cachable = True, bc_heap_allocated = True \<rparr>)))
                       (read_mem contents 0 (unat n))
                   else Some (Corruption (cstr ''bad block type'') [], none))))"

section \<open>Round trips\<close>

lemma length_BlockHandle_EncodeTo: "length (BlockHandle_EncodeTo dst h) \<le> length dst + kMaxEncodedLength"
  using length_EncodeVarint64 [of "bh_offset h"] length_EncodeVarint64 [of "bh_size h"]
  by (simp add: BlockHandle_EncodeTo_def PutVarint64_def kMaxEncodedLength_def)

lemma BlockHandle_EncodeTo_append: "BlockHandle_EncodeTo dst h = dst @ BlockHandle_EncodeTo [] h"
  by (simp add: BlockHandle_EncodeTo_def PutVarint64_def)

lemma BlockHandle_EncodeTo_not_Nil [simp]: "BlockHandle_EncodeTo [] h \<noteq> []"
  by (simp add: BlockHandle_EncodeTo_def PutVarint64_def)

lemma BlockHandle_roundtrip [codec]:
  "BlockHandle_DecodeFrom (BlockHandle_EncodeTo [] h @ rest) h0 = (OK, h, rest)"
  by (simp add: BlockHandle_DecodeFrom_def BlockHandle_EncodeTo_def PutVarint64_def)

lemma BlockHandle_roundtrip_exact: "BlockHandle_DecodeFrom (BlockHandle_EncodeTo [] h) h0 = (OK, h, [])"
  using BlockHandle_roundtrip [of h "[]"] by simp

lemma Footer_EncodeTo_eq:
  "Footer_EncodeTo [] f = (let hs = BlockHandle_EncodeTo [] (ft_metaindex_handle f) @ BlockHandle_EncodeTo [] (ft_index_handle f)
     in hs @ replicate (40 - length hs) 0 @ EncodeFixed32 0x8b80fb57 @ EncodeFixed32 0xdb477524) \<and>
   length (BlockHandle_EncodeTo [] (ft_metaindex_handle f) @ BlockHandle_EncodeTo [] (ft_index_handle f)) \<le> 40"
proof -
  let ?hs = "BlockHandle_EncodeTo [] (ft_metaindex_handle f) @ BlockHandle_EncodeTo [] (ft_index_handle f)"
  have l: "length ?hs \<le> 40"
    using length_BlockHandle_EncodeTo [of "[]" "ft_metaindex_handle f"] length_BlockHandle_EncodeTo [of "[]" "ft_index_handle f"]
    by (simp add: kMaxEncodedLength_def)
  have m: "(ucast (kTableMagicNumber AND 0xffffffff) :: u32) = 0x8b80fb57" "(ucast (drop_bit 32 kTableMagicNumber) :: u32) = 0xdb477524"
    by (code_simp, code_simp)
  have "BlockHandle_EncodeTo (BlockHandle_EncodeTo [] (ft_metaindex_handle f)) (ft_index_handle f) = ?hs"
    by (rule BlockHandle_EncodeTo_append)
  with l show ?thesis
    by (simp add: Footer_EncodeTo_def Let_def m string_resize_def PutFixed32_def kMaxEncodedLength_def)
qed

lemma length_Footer_EncodeTo [simp]: "length (Footer_EncodeTo [] f) = 48"
  using Footer_EncodeTo_eq [of f] by (simp add: Let_def)

lemma Footer_roundtrip: "Footer_DecodeFrom (Footer_EncodeTo [] f @ rest) f0 = Some (OK, f, rest)"
proof -
  let ?m = "BlockHandle_EncodeTo [] (ft_metaindex_handle f)" and ?i = "BlockHandle_EncodeTo [] (ft_index_handle f)"
  let ?pad = "replicate (40 - (length ?m + length ?i)) (0 :: byte)"
  have e: "Footer_EncodeTo [] f = ?m @ ?i @ ?pad @ EncodeFixed32 0x8b80fb57 @ EncodeFixed32 0xdb477524"
    and l: "length ?m + length ?i \<le> 40" using Footer_EncodeTo_eq [of f] by (simp_all add: Let_def)
  define input where "input = Footer_EncodeTo [] f @ rest"
  have d: "drop 40 input = EncodeFixed32 0x8b80fb57 @ EncodeFixed32 0xdb477524 @ rest"
    and len: "\<not> length input < 48" unfolding input_def e using l by simp_all
  have dec: "BlockHandle_DecodeFrom input h =
      (OK, ft_metaindex_handle f, ?i @ ?pad @ EncodeFixed32 0x8b80fb57 @ EncodeFixed32 0xdb477524 @ rest)"
    "BlockHandle_DecodeFrom (?i @ ?pad @ EncodeFixed32 0x8b80fb57 @ EncodeFixed32 0xdb477524 @ rest) h =
      (OK, ft_index_handle f, ?pad @ EncodeFixed32 0x8b80fb57 @ EncodeFixed32 0xdb477524 @ rest)" for h
    unfolding input_def e by (simp_all only: append.assoc BlockHandle_roundtrip)
  have "Footer_DecodeFrom input f0 = Some (OK, f, rest)"
    unfolding Footer_DecodeFrom_def Footer_kEncodedLength_def kMaxEncodedLength_def Let_def
    by (simp add: len d dec kTableMagicNumber_def)
  then show ?thesis by (simp only: input_def)
qed

section \<open>Stored blocks\<close>

text \<open>A block with its trailer, and a file in which the block of a handle is stored.\<close>

definition block_trailer :: "bytes \<Rightarrow> CompressionType \<Rightarrow> bytes" where
  "block_trailer c type =
     CompressionType_val type # EncodeFixed32 (Mask (Extend (Value c) [CompressionType_val type]))"

lemma length_block_trailer [simp]: "length (block_trailer c type) = kBlockTrailerSize"
  by (simp add: block_trailer_def kBlockTrailerSize_def)

definition decompresses :: "SnappyLib option \<Rightarrow> CompressionType \<Rightarrow> bytes \<Rightarrow> bytes \<Rightarrow> bool" where
  "decompresses snappy type c raw \<longleftrightarrow>
     (case type of
        kNoCompression \<Rightarrow> c = raw
      | kSnappyCompression \<Rightarrow>
          Snappy_GetUncompressedLength snappy c = Some (length raw) \<and> Snappy_Uncompress snappy c = Some raw)"

definition stored_block :: "SnappyLib option \<Rightarrow> bytes \<Rightarrow> BlockHandle \<Rightarrow> bytes \<Rightarrow> bool" where
  "stored_block snappy fc h raw \<longleftrightarrow>
     (\<exists>pre c type post. fc = pre @ c @ block_trailer c type @ post \<and> length (pre @ c @ block_trailer c type) < 2 ^ 64 \<and>
        h = \<lparr> bh_offset = word_of_nat (length pre), bh_size = word_of_nat (length c) \<rparr> \<and> decompresses snappy type c raw)"

lemma stored_block_append: "stored_block snappy fc h raw \<Longrightarrow> stored_block snappy (fc @ ext) h raw"
  unfolding stored_block_def by (metis append.assoc)

lemma stored_block_last:
  "length (pre @ c @ block_trailer c type) < 2 ^ 64 \<Longrightarrow> decompresses snappy type c raw \<Longrightarrow>
   stored_block snappy (pre @ c @ block_trailer c type)
     \<lparr> bh_offset = word_of_nat (length pre), bh_size = word_of_nat (length c) \<rparr> raw"
  unfolding stored_block_def by (metis append.right_neutral append.assoc)

context random_access_file
begin

lemma ReadBlock_stored:
  assumes "rok f" "stored_block snappy (rcontents f) h raw"
  shows "\<exists>bc. ReadBlock snappy rf scratch f verify h = Some (OK, bc) \<and> bc_data bc = raw"
proof -
  from assms(2) obtain pre c type post where fc: "rcontents f = pre @ c @ block_trailer c type @ post"
    and l: "length (pre @ c @ block_trailer c type) < 2 ^ 64" and d: "decompresses snappy type c raw"
    and h: "h = \<lparr> bh_offset = word_of_nat (length pre), bh_size = word_of_nat (length c) \<rparr>"
    unfolding stored_block_def by blast
  let ?t = "CompressionType_val type"
  have len: "length pre + length c + 5 < 2 ^ 64" using l by (simp add: kBlockTrailerSize_def)
  then have un: "unat (word_of_nat (length pre) :: u64) = length pre" "unat (word_of_nat (length c) :: u64) = length c"
    "unat (word_of_nat (length c) + 5 :: u64) = length c + 5"
    using unat_word_of_nat_small [where 'a = 64, of "length c + 5"] by simp_all
  have read: "ReadAt rf (word_of_nat (length pre)) (length c + 5) [] f = (c @ block_trailer c type, OK)"
    using read_at_ok [OF assms(1), of "word_of_nat (length pre)" "length c + 5" "[]"] un(1) fc
    by (simp add: kBlockTrailerSize_def)
  have lt: "length (c @ block_trailer c type) = length c + 5" by (simp add: kBlockTrailerSize_def)
  have crc: "checksum_matches (c @ block_trailer c type) (length c) = Some True"
    by (simp add: checksum_matches_def read_mem_def block_trailer_def Value_def Extend_append)
  have ty: "read_mem (c @ block_trailer c type) (length c) 1 = Some [?t]"
    "read_mem (c @ block_trailer c type) 0 (length c) = Some c"
    by (simp_all add: read_mem_def block_trailer_def)
  note r = ReadBlock_def Let_def h read kBlockTrailerSize_def un lt
  show ?thesis
  proof (cases type)
    case kNoCompression
    then have "raw = c" using d by (simp add: decompresses_def)
    with kNoCompression show ?thesis using crc ty by (simp add: r)
  next
    case kSnappyCompression
    then show ?thesis using d crc ty by (simp add: r decompresses_def)
  qed
qed

end

section \<open>Correctness\<close>


end
