(* ===== verification/Table_Builder.thy ===== *)
theory Table_Builder
  imports Format Block_Correctness Filter_Block
begin

text \<open>
  \<open>table/table_builder.cc\<close> with the options of \<open>include/leveldb/options.h\<close> that it and the table
  reader use. The file is reached through the operations of \<open>WritableFile\<close>. The asserts are
  preconditions: keys are added in order, and nothing is added after \<open>Finish\<close>.
\<close>

section \<open>Options\<close>

record Options =
  opt_comparator :: Comparator
  opt_paranoid_checks :: bool
  opt_block_size :: nat
  opt_block_restart_interval :: nat
  opt_compression :: CompressionType
  opt_filter_policy :: "FilterPolicy option"

definition Options_new :: Options where
  "Options_new =
     \<lparr> opt_comparator = BytewiseComparator, opt_paranoid_checks = False, opt_block_size = 4096,
       opt_block_restart_interval = 16, opt_compression = kSnappyCompression, opt_filter_policy = None \<rparr>"

section \<open>The builder\<close>

text \<open>A filter block builder keeps the policy it was created with.\<close>

record 'f TableBuilder =
  tb_options :: Options
  tb_file :: 'f
  tb_offset :: u64
  tb_status :: Status
  tb_data_block :: BlockBuilder
  tb_index_block :: BlockBuilder
  tb_last_key :: bytes
  tb_num_entries :: nat
  tb_closed :: bool
  tb_filter_block :: "(FilterPolicy \<times> FilterBlockBuilder) option"
  tb_pending_index_entry :: bool
  tb_pending_handle :: BlockHandle

definition TableBuilder_new :: "Options \<Rightarrow> 'f \<Rightarrow> 'f TableBuilder" where
  "TableBuilder_new options file =
     \<lparr> tb_options = options, tb_file = file, tb_offset = 0, tb_status = OK,
       tb_data_block = BlockBuilder_new, tb_index_block = BlockBuilder_new, tb_last_key = [],
       tb_num_entries = 0, tb_closed = False,
       tb_filter_block = map_option (\<lambda>policy. (policy, StartBlock policy 0 FilterBlockBuilder_new)) (opt_filter_policy options),
       tb_pending_index_entry = False, tb_pending_handle = BlockHandle_new \<rparr>"

abbreviation tb_ok :: "'f TableBuilder \<Rightarrow> bool" where
  "tb_ok r \<equiv> Status_ok (tb_status r)"

text \<open>\<open>same_comparator\<close>: the two options point to the same comparator object.\<close>

definition ChangeOptions :: "bool \<Rightarrow> Options \<Rightarrow> 'f TableBuilder \<Rightarrow> Status \<times> 'f TableBuilder" where
  "ChangeOptions same_comparator options r =
     (if \<not> same_comparator then (InvalidArgument (cstr ''changing comparator while building table'') [], r)
      else (OK, r\<lparr> tb_options := options \<rparr>))"

definition WriteRawBlock :: "'f WritableFile \<Rightarrow> bytes \<Rightarrow> CompressionType \<Rightarrow> 'f TableBuilder \<Rightarrow> BlockHandle \<times> 'f TableBuilder" where
  "WriteRawBlock wops block_contents type r =
     (let handle = \<lparr> bh_offset = tb_offset r, bh_size = word_of_nat (length block_contents) \<rparr>;
          (file, status) = Append wops block_contents (tb_file r);
          r = r\<lparr> tb_file := file, tb_status := status \<rparr>
      in if Status_ok status then
           (let crc = Value block_contents;
                crc = Extend crc [CompressionType_val type];
                trailer = CompressionType_val type # EncodeFixed32 (Mask crc);
                (file, status) = Append wops trailer (tb_file r);
                r = r\<lparr> tb_file := file, tb_status := status \<rparr>
            in (handle,
                if Status_ok status
                then r\<lparr> tb_offset := tb_offset r + word_of_nat (length block_contents + kBlockTrailerSize) \<rparr> else r))
         else (handle, r))"

text \<open>What \<open>WriteBlock\<close> stores for a block, and with which type.\<close>

definition compress_block :: "SnappyLib option \<Rightarrow> CompressionType \<Rightarrow> bytes \<Rightarrow> bytes \<times> CompressionType" where
  "compress_block snappy type raw =
     (case type of
        kNoCompression \<Rightarrow> (raw, kNoCompression)
      | kSnappyCompression \<Rightarrow>
          (case Snappy_Compress snappy raw of
             Some compressed \<Rightarrow>
               if length compressed < length raw - length raw div 8 then (compressed, kSnappyCompression)
               else (raw, kNoCompression)
           | None \<Rightarrow> (raw, kNoCompression)))"

definition WriteBlock :: "SnappyLib option \<Rightarrow> 'f WritableFile \<Rightarrow> BlockBuilder \<Rightarrow> 'f TableBuilder \<Rightarrow>
    BlockBuilder \<times> BlockHandle \<times> 'f TableBuilder" where
  "WriteBlock snappy wops block r =
     (let (block, raw) = BlockBuilder_Finish block;
          (block_contents, type) = compress_block snappy (opt_compression (tb_options r)) raw;
          (handle, r) = WriteRawBlock wops block_contents type r
      in (BlockBuilder_Reset block, handle, r))"

definition TableBuilder_Flush :: "SnappyLib option \<Rightarrow> 'f WritableFile \<Rightarrow> 'f TableBuilder \<Rightarrow> 'f TableBuilder" where
  "TableBuilder_Flush snappy wops r =
     (if \<not> tb_ok r then r
      else if BlockBuilder_empty (tb_data_block r) then r
      else
        (let (block, handle, r) = WriteBlock snappy wops (tb_data_block r) r;
             r = r\<lparr> tb_data_block := block, tb_pending_handle := handle \<rparr>;
             r = (if tb_ok r then
                    (let (file, status) = Flush wops (tb_file r)
                     in r\<lparr> tb_pending_index_entry := True, tb_file := file, tb_status := status \<rparr>)
                  else r)
         in r\<lparr> tb_filter_block := map_option (\<lambda>(policy, b). (policy, StartBlock policy (tb_offset r) b)) (tb_filter_block r) \<rparr>))"

text \<open>The index entry of the last block, for the key that separates it from what follows.\<close>

definition add_index_entry :: "bytes \<Rightarrow> 'f TableBuilder \<Rightarrow> 'f TableBuilder" where
  "add_index_entry last_key r =
     (let handle_encoding = BlockHandle_EncodeTo [] (tb_pending_handle r)
      in r\<lparr> tb_last_key := last_key, tb_index_block := BlockBuilder_Add 1 last_key handle_encoding (tb_index_block r),
            tb_pending_index_entry := False \<rparr>)"

definition TableBuilder_Add :: "SnappyLib option \<Rightarrow> 'f WritableFile \<Rightarrow> bytes \<Rightarrow> bytes \<Rightarrow> 'f TableBuilder \<Rightarrow> 'f TableBuilder" where
  "TableBuilder_Add snappy wops key val r =
     (if \<not> tb_ok r then r
      else
        (let r = (if tb_pending_index_entry r
                  then add_index_entry (FindShortestSeparator (opt_comparator (tb_options r)) (tb_last_key r) key) r else r);
             r = r\<lparr> tb_filter_block := map_option (\<lambda>(policy, b). (policy, AddKey key b)) (tb_filter_block r) \<rparr>;
             r = r\<lparr> tb_last_key := key, tb_num_entries := tb_num_entries r + 1,
                    tb_data_block := BlockBuilder_Add (opt_block_restart_interval (tb_options r)) key val (tb_data_block r) \<rparr>;
             estimated_block_size = CurrentSizeEstimate (tb_data_block r)
         in if opt_block_size (tb_options r) \<le> estimated_block_size then TableBuilder_Flush snappy wops r else r))"

section \<open>Finishing\<close>

text \<open>
  The steps of \<open>Finish\<close>. Writing the metaindex block follows \<open>options.filter_policy\<close>, which
  \<open>ChangeOptions\<close> may have reset to a null pointer; then there is no result.
\<close>

definition write_filter :: "'f WritableFile \<Rightarrow> 'f TableBuilder \<Rightarrow> BlockHandle \<times> 'f TableBuilder" where
  "write_filter wops r =
     (case tb_filter_block r of
        None \<Rightarrow> (BlockHandle_new, r)
      | Some (policy, b) \<Rightarrow>
          if tb_ok r then WriteRawBlock wops (FilterBlock_Finish policy b) kNoCompression r else (BlockHandle_new, r))"

definition meta_index_block :: "BlockHandle \<Rightarrow> 'f TableBuilder \<Rightarrow> BlockBuilder option" where
  "meta_index_block filter_block_handle r =
     (if tb_filter_block r = None then Some BlockBuilder_new
      else
        (case opt_filter_policy (tb_options r) of
           None \<Rightarrow> None
         | Some policy \<Rightarrow>
             Some (BlockBuilder_Add (opt_block_restart_interval (tb_options r))
               (cstr ''filter.'' @ FilterPolicy_Name policy) (BlockHandle_EncodeTo [] filter_block_handle) BlockBuilder_new)))"

definition write_metaindex :: "SnappyLib option \<Rightarrow> 'f WritableFile \<Rightarrow> BlockHandle \<Rightarrow> 'f TableBuilder \<Rightarrow>
    (BlockHandle \<times> 'f TableBuilder) option" where
  "write_metaindex snappy wops filter_block_handle r =
     (if tb_ok r then
        map_option (\<lambda>block. case WriteBlock snappy wops block r of (_, handle, r) \<Rightarrow> (handle, r))
          (meta_index_block filter_block_handle r)
      else Some (BlockHandle_new, r))"

definition write_index :: "SnappyLib option \<Rightarrow> 'f WritableFile \<Rightarrow> 'f TableBuilder \<Rightarrow> BlockHandle \<times> 'f TableBuilder" where
  "write_index snappy wops r =
     (if tb_ok r then
        (let r = (if tb_pending_index_entry r
                  then add_index_entry (FindShortSuccessor (opt_comparator (tb_options r)) (tb_last_key r)) r else r);
             (block, handle, r) = WriteBlock snappy wops (tb_index_block r) r
         in (handle, r\<lparr> tb_index_block := block \<rparr>))
      else (BlockHandle_new, r))"

definition write_footer :: "'f WritableFile \<Rightarrow> BlockHandle \<Rightarrow> BlockHandle \<Rightarrow> 'f TableBuilder \<Rightarrow> 'f TableBuilder" where
  "write_footer wops metaindex_block_handle index_block_handle r =
     (if tb_ok r then
        (let footer_encoding = Footer_EncodeTo [] \<lparr> ft_metaindex_handle = metaindex_block_handle, ft_index_handle = index_block_handle \<rparr>;
             (file, status) = Append wops footer_encoding (tb_file r);
             r = r\<lparr> tb_file := file, tb_status := status \<rparr>
         in if Status_ok status then r\<lparr> tb_offset := tb_offset r + word_of_nat (length footer_encoding) \<rparr> else r)
      else r)"

definition TableBuilder_Finish :: "SnappyLib option \<Rightarrow> 'f WritableFile \<Rightarrow> 'f TableBuilder \<Rightarrow> (Status \<times> 'f TableBuilder) option" where
  "TableBuilder_Finish snappy wops r =
     (let r = (TableBuilder_Flush snappy wops r)\<lparr> tb_closed := True \<rparr>;
          (filter_block_handle, r) = write_filter wops r
      in case write_metaindex snappy wops filter_block_handle r of
           None \<Rightarrow> None
         | Some (metaindex_block_handle, r) \<Rightarrow>
             (let (index_block_handle, r) = write_index snappy wops r;
                  r = write_footer wops metaindex_block_handle index_block_handle r
              in Some (tb_status r, r)))"

definition TableBuilder_Abandon :: "'f TableBuilder \<Rightarrow> 'f TableBuilder" where
  "TableBuilder_Abandon r = r\<lparr> tb_closed := True \<rparr>"

definition TableBuilder_NumEntries :: "'f TableBuilder \<Rightarrow> nat" where
  "TableBuilder_NumEntries r = tb_num_entries r"

definition TableBuilder_FileSize :: "'f TableBuilder \<Rightarrow> u64" where
  "TableBuilder_FileSize r = tb_offset r"

end
