(* ===== verification/Table.thy ===== *)
theory Table
  imports Table_Builder Two_Level
begin

text \<open>
  \<open>table/table.cc\<close>: opening a table file and reading from it. The file is reached through the
  operation of \<open>RandomAccessFile\<close>. Reading a block consults the block cache, whose answers are an
  argument, and returns what it inserts there; deleting and releasing blocks only frees memory.
  Operations have no result where the source reads outside a buffer.
\<close>

record ReadOptions =
  ro_verify_checksums :: bool
  ro_fill_cache :: bool

definition ReadOptions_new :: ReadOptions where
  "ReadOptions_new = \<lparr> ro_verify_checksums = False, ro_fill_cache = True \<rparr>"

record 'f Table =
  tab_options :: Options
  tab_file :: 'f
  tab_cache_id :: u64
  tab_filter :: "FilterBlockReader option"
  tab_metaindex_handle :: BlockHandle
  tab_index_block :: Block

text \<open>The library, the file operations and whether the file uses the buffers of its callers.\<close>

record 'f table_env =
  te_snappy :: "SnappyLib option"
  te_file :: "'f RandomAccessFile"
  te_scratch :: bool

abbreviation te_ReadBlock :: "'f table_env \<Rightarrow> 'f \<Rightarrow> bool \<Rightarrow> BlockHandle \<Rightarrow> (Status \<times> BlockContents) option" where
  "te_ReadBlock te \<equiv> ReadBlock (te_snappy te) (te_file te) (te_scratch te)"

section \<open>Opening\<close>

definition Table_ReadFilter :: "'f table_env \<Rightarrow> bytes \<Rightarrow> 'f Table \<Rightarrow> 'f Table option" where
  "Table_ReadFilter te filter_handle_value t =
     (case BlockHandle_DecodeFrom filter_handle_value BlockHandle_new of
        (s, filter_handle, _) \<Rightarrow>
          if \<not> Status_ok s then Some t
          else
            (case te_ReadBlock te (tab_file t) (opt_paranoid_checks (tab_options t)) filter_handle of
               None \<Rightarrow> None
             | Some (s, block) \<Rightarrow>
                 if \<not> Status_ok s then Some t
                 else Some (t\<lparr> tab_filter := Some (FilterBlockReader_new (bc_data block)) \<rparr>)))"

definition Table_ReadMeta :: "'f table_env \<Rightarrow> Footer \<Rightarrow> 'f Table \<Rightarrow> 'f Table option" where
  "Table_ReadMeta te footer t =
     (case opt_filter_policy (tab_options t) of
        None \<Rightarrow> Some t
      | Some policy \<Rightarrow>
          (case te_ReadBlock te (tab_file t) (opt_paranoid_checks (tab_options t)) (ft_metaindex_handle footer) of
             None \<Rightarrow> None
           | Some (s, contents) \<Rightarrow>
               if \<not> Status_ok s then Some t
               else
                 (let meta = Block_new (bc_data contents);
                      ops = Block_ops BytewiseComparator;
                      key = cstr ''filter.'' @ FilterPolicy_Name policy
                  in case it_Seek ops key (Block_NewIterator meta) of
                       None \<Rightarrow> None
                     | Some iter \<Rightarrow>
                         if it_Valid ops iter \<and> it_key ops iter = key then Table_ReadFilter te (it_value ops iter) t
                         else Some t)))"

text \<open>\<open>new_id\<close> is the identifier that the block cache assigns, 0 if there is no cache.\<close>

definition Table_Open :: "'f table_env \<Rightarrow> Options \<Rightarrow> 'f \<Rightarrow> u64 \<Rightarrow> u64 \<Rightarrow> (Status \<times> 'f Table option) option" where
  "Table_Open te options file sz new_id =
     (if unat sz < Footer_kEncodedLength then Some (Corruption (cstr ''file is too short to be an sstable'') [], None)
      else
        (case ReadAt (te_file te) (sz - word_of_nat Footer_kEncodedLength) Footer_kEncodedLength [] file of
           (footer_input, s) \<Rightarrow>
             if \<not> Status_ok s then Some (s, None)
             else
               (case Footer_DecodeFrom footer_input Footer_new of
                  None \<Rightarrow> None
                | Some (s, footer, _) \<Rightarrow>
                    if \<not> Status_ok s then Some (s, None)
                    else
                      (case te_ReadBlock te file (opt_paranoid_checks options) (ft_index_handle footer) of
                         None \<Rightarrow> None
                       | Some (s, contents) \<Rightarrow>
                           if \<not> Status_ok s then Some (s, None)
                           else
                             map_option (\<lambda>t. (s, Some t))
                               (Table_ReadMeta te footer
                                  \<lparr> tab_options = options, tab_file = file, tab_cache_id = new_id, tab_filter = None,
                                    tab_metaindex_handle = ft_metaindex_handle footer,
                                    tab_index_block = Block_new (bc_data contents) \<rparr>)))))"

section \<open>Reading\<close>

definition cache_key :: "'f Table \<Rightarrow> BlockHandle \<Rightarrow> bytes" where
  "cache_key t handle = EncodeFixed64 (tab_cache_id t) @ EncodeFixed64 (bh_offset handle)"

definition read_block_of :: "'f table_env \<Rightarrow> ReadOptions \<Rightarrow> 'f Table \<Rightarrow> BlockHandle \<Rightarrow> (Status \<times> Block option \<times> bool) option" where
  "read_block_of te options t handle =
     map_option (\<lambda>(s, contents). (s, if Status_ok s then Some (Block_new (bc_data contents)) else None, bc_cachable contents))
       (te_ReadBlock te (tab_file t) (ro_verify_checksums options) handle)"

text \<open>The iterator over the block and the entry \<open>(key, block, charge)\<close> that is added to the cache.\<close>

definition Table_BlockReader :: "'f table_env \<Rightarrow> ReadOptions \<Rightarrow> (bytes \<Rightarrow> Block option) option \<Rightarrow> 'f Table \<Rightarrow> bytes \<Rightarrow>
    (block_iterator \<times> (bytes \<times> Block \<times> nat) option) option" where
  "Table_BlockReader te options block_cache t index_value =
     (case BlockHandle_DecodeFrom index_value BlockHandle_new of
        (s, handle, _) \<Rightarrow>
          if \<not> Status_ok s then Some (Inl (NewErrorIterator s), None)
          else
            (case Option.bind block_cache (\<lambda>lookup. lookup (cache_key t handle)) of
               Some block \<Rightarrow> Some (Block_NewIterator block, None)
             | None \<Rightarrow>
                 map_option (\<lambda>(s, block, cachable).
                     case block of
                       None \<Rightarrow> (Inl (NewErrorIterator s), None)
                     | Some block \<Rightarrow>
                         (Block_NewIterator block,
                          if block_cache \<noteq> None \<and> cachable \<and> ro_fill_cache options
                          then Some (cache_key t handle, block, blk_size block) else None))
                   (read_block_of te options t handle)))"

abbreviation Table_block_ops :: "'f Table \<Rightarrow> block_iterator Iterator" where
  "Table_block_ops t \<equiv> Block_ops (opt_comparator (tab_options t))"

type_synonym table_iterator = "(block_iterator, block_iterator) TwoLevelIterator"

definition Table_Iterator_ops :: "'f table_env \<Rightarrow> ReadOptions \<Rightarrow> (bytes \<Rightarrow> Block option) option \<Rightarrow> 'f Table \<Rightarrow> table_iterator Iterator" where
  "Table_Iterator_ops te options block_cache t =
     TwoLevelIterator_ops (Table_block_ops t) (Table_block_ops t) (\<lambda>h. map_option fst (Table_BlockReader te options block_cache t h))"

definition Table_NewIterator :: "'f Table \<Rightarrow> table_iterator" where
  "Table_NewIterator t = NewTwoLevelIterator (Table_block_ops t) (Block_NewIterator (tab_index_block t))"

text \<open>The status, and the entry with which \<open>saver\<close> is called.\<close>

definition Table_InternalGet :: "'f table_env \<Rightarrow> ReadOptions \<Rightarrow> (bytes \<Rightarrow> Block option) option \<Rightarrow> 'f Table \<Rightarrow> bytes \<Rightarrow>
    (Status \<times> entry option) option" where
  "Table_InternalGet te options block_cache t k =
     (let ops = Table_block_ops t in
      case it_Seek ops k (Block_NewIterator (tab_index_block t)) of
        None \<Rightarrow> None
      | Some iiter \<Rightarrow>
          map_option (\<lambda>(s, found). (if Status_ok s then it_status ops iiter else s, found))
            (if it_Valid ops iiter then
               (let handle_value = it_value ops iiter in
                if (case (tab_filter t, opt_filter_policy (tab_options t)) of
                      (Some reader, Some policy) \<Rightarrow>
                        (case BlockHandle_DecodeFrom handle_value BlockHandle_new of
                           (s, handle, _) \<Rightarrow> Status_ok s \<and> \<not> FilterBlock_KeyMayMatch policy reader (bh_offset handle) k)
                    | _ \<Rightarrow> False)
                then Some (OK, None)
                else
                  Option.bind (Table_BlockReader te options block_cache t handle_value) (\<lambda>(block_iter, _).
                    map_option (\<lambda>block_iter.
                        (it_status ops block_iter,
                         if it_Valid ops block_iter then Some (it_key ops block_iter, it_value ops block_iter) else None))
                      (it_Seek ops k block_iter)))
             else Some (OK, None)))"

definition ApproximateOffsetOf :: "'f Table \<Rightarrow> bytes \<Rightarrow> u64 option" where
  "ApproximateOffsetOf t key =
     (let ops = Table_block_ops t in
      map_option (\<lambda>index_iter.
          if it_Valid ops index_iter then
            (case BlockHandle_DecodeFrom (it_value ops index_iter) BlockHandle_new of
               (s, handle, _) \<Rightarrow> if Status_ok s then bh_offset handle else bh_offset (tab_metaindex_handle t))
          else bh_offset (tab_metaindex_handle t))
        (it_Seek ops key (Block_NewIterator (tab_index_block t))))"

end
