(* ===== verification/Table_Image.thy ===== *)
theory Table_Image
  imports Table_Builder Sorted_Runs Memenv
begin

text \<open>
  What \<open>TableBuilder\<close> writes to a file that meets the contract of \<open>WritableFile\<close>: the blocks of
  a partition of the entries, an index that separates them, the filter, the metaindex block and
  the footer.
\<close>

section \<open>Sizes of blocks\<close>

definition bb_of :: "nat \<Rightarrow> entry list \<Rightarrow> BlockBuilder" where
  "bb_of I es = fold (\<lambda>(k, v). BlockBuilder_Add I k v) es BlockBuilder_new"

lemma bb_of_Nil [simp]: "bb_of I [] = BlockBuilder_new"
  by (simp add: bb_of_def)

lemma bb_of_snoc: "bb_of I (es @ [(k, v)]) = BlockBuilder_Add I k v (bb_of I es)"
  by (simp add: bb_of_def)

lemma block_of_bb: "snd (BlockBuilder_Finish (bb_of I es)) = block_of I es"
  by (simp add: block_of_def bb_of_def)

lemma BlockBuilder_Reset_new [simp]: "BlockBuilder_Reset b = BlockBuilder_new"
  by (simp add: BlockBuilder_Reset_def BlockBuilder_new_def)

lemma bb_of_empty: "BlockBuilder_empty (bb_of I es) \<longleftrightarrow> es = []"
proof (cases es rule: rev_cases)
  case (snoc ys e)
  obtain k v where "e = (k, v)" by (cases e)
  then show ?thesis
    using snoc enc_entry_length [of "(if bb_counter (bb_of I ys) < I then shared_loop (bb_last_key (bb_of I ys)) k 0 else 0, k, v)"]
    by (auto simp: bb_of_snoc BlockBuilder_Add_eq BlockBuilder_empty_def simp del: enc_entry.simps)
qed (simp add: BlockBuilder_empty_def BlockBuilder_new_def)

text \<open>A bound on the bytes that an entry takes in a block, with a share of the block's own fields.\<close>

definition entries_size :: "entry list \<Rightarrow> nat" where
  "entries_size es = sum_list (map (\<lambda>(k, v). length k + length v + 32) es)"

lemma entries_size_append [simp]: "entries_size (es @ es') = entries_size es + entries_size es'"
  by (simp add: entries_size_def)

lemma entries_size_simps [simp]: "entries_size [] = 0" "entries_size ((k, v) # es) = length k + length v + 32 + entries_size es"
  by (simp_all add: entries_size_def)

lemma length_enc_entry: "length (enc_entry (s, k, v)) \<le> 15 + length k + length v"
proof -
  have "length (EncodeVarint32 x) \<le> 5" for x using length_EncodeVarint32 [of x] by simp
  from this [of "word_of_nat s"] this [of "word_of_nat (length k - s)"] this [of "word_of_nat (length v)"]
  show ?thesis by simp
qed

lemma bb_of_size:
  "length (bb_buffer (bb_of I es)) + 4 * length (bb_restarts (bb_of I es)) + 13 * length es \<le> entries_size es + 4"
proof (induction es rule: rev_induct)
  case Nil
  show ?case by (simp add: BlockBuilder_new_def)
next
  case (snoc e es)
  obtain k v where e: "e = (k, v)" by (cases e)
  let ?s = "if bb_counter (bb_of I es) < I then shared_loop (bb_last_key (bb_of I es)) k 0 else 0"
  show ?case using snoc.IH length_enc_entry [of ?s k v]
    by (auto simp: e bb_of_snoc BlockBuilder_Add_eq simp del: enc_entry.simps split: if_splits)
qed

lemma block_of_size: "length (block_of I es) + 13 * length es \<le> entries_size es + 8"
proof -
  have "length (block_of I es) = length (bb_buffer (bb_of I es)) + 4 * length (bb_restarts (bb_of I es)) + 4"
    unfolding block_of_bb [symmetric] by (simp add: BlockBuilder_Finish_def Let_def foldl_PutFixed32 PutFixed32_def)
  with bb_of_size [of I es] show ?thesis by simp
qed

lemma block_of_size_less: "es \<noteq> [] \<Longrightarrow> length (block_of I es) + 5 \<le> entries_size es"
  using block_of_size [of I es] by (cases es) auto

section \<open>Writing blocks\<close>

locale block_writer = writable_file wops wcontents wok + snappy_port snappy
  for wops :: "'f WritableFile" and wcontents wok snappy
begin

lemma WriteRawBlock_ok:
  assumes "wok (tb_file r)" "tb_offset r = word_of_nat (length (wcontents (tb_file r)))"
    and "length (wcontents (tb_file r)) + length c + kBlockTrailerSize < 2 ^ 64"
  shows "\<exists>f. WriteRawBlock wops c type r =
      (\<lparr> bh_offset = tb_offset r, bh_size = word_of_nat (length c) \<rparr>,
       r\<lparr> tb_file := f, tb_status := OK, tb_offset := word_of_nat (length (wcontents f)) \<rparr>) \<and>
    wok f \<and> wcontents f = wcontents (tb_file r) @ c @ block_trailer c type"
proof -
  obtain f where f: "Append wops c (tb_file r) = (f, OK)" "wok f" "wcontents f = wcontents (tb_file r) @ c"
    using append_ok [OF assms(1), of c] assms(3) by auto
  obtain f' where f': "Append wops (block_trailer c type) f = (f', OK)" "wok f'"
      "wcontents f' = wcontents f @ block_trailer c type"
    using append_ok [OF f(2), of "block_trailer c type"] assms(3) f(3) by auto
  have "tb_offset r + word_of_nat (length c + kBlockTrailerSize) = word_of_nat (length (wcontents f'))"
    using assms(2) f(3) f'(3) by (simp add: add.assoc)
  then show ?thesis
    using f f' by (intro exI [of _ f']) (simp add: WriteRawBlock_def Let_def block_trailer_def [symmetric])
qed

lemma compress_block_ok:
  "compress_block snappy type raw = (c, type') \<Longrightarrow> decompresses snappy type' c raw \<and> length c \<le> length raw"
  using uncompress_compress [of raw c]
  by (auto simp: compress_block_def decompresses_def split: CompressionType.splits option.splits if_splits)

lemma WriteBlock_ok:
  assumes "wok (tb_file r)" "tb_offset r = word_of_nat (length (wcontents (tb_file r)))"
    and "length (wcontents (tb_file r)) + length raw + kBlockTrailerSize < 2 ^ 64" "raw = snd (BlockBuilder_Finish b)"
  shows "\<exists>f h d. WriteBlock snappy wops b r =
      (BlockBuilder_new, h, r\<lparr> tb_file := f, tb_status := OK, tb_offset := word_of_nat (length (wcontents f)) \<rparr>) \<and>
    wok f \<and> wcontents f = wcontents (tb_file r) @ d \<and> d \<noteq> [] \<and> length d \<le> length raw + kBlockTrailerSize \<and>
    bh_offset h = tb_offset r \<and> stored_block snappy (wcontents f) h raw"
proof -
  obtain c type where c: "compress_block snappy (opt_compression (tb_options r)) raw = (c, type)"
    by (cases "compress_block snappy (opt_compression (tb_options r)) raw")
  note ok = compress_block_ok [OF c]
  have "length (wcontents (tb_file r)) + length c + kBlockTrailerSize < 2 ^ 64" using ok assms(3) by simp
  from WriteRawBlock_ok [OF assms(1,2) this, of type] obtain f where
    f: "WriteRawBlock wops c type r = (\<lparr> bh_offset = tb_offset r, bh_size = word_of_nat (length c) \<rparr>,
        r\<lparr> tb_file := f, tb_status := OK, tb_offset := word_of_nat (length (wcontents f)) \<rparr>)"
      "wok f" "wcontents f = wcontents (tb_file r) @ c @ block_trailer c type" by blast
  have "stored_block snappy (wcontents f) \<lparr> bh_offset = tb_offset r, bh_size = word_of_nat (length c) \<rparr> raw"
    unfolding f(3) assms(2) using ok assms(3) by (intro stored_block_last) simp_all
  moreover have "c @ block_trailer c type \<noteq> []" by (simp add: block_trailer_def)
  ultimately show ?thesis
    using f c ok assms(4)
    by (intro exI [of _ f] exI [of _ "\<lparr> bh_offset = tb_offset r, bh_size = word_of_nat (length c) \<rparr>"]
        exI [of _ "c @ block_trailer c type"]) (auto simp: WriteBlock_def Let_def split: prod.split)
qed

end

interpretation mem_blocks: block_writer WritableFileImpl_ops fs_contents fs_ok None
  by unfold_locales

section \<open>The state of the builder\<close>

definition index_entries :: "bytes list \<Rightarrow> BlockHandle list \<Rightarrow> entry list" where
  "index_entries seps hs = zip seps (map (BlockHandle_EncodeTo []) hs)"

text \<open>The keys \<open>seps\<close> separate the first blocks from each other and from what follows.\<close>

definition separated :: "Comparator \<Rightarrow> (bytes \<Rightarrow> bool) \<Rightarrow> bytes list \<Rightarrow> entry list list \<Rightarrow> entry list \<Rightarrow> bool" where
  "separated cmp valid seps bs cur \<longleftrightarrow> length seps \<le> length bs \<and>
     (\<forall>i < length seps. valid (seps ! i) \<and> length (seps ! i) \<le> length (fst (last (bs ! i))) \<and>
        (\<forall>e \<in> set (bs ! i). Compare cmp (fst e) (seps ! i) \<le> 0) \<and>
        (\<forall>e \<in> set (concat (drop (Suc i) bs) @ cur). Compare cmp (seps ! i) (fst e) < 0))"

definition filter_calls :: "BlockHandle list \<Rightarrow> entry list list \<Rightarrow> (u64 \<times> bytes list) list" where
  "filter_calls hs bs = map2 (\<lambda>h b. (bh_offset h, map fst b)) hs bs"

definition filter_builder :: "FilterPolicy \<Rightarrow> (u64 \<times> bytes list) list \<Rightarrow> FilterBlockBuilder" where
  "filter_builder policy calls = foldl (AddBlock policy) FilterBlockBuilder_new calls"

text \<open>
  The builder has written the blocks \<open>bs\<close> under the handles \<open>hs\<close>, has index entries with the keys
  \<open>seps\<close> for all of them but perhaps the last, and has collected the entries \<open>cur\<close> for the next.
\<close>

definition tb_inv :: "SnappyLib option \<Rightarrow> ('f \<Rightarrow> bytes) \<Rightarrow> ('f \<Rightarrow> bool) \<Rightarrow> Options \<Rightarrow> (bytes \<Rightarrow> bool) \<Rightarrow>
    'f TableBuilder \<Rightarrow> entry list list \<Rightarrow> BlockHandle list \<Rightarrow> bytes list \<Rightarrow> entry list \<Rightarrow> bool" where
  "tb_inv snappy wcontents wok options valid r bs hs seps cur \<longleftrightarrow>
     tb_status r = OK \<and> wok (tb_file r) \<and> tb_options r = options \<and>
     tb_offset r = word_of_nat (length (wcontents (tb_file r))) \<and>
     tb_data_block r = bb_of (opt_block_restart_interval options) cur \<and>
     tb_index_block r = bb_of 1 (index_entries seps hs) \<and>
     list_all2 (stored_block snappy (wcontents (tb_file r))) hs (map (block_of (opt_block_restart_interval options)) bs) \<and>
     [] \<notin> set bs \<and> (cur \<noteq> [] \<longrightarrow> tb_last_key r = fst (last cur)) \<and>
     (if tb_pending_index_entry r
      then cur = [] \<and> length bs = Suc (length seps) \<and> tb_pending_handle r = last hs \<and> tb_last_key r = fst (last (last bs))
      else length bs = length seps \<and> (cur = [] \<longrightarrow> bs = [])) \<and>
     separated (opt_comparator options) valid seps bs cur \<and>
     length (wcontents (tb_file r)) \<le> entries_size (concat bs) \<and>
     tb_filter_block r = map_option (\<lambda>policy. (policy, filter_builder policy (filter_calls hs bs @ [(tb_offset r, map fst cur)])))
       (opt_filter_policy options) \<and>
     sorted_wrt (<) (map (unat \<circ> bh_offset) hs @ [length (wcontents (tb_file r))])"

lemma entries_size_last: "b \<noteq> [] \<Longrightarrow> length (fst (last b)) + 32 \<le> entries_size b"
  by (induction b) (auto simp: entries_size_def split: prod.splits)

lemma entries_size_mem: "b \<in> set bs \<Longrightarrow> entries_size b \<le> entries_size (concat bs)"
  by (induction bs) auto

lemma filter_calls_offsets: "length hs = length bs \<Longrightarrow> map fst (filter_calls hs bs) = map bh_offset hs"
  unfolding filter_calls_def by (induction hs bs rule: list_induct2) simp_all

lemma index_entries_size:
  "length seps = length hs \<Longrightarrow> length hs = length bs \<Longrightarrow>
   (\<And>i. i < length bs \<Longrightarrow> bs ! i \<noteq> [] \<and> length (seps ! i) \<le> length (fst (last (bs ! i)))) \<Longrightarrow>
   entries_size (index_entries seps hs) \<le> 2 * entries_size (concat bs)"
proof (induction seps hs bs rule: list_induct3)
  case (Cons s seps h hs b bs)
  have "bs ! i \<noteq> [] \<and> length (seps ! i) \<le> length (fst (last (bs ! i)))" if "i < length bs" for i
    using Cons.prems [of "Suc i"] that by simp
  from Cons.IH [OF this] show ?case
    using Cons.prems [of 0] entries_size_last [of b] length_BlockHandle_EncodeTo [of "[]" h]
    by (simp add: index_entries_def kMaxEncodedLength_def)
qed (simp add: index_entries_def)

text \<open>The contents of the metaindex block.\<close>

definition meta_entries :: "Options \<Rightarrow> BlockHandle \<Rightarrow> entry list" where
  "meta_entries options filter_handle =
     (case opt_filter_policy options of
        None \<Rightarrow> []
      | Some policy \<Rightarrow> [(cstr ''filter.'' @ FilterPolicy_Name policy, BlockHandle_EncodeTo [] filter_handle)])"

text \<open>A finished table file with the blocks \<open>bs\<close>.\<close>

definition table_image :: "SnappyLib option \<Rightarrow> Options \<Rightarrow> (bytes \<Rightarrow> bool) \<Rightarrow> bytes \<Rightarrow> entry list list \<Rightarrow> BlockHandle list \<Rightarrow>
    bytes list \<Rightarrow> BlockHandle \<Rightarrow> BlockHandle \<Rightarrow> BlockHandle \<Rightarrow> (u64 \<times> bytes list) list \<Rightarrow> bool" where
  "table_image snappy options valid fc bs hs seps fh mh ih calls \<longleftrightarrow>
     [] \<notin> set bs \<and> length hs = length bs \<and> distinct hs \<and> length seps = length bs \<and> separated (opt_comparator options) valid seps bs [] \<and>
     (\<exists>pre. fc = pre @ Footer_EncodeTo [] \<lparr> ft_metaindex_handle = mh, ft_index_handle = ih \<rparr>) \<and> length fc < 2 ^ 64 \<and>
     list_all2 (stored_block snappy fc) hs (map (block_of (opt_block_restart_interval options)) bs) \<and>
     (\<forall>b \<in> set bs. length (block_of (opt_block_restart_interval options) b) < 2 ^ 32) \<and>
     stored_block snappy fc ih (block_of 1 (index_entries seps hs)) \<and> length (block_of 1 (index_entries seps hs)) < 2 ^ 32 \<and>
     stored_block snappy fc mh (block_of (opt_block_restart_interval options) (meta_entries options fh)) \<and>
     length (block_of (opt_block_restart_interval options) (meta_entries options fh)) < 2 ^ 32 \<and>
     sorted (map (unat \<circ> fst) calls) \<and> set (filter_calls hs bs) \<subseteq> set calls \<and>
     (case opt_filter_policy options of
        None \<Rightarrow> True
      | Some policy \<Rightarrow>
          stored_block snappy fc fh (build_filter_block policy calls) \<and> length (build_filter_block policy calls) < 2 ^ 32)"

text \<open>Adding a list of entries.\<close>

definition build_entries :: "SnappyLib option \<Rightarrow> 'f WritableFile \<Rightarrow> entry list \<Rightarrow> 'f TableBuilder \<Rightarrow> 'f TableBuilder" where
  "build_entries snappy wops es r = fold (\<lambda>(k, v). TableBuilder_Add snappy wops k v) es r"

locale table_writer = block_writer wops wcontents wok snappy + ord: separator_order "opt_comparator options" valid
  for wops :: "'f WritableFile" and wcontents wok snappy and options :: Options and valid +
  assumes restart_interval: "1 \<le> opt_block_restart_interval options"
    and separator_short: "length (FindShortestSeparator (opt_comparator options) a b) \<le> length a"
    and successor_short: "length (FindShortSuccessor (opt_comparator options) a) \<le> length a"
begin

abbreviation "tinv \<equiv> tb_inv snappy wcontents wok options valid"

lemma inv_new:
  assumes "wok file" "wcontents file = []"
  shows "tinv (TableBuilder_new options file) [] [] [] []"
  using assms by (simp add: tb_inv_def TableBuilder_new_def index_entries_def separated_def filter_builder_def filter_calls_def
      AddBlock_def comp_def)

lemma inv_lengths: "tinv r bs hs seps cur \<Longrightarrow> length hs = length bs"
  by (auto simp: tb_inv_def dest: list_all2_lengthD)

lemma inv_Flush_empty: "tinv r bs hs seps [] \<Longrightarrow> TableBuilder_Flush snappy wops r = r"
  using bb_of_empty [of 1 "[]"] by (simp add: tb_inv_def TableBuilder_Flush_def)

lemma inv_Flush:
  assumes "tinv r bs hs seps cur" "cur \<noteq> []" "entries_size (concat bs @ cur) < 2 ^ 32"
  shows "\<exists>h. tinv (TableBuilder_Flush snappy wops r) (bs @ [cur]) (hs @ [h]) seps []"
proof -
  let ?I = "opt_block_restart_interval options" and ?w = "length (wcontents (tb_file r))"
  note inv = assms(1) [unfolded tb_inv_def]
  have np: "\<not> tb_pending_index_entry r" "length bs = length seps" "tb_last_key r = fst (last cur)" "length hs = length bs"
    using assms(2) inv inv_lengths [OF assms(1)] by (auto split: if_splits)
  have raw: "block_of ?I cur = snd (BlockBuilder_Finish (tb_data_block r))" using inv by (simp add: block_of_bb)
  have le: "?w + length (block_of ?I cur) + kBlockTrailerSize \<le> entries_size (concat bs @ cur)"
    using block_of_size_less [OF assms(2), of ?I] inv by (simp add: kBlockTrailerSize_def)
  have "wok (tb_file r)" "tb_offset r = word_of_nat ?w" "?w + length (block_of ?I cur) + kBlockTrailerSize < 2 ^ 64"
    using inv le assms(3) by simp_all
  note small = this
  then have un: "unat (word_of_nat ?w :: u64) = ?w" by (simp add: unat_word_of_nat_small)
  from WriteBlock_ok [OF small raw] obtain f h d where w: "WriteBlock snappy wops (tb_data_block r) r =
      (BlockBuilder_new, h, r\<lparr> tb_file := f, tb_status := OK, tb_offset := word_of_nat (length (wcontents f)) \<rparr>)"
    "wok f" "wcontents f = wcontents (tb_file r) @ d" "length d \<le> length (block_of ?I cur) + kBlockTrailerSize"
    "bh_offset h = tb_offset r" "stored_block snappy (wcontents f) h (block_of ?I cur)" "d \<noteq> []" by blast
  obtain f' where f': "Flush wops f = (f', OK)" "wok f'" "wcontents f' = wcontents f" using flush_ok [OF w(2)] by blast
  let ?r = "r\<lparr> tb_data_block := BlockBuilder_new, tb_pending_handle := h, tb_pending_index_entry := True, tb_file := f',
    tb_status := OK, tb_offset := word_of_nat (length (wcontents f')), tb_filter_block :=
      map_option (\<lambda>(policy, b). (policy, StartBlock policy (word_of_nat (length (wcontents f'))) b)) (tb_filter_block r) \<rparr>"
  have "TableBuilder_Flush snappy wops r = ?r"
    using inv assms(2) w(1) f' by (simp add: TableBuilder_Flush_def bb_of_empty)
  moreover have "tinv ?r (bs @ [cur]) (hs @ [h]) seps []"
    unfolding tb_inv_def
  proof (intro conjI)
    show "list_all2 (stored_block snappy (wcontents (tb_file ?r))) (hs @ [h]) (map (block_of ?I) (bs @ [cur]))"
      using inv w(3,6) f'(3) stored_block_append
      by (auto intro!: list_all2_appendI elim!: list_all2_mono)
    show "tb_filter_block ?r = map_option (\<lambda>policy. (policy, filter_builder policy (filter_calls (hs @ [h]) (bs @ [cur]) @
        [(tb_offset ?r, map fst [])]))) (opt_filter_policy options)"
      using inv np(4) w(5) by (simp add: filter_calls_def filter_builder_def AddBlock_def option.map_comp comp_def)
    show "sorted_wrt (<) (map (unat \<circ> bh_offset) (hs @ [h]) @ [length (wcontents (tb_file ?r))])"
      using inv w(3,5,7) f'(3) un by (fastforce simp: sorted_wrt_append)
    show "length (wcontents (tb_file ?r)) \<le> entries_size (concat (bs @ [cur]))"
      using le w(3,4) f'(3) by simp
    show "separated (opt_comparator options) valid seps (bs @ [cur]) []"
      using inv np(2) by (simp add: separated_def nth_append)
  qed (use inv assms(2) np f'(2) in \<open>simp_all add: index_entries_def zip_append2\<close>)
  ultimately show ?thesis by metis
qed

text \<open>A new key is behind all separators that have an entry behind them.\<close>

lemma separated_extend:
  assumes "separated (opt_comparator options) valid seps bs cur" "sorted_run (opt_comparator options) valid (concat bs @ cur @ [(k, v)])"
    and "\<And>i. i < length seps \<Longrightarrow> concat (drop (Suc i) bs) @ cur \<noteq> []"
  shows "separated (opt_comparator options) valid seps bs (cur @ [(k, v)])"
proof -
  let ?cmp = "Compare (opt_comparator options)"
  have less: "?cmp (fst e) k < 0" "valid (fst e)" "valid k" if "e \<in> set (concat bs @ cur)" for e
    using assms(2) that by (auto simp: sorted_run_def sorted_entries_def sorted_wrt_append)
  have "?cmp (seps ! i) k < 0" if i: "i < length seps" for i
  proof -
    obtain e where e: "e \<in> set (concat (drop (Suc i) bs) @ cur)" using hd_in_set [OF assms(3) [OF i]] by blast
    then have "?cmp (seps ! i) (fst e) < 0" "valid (seps ! i)" using assms(1) i by (simp_all add: separated_def)
    moreover have "e \<in> set (concat bs @ cur)" using e by (auto dest: in_set_dropD)
    ultimately show ?thesis using ord.compare_trans less [of e] by blast
  qed
  with assms(1) show ?thesis by (auto simp: separated_def)
qed

lemma separated_snoc:
  assumes "separated (opt_comparator options) valid seps bs []" "sorted_run (opt_comparator options) valid (concat bs @ [(k, v)])"
    and "length bs = Suc (length seps)" "[] \<notin> set bs"
    and "sep = FindShortestSeparator (opt_comparator options) (fst (last (last bs))) k"
  shows "separated (opt_comparator options) valid (seps @ [sep]) bs [(k, v)]"
proof -
  let ?cmp = "Compare (opt_comparator options)" and ?l = "last (last bs)"
  obtain bs' b where bs: "bs = bs' @ [b]" "b \<noteq> []" "length bs' = length seps" using assms(3,4) by (cases bs rule: rev_cases) auto
  obtain b' l where b: "b = b' @ [l]" using bs(2) by (cases b rule: rev_cases) auto
  have sorted: "sorted_run (opt_comparator options) valid (concat bs' @ b' @ [l] @ [(k, v)])" using assms(2) bs(1) b by simp
  then have v: "valid (fst l)" "valid k" "?cmp (fst l) k < 0"
    by (auto simp: sorted_run_def sorted_entries_def sorted_wrt_append)
  have le: "?cmp (fst e) (fst l) \<le> 0 \<and> valid (fst e)" if "e \<in> set b" for e
    using sorted that ord.compare_refl [OF v(1)] unfolding b
    by (auto simp: sorted_run_def sorted_entries_def sorted_wrt_append less_imp_le)
  have sep: "sep = FindShortestSeparator (opt_comparator options) (fst l) k" using assms(5) bs b by simp
  have "valid sep" "length sep \<le> length (fst l)" "?cmp sep k < 0"
    using ord.separator_valid [OF v(1,2)] separator_short ord.separator_less [OF v] by (simp_all add: sep)
  moreover have "?cmp (fst e) sep \<le> 0" if "e \<in> set b" for e
    using ord.separator_splits [OF v(1,2) _ v(2,3), of "fst e"] le [OF that] ord.compare_refl [OF v(2)] by (simp add: sep)
  ultimately have new: "valid sep \<and> length sep \<le> length (fst (last b)) \<and> (\<forall>e \<in> set b. ?cmp (fst e) sep \<le> 0) \<and> ?cmp sep k < 0"
    by (simp add: b)
  have "separated (opt_comparator options) valid seps bs ([] @ [(k, v)])"
    using separated_extend [OF assms(1), of k v] assms(2) bs by simp
  with new show ?thesis unfolding separated_def
    by (auto simp: less_Suc_eq nth_append bs)
qed

text \<open>The first half of \<open>Add\<close>, before the block may be full.\<close>

definition add_entry :: "bytes \<Rightarrow> bytes \<Rightarrow> 'f TableBuilder \<Rightarrow> 'f TableBuilder" where
  "add_entry k v r =
     (let r' = (if tb_pending_index_entry r
                then add_index_entry (FindShortestSeparator (opt_comparator (tb_options r)) (tb_last_key r) k) r else r)
      in r'\<lparr> tb_filter_block := map_option (\<lambda>(policy, b). (policy, AddKey k b)) (tb_filter_block r'),
             tb_last_key := k, tb_num_entries := tb_num_entries r' + 1,
             tb_data_block := BlockBuilder_Add (opt_block_restart_interval (tb_options r')) k v (tb_data_block r') \<rparr>)"

lemma TableBuilder_Add_eq:
  "tb_status r = OK \<Longrightarrow> TableBuilder_Add snappy wops k v r =
     (if opt_block_size (tb_options (add_entry k v r)) \<le> CurrentSizeEstimate (tb_data_block (add_entry k v r))
      then TableBuilder_Flush snappy wops (add_entry k v r) else add_entry k v r)"
  by (simp add: TableBuilder_Add_def add_entry_def Let_def)

lemma inv_add_entry:
  assumes "tinv r bs hs seps cur" "sorted_run (opt_comparator options) valid (concat bs @ cur @ [(k, v)])"
  shows "\<exists>seps'. tinv (add_entry k v r) bs hs seps' (cur @ [(k, v)])"
proof -
  note inv = assms(1) [unfolded tb_inv_def]
  have filter: "map_option (\<lambda>(policy, b). (policy, AddKey k b)) (tb_filter_block r) =
      map_option (\<lambda>policy. (policy, filter_builder policy (filter_calls hs bs @ [(tb_offset r, map fst (cur @ [(k, v)]))])))
        (opt_filter_policy options)"
    using inv by (simp add: option.map_comp comp_def filter_builder_def AddBlock_def)
  have len: "length hs = length bs" using inv_lengths [OF assms(1)] .
  show ?thesis
  proof (cases "tb_pending_index_entry r")
    case True
    then have p: "cur = []" "length bs = Suc (length seps)" "tb_pending_handle r = last hs" "tb_last_key r = fst (last (last bs))"
      using inv by simp_all
    let ?sep = "FindShortestSeparator (opt_comparator options) (fst (last (last bs))) k"
    have sep: "separated (opt_comparator options) valid (seps @ [?sep]) bs [(k, v)]"
      using separated_snoc [OF _ _ p(2) _ refl, of k v] inv assms(2) p(1) by simp
    obtain hs' where hs: "hs = hs' @ [tb_pending_handle r]" "length hs' = length seps"
      using p(2,3) len by (cases hs rule: rev_cases) auto
    have "BlockBuilder_Add 1 ?sep (BlockHandle_EncodeTo [] (tb_pending_handle r)) (bb_of 1 (index_entries seps hs)) =
        bb_of 1 (index_entries (seps @ [?sep]) hs)"
      using hs by (simp add: index_entries_def zip_append2 bb_of_snoc del: One_nat_def)
    then have "tinv (add_entry k v r) bs hs (seps @ [?sep]) (cur @ [(k, v)])"
      using inv True p sep filter
      by (simp add: add_entry_def add_index_entry_def tb_inv_def bb_of_snoc [of _ "[]", simplified] Let_def)
    then show ?thesis ..
  next
    case False
    then have p: "length bs = length seps" "cur = [] \<longrightarrow> bs = []" using inv by simp_all
    have "separated (opt_comparator options) valid seps bs (cur @ [(k, v)])"
      using inv p by (intro separated_extend assms(2)) auto
    then have "tinv (add_entry k v r) bs hs seps (cur @ [(k, v)])"
      using inv False p filter by (simp add: add_entry_def tb_inv_def bb_of_snoc)
    then show ?thesis ..
  qed
qed

lemma inv_Add:
  assumes "tinv r bs hs seps cur" "sorted_run (opt_comparator options) valid (concat bs @ cur @ [(k, v)])"
    and "entries_size (concat bs @ cur @ [(k, v)]) < 2 ^ 32"
  shows "\<exists>bs' hs' seps' cur'. tinv (TableBuilder_Add snappy wops k v r) bs' hs' seps' cur' \<and>
    concat bs' @ cur' = concat bs @ cur @ [(k, v)]"
proof -
  obtain seps' where s: "tinv (add_entry k v r) bs hs seps' (cur @ [(k, v)])" using inv_add_entry [OF assms(1,2)] ..
  have ok: "tb_status r = OK" using assms(1) by (simp add: tb_inv_def)
  show ?thesis
  proof (cases "opt_block_size (tb_options (add_entry k v r)) \<le> CurrentSizeEstimate (tb_data_block (add_entry k v r))")
    case True
    from inv_Flush [OF s _ assms(3)] obtain h where
      "tinv (TableBuilder_Flush snappy wops (add_entry k v r)) (bs @ [cur @ [(k, v)]]) (hs @ [h]) seps' []" by auto
    then show ?thesis using True TableBuilder_Add_eq [OF ok, of k v]
      by (intro exI [of _ "bs @ [cur @ [(k, v)]]"] exI [of _ "hs @ [h]"] exI [of _ seps'] exI [of _ "[]"]) simp
  next
    case False
    then show ?thesis using s TableBuilder_Add_eq [OF ok, of k v]
      by (intro exI [of _ bs] exI [of _ hs] exI [of _ seps'] exI [of _ "cur @ [(k, v)]"]) simp
  qed
qed

lemma inv_build:
  assumes "wok file" "wcontents file = []" "sorted_run (opt_comparator options) valid es" "entries_size es < 2 ^ 32"
  shows "\<exists>bs hs seps cur. tinv (build_entries snappy wops es (TableBuilder_new options file)) bs hs seps cur \<and> concat bs @ cur = es"
  using assms(3,4)
proof (induction es rule: rev_induct)
  case Nil
  then show ?case using inv_new [OF assms(1,2)] by (auto simp: build_entries_def intro!: exI [of _ "[]"])
next
  case (snoc e es)
  obtain k v where e: "e = (k, v)" by (cases e)
  have "sorted_run (opt_comparator options) valid es" "entries_size es < 2 ^ 32"
    using snoc.prems by (auto simp: e sorted_run_def sorted_entries_def sorted_wrt_append)
  from snoc.IH [OF this] obtain bs hs seps cur where
    b: "tinv (build_entries snappy wops es (TableBuilder_new options file)) bs hs seps cur" "concat bs @ cur = es" by blast
  have "concat bs @ cur @ [(k, v)] = es @ [e]" using b(2) e by simp
  with inv_Add [OF b(1), of k v] snoc.prems show ?case by (simp add: build_entries_def e)
qed

lemma inv_flushed:
  assumes "tinv r bs hs seps cur" "entries_size (concat bs @ cur) < 2 ^ 32"
  shows "\<exists>bs' hs'. tinv (TableBuilder_Flush snappy wops r) bs' hs' seps [] \<and> concat bs' = concat bs @ cur"
proof (cases "cur = []")
  case True
  then show ?thesis using inv_Flush_empty [of r bs hs seps] assms(1) by auto
next
  case False
  from inv_Flush [OF assms(1) False assms(2)] obtain h where
    "tinv (TableBuilder_Flush snappy wops r) (bs @ [cur]) (hs @ [h]) seps []" ..
  then show ?thesis by (intro exI [of _ "bs @ [cur]"] exI [of _ "hs @ [h]"]) simp
qed

text \<open>The builder after more has been written to the file.\<close>

abbreviation "written r f \<equiv> r\<lparr> tb_file := f, tb_status := OK, tb_offset := word_of_nat (length (wcontents f)) \<rparr>"

lemma write_filter_ok:
  assumes "tb_filter_block r = map_option (\<lambda>p. (p, filter_builder p calls)) (opt_filter_policy options)"
    and "tb_status r = OK" "wok (tb_file r)" "tb_offset r = word_of_nat (length (wcontents (tb_file r)))" "length (wcontents (tb_file r)) < 2 ^ 32"
    and "\<And>p. opt_filter_policy options = Some p \<Longrightarrow> length (build_filter_block p calls) < 2 ^ 32"
  shows "\<exists>fh f d. write_filter wops r = (fh, written r f) \<and> wok f \<and> wcontents f = wcontents (tb_file r) @ d \<and> length d < 2 ^ 33 \<and>
    (\<forall>p. opt_filter_policy options = Some p \<longrightarrow> stored_block snappy (wcontents f) fh (build_filter_block p calls))"
proof (cases "opt_filter_policy options")
  case None
  then show ?thesis using assms by (intro exI [of _ BlockHandle_new] exI [of _ "tb_file r"] exI [of _ "[]"]) (simp add: write_filter_def)
next
  case (Some p)
  let ?c = "build_filter_block p calls"
  have len: "length (wcontents (tb_file r)) + length ?c + kBlockTrailerSize < 2 ^ 64"
    using assms(5) assms(6) [OF Some] by (simp add: kBlockTrailerSize_def)
  from WriteRawBlock_ok [OF assms(3,4) len, of kNoCompression] obtain f where
    f: "WriteRawBlock wops ?c kNoCompression r = (\<lparr> bh_offset = tb_offset r, bh_size = word_of_nat (length ?c) \<rparr>, written r f)"
      "wok f" "wcontents f = wcontents (tb_file r) @ ?c @ block_trailer ?c kNoCompression" by blast
  have "stored_block snappy (wcontents f) \<lparr> bh_offset = tb_offset r, bh_size = word_of_nat (length ?c) \<rparr> ?c"
    unfolding f(3) assms(4) using len by (intro stored_block_last) (simp_all add: decompresses_def)
  then show ?thesis
    using f Some assms(1,2) assms(6) [OF Some]
    by (intro exI [of _ "\<lparr> bh_offset = tb_offset r, bh_size = word_of_nat (length ?c) \<rparr>"] exI [of _ f]
        exI [of _ "?c @ block_trailer ?c kNoCompression"])
      (simp add: write_filter_def build_filter_block_def filter_builder_def kBlockTrailerSize_def)
qed

lemma write_metaindex_ok:
  assumes "tb_filter_block r = map_option (\<lambda>p. (p, filter_builder p calls)) (opt_filter_policy options)" "tb_options r = options"
    and "tb_status r = OK" "wok (tb_file r)" "tb_offset r = word_of_nat (length (wcontents (tb_file r)))" "length (wcontents (tb_file r)) < 2 ^ 34"
    and "\<And>p. opt_filter_policy options = Some p \<Longrightarrow> length (FilterPolicy_Name p) < 2 ^ 31"
  shows "\<exists>mh f d. write_metaindex snappy wops fh r = Some (mh, written r f) \<and> wok f \<and> wcontents f = wcontents (tb_file r) @ d \<and> length d < 2 ^ 33 \<and>
    stored_block snappy (wcontents f) mh (block_of (opt_block_restart_interval options) (meta_entries options fh)) \<and>
    length (block_of (opt_block_restart_interval options) (meta_entries options fh)) < 2 ^ 32"
proof -
  let ?I = "opt_block_restart_interval options"
  let ?raw = "block_of ?I (meta_entries options fh)"
  have meta: "meta_index_block fh r = Some (bb_of ?I (meta_entries options fh))"
    using assms(1,2) by (simp add: meta_index_block_def meta_entries_def bb_of_snoc [of _ "[]", simplified] split: option.split)
  have small: "length ?raw < 2 ^ 32"
    using block_of_size [of ?I "meta_entries options fh"] assms(7) length_BlockHandle_EncodeTo [of "[]" fh]
    by (fastforce simp: meta_entries_def kMaxEncodedLength_def split: option.splits)
  have len: "length (wcontents (tb_file r)) + length ?raw + kBlockTrailerSize < 2 ^ 64"
    using assms(6) small by (simp add: kBlockTrailerSize_def)
  from WriteBlock_ok [OF assms(4,5) len block_of_bb [symmetric]] obtain f h d where
    "WriteBlock snappy wops (bb_of ?I (meta_entries options fh)) r = (BlockBuilder_new, h, written r f)"
    "wok f" "wcontents f = wcontents (tb_file r) @ d" "length d \<le> length ?raw + kBlockTrailerSize"
    "stored_block snappy (wcontents f) h ?raw" by blast
  then show ?thesis using meta assms(3) small
    by (intro exI [of _ h] exI [of _ f] exI [of _ d]) (simp add: write_metaindex_def kBlockTrailerSize_def)
qed

lemma final_separators:
  assumes "tinv r bs hs seps []" "sorted_run (opt_comparator options) valid (concat bs)"
  shows "\<exists>seps'. tb_index_block (if tb_pending_index_entry r
      then add_index_entry (FindShortSuccessor (opt_comparator (tb_options r)) (tb_last_key r)) r else r) =
      bb_of 1 (index_entries seps' hs) \<and> length seps' = length bs \<and> separated (opt_comparator options) valid seps' bs []"
proof (cases "tb_pending_index_entry r")
  case False
  then show ?thesis using assms(1) by (intro exI [of _ seps]) (auto simp: tb_inv_def)
next
  case True
  note inv = assms(1) [unfolded tb_inv_def]
  have p: "length bs = Suc (length seps)" "tb_pending_handle r = last hs" "tb_last_key r = fst (last (last bs))"
    using inv True by simp_all
  obtain bs' b where bs: "bs = bs' @ [b]" "length bs' = length seps" "b \<noteq> []" using p(1) inv by (cases bs rule: rev_cases) auto
  obtain b' l where b: "b = b' @ [l]" using bs(3) by (cases b rule: rev_cases) auto
  let ?s = "FindShortSuccessor (opt_comparator options) (fst l)"
  obtain hs' where hs: "hs = hs' @ [tb_pending_handle r]" "length hs' = length seps"
    using p(1,2) inv_lengths [OF assms(1)] by (cases hs rule: rev_cases) auto
  have v: "valid (fst l)" and le: "\<And>e. e \<in> set b \<Longrightarrow> valid (fst e) \<and> Compare (opt_comparator options) (fst e) (fst l) \<le> 0"
    using assms(2) ord.compare_refl [of "fst l"] unfolding bs(1) b
    by (auto simp: sorted_run_def sorted_entries_def sorted_wrt_append less_imp_le)
  have "valid ?s" "length ?s \<le> length (fst l)" using ord.successor_valid [OF v] successor_short by simp_all
  moreover have "Compare (opt_comparator options) (fst e) ?s \<le> 0" if "e \<in> set b" for e
    using ord.compare_le_trans [of "fst e" "fst l" ?s] le [OF that] v \<open>valid ?s\<close> ord.successor_ge [OF v] by simp
  ultimately have "separated (opt_comparator options) valid (seps @ [?s]) bs []"
    using inv bs b by (auto simp: separated_def less_Suc_eq nth_append)
  moreover have "BlockBuilder_Add 1 ?s (BlockHandle_EncodeTo [] (tb_pending_handle r)) (bb_of 1 (index_entries seps hs)) =
      bb_of 1 (index_entries (seps @ [?s]) hs)"
    using hs by (simp add: index_entries_def zip_append2 bb_of_snoc del: One_nat_def)
  ultimately show ?thesis
    using True inv p bs b by (intro exI [of _ "seps @ [?s]"]) (simp add: add_index_entry_def Let_def)
qed

lemma write_index_ok:
  assumes "tinv r bs hs seps []" "sorted_run (opt_comparator options) valid (concat bs)" "entries_size (concat bs) < 2 ^ 30"
    and "wok f" "length (wcontents f) < 2 ^ 35"
  shows "\<exists>ih r' f' d seps'. write_index snappy wops (written r f) = (ih, r') \<and>
      tb_status r' = OK \<and> tb_file r' = f' \<and> tb_offset r' = word_of_nat (length (wcontents f')) \<and>
      wok f' \<and> wcontents f' = wcontents f @ d \<and> length d < 2 ^ 33 \<and>
      length seps' = length bs \<and> separated (opt_comparator options) valid seps' bs [] \<and>
      stored_block snappy (wcontents f') ih (block_of 1 (index_entries seps' hs)) \<and> length (block_of 1 (index_entries seps' hs)) < 2 ^ 32"
proof -
  let ?g = "\<lambda>r. if tb_pending_index_entry r
      then add_index_entry (FindShortSuccessor (opt_comparator (tb_options r)) (tb_last_key r)) r else r"
  from final_separators [OF assms(1,2)] obtain seps' where
    s: "tb_index_block (?g r) = bb_of 1 (index_entries seps' hs)" "length seps' = length bs" "separated (opt_comparator options) valid seps' bs []"
    by blast
  have g: "?g (written r f) = written (?g r) f" by (simp add: add_index_entry_def)
  let ?raw = "block_of 1 (index_entries seps' hs)"
  have "bs ! i \<noteq> [] \<and> length (seps' ! i) \<le> length (fst (last (bs ! i)))" if "i < length bs" for i
  proof -
    have "[] \<notin> set bs" using assms(1) by (simp add: tb_inv_def)
    then have "bs ! i \<noteq> []" using nth_mem [OF that] by metis
    then show ?thesis using s(2,3) that by (simp add: separated_def)
  qed
  then have "entries_size (index_entries seps' hs) \<le> 2 * entries_size (concat bs)"
    using s(2) inv_lengths [OF assms(1)] by (intro index_entries_size) simp_all
  then have small: "length ?raw < 2 ^ 32" using block_of_size [of 1 "index_entries seps' hs"] assms(3) by simp
  have len: "length (wcontents (tb_file (written (?g r) f))) + length ?raw + kBlockTrailerSize < 2 ^ 64"
    using small assms(5) by (simp add: kBlockTrailerSize_def)
  have raw: "?raw = snd (BlockBuilder_Finish (tb_index_block (written (?g r) f)))" using s(1) by (simp add: block_of_bb)
  have "wok (tb_file (written (?g r) f))" "tb_offset (written (?g r) f) = word_of_nat (length (wcontents (tb_file (written (?g r) f))))"
    using assms(4) by simp_all
  from WriteBlock_ok [OF this len raw] obtain f' h d where
    w: "WriteBlock snappy wops (tb_index_block (written (?g r) f)) (written (?g r) f) = (BlockBuilder_new, h, written (written (?g r) f) f')"
      "wok f'" "wcontents f' = wcontents f @ d" "length d \<le> length ?raw + kBlockTrailerSize" "stored_block snappy (wcontents f') h ?raw"
    by auto
  have "write_index snappy wops (written r f) = (h, (written (written (?g r) f) f')\<lparr> tb_index_block := BlockBuilder_new \<rparr>)"
    unfolding write_index_def Let_def g w(1) by simp
  then show ?thesis using w s small by (intro exI [of _ h] exI [of _ "(written (written (?g r) f) f')\<lparr> tb_index_block := BlockBuilder_new \<rparr>"]
        exI [of _ f'] exI [of _ d] exI [of _ seps']) (simp add: kBlockTrailerSize_def)
qed

text \<open>What \<open>Finish\<close> leaves in the file.\<close>

lemma inv_closed: "tinv r bs hs seps cur \<Longrightarrow> tinv (r\<lparr> tb_closed := c \<rparr>) bs hs seps cur"
  by (simp add: tb_inv_def)

lemma Finish_ok:
  assumes "tinv r bs hs seps cur" "sorted_run (opt_comparator options) valid (concat bs @ cur)" "entries_size (concat bs @ cur) < 2 ^ 30"
    and filter: "\<And>p b. tb_filter_block (TableBuilder_Flush snappy wops r) = Some (p, b) \<Longrightarrow>
      length (FilterBlock_Finish p b) < 2 ^ 32 \<and> length (FilterPolicy_Name p) < 2 ^ 31"
  shows "\<exists>r' bs' hs' seps' fh mh ih calls. TableBuilder_Finish snappy wops r = Some (OK, r') \<and> wok (tb_file r') \<and>
    tb_offset r' = word_of_nat (length (wcontents (tb_file r'))) \<and> concat bs' = concat bs @ cur \<and>
    table_image snappy options valid (wcontents (tb_file r')) bs' hs' seps' fh mh ih calls"
proof -
  have "entries_size (concat bs @ cur) < 2 ^ 32" using assms(3) by simp
  from inv_flushed [OF assms(1) this] obtain bs' hs' where
    b: "tinv (TableBuilder_Flush snappy wops r) bs' hs' seps []" "concat bs' = concat bs @ cur" by blast
  define r1 where "r1 = (TableBuilder_Flush snappy wops r)\<lparr> tb_closed := True \<rparr>"
  let ?calls = "filter_calls hs' bs' @ [(tb_offset r1, [])]"
  have inv: "tinv r1 bs' hs' seps []" using inv_closed [OF b(1)] by (simp add: r1_def)
  note i = inv [unfolded tb_inv_def]
  have fb: "tb_filter_block r1 = map_option (\<lambda>p. (p, filter_builder p ?calls)) (opt_filter_policy options)" using i by simp
  have fsmall: "length (build_filter_block p ?calls) < 2 ^ 32" "length (FilterPolicy_Name p) < 2 ^ 31"
    if "opt_filter_policy options = Some p" for p
    using filter [of p "filter_builder p ?calls"] fb that
    by (auto simp: r1_def build_filter_block_def filter_builder_def)
  have len1: "length (wcontents (tb_file r1)) < 2 ^ 30" using i assms(3) b(2) by simp
  then have "length (wcontents (tb_file r1)) < 2 ^ 32" "tb_status r1 = OK" "wok (tb_file r1)"
    "tb_offset r1 = word_of_nat (length (wcontents (tb_file r1)))" using i by simp_all
  from write_filter_ok [OF fb this(2,3,4,1) fsmall(1)] obtain fh f d where
    f: "write_filter wops r1 = (fh, written r1 f)" "wok f" "wcontents f = wcontents (tb_file r1) @ d" "length d < 2 ^ 33"
      "\<And>p. opt_filter_policy options = Some p \<Longrightarrow> stored_block snappy (wcontents f) fh (build_filter_block p ?calls)" by blast
  have "tb_filter_block (written r1 f) = map_option (\<lambda>p. (p, filter_builder p ?calls)) (opt_filter_policy options)"
    "tb_options (written r1 f) = options" "tb_status (written r1 f) = OK" "wok (tb_file (written r1 f))"
    "tb_offset (written r1 f) = word_of_nat (length (wcontents (tb_file (written r1 f))))" "length (wcontents (tb_file (written r1 f))) < 2 ^ 34"
    using i fb f len1 by simp_all
  from write_metaindex_ok [OF this fsmall(2), of fh] obtain mh g e where
    g: "write_metaindex snappy wops fh (written r1 f) = Some (mh, written r1 g)" "wok g" "wcontents g = wcontents f @ e" "length e < 2 ^ 33"
      "stored_block snappy (wcontents g) mh (block_of (opt_block_restart_interval options) (meta_entries options fh))"
      "length (block_of (opt_block_restart_interval options) (meta_entries options fh)) < 2 ^ 32" by auto
  have es: "sorted_run (opt_comparator options) valid (concat bs')" "entries_size (concat bs') < 2 ^ 30" "length (wcontents g) < 2 ^ 35"
    using assms(2,3) b(2) f g len1 by simp_all
  from write_index_ok [OF inv es(1,2) g(2) es(3)] obtain ih r2 d2 seps' where
    x: "write_index snappy wops (written r1 g) = (ih, r2)" "tb_status r2 = OK" "tb_offset r2 = word_of_nat (length (wcontents (tb_file r2)))"
      "wok (tb_file r2)" "wcontents (tb_file r2) = wcontents g @ d2" "length d2 < 2 ^ 33" "length seps' = length bs'"
      "separated (opt_comparator options) valid seps' bs' []"
      "stored_block snappy (wcontents (tb_file r2)) ih (block_of 1 (index_entries seps' hs'))" "length (block_of 1 (index_entries seps' hs')) < 2 ^ 32"
    by blast
  let ?foot = "Footer_EncodeTo [] \<lparr> ft_metaindex_handle = mh, ft_index_handle = ih \<rparr>"
  have len2: "length (wcontents (tb_file r2)) + length ?foot < 2 ^ 36" using x(5,6) es(3) by simp
  then obtain h where h: "Append wops ?foot (tb_file r2) = (h, OK)" "wok h" "wcontents h = wcontents (tb_file r2) @ ?foot"
    using append_ok [OF x(4), of ?foot] by auto
  let ?r = "r2\<lparr> tb_file := h, tb_status := OK, tb_offset := tb_offset r2 + word_of_nat (length ?foot) \<rparr>"
  have fin: "TableBuilder_Finish snappy wops r = Some (OK, ?r)"
    using f(1) g(1) x(1,2) h(1) by (simp add: TableBuilder_Finish_def Let_def r1_def [symmetric] write_footer_def)
  have off: "tb_offset ?r = word_of_nat (length (wcontents (tb_file ?r)))" using x(3) h(3) by simp
  have "table_image snappy options valid (wcontents h) bs' hs' seps' fh mh ih ?calls"
    unfolding table_image_def
  proof (intro conjI)
    show "list_all2 (stored_block snappy (wcontents h)) hs' (map (block_of (opt_block_restart_interval options)) bs')"
      using i f(3) g(3) x(5) h(3) stored_block_append by (auto elim!: list_all2_mono)
    show "stored_block snappy (wcontents h) ih (block_of 1 (index_entries seps' hs'))"
      "stored_block snappy (wcontents h) mh (block_of (opt_block_restart_interval options) (meta_entries options fh))"
      using x(5,9) h(3) g(5) stored_block_append by metis+
    show "case opt_filter_policy options of None \<Rightarrow> True | Some policy \<Rightarrow>
        stored_block snappy (wcontents h) fh (build_filter_block policy ?calls) \<and> length (build_filter_block policy ?calls) < 2 ^ 32"
      using f(5) fsmall(1) g(3) x(5) h(3) stored_block_append by (auto split: option.split)
    show "\<forall>b \<in> set bs'. length (block_of (opt_block_restart_interval options) b) < 2 ^ 32"
    proof
      fix x assume "x \<in> set bs'"
      then show "length (block_of (opt_block_restart_interval options) x) < 2 ^ 32"
        using block_of_size [of "opt_block_restart_interval options" x] entries_size_mem [of x bs'] es(2) by simp
    qed
    have "map (unat \<circ> fst) ?calls = map (unat \<circ> bh_offset) hs' @ [length (wcontents (tb_file r1))]"
      using i len1 arg_cong [OF filter_calls_offsets [OF inv_lengths [OF inv]], of "map unat"] by simp
    then show "sorted (map (unat \<circ> fst) ?calls)" using i by (simp add: strict_sorted_imp_sorted)
    have "distinct (map (unat \<circ> bh_offset) hs')" using i by (simp add: sorted_wrt_append strict_sorted_iff)
    then show "distinct hs'" by (simp add: distinct_map)
    show "\<exists>pre. wcontents h = pre @ ?foot" using h(3) by blast
    show "set (filter_calls hs' bs') \<subseteq> set ?calls" by auto
  qed (use i x g len2 h(3) inv_lengths [OF inv] in \<open>simp_all\<close>)
  with fin off h(2) b(2) show ?thesis
    by (intro exI [of _ ?r] exI [of _ bs'] exI [of _ hs'] exI [of _ seps'] exI [of _ fh] exI [of _ mh] exI [of _ ih] exI [of _ ?calls]) simp
qed

end

lemma Bytewise_short:
  "length (FindShortestSeparator BytewiseComparator a b) \<le> length a" "length (FindShortSuccessor BytewiseComparator a) \<le> length a"
proof -
  show "length (FindShortestSeparator BytewiseComparator a b) \<le> length a"
    by (auto simp: BytewiseComparator_def Bytewise_FindShortestSeparator_def Let_def)
  have "length (FindShortSuccessor_loop a i) \<le> length a" for i
    by (induction a i rule: FindShortSuccessor_loop.induct) (subst FindShortSuccessor_loop.simps, auto simp: Let_def)
  then show "length (FindShortSuccessor BytewiseComparator a) \<le> length a"
    by (simp add: BytewiseComparator_def Bytewise_FindShortSuccessor_def)
qed

interpretation mem_table: table_writer WritableFileImpl_ops fs_contents fs_ok None Options_new "\<lambda>_. True"
proof (rule table_writer.intro [OF mem_blocks.block_writer_axioms _ table_writer_axioms.intro])
  show "separator_order (opt_comparator Options_new) (\<lambda>_. True)"
    using bytewise.separator_order_axioms by (simp add: Options_new_def)
qed (use Bytewise_short in \<open>simp_all add: Options_new_def\<close>)

end
