(* ===== verification/Table_Correctness.thy ===== *)
theory Table_Correctness
  imports Table Table_Image
begin

text \<open>
  A table file that the builder has written, opened and read: the iterator of the table runs over
  the entries that were added, and a lookup finds them. The reader uses a file only through the
  contract of \<open>RandomAccessFile\<close>, and gets the same blocks with and without the block cache.
\<close>

section \<open>Opening\<close>

abbreviation reads :: "'f table_env \<Rightarrow> ('f \<Rightarrow> bytes) \<Rightarrow> ('f \<Rightarrow> bool) \<Rightarrow> bool" where
  "reads te \<equiv> random_access_file (te_file te)"

lemma te_ReadBlock_stored:
  assumes "reads te rcontents rok" "rok g" "stored_block (te_snappy te) (rcontents g) h raw"
  shows "\<exists>bc. te_ReadBlock te g verify h = Some (OK, bc) \<and> bc_data bc = raw"
  using random_access_file.ReadBlock_stored [OF assms] .

lemma block_lookup_single:
  assumes "1 \<le> I" "length (block_of I [(k, v)]) < 2 ^ 32"
  shows "\<exists>s. it_Seek (Block_ops BytewiseComparator) k (Block_NewIterator (Block_new (block_of I [(k, v)]))) = Some s \<and>
    it_Valid (Block_ops BytewiseComparator) s \<and> it_key (Block_ops BytewiseComparator) s = k \<and> it_value (Block_ops BytewiseComparator) s = v"
proof -
  have "\<forall>e \<in> set [(k, v)]. (\<lambda>_. True) (fst e)" "sorted_entries (Compare BytewiseComparator) [(k, v)]"
    by (simp_all add: sorted_entries_def)
  from built_block_iterator [OF assms bytewise.key_order_axioms this] obtain inv pos where
    li: "list_iterator (Block_ops BytewiseComparator) (Compare BytewiseComparator) (\<lambda>_. True) inv [(k, v)] pos"
    and i: "inv (Block_NewIterator (Block_new (block_of I [(k, v)])))" by blast
  from list_iterator.seek [OF li i, of k] obtain s where
    "it_Seek (Block_ops BytewiseComparator) k (Block_NewIterator (Block_new (block_of I [(k, v)]))) = Some s" "inv s"
    "pos s = seek_pos (Compare BytewiseComparator) k [(k, v)]" by blast
  moreover from this have "pos s = 0" using bytewise.compare_refl [of k] by (simp add: seek_pos_def)
  ultimately show ?thesis
    using list_iterator.valid_iff [OF li, of s] list_iterator.key [OF li, of s] list_iterator.val [OF li, of s] by auto
qed

lemma ReadMeta_ok:
  assumes rd: "reads te rcontents rok" "rok g" and img: "table_image (te_snappy te) options valid (rcontents g) bs hs seps fh mh ih calls"
    and t: "tab_file t = g" "tab_options t = options" "tab_filter t = None" and I: "1 \<le> opt_block_restart_interval options"
    and "ft_metaindex_handle footer = mh"
  shows "Table_ReadMeta te footer t =
    Some (t\<lparr> tab_filter := map_option (\<lambda>p. FilterBlockReader_new (build_filter_block p calls)) (opt_filter_policy options) \<rparr>)"
proof (cases "opt_filter_policy options")
  case None
  then show ?thesis using t by (simp add: Table_ReadMeta_def)
next
  case (Some p)
  let ?key = "cstr ''filter.'' @ FilterPolicy_Name p" and ?ops = "Block_ops BytewiseComparator"
  have meta: "meta_entries options fh = [(?key, BlockHandle_EncodeTo [] fh)]" using Some by (simp add: meta_entries_def)
  have st: "stored_block (te_snappy te) (rcontents g) mh (block_of (opt_block_restart_interval options) [(?key, BlockHandle_EncodeTo [] fh)])"
    "length (block_of (opt_block_restart_interval options) [(?key, BlockHandle_EncodeTo [] fh)]) < 2 ^ 32"
    "stored_block (te_snappy te) (rcontents g) fh (build_filter_block p calls)"
    using img Some meta unfolding table_image_def by simp_all
  obtain bc where bc: "te_ReadBlock te g (opt_paranoid_checks options) mh = Some (OK, bc)"
    "bc_data bc = block_of (opt_block_restart_interval options) [(?key, BlockHandle_EncodeTo [] fh)]"
    using te_ReadBlock_stored [OF rd st(1)] by blast
  obtain fc where fc: "te_ReadBlock te g (opt_paranoid_checks options) fh = Some (OK, fc)" "bc_data fc = build_filter_block p calls"
    using te_ReadBlock_stored [OF rd st(3)] by blast
  obtain s where s: "it_Seek ?ops ?key (Block_NewIterator (Block_new (bc_data bc))) = Some s"
    "it_Valid ?ops s" "it_key ?ops s = ?key" "it_value ?ops s = BlockHandle_EncodeTo [] fh"
    using block_lookup_single [OF I st(2)] bc(2) by auto
  have "Table_ReadFilter te (BlockHandle_EncodeTo [] fh) t = Some (t\<lparr> tab_filter := Some (FilterBlockReader_new (build_filter_block p calls)) \<rparr>)"
    using fc t by (simp add: Table_ReadFilter_def BlockHandle_roundtrip_exact)
  then show ?thesis
    using bc(1) s t Some assms(8) by (simp add: Table_ReadMeta_def Let_def del: cstr_Cons)
qed

lemma Open_ok:
  assumes rd: "reads te rcontents rok" "rok g" and img: "table_image (te_snappy te) options valid (rcontents g) bs hs seps fh mh ih calls"
    and I: "1 \<le> opt_block_restart_interval options"
  shows "Table_Open te options g (word_of_nat (length (rcontents g))) cid =
    Some (OK, Some \<lparr> tab_options = options, tab_file = g, tab_cache_id = cid,
      tab_filter = map_option (\<lambda>p. FilterBlockReader_new (build_filter_block p calls)) (opt_filter_policy options),
      tab_metaindex_handle = mh, tab_index_block = Block_new (block_of 1 (index_entries seps hs)) \<rparr>)"
proof -
  let ?ft = "\<lparr> ft_metaindex_handle = mh, ft_index_handle = ih \<rparr>" and ?n = "length (rcontents g)"
  obtain pre where pre: "rcontents g = pre @ Footer_EncodeTo [] ?ft" and n: "?n < 2 ^ 64"
    using img by (auto simp: table_image_def)
  have ix: "stored_block (te_snappy te) (rcontents g) ih (block_of 1 (index_entries seps hs))"
    using img unfolding table_image_def by blast
  have len: "?n = length pre + 48" using pre by simp
  have un1: "unat (word_of_nat ?n :: u64) = ?n" using unat_word_of_nat_small [where 'a = 64, of ?n] n by simp
  have "unat (word_of_nat ?n - 48 :: u64) = length pre"
    using unat_word_of_nat_small [where 'a = 64, of "length pre"] n len by simp
  note un = un1 this
  have "ReadAt (te_file te) (word_of_nat ?n - 48) 48 [] g = (Footer_EncodeTo [] ?ft, OK)"
    using random_access_file.read_at_ok [OF rd, of "word_of_nat ?n - 48" 48 "[]"] un len pre by simp
  then have read: "ReadAt (te_file te) (word_of_nat ?n - word_of_nat 48) 48 [] g = (Footer_EncodeTo [] ?ft, OK)" by simp
  have dec: "Footer_DecodeFrom (Footer_EncodeTo [] ?ft) Footer_new = Some (OK, ?ft, [])"
    using Footer_roundtrip [of ?ft "[]"] by simp
  obtain bc where bc: "te_ReadBlock te g (opt_paranoid_checks options) ih = Some (OK, bc)" "bc_data bc = block_of 1 (index_entries seps hs)"
    using te_ReadBlock_stored [OF rd ix] by blast
  have k48: "Footer_kEncodedLength = 48" by (simp add: Footer_kEncodedLength_def kMaxEncodedLength_def)
  have "\<not> unat (word_of_nat ?n :: u64) < 48" using un len by simp
  then show ?thesis
    unfolding Table_Open_def k48 read
    using dec bc by (simp add: ReadMeta_ok [OF rd img _ _ _ I, where footer = ?ft])
qed

section \<open>Reading blocks\<close>

text \<open>What the cache holds under the key of a data block is the block that the file holds.\<close>

definition cache_agrees :: "'f table_env \<Rightarrow> 'f Table \<Rightarrow> (bytes \<Rightarrow> Block option) option \<Rightarrow> BlockHandle list \<Rightarrow> bool" where
  "cache_agrees te t cache hs \<longleftrightarrow> (\<forall>lookup h blk. cache = Some lookup \<longrightarrow> h \<in> set hs \<longrightarrow> lookup (cache_key t h) = Some blk \<longrightarrow>
     (\<exists>bc. te_ReadBlock te (tab_file t) False h = Some (OK, bc) \<and> blk = Block_new (bc_data bc)))"

lemma BlockReader_ok:
  assumes rd: "reads te rcontents rok" "rok (tab_file t)" and st: "stored_block (te_snappy te) (rcontents (tab_file t)) h raw"
    and "cache_agrees te t cache hs" "h \<in> set hs"
  shows "map_option fst (Table_BlockReader te ro cache t (BlockHandle_EncodeTo [] h)) = Some (Block_NewIterator (Block_new raw))"
proof -
  have read: "\<exists>bc. te_ReadBlock te (tab_file t) verify h = Some (OK, bc) \<and> bc_data bc = raw" for verify
    using te_ReadBlock_stored [OF rd st] .
  show ?thesis
  proof (cases "Option.bind cache (\<lambda>lookup. lookup (cache_key t h))")
    case None
    obtain bc where "te_ReadBlock te (tab_file t) (ro_verify_checksums ro) h = Some (OK, bc)" "bc_data bc = raw" using read by blast
    then show ?thesis using None by (simp add: Table_BlockReader_def BlockHandle_roundtrip_exact read_block_of_def)
  next
    case (Some blk)
    then obtain lookup where l: "cache = Some lookup" "lookup (cache_key t h) = Some blk" by (cases cache) auto
    obtain bc where "te_ReadBlock te (tab_file t) False h = Some (OK, bc)" "blk = Block_new (bc_data bc)"
      using assms(4,5) l unfolding cache_agrees_def by blast
    then have "blk = Block_new raw" using read [of False] by simp
    with Some show ?thesis by (simp add: Table_BlockReader_def BlockHandle_roundtrip_exact)
  qed
qed

section \<open>The index\<close>

lemma BlockHandle_EncodeTo_inj: "BlockHandle_EncodeTo [] h = BlockHandle_EncodeTo [] h' \<Longrightarrow> h = h'"
  by (metis BlockHandle_roundtrip_exact Pair_inject)

lemma index_entries_nth:
  assumes "length seps = length hs" "i < length hs"
  shows "index_entries seps hs ! i = (seps ! i, BlockHandle_EncodeTo [] (hs ! i))"
  using assms by (simp add: index_entries_def)

lemma separated_bounds:
  assumes sep: "separated cmp valid seps bs []" and len: "length seps = length bs" and i: "i < length bs" and e: "e \<in> set (bs ! i)"
  shows "Compare cmp (fst e) (seps ! i) \<le> 0" "j < i \<Longrightarrow> Compare cmp (seps ! j) (fst e) < 0"
proof -
  show "Compare cmp (fst e) (seps ! i) \<le> 0" using sep len i e by (simp add: separated_def)
  show "Compare cmp (seps ! j) (fst e) < 0" if "j < i"
  proof -
    have "drop (Suc j) bs ! (i - Suc j) \<in> set (drop (Suc j) bs)" using that i by (intro nth_mem) simp
    then have "bs ! i \<in> set (drop (Suc j) bs)" using that i by simp
    then have "e \<in> set (concat (drop (Suc j) bs) @ [])" using e by auto
    moreover have "j < length seps" using that i len by simp
    ultimately show ?thesis using sep unfolding separated_def by blast
  qed
qed

lemma index_sorted:
  assumes ko: "key_order cmp valid" and sep: "separated cmp valid seps bs []"
    and len: "length seps = length bs" "length hs = length bs" and ne: "[] \<notin> set bs" and v: "\<forall>e \<in> set (concat bs). valid (fst e)"
  shows "sorted_run cmp valid (index_entries seps hs)"
proof -
  have valid: "valid (seps ! i)" if "i < length bs" for i using sep len that by (simp add: separated_def)
  have "Compare cmp (seps ! i) (seps ! j) < 0" if ij: "i < j" "j < length bs" for i j
  proof -
    have mem: "bs ! j \<in> set bs" using ij(2) by simp
    then obtain e where e: "e \<in> set (bs ! j)" using ne by (metis hd_in_set)
    from separated_bounds [OF sep len(1) ij(2) e] ij(1) have "Compare cmp (seps ! i) (fst e) < 0" "Compare cmp (fst e) (seps ! j) \<le> 0"
      by simp_all
    moreover have "valid (fst e)" using v e mem by auto
    ultimately show ?thesis using key_order.compare_less_le_trans [OF ko, of "seps ! i" "fst e" "seps ! j"] valid [of i] valid [of j] ij by simp
  qed
  then show ?thesis
    using len valid by (auto simp: sorted_run_def sorted_entries_def sorted_wrt_iff_nth_less index_entries_def set_zip)
qed

lemma sorted_run_sublist: "sorted_run cmp valid (xs @ ys @ zs) \<Longrightarrow> sorted_run cmp valid ys"
  by (simp add: sorted_run_def sorted_entries_def sorted_wrt_append)

lemma sorted_run_block: "sorted_run cmp valid (concat bs) \<Longrightarrow> b \<in> set bs \<Longrightarrow> sorted_run cmp valid b"
  by (metis sorted_run_sublist split_list concat.simps(2) concat_append)

lemma run_iterator:
  assumes "1 \<le> I" "length (block_of I es) < 2 ^ 32" "key_order cmp valid" "sorted_run cmp valid es"
  shows "\<exists>inv pos. list_iterator (Block_ops cmp) (Compare cmp) valid inv es pos \<and> inv (Block_NewIterator (Block_new (block_of I es)))"
  using built_block_iterator [OF assms(1-3)] assms(4) unfolding sorted_run_def by blast

lemma table_two_level:
  assumes rd: "reads te rcontents rok" "rok (tab_file t)"
    and img: "table_image (te_snappy te) (tab_options t) valid (rcontents (tab_file t)) bs hs seps fh mh ih calls"
    and t: "tab_index_block t = Block_new (block_of 1 (index_entries seps hs))" and I: "1 \<le> opt_block_restart_interval (tab_options t)"
    and ko: "key_order (opt_comparator (tab_options t)) valid" and run: "sorted_run (opt_comparator (tab_options t)) valid (concat bs)"
    and cache: "cache_agrees te t cache hs"
  shows "\<exists>S. two_level_ok S \<and> two_level_entries S = concat bs \<and> ts_iops S = Table_block_ops t \<and> ts_dops S = Table_block_ops t \<and>
    ts_bf S = (\<lambda>h. map_option fst (Table_BlockReader te ro cache t h)) \<and> ts_cmp S = opt_comparator (tab_options t) \<and>
    ts_valid S = valid \<and> ts_iinv S (Block_NewIterator (tab_index_block t)) \<and> ts_index S = index_entries seps hs \<and>
    (\<forall>i < length hs. ts_block S (BlockHandle_EncodeTo [] (hs ! i)) = bs ! i)"
proof -
  let ?I = "opt_block_restart_interval (tab_options t)" and ?cmp = "opt_comparator (tab_options t)"
  let ?ix = "index_entries seps hs" and ?enc = "BlockHandle_EncodeTo []"
  note im = img [unfolded table_image_def]
  have len: "length seps = length bs" "length hs = length bs" using im by simp_all
  have v: "\<forall>e \<in> set (concat bs). valid (fst e)" using run by (simp add: sorted_run_def)
  have sep: "separated ?cmp valid seps bs []" and ne: "[] \<notin> set bs" using im by blast+
  have ixs: "sorted_run ?cmp valid ?ix" using index_sorted [OF ko sep len ne v] .
  have small: "length (block_of 1 ?ix) < 2 ^ 32" "\<And>b. b \<in> set bs \<Longrightarrow> length (block_of ?I b) < 2 ^ 32" using im by blast+
  obtain iinv ipos where ii: "list_iterator (Block_ops ?cmp) (Compare ?cmp) valid iinv ?ix ipos" "iinv (Block_NewIterator (tab_index_block t))"
    using run_iterator [OF _ small(1) ko ixs] t by auto
  have "\<forall>b. \<exists>inv pos. b \<in> set bs \<longrightarrow> list_iterator (Block_ops ?cmp) (Compare ?cmp) valid inv b pos \<and>
      inv (Block_NewIterator (Block_new (block_of ?I b)))"
    using run_iterator [OF I small(2) ko sorted_run_block [OF run]] by blast
  then obtain DI dp where D: "\<And>b. b \<in> set bs \<Longrightarrow> list_iterator (Block_ops ?cmp) (Compare ?cmp) valid (DI b) b (dp b) \<and>
      DI b (Block_NewIterator (Block_new (block_of ?I b)))" by metis
  let ?blk = "\<lambda>h. the (map_of (zip (map ?enc hs) bs) h)"
  have "distinct (map ?enc hs)" using im BlockHandle_EncodeTo_inj by (auto simp: distinct_map inj_on_def)
  then have blk: "?blk (?enc (hs ! i)) = bs ! i" if "i < length hs" for i
    using map_of_zip_nth [of "map ?enc hs" bs i] len that by simp
  let ?S = "\<lparr> ts_cmp = ?cmp, ts_valid = valid, ts_iops = Table_block_ops t, ts_dops = Table_block_ops t,
    ts_bf = \<lambda>h. map_option fst (Table_BlockReader te ro cache t h), ts_iinv = iinv, ts_ipos = ipos, ts_index = ?ix,
    ts_dinv = \<lambda>h. DI (?blk h), ts_dpos = \<lambda>h. dp (?blk h), ts_block = ?blk \<rparr>"
  have ixn: "?ix ! i = (seps ! i, ?enc (hs ! i))" if "i < length hs" for i
    using index_entries_nth [OF _ that] len by simp
  have lix: "length ?ix = length bs" using len by (simp add: index_entries_def)
  have ok: "block_ok ?S (?enc (hs ! i))" if i: "i < length hs" for i
  proof -
    have b: "bs ! i \<in> set bs" using i len by simp
    have "stored_block (te_snappy te) (rcontents (tab_file t)) (hs ! i) (block_of ?I (bs ! i))"
      using im i len by (simp add: list_all2_conv_all_nth)
    from BlockReader_ok [OF rd this cache, of ro] i
    have "map_option fst (Table_BlockReader te ro cache t (?enc (hs ! i))) = Some (Block_NewIterator (Block_new (block_of ?I (bs ! i))))" by simp
    then show ?thesis using D [OF b] blk [OF i] by (auto simp: block_ok_def)
  qed
  have sepi: "\<forall>e \<in> set (bs ! i). valid (fst e) \<and> Compare ?cmp (fst e) (seps ! i) \<le> 0 \<and> (\<forall>j < i. Compare ?cmp (seps ! j) (fst e) < 0)"
    if i: "i < length hs" for i
    using separated_bounds [OF sep len(1)] v i len(2) nth_mem [of i bs] by auto
  have "two_level_ok ?S"
    unfolding two_level_ok_def using ko ii(1) ixs ok sepi blk ixn len lix by simp
  moreover have "map (?blk \<circ> snd) ?ix = bs"
    using blk ixn len lix by (intro nth_equalityI) simp_all
  then have "two_level_entries ?S = concat bs" by (simp add: two_level_entries_def)
  ultimately show ?thesis using ii(2) blk by (intro exI [of _ ?S]) simp
qed

section \<open>Lookups\<close>

lemma filter_no_miss:
  assumes img: "table_image snappy options valid fc bs hs seps fh mh ih calls" and p: "opt_filter_policy options = Some p" "filter_policy p"
    and i: "i < length bs" "e \<in> set (bs ! i)"
  shows "FilterBlock_KeyMayMatch p (FilterBlockReader_new (build_filter_block p calls)) (bh_offset (hs ! i)) (fst e)"
proof (rule filter_policy.filter_block_no_miss [OF p(2)])
  note im = img [unfolded table_image_def]
  have "sorted (map (unat \<circ> fst) calls)" using im by blast
  then show "sorted (map (\<lambda>blk. unat (fst blk) div kFilterBase) calls)"
    by (auto simp: sorted_iff_nth_mono intro!: div_le_mono)
  show "length (build_filter_block p calls) < 2 ^ 32" using im p(1) by simp
  have "(bh_offset (hs ! i), map fst (bs ! i)) \<in> set (filter_calls hs bs)"
    using im i(1) by (auto simp: filter_calls_def set_zip intro!: exI [of _ i])
  then show "(bh_offset (hs ! i), map fst (bs ! i)) \<in> set calls" using im by blast
  show "fst e \<in> set (map fst (bs ! i))" using i(2) by simp
qed

text \<open>A key of the table is in the block to which the index leads.\<close>

lemma two_level_find_block:
  assumes S: "two_level_ok S" and v: "ts_valid S (fst e)" and j: "j < length (ts_index S)" "e \<in> set (nth_block S j)"
  shows "seek_pos (Compare (ts_cmp S)) (fst e) (ts_index S) = j"
proof -
  let ?i = "seek_pos (Compare (ts_cmp S)) (fst e) (ts_index S)"
  have ko: "key_order (ts_cmp S) (ts_valid S)" and ix: "sorted_run (ts_cmp S) (ts_valid S) (ts_index S)"
    using S by (simp_all add: two_level_ok_def)
  have "\<not> j < ?i" using two_level_seek_block(1) [OF S v j] key_order.compare_less_irrefl [OF ko v] by blast
  moreover have "\<not> ?i < j"
  proof
    assume lt: "?i < j"
    then have "Compare (ts_cmp S) (fst (ts_index S ! ?i)) (fst e) < 0" using two_level_bounds(4) [OF S j] by simp
    moreover have "?i < length (ts_index S)" using lt j(1) by simp
    ultimately show False using seek_pos_iff [OF ko _ _ v, of "ts_index S" ?i] ix by (simp add: sorted_run_def)
  qed
  ultimately show ?thesis by simp
qed

lemma InternalGet_found:
  assumes S: "two_level_ok S" "ts_iops S = Table_block_ops t" "ts_dops S = Table_block_ops t" "ts_iinv S (Block_NewIterator (tab_index_block t))"
    "ts_bf S = (\<lambda>h. map_option fst (Table_BlockReader te ro cache t h))" "ts_cmp S = opt_comparator (tab_options t)"
    and k: "ts_valid S k" and i: "i = seek_pos (Compare (ts_cmp S)) k (ts_index S)"
    and h: "i < length (ts_index S) \<Longrightarrow> snd (ts_index S ! i) = BlockHandle_EncodeTo [] h"
  shows "Table_InternalGet te ro cache t k = Some (OK,
    if i < length (ts_index S) \<and>
       \<not> (\<exists>reader p. tab_filter t = Some reader \<and> opt_filter_policy (tab_options t) = Some p \<and> \<not> FilterBlock_KeyMayMatch p reader (bh_offset h) k) \<and>
       seek_pos (Compare (ts_cmp S)) k (nth_block S i) < length (nth_block S i)
    then Some (nth_block S i ! seek_pos (Compare (ts_cmp S)) k (nth_block S i)) else None)"
proof -
  let ?ops = "Table_block_ops t"
  note ii = two_level_index [OF S(1)]
  obtain iiter where it: "it_Seek ?ops k (Block_NewIterator (tab_index_block t)) = Some iiter" "ts_iinv S iiter" "ts_ipos S iiter = i"
    using list_iterator.seek [OF ii S(4) k] S(2) i by auto
  have valid: "it_Valid ?ops iiter \<longleftrightarrow> i < length (ts_index S)" "it_status ?ops iiter = OK"
    using list_iterator.valid_iff [OF ii it(2)] list_iterator.status_ok [OF ii it(2)] S(2) it(3) by simp_all
  show ?thesis
  proof (cases "i < length (ts_index S)")
    case False
    then show ?thesis using it(1) valid by (simp add: Table_InternalGet_def Let_def)
  next
    case True
    have val: "it_value ?ops iiter = BlockHandle_EncodeTo [] h"
      using list_iterator.val [OF ii it(2)] it(3) S(2) h True by simp
    note bo = two_level_block [OF S(1) True]
    obtain d x where d: "Table_BlockReader te ro cache t (BlockHandle_EncodeTo [] h) = Some (d, x)" "ts_dinv S (snd (ts_index S ! i)) d"
      using bo(1) S(5) h [OF True] by (auto simp: block_ok_def)
    note lk = list_iterator.seek [OF bo(2) d(2) k]
    obtain s where s: "it_Seek ?ops k d = Some s" "ts_dinv S (snd (ts_index S ! i)) s"
      "ts_dpos S (snd (ts_index S ! i)) s = seek_pos (Compare (ts_cmp S)) k (nth_block S i)" using lk S(3) by auto
    note v = list_iterator.valid_iff [OF bo(2) s(2)] list_iterator.key [OF bo(2) s(2)] list_iterator.val [OF bo(2) s(2)]
      list_iterator.status_ok [OF bo(2) s(2)]
    show ?thesis using True it(1) valid val d(1) s v S(3)
      by (auto simp: Table_InternalGet_def Let_def BlockHandle_roundtrip_exact split: option.splits)
  qed
qed

lemma table_get:
  assumes rd: "reads te rcontents rok" "rok (tab_file t)"
    and img: "table_image (te_snappy te) (tab_options t) valid (rcontents (tab_file t)) bs hs seps fh mh ih calls"
    and t: "tab_index_block t = Block_new (block_of 1 (index_entries seps hs))"
      "tab_filter t = map_option (\<lambda>p. FilterBlockReader_new (build_filter_block p calls)) (opt_filter_policy (tab_options t))"
    and I: "1 \<le> opt_block_restart_interval (tab_options t)"
    and ko: "key_order (opt_comparator (tab_options t)) valid" and run: "sorted_run (opt_comparator (tab_options t)) valid (concat bs)"
    and cache: "cache_agrees te t cache hs" and fp: "\<And>p. opt_filter_policy (tab_options t) = Some p \<Longrightarrow> filter_policy p"
  shows "(k, v) \<in> set (concat bs) \<Longrightarrow> Table_InternalGet te ro cache t k = Some (OK, Some (k, v))"
    and "valid k \<Longrightarrow> \<exists>e. Table_InternalGet te ro cache t k = Some (OK, e) \<and>
      (e = None \<or> e = List.find (\<lambda>e. 0 \<le> Compare (opt_comparator (tab_options t)) (fst e) k) (concat bs))"
proof -
  let ?cmp = "opt_comparator (tab_options t)"
  from table_two_level [OF rd img t(1) I ko run cache, of ro] obtain S where
    S: "two_level_ok S" "ts_iops S = Table_block_ops t" "ts_dops S = Table_block_ops t" "ts_iinv S (Block_NewIterator (tab_index_block t))"
      "ts_bf S = (\<lambda>h. map_option fst (Table_BlockReader te ro cache t h))" "ts_cmp S = ?cmp"
    and S2: "two_level_entries S = concat bs" "ts_valid S = valid" "ts_index S = index_entries seps hs"
      "\<forall>i < length hs. ts_block S (BlockHandle_EncodeTo [] (hs ! i)) = bs ! i" by blast
  have len: "length hs = length bs" "length (ts_index S) = length bs" "length seps = length hs"
    using img S2(3) unfolding table_image_def by (simp_all add: index_entries_def)
  have h: "snd (ts_index S ! i) = BlockHandle_EncodeTo [] (hs ! i)" "nth_block S i = bs ! i" if "i < length (ts_index S)" for i
    using index_entries_nth [of seps hs i] S2(3,4) len that by simp_all
  define pos where "pos k = seek_pos (Compare ?cmp) k (ts_index S)" for k
  have get: "Table_InternalGet te ro cache t k = Some (OK,
    if pos k < length bs \<and>
       \<not> (\<exists>reader p. tab_filter t = Some reader \<and> opt_filter_policy (tab_options t) = Some p \<and>
           \<not> FilterBlock_KeyMayMatch p reader (bh_offset (hs ! pos k)) k) \<and>
       seek_pos (Compare ?cmp) k (bs ! pos k) < length (bs ! pos k)
    then Some (bs ! pos k ! seek_pos (Compare ?cmp) k (bs ! pos k)) else None)" if "valid k" for k
    using InternalGet_found [OF S, of k "pos k" "hs ! pos k"] h [of "pos k"] S(6) S2(2) that len by (simp add: pos_def cong: conj_cong)
  have run': "sorted_entries (Compare ?cmp) (concat bs)" "\<forall>e \<in> set (concat bs). valid (fst e)" using run by (simp_all add: sorted_run_def)
  have at: "List.find (\<lambda>e. 0 \<le> Compare ?cmp (fst e) k) (concat bs) = Some (bs ! pos k ! seek_pos (Compare ?cmp) k (bs ! pos k))"
    if k: "valid k" "pos k < length bs" "seek_pos (Compare ?cmp) k (bs ! pos k) < length (bs ! pos k)" for k
    using two_level_seek_pos [OF S(1) _ refl, of k] nth_two_level [of "pos k" S "seek_pos (Compare ?cmp) k (bs ! pos k)"]
      find_seek_pos [OF ko run' k(1)] k h [of "pos k"] S(6) S2(1,2) len by (simp add: pos_def)
  show "Table_InternalGet te ro cache t k = Some (OK, Some (k, v))" if "(k, v) \<in> set (concat bs)"
  proof -
    from that obtain b where "b \<in> set bs" "(k, v) \<in> set b" by auto
    then obtain j where j: "j < length bs" "(k, v) \<in> set (bs ! j)" by (metis in_set_conv_nth)
    have k: "valid k" using bspec [OF run'(2) that] by simp
    have pos: "pos k = j"
      using two_level_find_block [OF S(1), of "(k, v)" j] j k h [of j] S(6) S2(2) len by (simp add: pos_def)
    obtain c where c: "c < length (bs ! j)" "bs ! j ! c = (k, v)" using j(2) by (auto simp: in_set_conv_nth)
    have "sorted_run ?cmp valid (bs ! j)" using sorted_run_block [OF run] j(1) by simp
    from count_at_key(1) [OF ko this c(1)] have sp: "seek_pos (Compare ?cmp) k (bs ! j) = c" using c(2) by (simp add: seek_pos_count)
    have "FilterBlock_KeyMayMatch p reader (bh_offset (hs ! j)) k"
      if "tab_filter t = Some reader" "opt_filter_policy (tab_options t) = Some p" for reader p
      using filter_no_miss [OF img that(2) fp [OF that(2)] j] t(2) that by simp
    then show ?thesis using get [OF k] pos sp c j(1) by auto
  qed
  show "\<exists>e. Table_InternalGet te ro cache t k = Some (OK, e) \<and>
      (e = None \<or> e = List.find (\<lambda>e. 0 \<le> Compare ?cmp (fst e) k) (concat bs))" if "valid k"
    using get [OF that] at [OF that] by auto
qed

section \<open>Correctness\<close>

text \<open>The filter block fits into the 32 bits of its offsets.\<close>

definition filter_fits :: "SnappyLib option \<Rightarrow> 'f WritableFile \<Rightarrow> 'f TableBuilder \<Rightarrow> bool" where
  "filter_fits snappy wops r =
     (case tb_filter_block (TableBuilder_Flush snappy wops r) of
        None \<Rightarrow> True
      | Some (p, b) \<Rightarrow> length (FilterBlock_Finish p b) < 2 ^ 32 \<and> length (FilterPolicy_Name p) < 2 ^ 31)"

lemma built_table:
  assumes "table_writer wops wcontents wok snappy options valid"
    and "wok file" "wcontents file = []" "sorted_run (opt_comparator options) valid es" "entries_size es < 2 ^ 30"
    and "filter_fits snappy wops (build_entries snappy wops es (TableBuilder_new options file))"
  shows "\<exists>r bs hs seps fh mh ih calls. TableBuilder_Finish snappy wops (build_entries snappy wops es (TableBuilder_new options file)) = Some (OK, r) \<and>
    TableBuilder_FileSize r = word_of_nat (length (wcontents (tb_file r))) \<and> wok (tb_file r) \<and> concat bs = es \<and>
    table_image snappy options valid (wcontents (tb_file r)) bs hs seps fh mh ih calls"
proof -
  have "entries_size es < 2 ^ 32" using assms(5) by simp
  from table_writer.inv_build [OF assms(1-4) this] obtain bs hs seps cur where
    b: "tb_inv snappy wcontents wok options valid (build_entries snappy wops es (TableBuilder_new options file)) bs hs seps cur"
      "concat bs @ cur = es" by blast
  have "length (FilterBlock_Finish p c) < 2 ^ 32 \<and> length (FilterPolicy_Name p) < 2 ^ 31"
    if "tb_filter_block (TableBuilder_Flush snappy wops (build_entries snappy wops es (TableBuilder_new options file))) = Some (p, c)" for p c
    using assms(6) that by (simp add: filter_fits_def)
  from table_writer.Finish_ok [OF assms(1) b(1) _ _ this] assms(4,5) b(2) show ?thesis
    unfolding TableBuilder_FileSize_def by metis
qed

lemma built_file_ok:
  assumes "table_writer wops wcontents wok snappy options valid"
    and "wok file" "wcontents file = []" "sorted_run (opt_comparator options) valid es" "entries_size es < 2 ^ 30"
    and "filter_fits snappy wops (build_entries snappy wops es (TableBuilder_new options file))"
    and "TableBuilder_Finish snappy wops (build_entries snappy wops es (TableBuilder_new options file)) = Some (OK, r)"
  shows "wok (tb_file r)"
  using built_table [OF assms(1-6)] assms(7) by auto

text \<open>In a small table all keys share the filter of the first 2KB.\<close>

lemma filter_builder_small:
  "(\<And>c. c \<in> set calls \<Longrightarrow> unat (fst c) < kFilterBase) \<Longrightarrow>
   fb_result (filter_builder p calls) = [] \<and> fb_filter_offsets (filter_builder p calls) = [] \<and>
   length (fb_start (filter_builder p calls)) = length (concat (map snd calls))"
proof (induction calls rule: rev_induct)
  case (snoc c calls)
  have add: "fb_result (foldl (\<lambda>b key. AddKey key b) b ks) = fb_result b \<and>
      fb_filter_offsets (foldl (\<lambda>b key. AddKey key b) b ks) = fb_filter_offsets b \<and>
      length (fb_start (foldl (\<lambda>b key. AddKey key b) b ks)) = length (fb_start b) + length ks" for b ks
    by (induction ks arbitrary: b) (simp_all add: AddKey_def)
  have "unat (fst c) < kFilterBase" using snoc.prems by simp
  then have "StartBlock p (fst c) b = b" for b by (simp add: StartBlock_def StartBlock_loop.simps)
  then have "filter_builder p (calls @ [c]) = foldl (\<lambda>b key. AddKey key b) (filter_builder p calls) (snd c)"
    by (simp add: filter_builder_def AddBlock_def)
  then show ?case using snoc add by simp
qed (simp add: filter_builder_def FilterBlockBuilder_new_def)

lemma FilterBlock_Finish_small:
  assumes "fb_result b = []" "fb_filter_offsets b = []"
  shows "length (FilterBlock_Finish p b) \<le> length (CreateFilter p (tmp_keys (fb_keys b) (fb_start b)) []) + 9"
  using assms by (simp add: FilterBlock_Finish_def GenerateFilter_def Let_def PutFixed32_def)

lemma filter_fits_small:
  assumes "table_writer wops wcontents wok snappy options valid"
    and "wok file" "wcontents file = []" "sorted_run (opt_comparator options) valid es" "entries_size es < 2048"
    and "opt_filter_policy options = Some (NewBloomFilterPolicy 10)" "length es \<le> 100"
  shows "filter_fits snappy wops (build_entries snappy wops es (TableBuilder_new options file))"
proof -
  let ?r = "build_entries snappy wops es (TableBuilder_new options file)" and ?p = "NewBloomFilterPolicy 10"
  have lt: "entries_size es < 2 ^ 32" using assms(5) by simp
  from table_writer.inv_build [OF assms(1-4) lt] obtain bs hs seps cur where
    b: "tb_inv snappy wcontents wok options valid ?r bs hs seps cur" "concat bs @ cur = es" by blast
  from table_writer.inv_flushed [OF assms(1) b(1)] lt b(2) obtain bs' hs' where
    f: "tb_inv snappy wcontents wok options valid (TableBuilder_Flush snappy wops ?r) bs' hs' seps []" "concat bs' = es" by auto
  define r1 where "r1 = TableBuilder_Flush snappy wops ?r"
  note i = f(1) [folded r1_def, unfolded tb_inv_def]
  let ?calls = "filter_calls hs' bs' @ [(tb_offset r1, [])]"
  have fb: "tb_filter_block r1 = Some (?p, filter_builder ?p ?calls)" using i assms(6) by simp
  have len: "length hs' = length bs'" using table_writer.inv_lengths [OF assms(1) f(1)] .
  have w: "length (wcontents (tb_file r1)) < kFilterBase"
    using i f(2) assms(5) by (simp add: kFilterBase_def kFilterBaseLg_def)
  have "unat (fst c) < kFilterBase" if "c \<in> set ?calls" for c
  proof (cases "c \<in> set (filter_calls hs' bs')")
    case True
    then have "fst c \<in> set (map bh_offset hs')" unfolding filter_calls_offsets [OF len, symmetric] by simp
    then have "unat (fst c) < length (wcontents (tb_file r1))" using i by (auto simp: sorted_wrt_append)
    with w show ?thesis by simp
  next
    case False
    then have "c = (tb_offset r1, [])" using that by simp
    then show ?thesis using i w unat_word_of_nat_small [where 'a = 64, of "length (wcontents (tb_file r1))"]
      by (simp add: kFilterBase_def kFilterBaseLg_def)
  qed
  note sm = filter_builder_small [of ?calls ?p, OF this]
  have "concat (map snd (filter_calls hs' bs')) = map fst es"
    unfolding f(2) [symmetric] filter_calls_def using len by (induction hs' bs' rule: list_induct2) simp_all
  then have "concat (map snd ?calls) = map fst es" by simp
  then have n: "length (fb_start (filter_builder ?p ?calls)) = length es" using sm by (metis length_map)
  have "length (CreateFilter ?p ks []) \<le> 200" if "length ks \<le> 100" for ks
    using length_Bloom_CreateFilter [of 10 ks "[]"] that div_le_mono [of "length ks * 10 + 7" 1007 8]
    by (simp add: NewBloomFilterPolicy_def bloom_bytes_def)
  from this [of "tmp_keys (fb_keys (filter_builder ?p ?calls)) (fb_start (filter_builder ?p ?calls))"]
  have "length (FilterBlock_Finish ?p (filter_builder ?p ?calls)) \<le> 209"
    using FilterBlock_Finish_small [of "filter_builder ?p ?calls" ?p] sm n assms(7) by (simp add: tmp_keys_def Let_def)
  then show ?thesis using fb by (simp add: filter_fits_def r1_def NewBloomFilterPolicy_def)
qed

text \<open>A table opened on a file that the builder has written.\<close>

definition opened :: "'f table_env \<Rightarrow> Options \<Rightarrow> (bytes \<Rightarrow> bool) \<Rightarrow> ('f \<Rightarrow> bytes) \<Rightarrow> entry list list \<Rightarrow> BlockHandle list \<Rightarrow> 'f Table \<Rightarrow> bool" where
  "opened te options valid rcontents bs hs t \<longleftrightarrow> tab_options t = options \<and>
     (\<exists>seps fh mh ih calls. table_image (te_snappy te) options valid (rcontents (tab_file t)) bs hs seps fh mh ih calls \<and>
        tab_index_block t = Block_new (block_of 1 (index_entries seps hs)) \<and>
        tab_filter t = map_option (\<lambda>p. FilterBlockReader_new (build_filter_block p calls)) (opt_filter_policy options))"

lemma table_opens:
  assumes "table_writer wops wcontents wok snappy options valid"
    and "wok file" "wcontents file = []" "sorted_run (opt_comparator options) valid es" "entries_size es < 2 ^ 30"
    and "filter_fits snappy wops (build_entries snappy wops es (TableBuilder_new options file))"
    and "reads te rcontents rok" "te_snappy te = snappy"
  shows "\<exists>r bs hs. TableBuilder_Finish snappy wops (build_entries snappy wops es (TableBuilder_new options file)) = Some (OK, r) \<and> concat bs = es \<and>
    (\<forall>g cid. rok g \<longrightarrow> rcontents g = wcontents (tb_file r) \<longrightarrow>
      (\<exists>t. Table_Open te options g (TableBuilder_FileSize r) cid = Some (OK, Some t) \<and> tab_file t = g \<and> opened te options valid rcontents bs hs t))"
proof -
  have I: "1 \<le> opt_block_restart_interval options" using assms(1) by (simp add: table_writer_def table_writer_axioms_def)
  from built_table [OF assms(1-6)] obtain r bs hs seps fh mh ih calls where
    r: "TableBuilder_Finish snappy wops (build_entries snappy wops es (TableBuilder_new options file)) = Some (OK, r)"
      "TableBuilder_FileSize r = word_of_nat (length (wcontents (tb_file r)))" "concat bs = es"
    and img: "table_image snappy options valid (wcontents (tb_file r)) bs hs seps fh mh ih calls" by blast
  have "\<exists>t. Table_Open te options g (TableBuilder_FileSize r) cid = Some (OK, Some t) \<and> tab_file t = g \<and> opened te options valid rcontents bs hs t"
    if g: "rok g" "rcontents g = wcontents (tb_file r)" for g cid
  proof -
    have "table_image (te_snappy te) options valid (rcontents g) bs hs seps fh mh ih calls" using img g(2) assms(8) by simp
    from Open_ok [OF assms(7) g(1) this I, of cid] this r(2) g(2) show ?thesis unfolding opened_def by fastforce
  qed
  with r show ?thesis by blast
qed

lemma opened_iterator:
  assumes "reads te rcontents rok" "rok (tab_file t)" "opened te options valid rcontents bs hs t" "1 \<le> opt_block_restart_interval options"
    and "key_order (opt_comparator options) valid" "sorted_run (opt_comparator options) valid (concat bs)" "cache_agrees te t cache hs"
  shows "\<exists>inv pos. list_iterator (Table_Iterator_ops te ro cache t) (Compare (opt_comparator options)) valid inv (concat bs) pos \<and>
    inv (Table_NewIterator t)"
proof -
  obtain seps fh mh ih calls where o: "tab_options t = options"
    "table_image (te_snappy te) options valid (rcontents (tab_file t)) bs hs seps fh mh ih calls"
    "tab_index_block t = Block_new (block_of 1 (index_entries seps hs))" using assms(3) unfolding opened_def by blast
  from table_two_level [OF assms(1,2), of valid bs hs seps fh mh ih calls cache ro] o assms(4-7)
  obtain S where S: "two_level_ok S" "two_level_entries S = concat bs" "ts_iops S = Table_block_ops t" "ts_dops S = Table_block_ops t"
    "ts_bf S = (\<lambda>h. map_option fst (Table_BlockReader te ro cache t h))" "ts_cmp S = opt_comparator options" "ts_valid S = valid"
    "ts_iinv S (Block_NewIterator (tab_index_block t))" by auto
  from two_level_list_iterator [OF S(1)] two_level_new [OF S(8)] S(2-7) show ?thesis
    by (intro exI [of _ "tl_inv S"] exI [of _ "tl_pos S"]) (simp add: Table_Iterator_ops_def Table_NewIterator_def)
qed

lemma opened_get:
  assumes "reads te rcontents rok" "rok (tab_file t)" "opened te options valid rcontents bs hs t" "1 \<le> opt_block_restart_interval options"
    and "key_order (opt_comparator options) valid" "sorted_run (opt_comparator options) valid (concat bs)" "cache_agrees te t cache hs"
    and "\<And>p. opt_filter_policy options = Some p \<Longrightarrow> filter_policy p"
  shows "(\<forall>k v. (k, v) \<in> set (concat bs) \<longrightarrow> Table_InternalGet te ro cache t k = Some (OK, Some (k, v))) \<and>
    (\<forall>k. valid k \<longrightarrow> (\<exists>e. Table_InternalGet te ro cache t k = Some (OK, e) \<and>
       (e = None \<or> e = List.find (\<lambda>e. 0 \<le> Compare (opt_comparator options) (fst e) k) (concat bs))))"
proof -
  obtain seps fh mh ih calls where o: "tab_options t = options"
    "table_image (te_snappy te) (tab_options t) valid (rcontents (tab_file t)) bs hs seps fh mh ih calls"
    "tab_index_block t = Block_new (block_of 1 (index_entries seps hs))"
    "tab_filter t = map_option (\<lambda>p. FilterBlockReader_new (build_filter_block p calls)) (opt_filter_policy (tab_options t))"
    using assms(3) unfolding opened_def by blast
  note g = table_get [OF assms(1,2) o(2-4) _ _ _ assms(7)]
  show ?thesis using g assms(4-6,8) o(1) by simp
qed

text \<open>A table of three entries in two blocks, with a Bloom filter, in the in-memory environment.\<close>

definition example_options :: Options where
  "example_options = Options_new\<lparr> opt_block_size := 20, opt_filter_policy := Some (NewBloomFilterPolicy 10) \<rparr>"

definition example_table :: "entry list" where
  "example_table = [(cstr ''a'', cstr ''1''), (cstr ''b'', cstr ''2''), (cstr ''d'', cstr ''4'')]"

definition example_env :: "FileState table_env" where
  "example_env = \<lparr> te_snappy = None, te_file = RandomAccessFileImpl_ops, te_scratch = True \<rparr>"

abbreviation example_builder :: "FileState TableBuilder" where
  "example_builder \<equiv> build_entries None WritableFileImpl_ops example_table (TableBuilder_new example_options FileState_new)"

lemma example_writer: "table_writer WritableFileImpl_ops fs_contents fs_ok None example_options (\<lambda>_. True)"
proof (rule table_writer.intro [OF mem_blocks.block_writer_axioms _ table_writer_axioms.intro])
  show "separator_order (opt_comparator example_options) (\<lambda>_. True)"
    using bytewise.separator_order_axioms by (simp add: example_options_def Options_new_def)
qed (use Bytewise_short in \<open>simp_all add: example_options_def Options_new_def\<close>)

lemma example_table_ok:
  "fs_ok FileState_new" "fs_contents FileState_new = []" "sorted_run (opt_comparator example_options) (\<lambda>_. True) example_table"
  "entries_size example_table < 2 ^ 30" "filter_fits None WritableFileImpl_ops example_builder"
  "random_access_file (te_file example_env) fs_contents fs_ok" "te_snappy example_env = None"
proof -
  show new: "fs_ok FileState_new" "fs_contents FileState_new = []"
    by (simp_all add: fs_ok_def FileState_new_def fs_contents_def)
  have s: "sorted_entries (Compare BytewiseComparator) example_table" by code_simp
  then show run: "sorted_run (opt_comparator example_options) (\<lambda>_. True) example_table"
    by (simp add: sorted_run_def example_options_def Options_new_def)
  have es: "entries_size example_table = 102" "length example_table = 3" by (simp_all add: example_table_def)
  then have "entries_size example_table < 2048" "length example_table \<le> 100" by simp_all
  from filter_fits_small [OF example_writer new run this(1) _ this(2)]
  show "filter_fits None WritableFileImpl_ops example_builder" by (simp add: example_options_def)
  show "entries_size example_table < 2 ^ 30" using es by simp
  show "random_access_file (te_file example_env) fs_contents fs_ok" "te_snappy example_env = None"
    using mem_random.random_access_file_axioms by (simp_all add: example_env_def)
qed

text \<open>
  C7. A table that \<open>TableBuilder\<close> has written for sorted entries, with or without compression and
  with any filter policy, can be opened again, and the iterator of the opened table is an iterator
  over exactly these entries. This holds for all files that meet the contracts of writing and of
  reading, with and without checksum verification, and with a block cache whose answers are right.
\<close>

theorem table_roundtrip:
  assumes "table_writer wops wcontents wok snappy options valid"
    and "wok file" "wcontents file = []" "sorted_run (opt_comparator options) valid es" "entries_size es < 2 ^ 30"
    and "filter_fits snappy wops (build_entries snappy wops es (TableBuilder_new options file))"
    and "random_access_file (te_file te) rcontents rok" "te_snappy te = snappy"
  shows "\<exists>r. TableBuilder_Finish snappy wops (build_entries snappy wops es (TableBuilder_new options file)) = Some (OK, r) \<and>
    (\<forall>g cid. rok g \<longrightarrow> rcontents g = wcontents (tb_file r) \<longrightarrow>
      (\<exists>t hs. Table_Open te options g (TableBuilder_FileSize r) cid = Some (OK, Some t) \<and>
        (\<forall>ro cache. cache_agrees te t cache hs \<longrightarrow>
          (\<exists>inv pos. list_iterator (Table_Iterator_ops te ro cache t) (Compare (opt_comparator options)) valid inv es pos \<and>
             inv (Table_NewIterator t)))))"
proof -
  have I: "1 \<le> opt_block_restart_interval options" and ko: "key_order (opt_comparator options) valid"
    using assms(1) by (simp_all add: table_writer_def table_writer_axioms_def separator_order_def)
  from table_opens [OF assms] obtain r bs hs where
    r: "TableBuilder_Finish snappy wops (build_entries snappy wops es (TableBuilder_new options file)) = Some (OK, r)" "concat bs = es"
      "\<And>g cid. rok g \<Longrightarrow> rcontents g = wcontents (tb_file r) \<Longrightarrow>
        \<exists>t. Table_Open te options g (TableBuilder_FileSize r) cid = Some (OK, Some t) \<and> tab_file t = g \<and> opened te options valid rcontents bs hs t"
    by blast
  show ?thesis
  proof (intro exI [of _ r] conjI allI impI r(1))
    fix g cid assume "rok g" "rcontents g = wcontents (tb_file r)"
    from r(3) [OF this, of cid] obtain t where t: "Table_Open te options g (TableBuilder_FileSize r) cid = Some (OK, Some t)"
      "rok (tab_file t)" "opened te options valid rcontents bs hs t" using \<open>rok g\<close> by blast
    from t(1) opened_iterator [OF assms(7) t(2,3) I ko] r(2) assms(4)
    show "\<exists>t hs. Table_Open te options g (TableBuilder_FileSize r) cid = Some (OK, Some t) \<and>
        (\<forall>ro cache. cache_agrees te t cache hs \<longrightarrow>
          (\<exists>inv pos. list_iterator (Table_Iterator_ops te ro cache t) (Compare (opt_comparator options)) valid inv es pos \<and>
             inv (Table_NewIterator t)))" by (intro exI [of _ t] exI [of _ hs]) simp
  qed
qed

theorem table_roundtrip_witness:
  "\<exists>r t. TableBuilder_Finish None WritableFileImpl_ops example_builder = Some (OK, r) \<and>
     Table_Open example_env example_options (tb_file r) (TableBuilder_FileSize r) 0 = Some (OK, Some t) \<and>
     it_forward (Table_Iterator_ops example_env ReadOptions_new None t) 3 (Table_NewIterator t) = Some example_table"
proof -
  note ok = example_table_ok
  from table_roundtrip [OF example_writer ok] obtain r where
    r: "TableBuilder_Finish None WritableFileImpl_ops example_builder = Some (OK, r)"
      "\<And>g cid. fs_ok g \<Longrightarrow> fs_contents g = fs_contents (tb_file r) \<Longrightarrow>
        \<exists>t hs. Table_Open example_env example_options g (TableBuilder_FileSize r) cid = Some (OK, Some t) \<and>
          (\<forall>ro cache. cache_agrees example_env t cache hs \<longrightarrow>
            (\<exists>inv pos. list_iterator (Table_Iterator_ops example_env ro cache t) (Compare (opt_comparator example_options)) (\<lambda>_. True) inv example_table pos \<and>
              inv (Table_NewIterator t)))" by blast
  have "fs_ok (tb_file r)" using built_file_ok [OF example_writer ok(1-5) r(1)] .
  from r(2) [OF this refl, of 0] obtain t hs where
    t: "Table_Open example_env example_options (tb_file r) (TableBuilder_FileSize r) 0 = Some (OK, Some t)"
      "\<And>ro cache. cache_agrees example_env t cache hs \<Longrightarrow>
          (\<exists>inv pos. list_iterator (Table_Iterator_ops example_env ro cache t) (Compare (opt_comparator example_options)) (\<lambda>_. True) inv example_table pos \<and>
            inv (Table_NewIterator t))" by blast
  have "cache_agrees example_env t None hs" by (simp add: cache_agrees_def)
  from t(2) [OF this] list_iterator.forward_scan
  have "it_forward (Table_Iterator_ops example_env ReadOptions_new None t) (length example_table) (Table_NewIterator t) = Some example_table"
    by (metis le_refl)
  moreover have "length example_table = 3" by (simp add: example_table_def)
  ultimately show ?thesis using r(1) t(1) by auto
qed

text \<open>
  C8. A lookup in a table that \<open>TableBuilder\<close> has written returns without an error. Every key of
  the table is found with its value, through the index, the filter and the data block; for any
  other key the entry that is reported, if one is, is the first one behind the key.
\<close>

theorem table_lookup:
  assumes "table_writer wops wcontents wok snappy options valid"
    and "wok file" "wcontents file = []" "sorted_run (opt_comparator options) valid es" "entries_size es < 2 ^ 30"
    and "filter_fits snappy wops (build_entries snappy wops es (TableBuilder_new options file))"
    and "random_access_file (te_file te) rcontents rok" "te_snappy te = snappy"
    and "\<forall>p. opt_filter_policy options = Some p \<longrightarrow> filter_policy p"
  shows "\<exists>r. TableBuilder_Finish snappy wops (build_entries snappy wops es (TableBuilder_new options file)) = Some (OK, r) \<and>
    (\<forall>g cid. rok g \<longrightarrow> rcontents g = wcontents (tb_file r) \<longrightarrow>
      (\<exists>t hs. Table_Open te options g (TableBuilder_FileSize r) cid = Some (OK, Some t) \<and>
        (\<forall>ro cache. cache_agrees te t cache hs \<longrightarrow>
          (\<forall>k v. (k, v) \<in> set es \<longrightarrow> Table_InternalGet te ro cache t k = Some (OK, Some (k, v))) \<and>
          (\<forall>k. valid k \<longrightarrow> (\<exists>e. Table_InternalGet te ro cache t k = Some (OK, e) \<and>
             (e = None \<or> e = List.find (\<lambda>e. 0 \<le> Compare (opt_comparator options) (fst e) k) es))))))"
proof -
  have I: "1 \<le> opt_block_restart_interval options" and ko: "key_order (opt_comparator options) valid"
    using assms(1) by (simp_all add: table_writer_def table_writer_axioms_def separator_order_def)
  from table_opens [OF assms(1-8)] obtain r bs hs where
    r: "TableBuilder_Finish snappy wops (build_entries snappy wops es (TableBuilder_new options file)) = Some (OK, r)" "concat bs = es"
      "\<And>g cid. rok g \<Longrightarrow> rcontents g = wcontents (tb_file r) \<Longrightarrow>
        \<exists>t. Table_Open te options g (TableBuilder_FileSize r) cid = Some (OK, Some t) \<and> tab_file t = g \<and> opened te options valid rcontents bs hs t"
    by blast
  show ?thesis
  proof (intro exI [of _ r] conjI allI impI r(1))
    fix g cid assume "rok g" "rcontents g = wcontents (tb_file r)"
    from r(3) [OF this, of cid] obtain t where t: "Table_Open te options g (TableBuilder_FileSize r) cid = Some (OK, Some t)"
      "rok (tab_file t)" "opened te options valid rcontents bs hs t" using \<open>rok g\<close> by blast
    from t(1) opened_get [OF assms(7) t(2,3) I ko _ _ assms(9) [rule_format]] r(2) assms(4)
    show "\<exists>t hs. Table_Open te options g (TableBuilder_FileSize r) cid = Some (OK, Some t) \<and>
        (\<forall>ro cache. cache_agrees te t cache hs \<longrightarrow>
          (\<forall>k v. (k, v) \<in> set es \<longrightarrow> Table_InternalGet te ro cache t k = Some (OK, Some (k, v))) \<and>
          (\<forall>k. valid k \<longrightarrow> (\<exists>e. Table_InternalGet te ro cache t k = Some (OK, e) \<and>
             (e = None \<or> e = List.find (\<lambda>e. 0 \<le> Compare (opt_comparator options) (fst e) k) es))))"
      by (intro exI [of _ t] exI [of _ hs]) simp
  qed
qed

theorem table_lookup_witness:
  "\<exists>r t. TableBuilder_Finish None WritableFileImpl_ops example_builder = Some (OK, r) \<and>
     Table_Open example_env example_options (tb_file r) (TableBuilder_FileSize r) 0 = Some (OK, Some t) \<and>
     Table_InternalGet example_env ReadOptions_new None t (cstr ''b'') = Some (OK, Some (cstr ''b'', cstr ''2''))"
proof -
  note ok = example_table_ok
  have fp: "\<forall>p. opt_filter_policy example_options = Some p \<longrightarrow> filter_policy p"
    using bloom.filter_policy_axioms by (auto simp: example_options_def)
  have mem: "(cstr ''b'', cstr ''2'') \<in> set example_table" by (simp add: example_table_def)
  from table_lookup [OF example_writer ok fp] obtain r where
    r: "TableBuilder_Finish None WritableFileImpl_ops example_builder = Some (OK, r)"
      "\<And>g cid. fs_ok g \<Longrightarrow> fs_contents g = fs_contents (tb_file r) \<Longrightarrow>
        \<exists>t hs. Table_Open example_env example_options g (TableBuilder_FileSize r) cid = Some (OK, Some t) \<and>
          (\<forall>ro cache. cache_agrees example_env t cache hs \<longrightarrow>
            (\<forall>k v. (k, v) \<in> set example_table \<longrightarrow> Table_InternalGet example_env ro cache t k = Some (OK, Some (k, v))) \<and>
            (\<forall>k. True \<longrightarrow> (\<exists>e. Table_InternalGet example_env ro cache t k = Some (OK, e) \<and>
              (e = None \<or> e = List.find (\<lambda>e. 0 \<le> Compare (opt_comparator example_options) (fst e) k) example_table))))"
    by (elim exE conjE) (rule that, assumption, blast)
  have "fs_ok (tb_file r)" using built_file_ok [OF example_writer ok(1-5) r(1)] .
  from r(2) [OF this refl, of 0] obtain t hs where
    t: "Table_Open example_env example_options (tb_file r) (TableBuilder_FileSize r) 0 = Some (OK, Some t)"
      "\<And>ro cache. cache_agrees example_env t cache hs \<Longrightarrow>
        \<forall>k v. (k, v) \<in> set example_table \<longrightarrow> Table_InternalGet example_env ro cache t k = Some (OK, Some (k, v))" by blast
  have "cache_agrees example_env t None hs" by (simp add: cache_agrees_def)
  from t(2) [OF this] mem r(1) t(1) show ?thesis by blast
qed

end
