(* ===== verification/Db_Iter.thy ===== *)
theory Db_Iter
  imports Merger Sorted_Runs Memtable Random_Gen
begin

text \<open>
  \<open>db/db_iter.cc\<close>: the iterator of a database. It runs over an iterator of internal keys and
  shows, of every user key, the newest entry that its sequence number can see, unless that is
  a deletion. The read samples that \<open>ParseKey\<close> sends to the database are the list
  \<open>di_samples\<close>. A loop that does not return is \<open>None\<close>.
\<close>

section \<open>Operations\<close>

definition kReadBytesPeriod :: u32 where
  "kReadBytesPeriod = 1048576"

record 's DBIter =
  di_iter :: 's
  di_status :: Status
  di_saved_key :: bytes
  di_saved_value :: bytes
  di_direction :: Direction
  di_valid :: bool
  di_rnd :: u32
  di_bytes_counter :: int
  di_samples :: "bytes list"

definition RandomPeriod :: "'s DBIter \<Rightarrow> int \<times> 's DBIter" where
  "RandomPeriod di =
     (case Uniform (2 * kReadBytesPeriod) (di_rnd di) of (r, seed) \<Rightarrow> (uint r, di\<lparr> di_rnd := seed \<rparr>))"

definition NewDBIterator :: "'s \<Rightarrow> u32 \<Rightarrow> 's DBIter" where
  "NewDBIterator iter seed =
     (case RandomPeriod
        \<lparr> di_iter = iter, di_status = OK, di_saved_key = [], di_saved_value = [],
          di_direction = kForward, di_valid = False, di_rnd = Random_new seed,
          di_bytes_counter = 0, di_samples = [] \<rparr> of
        (p, di) \<Rightarrow> di\<lparr> di_bytes_counter := p \<rparr>)"

definition DBIter_key :: "'s Iterator \<Rightarrow> 's DBIter \<Rightarrow> bytes" where
  "DBIter_key ops di =
     (if di_direction di = kForward then ExtractUserKey (it_key ops (di_iter di)) else di_saved_key di)"

definition DBIter_value :: "'s Iterator \<Rightarrow> 's DBIter \<Rightarrow> bytes" where
  "DBIter_value ops di =
     (if di_direction di = kForward then it_value ops (di_iter di) else di_saved_value di)"

definition DBIter_status :: "'s Iterator \<Rightarrow> 's DBIter \<Rightarrow> Status" where
  "DBIter_status ops di =
     (if Status_ok (di_status di) then it_status ops (di_iter di) else di_status di)"

definition ClearSavedValue :: "'s DBIter \<Rightarrow> 's DBIter" where
  "ClearSavedValue di = di\<lparr> di_saved_value := [] \<rparr>"

partial_function (option) sample_loop :: "bytes \<Rightarrow> 's DBIter \<Rightarrow> 's DBIter option" where
  "sample_loop k di =
     (if di_bytes_counter di < 0 then
        (case RandomPeriod di of
           (r, di) \<Rightarrow> sample_loop k (di\<lparr> di_bytes_counter := di_bytes_counter di + r,
                                        di_samples := di_samples di @ [k] \<rparr>))
      else Some di)"

definition ParseKey ::
  "'s Iterator \<Rightarrow> 's DBIter \<Rightarrow> (ParsedInternalKey option \<times> 's DBIter) option" where
  "ParseKey ops di =
     (let k = it_key ops (di_iter di);
          n = int (length k + length (it_value ops (di_iter di)))
      in case sample_loop k (di\<lparr> di_bytes_counter := di_bytes_counter di - n \<rparr>) of
           None \<Rightarrow> None
         | Some di \<Rightarrow>
             (case ParseInternalKey k of
                None \<Rightarrow> Some (None, di\<lparr> di_status := Corruption (cstr ''corrupted internal key in DBIter'') [] \<rparr>)
              | Some ikey \<Rightarrow> Some (Some ikey, di)))"

text \<open>
  One round of \<open>FindNextUserEntry\<close> on the parsed key: whether the entry is the one to show,
  and the new \<open>skipping\<close>. Every caller passes \<open>saved_key_\<close> for \<open>skip\<close>.
\<close>

definition next_round ::
  "Comparator \<Rightarrow> u64 \<Rightarrow> bool \<Rightarrow> ParsedInternalKey option \<Rightarrow> 's DBIter \<Rightarrow> bool \<times> bool \<times> 's DBIter" where
  "next_round user_comparator sequence skipping ikey di =
     (case ikey of
        None \<Rightarrow> (False, skipping, di)
      | Some k \<Rightarrow>
          if pk_sequence k \<le> sequence then
            (case pk_type k of
               kTypeDeletion \<Rightarrow> (False, True, di\<lparr> di_saved_key := pk_user_key k \<rparr>)
             | kTypeValue \<Rightarrow>
                 if skipping \<and> Compare user_comparator (pk_user_key k) (di_saved_key di) \<le> 0
                 then (False, skipping, di)
                 else (True, skipping, di\<lparr> di_valid := True, di_saved_key := [] \<rparr>))
          else (False, skipping, di))"

partial_function (option) FindNextUserEntry ::
  "'s Iterator \<Rightarrow> Comparator \<Rightarrow> u64 \<Rightarrow> bool \<Rightarrow> 's DBIter \<Rightarrow> 's DBIter option" where
  "FindNextUserEntry ops user_comparator sequence skipping di =
     Option.bind (ParseKey ops di) (\<lambda>(ikey, di).
       case next_round user_comparator sequence skipping ikey di of
         (found, skipping, di) \<Rightarrow>
           if found then Some di
           else Option.bind (it_Next ops (di_iter di)) (\<lambda>iter.
             let di = di\<lparr> di_iter := iter \<rparr> in
             if it_Valid ops iter then FindNextUserEntry ops user_comparator sequence skipping di
             else Some (di\<lparr> di_saved_key := [], di_valid := False \<rparr>)))"

definition DBIter_Next ::
  "'s Iterator \<Rightarrow> Comparator \<Rightarrow> u64 \<Rightarrow> 's DBIter \<Rightarrow> 's DBIter option" where
  "DBIter_Next ops user_comparator sequence di =
     (if di_direction di = kReverse then
        (let di = di\<lparr> di_direction := kForward \<rparr> in
         Option.bind (if \<not> it_Valid ops (di_iter di) then it_SeekToFirst ops (di_iter di)
                      else it_Next ops (di_iter di)) (\<lambda>iter.
           let di = di\<lparr> di_iter := iter \<rparr> in
           if \<not> it_Valid ops iter then Some (di\<lparr> di_valid := False, di_saved_key := [] \<rparr>)
           else FindNextUserEntry ops user_comparator sequence True di))
      else FindNextUserEntry ops user_comparator sequence True
             (di\<lparr> di_saved_key := ExtractUserKey (it_key ops (di_iter di)) \<rparr>))"

text \<open>
  One round of \<open>FindPrevUserEntry\<close> on the parsed key: whether the loop breaks, and the new
  \<open>value_type\<close>.
\<close>

definition prev_round ::
  "'s Iterator \<Rightarrow> Comparator \<Rightarrow> u64 \<Rightarrow> ValueType \<Rightarrow> ParsedInternalKey option \<Rightarrow> 's DBIter \<Rightarrow>
     bool \<times> ValueType \<times> 's DBIter" where
  "prev_round ops user_comparator sequence value_type ikey di =
     (case ikey of
        None \<Rightarrow> (False, value_type, di)
      | Some k \<Rightarrow>
          if pk_sequence k \<le> sequence then
            if value_type \<noteq> kTypeDeletion \<and> Compare user_comparator (pk_user_key k) (di_saved_key di) < 0
            then (True, value_type, di)
            else
              (case pk_type k of
                 kTypeDeletion \<Rightarrow> (False, kTypeDeletion, ClearSavedValue (di\<lparr> di_saved_key := [] \<rparr>))
               | kTypeValue \<Rightarrow>
                   (False, kTypeValue,
                    di\<lparr> di_saved_key := ExtractUserKey (it_key ops (di_iter di)),
                        di_saved_value := it_value ops (di_iter di) \<rparr>))
          else (False, value_type, di))"

partial_function (option) prev_loop ::
  "'s Iterator \<Rightarrow> Comparator \<Rightarrow> u64 \<Rightarrow> ValueType \<Rightarrow> 's DBIter \<Rightarrow> (ValueType \<times> 's DBIter) option" where
  "prev_loop ops user_comparator sequence value_type di =
     Option.bind (ParseKey ops di) (\<lambda>(ikey, di).
       case prev_round ops user_comparator sequence value_type ikey di of
         (stop, value_type, di) \<Rightarrow>
           if stop then Some (value_type, di)
           else Option.bind (it_Prev ops (di_iter di)) (\<lambda>iter.
             let di = di\<lparr> di_iter := iter \<rparr> in
             if it_Valid ops iter then prev_loop ops user_comparator sequence value_type di
             else Some (value_type, di)))"

definition FindPrevUserEntry ::
  "'s Iterator \<Rightarrow> Comparator \<Rightarrow> u64 \<Rightarrow> 's DBIter \<Rightarrow> 's DBIter option" where
  "FindPrevUserEntry ops user_comparator sequence di =
     Option.bind
       (if it_Valid ops (di_iter di) then prev_loop ops user_comparator sequence kTypeDeletion di
        else Some (kTypeDeletion, di)) (\<lambda>(value_type, di).
       if value_type = kTypeDeletion
       then Some ((ClearSavedValue (di\<lparr> di_valid := False, di_saved_key := [] \<rparr>))\<lparr> di_direction := kForward \<rparr>)
       else Some (di\<lparr> di_valid := True \<rparr>))"

text \<open>The scan of \<open>Prev\<close> back to an earlier user key; \<open>False\<close> if it reaches the front.\<close>

partial_function (option) prev_key_loop ::
  "'s Iterator \<Rightarrow> Comparator \<Rightarrow> 's DBIter \<Rightarrow> (bool \<times> 's DBIter) option" where
  "prev_key_loop ops user_comparator di =
     Option.bind (it_Prev ops (di_iter di)) (\<lambda>iter.
       let di = di\<lparr> di_iter := iter \<rparr> in
       if \<not> it_Valid ops iter
       then Some (False, ClearSavedValue (di\<lparr> di_valid := False, di_saved_key := [] \<rparr>))
       else if Compare user_comparator (ExtractUserKey (it_key ops iter)) (di_saved_key di) < 0
       then Some (True, di)
       else prev_key_loop ops user_comparator di)"

definition DBIter_Prev ::
  "'s Iterator \<Rightarrow> Comparator \<Rightarrow> u64 \<Rightarrow> 's DBIter \<Rightarrow> 's DBIter option" where
  "DBIter_Prev ops user_comparator sequence di =
     (if di_direction di = kForward then
        Option.bind (prev_key_loop ops user_comparator
            (di\<lparr> di_saved_key := ExtractUserKey (it_key ops (di_iter di)) \<rparr>)) (\<lambda>(earlier, di).
          if earlier then FindPrevUserEntry ops user_comparator sequence (di\<lparr> di_direction := kReverse \<rparr>)
          else Some di)
      else FindPrevUserEntry ops user_comparator sequence di)"

definition DBIter_Seek ::
  "'s Iterator \<Rightarrow> Comparator \<Rightarrow> u64 \<Rightarrow> bytes \<Rightarrow> 's DBIter \<Rightarrow> 's DBIter option" where
  "DBIter_Seek ops user_comparator sequence target di =
     (let di = (ClearSavedValue (di\<lparr> di_direction := kForward \<rparr>))
            \<lparr> di_saved_key := AppendInternalKey []
                \<lparr> pk_user_key = target, pk_sequence = sequence, pk_type = kValueTypeForSeek \<rparr> \<rparr>
      in Option.bind (it_Seek ops (di_saved_key di) (di_iter di)) (\<lambda>iter.
           let di = di\<lparr> di_iter := iter \<rparr> in
           if it_Valid ops iter then FindNextUserEntry ops user_comparator sequence False di
           else Some (di\<lparr> di_valid := False \<rparr>)))"

definition DBIter_SeekToFirst ::
  "'s Iterator \<Rightarrow> Comparator \<Rightarrow> u64 \<Rightarrow> 's DBIter \<Rightarrow> 's DBIter option" where
  "DBIter_SeekToFirst ops user_comparator sequence di =
     (let di = ClearSavedValue (di\<lparr> di_direction := kForward \<rparr>)
      in Option.bind (it_SeekToFirst ops (di_iter di)) (\<lambda>iter.
           let di = di\<lparr> di_iter := iter \<rparr> in
           if it_Valid ops iter then FindNextUserEntry ops user_comparator sequence False di
           else Some (di\<lparr> di_valid := False \<rparr>)))"

definition DBIter_SeekToLast ::
  "'s Iterator \<Rightarrow> Comparator \<Rightarrow> u64 \<Rightarrow> 's DBIter \<Rightarrow> 's DBIter option" where
  "DBIter_SeekToLast ops user_comparator sequence di =
     Option.bind (it_SeekToLast ops (di_iter di)) (\<lambda>iter.
       FindPrevUserEntry ops user_comparator sequence
         ((ClearSavedValue (di\<lparr> di_direction := kReverse \<rparr>))\<lparr> di_iter := iter \<rparr>))"

definition DBIter_ops :: "'s Iterator \<Rightarrow> Comparator \<Rightarrow> u64 \<Rightarrow> 's DBIter Iterator" where
  "DBIter_ops ops user_comparator sequence =
     \<lparr> it_Valid = di_valid,
       it_SeekToFirst = DBIter_SeekToFirst ops user_comparator sequence,
       it_SeekToLast = DBIter_SeekToLast ops user_comparator sequence,
       it_Seek = DBIter_Seek ops user_comparator sequence,
       it_Next = DBIter_Next ops user_comparator sequence,
       it_Prev = DBIter_Prev ops user_comparator sequence,
       it_key = DBIter_key ops,
       it_value = DBIter_value ops,
       it_status = DBIter_status ops \<rparr>"

section \<open>What the iterator shows\<close>

definition entry_key :: "entry \<Rightarrow> ParsedInternalKey" where
  "entry_key e = the (ParseInternalKey (fst e))"

definition sees :: "u64 \<Rightarrow> entry \<Rightarrow> bool" where
  "sees q e \<longleftrightarrow> pk_sequence (entry_key e) \<le> q"

text \<open>Entry \<open>i\<close> is shown: a visible value with no visible entry of its user key before it.\<close>

definition shown :: "u64 \<Rightarrow> entry list \<Rightarrow> nat \<Rightarrow> bool" where
  "shown q es i \<longleftrightarrow> sees q (es ! i) \<and> pk_type (entry_key (es ! i)) = kTypeValue \<and>
     (\<forall>j < i. pk_user_key (entry_key (es ! j)) = pk_user_key (entry_key (es ! i)) \<longrightarrow> \<not> sees q (es ! j))"

definition user_view :: "u64 \<Rightarrow> entry list \<Rightarrow> entry list" where
  "user_view q es =
     map (\<lambda>i. (pk_user_key (entry_key (es ! i)), snd (es ! i))) (filter (shown q es) [0..<length es])"

definition view_pos :: "u64 \<Rightarrow> entry list \<Rightarrow> nat \<Rightarrow> nat" where
  "view_pos q es i = length (filter (shown q es) [0..<i])"

lemma view_pos_0 [simp]: "view_pos q es 0 = 0"
  by (simp add: view_pos_def)

lemma view_pos_Suc: "view_pos q es (Suc i) = view_pos q es i + (if shown q es i then 1 else 0)"
  by (simp add: view_pos_def)

lemma view_pos_same:
  assumes "\<forall>j. a \<le> j \<and> j < b \<longrightarrow> \<not> shown q es j" "a \<le> b"
  shows "view_pos q es a = view_pos q es b"
proof -
  have "[0..<b] = [0..<a] @ [a..<b]" using assms(2) upt_add_eq_append [of 0 a "b - a"] by simp
  moreover have "filter (shown q es) [a..<b] = []" using assms(1) by (simp add: filter_empty_conv)
  ultimately show ?thesis by (simp add: view_pos_def)
qed

lemma view_pos_length [simp]: "view_pos q es (length es) = length (user_view q es)"
  by (simp add: view_pos_def user_view_def)

lemma view_pos_nth:
  assumes "shown q es i" "i < length es"
  shows "view_pos q es i < length (user_view q es)"
    and "user_view q es ! view_pos q es i = (pk_user_key (entry_key (es ! i)), snd (es ! i))"
proof -
  have "[0..<length es] = [0..<i] @ i # [Suc i..<length es]"
    using assms(2) upt_add_eq_append [of 0 i "length es - i"] upt_conv_Cons [of i "length es"] by simp
  then have "filter (shown q es) [0..<length es] =
      filter (shown q es) [0..<i] @ i # filter (shown q es) [Suc i..<length es]" using assms(1) by simp
  then show "view_pos q es i < length (user_view q es)"
    "user_view q es ! view_pos q es i = (pk_user_key (entry_key (es ! i)), snd (es ! i))"
    by (simp_all add: view_pos_def user_view_def nth_append)
qed

text \<open>A key that parses is the encoding of its parts.\<close>

lemma ParseInternalKey_SomeD:
  assumes "ParseInternalKey k = Some p"
  shows "k = InternalKey (pk_user_key p) (pk_sequence p) (pk_type p)" "pk_sequence p \<le> kMaxSequenceNumber"
proof -
  let ?n = "length k - 8" and ?num = "DecodeFixed64 (drop (length k - 8) k)"
  have l: "8 \<le> length k" and p: "pk_user_key p = take ?n k" "pk_sequence p = drop_bit 8 ?num"
    and t: "ValueType_of (ucast (?num AND 0xff)) = Some (pk_type p)"
    using assms by (auto simp: ParseInternalKey_def Let_def split: if_splits option.splits)
  have "ucast (?num AND 0xff) = ValueType_val (pk_type p)"
    using t by (auto simp: ValueType_of_def split: if_splits)
  then have "(ucast (ucast (?num AND 0xff) :: byte) :: u64) = ucast (ValueType_val (pk_type p))" by simp
  then have low: "?num AND 0xff = ucast (ValueType_val (pk_type p))" by (simp add: ucast_ucast_AND_byte AND_255)
  have "PackSequenceAndType (pk_sequence p) (pk_type p) = ?num"
    unfolding PackSequenceAndType_def low [symmetric] p(2) using push_bit_split [of 0 8 ?num] by (simp add: AND_255 or.commute)
  then show "k = InternalKey (pk_user_key p) (pk_sequence p) (pk_type p)"
    using l p(1) by (simp add: InternalKey_def AppendInternalKey_def PutFixed64_def EncodeFixed64_DecodeFixed64)
  have "unat (pk_sequence p) < 2 ^ 56"
    using unat_u64_less [of ?num] unfolding p(2) unat_drop_bit_eq by (simp add: drop_bit_eq_div less_mult_imp_div_less)
  then show "pk_sequence p \<le> kMaxSequenceNumber" by (simp add: word_le_nat_alt unat_kMaxSequenceNumber)
qed

section \<open>Read samples\<close>

text \<open>
  A period of 0 is followed by a positive one: a multiple \<open>m * 2^21\<close> of the modulus of \<open>Uniform\<close>
  steps to \<open>16807 * m div 1024 + (16807 * m mod 1024) * 2^21\<close>, which is not a multiple.
\<close>

lemma period_positive:
  assumes "good_seed seed" "unat seed mod 2097152 = 0"
  shows "unat (fst (Random_Next seed)) mod 2097152 \<noteq> 0"
proof -
  define m where "m = unat seed div 2097152"
  have s: "unat seed = 2097152 * m" using assms(2) mult_div_mod_eq [of 2097152 "unat seed"] unfolding m_def by linarith
  have m: "0 < m" "m < 1024" using assms(1) s by (auto simp: good_seed_def)
  define a b where "a = 16807 * m div 1024" and "b = 16807 * m mod 1024"
  have ab: "16807 * m = 1024 * a + b" "b < 1024" by (simp_all add: a_def b_def)
  have a: "0 < a" "a < 16807" using m by (auto simp: a_def div_greater_zero_iff less_mult_imp_div_less)
  have "unat seed * 16807 = 2147483647 * a + (a + 2097152 * b)"
    using ab(1) unfolding s by (simp add: algebra_simps)
  then have "unat seed * 16807 mod 2147483647 = (a + 2097152 * b) mod 2147483647" by (simp only: mod_mult_self4)
  moreover have "a + 2097152 * b < 2147483647" using a ab(2) by simp
  ultimately have "unat (fst (Random_Next seed)) = a + 2097152 * b" using Random_Next_eq [OF assms(1)] by (metis mod_less)
  then show ?thesis using a by (simp add: mod_mult_self4)
qed

definition resampled :: "'s DBIter \<Rightarrow> 's DBIter \<Rightarrow> bool" where
  "resampled di di' \<longleftrightarrow> good_seed (di_rnd di') \<and>
     (\<exists>r c s. di' = di\<lparr> di_rnd := r, di_bytes_counter := c, di_samples := s \<rparr>)"

definition sample_measure :: "'s DBIter \<Rightarrow> nat" where
  "sample_measure di = 2 * nat (- di_bytes_counter di) + (if unat (di_rnd di) mod 2097152 = 0 then 0 else 1)"

lemma sample_loop_step:
  assumes "good_seed (di_rnd di)" "di_bytes_counter di < 0"
  shows "\<exists>di'. sample_loop k di = sample_loop k di' \<and> resampled di di' \<and> sample_measure di' < sample_measure di"
proof -
  let ?r = "Random_Next (di_rnd di)"
  let ?d = "di\<lparr> di_rnd := snd ?r, di_bytes_counter := di_bytes_counter di + uint (fst ?r mod 2097152),
    di_samples := di_samples di @ [k] \<rparr>"
  have r: "fst ?r = snd ?r" "good_seed (snd ?r)" using Random_Next_eq [OF assms(1)] by auto
  have "sample_loop k di = sample_loop k ?d"
    using assms(2) by (subst sample_loop.simps) (simp add: RandomPeriod_def Uniform_def kReadBytesPeriod_def split_beta)
  moreover have "resampled di ?d" using r(2) by (auto simp: resampled_def)
  moreover have "uint (fst ?r mod 2097152) = int (unat (snd ?r) mod 2097152)"
    unfolding r(1) uint_nat unat_mod by simp
  then have "sample_measure ?d < sample_measure di"
    using assms(2) period_positive [OF assms(1)] by (auto simp: sample_measure_def r(1) intro: gr0I)
  ultimately show ?thesis by blast
qed

lemma resampled_trans: "resampled a b \<Longrightarrow> resampled b c \<Longrightarrow> resampled a c"
  by (fastforce simp: resampled_def)

lemma sample_loop_returns:
  assumes "good_seed (di_rnd di)"
  shows "\<exists>di'. sample_loop k di = Some di' \<and> resampled di di'"
  using assms
proof (induction "sample_measure di" arbitrary: di rule: less_induct)
  case less
  show ?case
  proof (cases "di_bytes_counter di < 0")
    case False
    then have "sample_loop k di = Some di" by (subst sample_loop.simps) simp
    moreover have "resampled di di"
      using less.prems unfolding resampled_def
      by (intro conjI exI [of _ "di_rnd di"] exI [of _ "di_bytes_counter di"] exI [of _ "di_samples di"]) simp_all
    ultimately show ?thesis by blast
  next
    case True
    from sample_loop_step [OF less.prems True, of k] obtain d where
      d: "sample_loop k di = sample_loop k d" "resampled di d" "sample_measure d < sample_measure di" by blast
    from d(2) have "good_seed (di_rnd d)" by (simp add: resampled_def)
    from less.hyps [OF d(3) this] d(1) resampled_trans [OF d(2)] show ?thesis by auto
  qed
qed

lemma same_saved_key: "\<exists>k. di = di\<lparr> di_saved_key := k \<rparr>"
  by (rule exI [of _ "di_saved_key di"]) simp

lemma same_saved: "\<exists>k v. di = di\<lparr> di_saved_key := k, di_saved_value := v \<rparr>"
  by (intro exI [of _ "di_saved_key di"] exI [of _ "di_saved_value di"]) simp

section \<open>The iterator over sorted internal keys\<close>

text \<open>What the iterator needs of the internal one: a sorted list of well-formed internal keys.\<close>

locale db_source =
  list_iterator ops "Compare (InternalKeyComparator ucmp)" ok I entries pos + users: internal_key_order ucmp uvalid
  for ops :: "'s Iterator" and ucmp :: Comparator and uvalid :: "bytes \<Rightarrow> bool" and ok :: "bytes \<Rightarrow> bool"
    and I :: "'s \<Rightarrow> bool" and entries :: "entry list" and pos :: "'s \<Rightarrow> nat" +
  fixes q :: u64
  assumes sorted: "sorted_entries (Compare (InternalKeyComparator ucmp)) entries"
    and parses: "e \<in> set entries \<Longrightarrow> \<exists>p. ParseInternalKey (fst e) = Some p \<and> uvalid (pk_user_key p)"
    and sequence_le: "q \<le> kMaxSequenceNumber"
begin

abbreviation "uk i \<equiv> pk_user_key (entry_key (entries ! i))"
abbreviation "seq i \<equiv> pk_sequence (entry_key (entries ! i))"
abbreviation "typ i \<equiv> pk_type (entry_key (entries ! i))"
abbreviation "vis i \<equiv> sees q (entries ! i)"
abbreviation "shows_at \<equiv> shown q entries"
abbreviation "view \<equiv> user_view q entries"
abbreviation "vpos \<equiv> view_pos q entries"

lemma entry_parse:
  assumes "i < length entries"
  shows "ParseInternalKey (fst (entries ! i)) = Some (entry_key (entries ! i))" "uvalid (uk i)"
    and "fst (entries ! i) = InternalKey (uk i) (seq i) (typ i)" "seq i \<le> kMaxSequenceNumber"
    and "ExtractUserKey (fst (entries ! i)) = uk i"
proof -
  from parses [of "entries ! i"] assms obtain p where
    p: "ParseInternalKey (fst (entries ! i)) = Some p" "uvalid (pk_user_key p)" by auto
  then show k: "ParseInternalKey (fst (entries ! i)) = Some (entry_key (entries ! i))" "uvalid (uk i)"
    by (simp_all add: entry_key_def)
  from ParseInternalKey_SomeD [OF k(1)]
  show "fst (entries ! i) = InternalKey (uk i) (seq i) (typ i)" "seq i \<le> kMaxSequenceNumber" by simp_all
  then show "ExtractUserKey (fst (entries ! i)) = uk i" by (metis InternalKey_simps(1))
qed

lemma key_less_iff:
  assumes "i < length entries" "uvalid u" "s \<le> kMaxSequenceNumber"
  shows "InternalKeyComparator_Compare ucmp (fst (entries ! i)) (InternalKey u s t) < 0 \<longleftrightarrow>
    Compare ucmp (uk i) u < 0 \<or> uk i = u \<and> (s < seq i \<or> s = seq i \<and> ValueType_val t < ValueType_val (typ i))"
  unfolding entry_parse(3) [OF assms(1)] InternalKeyComparator_Compare_def InternalKey_simps Let_def
  using users.compare_eq [OF entry_parse(2) [OF assms(1)] assms(2)]
    Pack_less_iff [OF assms(3) entry_parse(4) [OF assms(1)], of t "typ i"]
    Pack_less_iff [OF entry_parse(4) [OF assms(1)] assms(3), of "typ i" t] by auto

lemma keys_sorted:
  assumes "i < j" "j < length entries"
  shows "Compare ucmp (uk i) (uk j) \<le> 0" "uk i = uk j \<Longrightarrow> vis i \<Longrightarrow> vis j"
proof -
  have "InternalKeyComparator_Compare ucmp (fst (entries ! i)) (fst (entries ! j)) < 0"
    using sorted_wrt_nth_less [OF sorted [unfolded sorted_entries_def] assms] by simp
  then have l: "Compare ucmp (uk i) (uk j) < 0 \<or> uk i = uk j \<and> (seq j < seq i \<or> seq j = seq i)"
    using key_less_iff [of i "uk j" "seq j" "typ j"] assms entry_parse [OF assms(2)] by auto
  then show "Compare ucmp (uk i) (uk j) \<le> 0"
    using users.compare_refl [OF entry_parse(2) [OF assms(2)]] by auto
  show "vis j" if "uk i = uk j" "vis i"
    using l that users.compare_refl [OF entry_parse(2) [OF assms(2)]] by (auto simp: sees_def)
qed

lemma keys_le: "i \<le> j \<Longrightarrow> j < length entries \<Longrightarrow> Compare ucmp (uk i) (uk j) \<le> 0"
  using keys_sorted(1) [of i j] entry_parse(2) [of j] by (cases "i = j") auto

lemma keys_eqI:
  "i \<le> j \<Longrightarrow> j < length entries \<Longrightarrow> Compare ucmp (uk j) (uk i) \<le> 0 \<Longrightarrow> uk j = uk i"
  using keys_le [of i j] users.compare_le_iff [of "uk j" "uk i"] users.compare_swap [of "uk j" "uk i"]
    entry_parse(2) [of i] entry_parse(2) [of j] by auto

text \<open>
  The positions of the internal iterator: in the reverse direction it stands before the
  entries from \<open>bound\<close> on.
\<close>

definition "bound it = (if pos it < length entries then Suc (pos it) else 0)"

definition "base di \<longleftrightarrow> I (di_iter di) \<and> di_status di = OK \<and> good_seed (di_rnd di)"

definition "dinv di \<longleftrightarrow> base di \<and>
  (di_valid di \<longrightarrow>
    (if di_direction di = kForward then pos (di_iter di) < length entries \<and> shows_at (pos (di_iter di))
     else \<exists>c. bound (di_iter di) \<le> c \<and> c < length entries \<and> shows_at c \<and>
       (\<forall>j. bound (di_iter di) \<le> j \<and> j < c \<longrightarrow> \<not> vis j) \<and>
       di_saved_key di = uk c \<and> di_saved_value di = snd (entries ! c)))"

definition "dpos di = (if \<not> di_valid di then length view
  else if di_direction di = kForward then vpos (pos (di_iter di)) else vpos (bound (di_iter di)))"

lemma ParseKey_at:
  assumes "base di" "pos (di_iter di) < length entries"
  shows "\<exists>di'. ParseKey ops di = Some (Some (entry_key (entries ! pos (di_iter di))), di') \<and> resampled di di'"
proof -
  let ?k = "it_key ops (di_iter di)"
  let ?d = "di\<lparr> di_bytes_counter := di_bytes_counter di - int (length ?k + length (it_value ops (di_iter di))) \<rparr>"
  have k: "?k = fst (entries ! pos (di_iter di))" using key assms by (simp add: base_def)
  from sample_loop_returns [of ?d ?k] assms(1) obtain di' where
    d: "sample_loop ?k ?d = Some di'" "resampled ?d di'" by (auto simp: base_def)
  from d(2) have "resampled di di'" by (auto simp: resampled_def)
  with d(1) entry_parse(1) [OF assms(2)] show ?thesis unfolding ParseKey_def Let_def d(1) k by simp
qed

lemma shown_vis: "shows_at i \<Longrightarrow> vis i"
  by (simp add: shown_def)

text \<open>
  What the forward loop keeps at position \<open>p\<close> on its way to the first entry from \<open>f\<close> on that is
  shown: an entry ahead is skipped iff it is before \<open>f\<close> or has a visible entry of its key behind.
\<close>

definition "next_ok f p skipping skip \<longleftrightarrow>
  (\<forall>j. f \<le> j \<and> j < p \<longrightarrow> \<not> shows_at j) \<and>
  (\<forall>j. p \<le> j \<and> j < f \<and> j < length entries \<and> vis j \<longrightarrow> typ j = kTypeValue) \<and>
  (\<forall>j. p \<le> j \<and> j < length entries \<and> vis j \<longrightarrow>
    ((skipping \<and> Compare ucmp (uk j) skip \<le> 0) \<longleftrightarrow> j < f \<or> (\<exists>k < max p f. vis k \<and> uk k = uk j)))"

lemma next_okD:
  assumes "next_ok f p skipping skip"
  shows "f \<le> j \<Longrightarrow> j < p \<Longrightarrow> \<not> shows_at j"
    and "p \<le> j \<Longrightarrow> j < f \<Longrightarrow> j < length entries \<Longrightarrow> vis j \<Longrightarrow> typ j = kTypeValue"
    and "p \<le> j \<Longrightarrow> j < length entries \<Longrightarrow> vis j \<Longrightarrow>
      (skipping \<and> Compare ucmp (uk j) skip \<le> 0) \<longleftrightarrow> j < f \<or> (\<exists>k < max p f. vis k \<and> uk k = uk j)"
  using assms unfolding next_ok_def by blast+

lemma next_okI:
  assumes "\<And>j. f \<le> j \<Longrightarrow> j < p \<Longrightarrow> \<not> shows_at j"
    and "\<And>j. p \<le> j \<Longrightarrow> j < f \<Longrightarrow> j < length entries \<Longrightarrow> vis j \<Longrightarrow> typ j = kTypeValue"
    and "\<And>j. p \<le> j \<Longrightarrow> j < length entries \<Longrightarrow> vis j \<Longrightarrow>
      (skipping \<and> Compare ucmp (uk j) skip \<le> 0) \<longleftrightarrow> j < f \<or> (\<exists>k < max p f. vis k \<and> uk k = uk j)"
  shows "next_ok f p skipping skip"
  using assms unfolding next_ok_def by blast

lemma next_ok_hidden:
  assumes "next_ok f p skipping skip" "p < length entries" "vis p \<Longrightarrow> skipping \<and> Compare ucmp (uk p) skip \<le> 0"
  shows "next_ok f (Suc p) skipping skip"
proof (rule next_okI)
  note n = next_okD [OF assms(1)]
  fix j
  show "\<not> shows_at j" if "f \<le> j" "j < Suc p"
  proof (cases "j = p")
    case True
    show ?thesis
    proof
      assume s: "shows_at j"
      then have v: "vis p" using True by (simp add: shown_vis)
      with n(3) [of p] assms(2,3) have "p < f \<or> (\<exists>k < max p f. vis k \<and> uk k = uk p)" by simp
      with that True s show False by (auto simp: shown_def max_def)
    qed
  qed (use n(1) that in simp)
  show "typ j = kTypeValue" if "Suc p \<le> j" "j < f" "j < length entries" "vis j" using n(2) that by simp
  assume j: "Suc p \<le> j" "j < length entries" "vis j"
  then have "(skipping \<and> Compare ucmp (uk j) skip \<le> 0) \<longleftrightarrow> j < f \<or> (\<exists>k < max p f. vis k \<and> uk k = uk j)"
    using n(3) [of j] by simp
  moreover have "k < max (Suc p) f \<longleftrightarrow> k < max p f \<or> k = p" for k by auto
  then have "(\<exists>k < max (Suc p) f. vis k \<and> uk k = uk j) \<longleftrightarrow>
      (\<exists>k < max p f. vis k \<and> uk k = uk j) \<or> vis p \<and> uk p = uk j" by blast
  moreover have "skipping \<and> Compare ucmp (uk j) skip \<le> 0" if "vis p" "uk p = uk j" using assms(3) that by simp
  ultimately show "(skipping \<and> Compare ucmp (uk j) skip \<le> 0) \<longleftrightarrow> j < f \<or> (\<exists>k < max (Suc p) f. vis k \<and> uk k = uk j)"
    by blast
qed

lemma next_ok_deletion:
  assumes "next_ok f p skipping skip" "p < length entries" "vis p" "typ p = kTypeDeletion"
  shows "next_ok f (Suc p) True (uk p)"
proof (rule next_okI)
  note n = next_okD [OF assms(1)]
  have f: "f \<le> p" using n(2) [of p] assms(2-4) by (cases "p < f") auto
  have s: "\<not> shows_at p" using assms(4) by (simp add: shown_def)
  fix j
  show "\<not> shows_at j" if "f \<le> j" "j < Suc p" using n(1) [of j] s that by (cases "j = p") auto
  show "typ j = kTypeValue" if "Suc p \<le> j" "j < f" using f that by simp
  assume j: "Suc p \<le> j" "j < length entries" "vis j"
  have "Compare ucmp (uk j) (uk p) \<le> 0 \<longleftrightarrow> (\<exists>k < Suc p. vis k \<and> uk k = uk j)"
  proof
    assume "Compare ucmp (uk j) (uk p) \<le> 0"
    then have "uk j = uk p" using keys_eqI [of p j] j by simp
    with assms(3) show "\<exists>k < Suc p. vis k \<and> uk k = uk j" by auto
  next
    assume "\<exists>k < Suc p. vis k \<and> uk k = uk j"
    then obtain k where "k < Suc p" "uk k = uk j" by blast
    with keys_le [of k p] assms(2) show "Compare ucmp (uk j) (uk p) \<le> 0" by simp
  qed
  then show "(True \<and> Compare ucmp (uk j) (uk p) \<le> 0) \<longleftrightarrow> j < f \<or> (\<exists>k < max (Suc p) f. vis k \<and> uk k = uk j)"
    using f j by (simp add: max_def)
qed

lemma next_ok_found:
  assumes "next_ok f p skipping skip" "p < length entries" "vis p" "typ p = kTypeValue"
    and "\<not> (skipping \<and> Compare ucmp (uk p) skip \<le> 0)"
  shows "shows_at p" "vpos p = vpos f"
proof -
  have "\<not> (p < f \<or> (\<exists>k < max p f. vis k \<and> uk k = uk p))"
    using next_okD(3) [OF assms(1), of p] assms(2,3,5) by simp
  then have f: "f \<le> p" "\<not> (\<exists>k < p. vis k \<and> uk k = uk p)" by (auto simp: max_def)
  then show "shows_at p" using assms(3,4) by (auto simp: shown_def)
  show "vpos p = vpos f" using view_pos_same [of f p q entries] next_okD(1) [OF assms(1)] f(1) by simp
qed

lemma next_round_ok:
  assumes "next_ok f p skipping (di_saved_key di)" "p < length entries"
    and "next_round ucmp q skipping (Some (entry_key (entries ! p))) di = (found, skipping', di')"
  shows "if found then shows_at p \<and> vpos p = vpos f \<and> di' = di\<lparr> di_valid := True, di_saved_key := [] \<rparr>
    else next_ok f (Suc p) skipping' (di_saved_key di') \<and> (\<exists>k. di' = di\<lparr> di_saved_key := k \<rparr>)"
proof (cases "vis p")
  case False
  then have "(found, skipping', di') = (False, skipping, di)" using assms(3) by (simp add: next_round_def sees_def)
  then show ?thesis using next_ok_hidden [OF assms(1,2)] False by (auto simp: same_saved_key)
next
  case True
  then have v: "seq p \<le> q" by (simp add: sees_def)
  show ?thesis
  proof (cases "typ p")
    case kTypeDeletion
    then show ?thesis using assms(3) v next_ok_deletion [OF assms(1,2) True] by (auto simp: next_round_def)
  next
    case kTypeValue
    show ?thesis
    proof (cases "skipping \<and> Compare ucmp (uk p) (di_saved_key di) \<le> 0")
      case h: True
      then have "(found, skipping', di') = (False, skipping, di)" using assms(3) v kTypeValue by (simp add: next_round_def)
      then show ?thesis using next_ok_hidden [OF assms(1,2)] h by (auto simp: same_saved_key)
    next
      case h: False
      then have "(found, skipping', di') = (True, skipping, di\<lparr> di_valid := True, di_saved_key := [] \<rparr>)"
        using assms(3) v kTypeValue by (auto simp: next_round_def)
      then show ?thesis using next_ok_found [OF assms(1,2) True kTypeValue h] by simp
    qed
  qed
qed

lemma FindNextUserEntry_ok:
  assumes "base di" "di_direction di = kForward" "pos (di_iter di) < length entries"
    and "next_ok f (pos (di_iter di)) skipping (di_saved_key di)" "f \<le> length entries"
  shows "\<exists>di'. FindNextUserEntry ops ucmp q skipping di = Some di' \<and> dinv di' \<and> dpos di' = vpos f"
  using assms
proof (induction "length entries - pos (di_iter di)" arbitrary: di skipping rule: less_induct)
  case less
  let ?p = "pos (di_iter di)"
  from ParseKey_at [OF less.prems(1,3)] obtain d where
    d: "ParseKey ops di = Some (Some (entry_key (entries ! ?p)), d)" "resampled di d" by blast
  obtain r c s where dr: "d = di\<lparr> di_rnd := r, di_bytes_counter := c, di_samples := s \<rparr>" "good_seed r"
    using d(2) by (auto simp: resampled_def)
  obtain found sk d' where e: "next_round ucmp q skipping (Some (entry_key (entries ! ?p))) d = (found, sk, d')"
    by (cases "next_round ucmp q skipping (Some (entry_key (entries ! ?p))) d") auto
  have n: "next_ok f ?p skipping (di_saved_key d)" using less.prems(4) dr(1) by simp
  note ro = next_round_ok [OF n less.prems(3) e]
  note unf = FindNextUserEntry.simps [of ops ucmp q skipping di, unfolded d(1)]
  show ?case
  proof (cases found)
    case True
    with ro have "shows_at ?p" "vpos ?p = vpos f" "d' = d\<lparr> di_valid := True, di_saved_key := [] \<rparr>" by auto
    with True less.prems dr e show ?thesis by (auto simp: unf dinv_def base_def dpos_def)
  next
    case False
    with ro obtain k where nx: "next_ok f (Suc ?p) sk (di_saved_key d')" and k: "d' = d\<lparr> di_saved_key := k \<rparr>" by auto
    have I: "I (di_iter di)" using less.prems(1) by (simp add: base_def)
    from next_pos [OF I less.prems(3)] obtain it where
      it: "it_Next ops (di_iter di) = Some it" "I it" "pos it = Suc ?p" by blast
    have b: "base (d'\<lparr> di_iter := it \<rparr>)" using less.prems(1) it(2) dr k by (simp add: base_def)
    show ?thesis
    proof (cases "Suc ?p < length entries")
      case True
      then have v: "it_Valid ops it" using valid_iff [OF it(2)] it(3) by simp
      have "\<exists>di'. FindNextUserEntry ops ucmp q sk (d'\<lparr> di_iter := it \<rparr>) = Some di' \<and> dinv di' \<and> dpos di' = vpos f"
      proof (rule less.hyps)
        show "next_ok f (pos (di_iter (d'\<lparr> di_iter := it \<rparr>))) sk (di_saved_key (d'\<lparr> di_iter := it \<rparr>))"
          using nx it(3) by simp
      qed (use b True less.prems(2,5) it(3) k dr(1) in simp_all)
      with v e False it(1) k dr(1) show ?thesis by (simp add: unf)
    next
      case stop: False
      then have v: "\<not> it_Valid ops it" using valid_iff [OF it(2)] it(3) by simp
      have "vpos f = vpos (length entries)"
        using view_pos_same [of f "length entries" q entries] next_okD(1) [OF nx] less.prems(3,5) stop by simp
      with v e False it(1) k dr(1) b show ?thesis by (simp add: unf dinv_def dpos_def base_def)
    qed
  qed
qed

text \<open>
  What the backward loop keeps when it has examined the entries from \<open>b\<close> up to \<open>R\<close>: nothing there
  is shown but perhaps the first visible one, which is saved if it is a value.
\<close>

definition "prev_ok R b t di \<longleftrightarrow>
  (if t = kTypeDeletion then \<forall>j. b \<le> j \<and> j < R \<longrightarrow> \<not> shows_at j
   else \<exists>m. b \<le> m \<and> m < R \<and> vis m \<and> typ m = kTypeValue \<and>
     di_saved_key di = uk m \<and> di_saved_value di = snd (entries ! m) \<and>
     (\<forall>j. b \<le> j \<and> j < m \<longrightarrow> \<not> vis j) \<and> (\<forall>j. m < j \<and> j < R \<longrightarrow> \<not> shows_at j))"

lemma prev_ok_hidden:
  assumes "prev_ok R (Suc p) t di" "\<not> vis p"
  shows "prev_ok R p t di"
proof (cases t)
  case kTypeDeletion
  then have "\<not> shows_at j" if "p \<le> j" "j < R" for j
    using assms shown_vis [of p] that unfolding prev_ok_def by (cases "j = p") auto
  with kTypeDeletion show ?thesis by (simp add: prev_ok_def)
next
  case kTypeValue
  then obtain m where m: "Suc p \<le> m" "m < R" "vis m" "typ m = kTypeValue"
      "di_saved_key di = uk m" "di_saved_value di = snd (entries ! m)"
      "\<forall>j. Suc p \<le> j \<and> j < m \<longrightarrow> \<not> vis j" "\<forall>j. m < j \<and> j < R \<longrightarrow> \<not> shows_at j"
    using assms(1) by (auto simp: prev_ok_def)
  have "\<not> vis j" if "p \<le> j" "j < m" for j using m(7) assms(2) that by (cases "j = p") auto
  then show ?thesis unfolding prev_ok_def using kTypeValue m by (auto intro!: exI [of _ m])
qed

text \<open>A visible entry that does not stop the loop: whatever was saved is of the same user key.\<close>

lemma prev_ok_visible:
  assumes "prev_ok R (Suc p) t di" "p < R" "R \<le> length entries" "vis p"
    and "\<not> (t \<noteq> kTypeDeletion \<and> Compare ucmp (uk p) (di_saved_key di) < 0)"
  shows "\<forall>j. p < j \<and> j < R \<longrightarrow> \<not> shows_at j"
proof (cases t)
  case kTypeDeletion
  then show ?thesis using assms(1) by (simp add: prev_ok_def Suc_le_eq)
next
  case kTypeValue
  then obtain m where m: "Suc p \<le> m" "m < R" "di_saved_key di = uk m"
      "\<forall>j. Suc p \<le> j \<and> j < m \<longrightarrow> \<not> vis j" "\<forall>j. m < j \<and> j < R \<longrightarrow> \<not> shows_at j"
    using assms(1) by (auto simp: prev_ok_def)
  have "Compare ucmp (uk m) (uk p) \<le> 0"
    using assms(2,3,5) kTypeValue m users.compare_not_less [of "uk p" "uk m"] entry_parse(2) [of p] entry_parse(2) [of m]
    by simp
  then have "uk m = uk p" using keys_eqI [of p m] m assms(3) by simp
  then have s: "\<not> shows_at m" using assms(4) m(1) by (auto simp: shown_def Suc_le_eq)
  have "\<not> shows_at j" if "p < j" "j < R" for j
    using m(4,5) s shown_vis [of j] that by (cases j m rule: linorder_cases) auto
  then show ?thesis by blast
qed

lemma prev_ok_found:
  assumes "prev_ok R b t di" "t \<noteq> kTypeDeletion" "R \<le> length entries"
    and "b = 0 \<or> vis (b - 1) \<and> Compare ucmp (uk (b - 1)) (di_saved_key di) < 0"
  shows "\<exists>c. b \<le> c \<and> c < length entries \<and> shows_at c \<and> (\<forall>j. b \<le> j \<and> j < c \<longrightarrow> \<not> vis j) \<and>
    di_saved_key di = uk c \<and> di_saved_value di = snd (entries ! c) \<and> vpos R = Suc (vpos b)"
proof -
  from assms(1,2) obtain m where m: "b \<le> m" "m < R" "vis m" "typ m = kTypeValue"
      "di_saved_key di = uk m" "di_saved_value di = snd (entries ! m)"
      "\<forall>j. b \<le> j \<and> j < m \<longrightarrow> \<not> vis j" "\<forall>j. m < j \<and> j < R \<longrightarrow> \<not> shows_at j"
    by (auto simp: prev_ok_def)
  have "\<not> (vis j \<and> uk j = uk m)" if "j < m" for j
  proof (cases "b \<le> j")
    case True then show ?thesis using m(7) that by simp
  next
    case False
    then have "j \<le> b - 1" "b \<noteq> 0" by auto
    moreover from this have "Compare ucmp (uk (b - 1)) (uk m) < 0" using assms(4) m(5) by simp
    moreover have "Compare ucmp (uk j) (uk (b - 1)) \<le> 0"
      using \<open>j \<le> b - 1\<close> keys_le [of j "b - 1"] m(1,2) assms(3) \<open>b \<noteq> 0\<close> by simp
    ultimately have "Compare ucmp (uk j) (uk m) < 0"
      using users.compare_le_less_trans [of "uk j" "uk (b - 1)" "uk m"] entry_parse(2) [of j] entry_parse(2) [of "b - 1"]
        entry_parse(2) [of m] m(1,2) assms(3) that by simp
    then show ?thesis using users.compare_less_irrefl [of "uk m"] entry_parse(2) [of m] m(2) assms(3) by auto
  qed
  then have sm: "shows_at m" using m(3,4) by (auto simp: shown_def)
  have "vpos b = vpos m" using view_pos_same [of b m q entries] m(1,7) shown_vis by blast
  moreover have "vpos (Suc m) = vpos R" using view_pos_same [of "Suc m" R q entries] m(2,8) by (simp add: Suc_le_eq)
  ultimately have "vpos R = Suc (vpos b)" using sm view_pos_Suc [of q entries m] by simp
  with m sm assms(3) show ?thesis by (intro exI [of _ m]) simp
qed

lemma prev_round_ok:
  assumes "prev_ok R (Suc p) t di" "p < R" "R \<le> length entries" "I (di_iter di)" "pos (di_iter di) = p"
    and "prev_round ops ucmp q t (Some (entry_key (entries ! p))) di = (stop, t', di')"
  shows "if stop then t' = t \<and> di' = di \<and> t \<noteq> kTypeDeletion \<and> vis p \<and> Compare ucmp (uk p) (di_saved_key di) < 0
    else prev_ok R p t' di' \<and> (\<exists>k v. di' = di\<lparr> di_saved_key := k, di_saved_value := v \<rparr>)"
proof (cases "vis p")
  case False
  then have "(stop, t', di') = (False, t, di)" using assms(6) by (simp add: prev_round_def sees_def)
  then show ?thesis using prev_ok_hidden [OF assms(1) False] by (auto simp: same_saved)
next
  case True
  then have v: "seq p \<le> q" by (simp add: sees_def)
  have p: "p < length entries" using assms(2,3) by simp
  show ?thesis
  proof (cases "t \<noteq> kTypeDeletion \<and> Compare ucmp (uk p) (di_saved_key di) < 0")
    case h: True
    then have "(stop, t', di') = (True, t, di)" using assms(6) v by (simp add: prev_round_def)
    then show ?thesis using h True by simp
  next
    case h: False
    note older = prev_ok_visible [OF assms(1-3) True h]
    show ?thesis
    proof (cases "typ p")
      case kTypeDeletion
      then have e: "(stop, t', di') = (False, kTypeDeletion, di\<lparr> di_saved_key := [], di_saved_value := [] \<rparr>)"
        using assms(6) v h by (auto simp: prev_round_def ClearSavedValue_def)
      have "\<not> shows_at p" using kTypeDeletion by (simp add: shown_def)
      then have "\<not> shows_at j" if "p \<le> j" "j < R" for j using older that by (cases "j = p") auto
      with e show ?thesis by (auto simp: prev_ok_def)
    next
      case kTypeValue
      then have e: "(stop, t', di') = (False, kTypeValue, di\<lparr> di_saved_key := uk p, di_saved_value := snd (entries ! p) \<rparr>)"
        using assms(5,6) v h key [OF assms(4)] val [OF assms(4)] p entry_parse(5) [OF p] by (auto simp: prev_round_def)
      with older True kTypeValue assms(2) show ?thesis by (auto simp: prev_ok_def intro!: exI [of _ p])
    qed
  qed
qed

lemma prev_loop_ok:
  assumes "base di" "di_direction di = kReverse" "pos (di_iter di) < R" "R \<le> length entries"
    and "prev_ok R (Suc (pos (di_iter di))) t di"
  shows "\<exists>t' di'. prev_loop ops ucmp q t di = Some (t', di') \<and> base di' \<and> di_direction di' = kReverse \<and>
    prev_ok R (bound (di_iter di')) t' di' \<and>
    (if t' = kTypeDeletion then bound (di_iter di') = 0
     else bound (di_iter di') = 0 \<or>
       vis (bound (di_iter di') - 1) \<and> Compare ucmp (uk (bound (di_iter di') - 1)) (di_saved_key di') < 0)"
  using assms
proof (induction "pos (di_iter di)" arbitrary: di t rule: less_induct)
  case less
  let ?p = "pos (di_iter di)"
  have p: "?p < length entries" using less.prems(3,4) by simp
  from ParseKey_at [OF less.prems(1) p] obtain d where
    d: "ParseKey ops di = Some (Some (entry_key (entries ! ?p)), d)" "resampled di d" by blast
  obtain r c s where dr: "d = di\<lparr> di_rnd := r, di_bytes_counter := c, di_samples := s \<rparr>" "good_seed r"
    using d(2) by (auto simp: resampled_def)
  obtain stop t' d' where e: "prev_round ops ucmp q t (Some (entry_key (entries ! ?p))) d = (stop, t', d')"
    by (cases "prev_round ops ucmp q t (Some (entry_key (entries ! ?p))) d") auto
  have I: "I (di_iter di)" using less.prems(1) by (simp add: base_def)
  have n: "prev_ok R (Suc ?p) t d" using less.prems(5) dr(1) by (simp add: prev_ok_def)
  have "I (di_iter d)" "pos (di_iter d) = ?p" using I dr(1) by simp_all
  note ro = prev_round_ok [OF n less.prems(3,4) this e]
  note unf = prev_loop.simps [of ops ucmp q t di, unfolded d(1)]
  show ?case
  proof (cases stop)
    case True
    with ro have "t' = t" "d' = d" "t \<noteq> kTypeDeletion" "vis ?p" "Compare ucmp (uk ?p) (di_saved_key d) < 0" by auto
    with True less.prems dr e p n show ?thesis by (simp add: unf base_def bound_def)
  next
    case False
    with ro obtain k v where nx: "prev_ok R ?p t' d'" and k: "d' = d\<lparr> di_saved_key := k, di_saved_value := v \<rparr>" by auto
    from prev_pos [OF I p] obtain it where
      it: "it_Prev ops (di_iter di) = Some it" "I it" "pos it = prev_pos entries ?p" by blast
    have b: "base (d'\<lparr> di_iter := it \<rparr>)" using less.prems(1) it(2) dr k by (simp add: base_def)
    have nx': "prev_ok R ?p t' (d'\<lparr> di_iter := it \<rparr>)" using nx by (simp add: prev_ok_def)
    show ?thesis
    proof (cases "?p = 0")
      case True
      then have "\<not> it_Valid ops it" "bound it = 0" using valid_iff [OF it(2)] it(3) by (simp_all add: prev_pos_def bound_def)
      with e False it(1) k dr(1) b nx' True less.prems(2) show ?thesis by (simp add: unf)
    next
      case pp: False
      then have v: "it_Valid ops it" "pos it = ?p - 1" using valid_iff [OF it(2)] it(3) p by (simp_all add: prev_pos_def)
      from less.hyps [of "d'\<lparr> di_iter := it \<rparr>" t'] v(2) pp b nx' less.prems(2-4) k dr(1)
      have "\<exists>t'' di'. prev_loop ops ucmp q t' (d'\<lparr> di_iter := it \<rparr>) = Some (t'', di') \<and> base di' \<and> di_direction di' = kReverse \<and>
        prev_ok R (bound (di_iter di')) t'' di' \<and>
        (if t'' = kTypeDeletion then bound (di_iter di') = 0
         else bound (di_iter di') = 0 \<or>
           vis (bound (di_iter di') - 1) \<and> Compare ucmp (uk (bound (di_iter di') - 1)) (di_saved_key di') < 0)" by simp
      moreover have "prev_loop ops ucmp q t di = prev_loop ops ucmp q t' (d'\<lparr> di_iter := it \<rparr>)"
        using v(1) e False it(1) k dr(1) by (simp add: unf)
      ultimately show ?thesis by (simp only:)
    qed
  qed
qed

lemma FindPrevUserEntry_ok:
  assumes "base di" "di_direction di = kReverse"
  shows "\<exists>di'. FindPrevUserEntry ops ucmp q di = Some di' \<and> dinv di' \<and>
    dpos di' = prev_pos view (vpos (bound (di_iter di)))"
proof (cases "pos (di_iter di) < length entries")
  case False
  then have "\<not> it_Valid ops (di_iter di)" using valid_iff assms(1) by (simp add: base_def)
  with False assms(1) show ?thesis
    by (simp add: FindPrevUserEntry_def dinv_def dpos_def base_def bound_def prev_pos_def ClearSavedValue_def)
next
  case True
  let ?R = "Suc (pos (di_iter di))"
  have v: "it_Valid ops (di_iter di)" using True valid_iff assms(1) by (simp add: base_def)
  have R: "bound (di_iter di) = ?R" using True by (simp add: bound_def)
  have "prev_ok ?R ?R kTypeDeletion di" by (auto simp: prev_ok_def)
  from prev_loop_ok [OF assms _ _ this] True obtain t d where
    d: "prev_loop ops ucmp q kTypeDeletion di = Some (t, d)" "base d" "di_direction d = kReverse"
      "prev_ok ?R (bound (di_iter d)) t d"
      "if t = kTypeDeletion then bound (di_iter d) = 0
       else bound (di_iter d) = 0 \<or> vis (bound (di_iter d) - 1) \<and> Compare ucmp (uk (bound (di_iter d) - 1)) (di_saved_key d) < 0"
    by auto
  show ?thesis
  proof (cases "t = kTypeDeletion")
    case del: True
    then have "vpos 0 = vpos ?R" using d(4,5) view_pos_same [of 0 ?R q entries] by (simp add: prev_ok_def)
    with del v d(1,2) R show ?thesis
      by (simp add: FindPrevUserEntry_def dinv_def dpos_def base_def prev_pos_def ClearSavedValue_def)
  next
    case val: False
    from prev_ok_found [OF d(4) val] True d(5) val obtain c where
      "bound (di_iter d) \<le> c" "c < length entries" "shows_at c" "\<forall>j. bound (di_iter d) \<le> j \<and> j < c \<longrightarrow> \<not> vis j"
      "di_saved_key d = uk c" "di_saved_value d = snd (entries ! c)" "vpos ?R = Suc (vpos (bound (di_iter d)))" by auto
    with val v d(1-3) R show ?thesis
      by (auto simp: FindPrevUserEntry_def dinv_def dpos_def base_def prev_pos_def)
  qed
qed

lemma prev_key_loop_ok:
  assumes "base di" "pos (di_iter di) < length entries" "di_saved_key di = uk i" "i < length entries"
    and "pos (di_iter di) \<le> i" "\<forall>j. pos (di_iter di) \<le> j \<and> j < i \<longrightarrow> uk j = uk i"
  shows "\<exists>earlier di'. prev_key_loop ops ucmp di = Some (earlier, di') \<and> base di' \<and>
    di_direction di' = di_direction di \<and> bound (di_iter di') \<le> i \<and> (\<forall>j. bound (di_iter di') \<le> j \<and> j < i \<longrightarrow> uk j = uk i) \<and>
    (\<not> earlier \<longrightarrow> \<not> di_valid di' \<and> bound (di_iter di') = 0)"
  using assms
proof (induction "pos (di_iter di)" arbitrary: di rule: less_induct)
  case less
  let ?p = "pos (di_iter di)"
  have I: "I (di_iter di)" using less.prems(1) by (simp add: base_def)
  from prev_pos [OF I less.prems(2)] obtain it where
    it: "it_Prev ops (di_iter di) = Some it" "I it" "pos it = prev_pos entries ?p" by blast
  let ?d = "di\<lparr> di_iter := it \<rparr>"
  have b: "base ?d" using less.prems(1) it(2) by (simp add: base_def)
  note unf = prev_key_loop.simps [of ops ucmp di]
  show ?case
  proof (cases "?p = 0")
    case True
    then have "\<not> it_Valid ops it" "bound it = 0" using valid_iff [OF it(2)] it(3) by (simp_all add: prev_pos_def bound_def)
    with it(1) less.prems True b show ?thesis by (auto simp: unf ClearSavedValue_def base_def intro!: exI [of _ False])
  next
    case False
    then have v: "it_Valid ops it" "pos it = ?p - 1" "pos it < length entries" "bound it = ?p"
      using valid_iff [OF it(2)] it(3) less.prems(2) by (simp_all add: prev_pos_def bound_def)
    have k: "ExtractUserKey (it_key ops it) = uk (?p - 1)" using key [OF it(2) v(3)] entry_parse(5) [OF v(3)] v(2) by simp
    show ?thesis
    proof (cases "Compare ucmp (uk (?p - 1)) (uk i) < 0")
      case True
      with it(1) v k less.prems b show ?thesis by (auto simp: unf intro!: exI [of _ True])
    next
      case same: False
      then have "Compare ucmp (uk i) (uk (?p - 1)) \<le> 0"
        using users.compare_not_less [of "uk (?p - 1)" "uk i"] entry_parse(2) [OF v(3)] entry_parse(2) [OF less.prems(4)] v(2) by simp
      then have eq: "uk i = uk (?p - 1)" using keys_eqI [of "?p - 1" i] less.prems(4,5) by simp
      have "uk j = uk i" if "?p - 1 \<le> j" "j < i" for j using eq less.prems(6) that by (cases "j = ?p - 1") auto
      then have "\<exists>earlier di'. prev_key_loop ops ucmp ?d = Some (earlier, di') \<and> base di' \<and>
          di_direction di' = di_direction ?d \<and> bound (di_iter di') \<le> i \<and> (\<forall>j. bound (di_iter di') \<le> j \<and> j < i \<longrightarrow> uk j = uk i) \<and>
          (\<not> earlier \<longrightarrow> \<not> di_valid di' \<and> bound (di_iter di') = 0)"
        using less.hyps [of ?d] b v False less.prems(3-5) by simp
      moreover have "prev_key_loop ops ucmp di = prev_key_loop ops ucmp ?d"
        using it(1) v(1) k same less.prems(3) by (simp add: unf)
      ultimately show ?thesis by simp
    qed
  qed
qed

lemma next_ok_skip:
  assumes "shows_at c" "c < length entries" "p \<le> c" "\<forall>j. p \<le> j \<and> j < c \<longrightarrow> \<not> vis j"
  shows "next_ok (Suc c) p True (uk c)"
proof (rule next_okI)
  fix j
  show "typ j = kTypeValue" if "p \<le> j" "j < Suc c" "vis j"
    using assms(1,4) that by (cases "j = c") (auto simp: shown_def)
  show "\<not> shows_at j" if "Suc c \<le> j" "j < p" using assms(3) that by simp
  assume j: "p \<le> j" "j < length entries" "vis j"
  then have c: "c \<le> j" using assms(4) not_le by blast
  show "(True \<and> Compare ucmp (uk j) (uk c) \<le> 0) \<longleftrightarrow> j < Suc c \<or> (\<exists>k < max p (Suc c). vis k \<and> uk k = uk j)"
  proof
    assume "True \<and> Compare ucmp (uk j) (uk c) \<le> 0"
    then have "uk c = uk j" using keys_eqI [OF c j(2)] by simp
    then show "j < Suc c \<or> (\<exists>k < max p (Suc c). vis k \<and> uk k = uk j)" using shown_vis [OF assms(1)] by auto
  next
    assume a: "j < Suc c \<or> (\<exists>k < max p (Suc c). vis k \<and> uk k = uk j)"
    then obtain k where "k \<le> c" "uk k = uk j" using assms(3) c by (auto simp: max_def less_Suc_eq_le)
    with keys_le [of k c] assms(2) show "True \<and> Compare ucmp (uk j) (uk c) \<le> 0" by simp
  qed
qed

lemma valid_dpos: "dinv di \<Longrightarrow> di_valid di \<longleftrightarrow> dpos di < length view"
proof -
  assume d: "dinv di"
  have "dpos di < length view" if v: "di_valid di"
  proof (cases "di_direction di")
    case kForward
    then show ?thesis using d v view_pos_nth(1) [of q entries "pos (di_iter di)"] by (simp add: dinv_def dpos_def)
  next
    case kReverse
    with d v obtain c where c: "bound (di_iter di) \<le> c" "c < length entries" "shows_at c"
      "\<forall>j. bound (di_iter di) \<le> j \<and> j < c \<longrightarrow> \<not> vis j" by (auto simp: dinv_def)
    then have "vpos (bound (di_iter di)) = vpos c" using view_pos_same [of "bound (di_iter di)" c q entries] shown_vis by blast
    then show ?thesis using v kReverse view_pos_nth(1) [OF c(3,2)] by (simp add: dpos_def)
  qed
  then show ?thesis by (auto simp: dpos_def)
qed

text \<open>The entry that a valid state shows, and where its search for the next one starts.\<close>

lemma dinv_entry:
  assumes "dinv di" "di_valid di"
  obtains c where "c < length entries" "shows_at c" "vpos c = dpos di"
    "DBIter_key ops di = uk c" "DBIter_value ops di = snd (entries ! c)"
    "if di_direction di = kForward then pos (di_iter di) = c
     else di_saved_key di = uk c \<and> bound (di_iter di) \<le> c \<and> (\<forall>j. bound (di_iter di) \<le> j \<and> j < c \<longrightarrow> \<not> vis j)"
proof (cases "di_direction di")
  case kForward
  have I: "I (di_iter di)" and p: "pos (di_iter di) < length entries" "shows_at (pos (di_iter di))"
    using assms kForward by (simp_all add: dinv_def base_def)
  then show ?thesis using that [of "pos (di_iter di)"] kForward assms(2) key [OF I p(1)] val [OF I p(1)] entry_parse(5) [OF p(1)]
    by (simp add: dpos_def DBIter_key_def DBIter_value_def)
next
  case kReverse
  with assms obtain c where c: "bound (di_iter di) \<le> c" "c < length entries" "shows_at c"
      "\<forall>j. bound (di_iter di) \<le> j \<and> j < c \<longrightarrow> \<not> vis j" "di_saved_key di = uk c" "di_saved_value di = snd (entries ! c)"
    by (auto simp: dinv_def)
  then have "vpos (bound (di_iter di)) = vpos c" using view_pos_same [of "bound (di_iter di)" c q entries] shown_vis by blast
  with c that [of c] kReverse assms(2) show ?thesis by (simp add: dpos_def DBIter_key_def DBIter_value_def)
qed

lemma DBIter_Next_ok:
  assumes "dinv di" "di_valid di"
  shows "\<exists>di'. DBIter_Next ops ucmp q di = Some di' \<and> dinv di' \<and> dpos di' = Suc (dpos di)"
proof -
  obtain c where c: "c < length entries" "shows_at c" "vpos c = dpos di"
    "if di_direction di = kForward then pos (di_iter di) = c
     else di_saved_key di = uk c \<and> bound (di_iter di) \<le> c \<and> (\<forall>j. bound (di_iter di) \<le> j \<and> j < c \<longrightarrow> \<not> vis j)"
    using dinv_entry [OF assms] by metis
  have b: "base di" "I (di_iter di)" using assms(1) by (simp_all add: dinv_def base_def)
  have S: "vpos (Suc c) = Suc (dpos di)" using c(2,3) by (simp add: view_pos_Suc)
  show ?thesis
  proof (cases "di_direction di")
    case kForward
    let ?d = "di\<lparr> di_saved_key := uk c \<rparr>"
    have nx: "next_ok (Suc c) c True (uk c)" by (rule next_ok_skip [OF c(2,1)]) auto
    have "base ?d" "di_direction ?d = kForward" "pos (di_iter ?d) < length entries" "Suc c \<le> length entries"
      "next_ok (Suc c) (pos (di_iter ?d)) True (di_saved_key ?d)"
      using b c kForward nx by (auto simp: base_def)
    from FindNextUserEntry_ok [OF this(1-3,5,4)] S kForward c key [OF b(2)] entry_parse(5) [OF c(1)]
    show ?thesis by (simp add: DBIter_Next_def)
  next
    case kReverse
    have "\<exists>it. (if \<not> it_Valid ops (di_iter di) then it_SeekToFirst ops (di_iter di) else it_Next ops (di_iter di)) = Some it \<and>
        I it \<and> pos it = bound (di_iter di)"
      using seek_first [OF b(2)] next_pos [OF b(2)] valid_iff [OF b(2)] by (auto simp: bound_def)
    then obtain it where it: "(if \<not> it_Valid ops (di_iter di) then it_SeekToFirst ops (di_iter di) else it_Next ops (di_iter di)) = Some it"
      "I it" "pos it = bound (di_iter di)" by blast
    let ?d = "di\<lparr> di_direction := kForward, di_iter := it \<rparr>"
    have v: "it_Valid ops it" using c kReverse it(3) valid_iff [OF it(2)] by simp
    have "base ?d" "di_direction ?d = kForward" "pos (di_iter ?d) < length entries" "Suc c \<le> length entries"
      "next_ok (Suc c) (pos (di_iter ?d)) True (di_saved_key ?d)"
      using b it c kReverse next_ok_skip [OF c(2,1)] by (simp_all add: base_def)
    note found = FindNextUserEntry_ok [OF this(1-3,5,4)]
    have "DBIter_Next ops ucmp q di = FindNextUserEntry ops ucmp q True ?d"
      using kReverse it(1) v by (cases "it_Valid ops (di_iter di)") (simp_all add: DBIter_Next_def)
    with found S show ?thesis by simp
  qed
qed

lemma DBIter_Prev_ok:
  assumes "dinv di" "di_valid di"
  shows "\<exists>di'. DBIter_Prev ops ucmp q di = Some di' \<and> dinv di' \<and> dpos di' = prev_pos view (dpos di)"
proof (cases "di_direction di")
  case kReverse
  then show ?thesis using FindPrevUserEntry_ok [of di] assms by (simp add: DBIter_Prev_def dinv_def dpos_def)
next
  case kForward
  let ?i = "pos (di_iter di)" and ?d = "di\<lparr> di_saved_key := ExtractUserKey (it_key ops (di_iter di)) \<rparr>"
  have b: "base di" "I (di_iter di)" "?i < length entries" "shows_at ?i"
    using assms kForward by (simp_all add: dinv_def base_def)
  have k: "ExtractUserKey (it_key ops (di_iter di)) = uk ?i" using key [OF b(2,3)] entry_parse(5) [OF b(3)] by simp
  have "base ?d" "pos (di_iter ?d) < length entries" "di_saved_key ?d = uk ?i" "?i < length entries" "pos (di_iter ?d) \<le> ?i"
    "\<forall>j. pos (di_iter ?d) \<le> j \<and> j < ?i \<longrightarrow> uk j = uk ?i" using b k by (auto simp: base_def)
  from prev_key_loop_ok [OF this] obtain e d where
    d: "prev_key_loop ops ucmp ?d = Some (e, d)" "base d" "bound (di_iter d) \<le> ?i"
      "\<forall>j. bound (di_iter d) \<le> j \<and> j < ?i \<longrightarrow> uk j = uk ?i" "\<not> e \<longrightarrow> \<not> di_valid d \<and> bound (di_iter d) = 0"
    by blast
  have "\<not> shows_at j" if "bound (di_iter d) \<le> j" "j < ?i" for j
    using d(4) that b(4) shown_vis [of j] unfolding shown_def by blast
  then have vp: "vpos (bound (di_iter d)) = dpos di"
    using view_pos_same [OF _ d(3)] assms(2) kForward by (simp add: dpos_def)
  show ?thesis
  proof (cases e)
    case True
    have "base (d\<lparr> di_direction := kReverse \<rparr>)" using d(2) by (simp add: base_def)
    from FindPrevUserEntry_ok [OF this] True d(1) vp kForward show ?thesis by (simp add: DBIter_Prev_def)
  next
    case False
    with d(5) vp have "dpos di = 0" "\<not> di_valid d" by auto
    with False d(1,2) kForward show ?thesis
      by (simp add: DBIter_Prev_def dinv_def dpos_def prev_pos_def)
  qed
qed

text \<open>The seeks and the contract.\<close>

lemma entries_valid: "\<forall>e \<in> set entries. internal_valid uvalid (fst e)"
proof
  fix e
  assume "e \<in> set entries"
  then obtain i where i: "i < length entries" "e = entries ! i" by (auto simp: in_set_conv_nth)
  have "length (fst (entries ! i)) = length (uk i) + 8"
    using arg_cong [OF entry_parse(3) [OF i(1)], of length] by (simp only: InternalKey_simps)
  then show "internal_valid uvalid (fst e)"
    unfolding i(2) internal_valid_def entry_parse(5) [OF i(1)] using entry_parse(2) [OF i(1)] by simp
qed

lemma seek_split:
  assumes "uvalid t" "j < length entries"
  shows "j < seek_pos (Compare (InternalKeyComparator ucmp)) (InternalKey t q kValueTypeForSeek) entries \<longleftrightarrow>
    Compare ucmp (uk j) t < 0 \<or> uk j = t \<and> \<not> vis j"
proof -
  have "internal_valid uvalid (InternalKey t q kValueTypeForSeek)" using assms(1) by (simp add: internal_valid_def)
  from seek_pos_iff [OF users.internal.key_order_axioms sorted entries_valid this assms(2)]
  show ?thesis using key_less_iff [OF assms(2,1) sequence_le, of kValueTypeForSeek]
    by (cases "typ j") (auto simp: kValueTypeForSeek_def sees_def not_le)
qed

lemma seek_view_pos:
  assumes "uvalid t"
  shows "vpos (seek_pos (Compare (InternalKeyComparator ucmp)) (InternalKey t q kValueTypeForSeek) entries) =
    seek_pos (Compare ucmp) t view"
proof -
  let ?n = "length entries"
  let ?p = "seek_pos (Compare (InternalKeyComparator ucmp)) (InternalKey t q kValueTypeForSeek) entries"
  have split: "[0..<?n] = [0..<?p] @ [?p..<?n]"
    using upt_add_eq_append [of 0 ?p "?n - ?p"] seek_pos_le [of "Compare (InternalKeyComparator ucmp)" _ entries] by simp
  have s: "Compare ucmp (uk j) t < 0 \<longleftrightarrow> j < ?p" if "shows_at j" "j < ?n" for j
    using seek_split [OF assms that(2)] shown_vis [OF that(1)] by auto
  have p: "?p \<le> ?n" by simp
  have below: "Compare ucmp (uk j) t < 0" if "j < ?p" "shows_at j" for j
    using s [OF that(2) less_le_trans [OF that(1) p]] that(1) by blast
  have lo: "filter (\<lambda>i. Compare ucmp (uk i) t < 0) (filter shows_at [0..<?p]) = filter shows_at [0..<?p]"
    by (rule filter_True) (use below in auto)
  have hi: "filter (\<lambda>i. Compare ucmp (uk i) t < 0) (filter shows_at [?p..<?n]) = []"
    by (rule filter_False) (use s in auto)
  have "seek_pos (Compare ucmp) t view =
      length (filter (\<lambda>i. Compare ucmp (uk i) t < 0) (filter shows_at [0..<?n]))"
    by (simp add: seek_pos_def user_view_def filter_map comp_def)
  also have "\<dots> = length (filter shows_at [0..<?p])"
    unfolding split filter_append lo hi by simp
  finally show ?thesis by (simp add: view_pos_def)
qed

lemma next_ok_seek:
  assumes "uvalid t"
  shows "next_ok (seek_pos (Compare (InternalKeyComparator ucmp)) (InternalKey t q kValueTypeForSeek) entries)
    (seek_pos (Compare (InternalKeyComparator ucmp)) (InternalKey t q kValueTypeForSeek) entries) False skip"
proof (rule next_okI)
  let ?p = "seek_pos (Compare (InternalKeyComparator ucmp)) (InternalKey t q kValueTypeForSeek) entries"
  fix j
  assume j: "?p \<le> j" "j < length entries" "vis j"
  have "\<not> (\<exists>k < ?p. vis k \<and> uk k = uk j)"
  proof
    assume "\<exists>k < ?p. vis k \<and> uk k = uk j"
    then obtain k where k: "k < ?p" "vis k" "uk k = uk j" by blast
    then have "Compare ucmp (uk j) t < 0" using seek_split [OF assms, of k] j by auto
    then show False using seek_split [OF assms j(2)] j(1) by simp
  qed
  then show "(False \<and> Compare ucmp (uk j) skip \<le> 0) \<longleftrightarrow> j < ?p \<or> (\<exists>k < max ?p ?p. vis k \<and> uk k = uk j)"
    using j(1) by simp
qed simp_all

lemma search_from:
  assumes "base di" "di_direction di = kForward" "next_ok (pos (di_iter di)) (pos (di_iter di)) False (di_saved_key di)"
  shows "\<exists>di'. (if it_Valid ops (di_iter di) then FindNextUserEntry ops ucmp q False di
      else Some (di\<lparr> di_valid := False \<rparr>)) = Some di' \<and> dinv di' \<and> dpos di' = vpos (pos (di_iter di))"
proof (cases "pos (di_iter di) < length entries")
  case True
  then have "it_Valid ops (di_iter di)" using valid_iff assms(1) by (simp add: base_def)
  with FindNextUserEntry_ok [OF assms(1,2) True assms(3)] True show ?thesis by simp
next
  case False
  moreover have "pos (di_iter di) = length entries" "\<not> it_Valid ops (di_iter di)"
    using False pos_le [of "di_iter di"] valid_iff assms(1) by (auto simp: base_def)
  ultimately show ?thesis using assms(1) by (simp add: dinv_def dpos_def base_def)
qed

lemma base_moved: "base di \<Longrightarrow> I it \<Longrightarrow> base (di\<lparr> di_iter := it, di_direction := dir, di_saved_key := k, di_saved_value := v \<rparr>)"
  by (simp add: base_def)

lemma DBIter_SeekToFirst_ok:
  assumes "dinv di"
  shows "\<exists>di'. DBIter_SeekToFirst ops ucmp q di = Some di' \<and> dinv di' \<and> dpos di' = 0"
proof -
  have b: "base di" "I (di_iter di)" using assms by (simp_all add: dinv_def base_def)
  from seek_first [OF b(2)] obtain it where it: "it_SeekToFirst ops (di_iter di) = Some it" "I it" "pos it = 0" by blast
  let ?d = "di\<lparr> di_direction := kForward, di_saved_value := [], di_iter := it \<rparr>"
  have "next_ok 0 0 False (di_saved_key di)" by (rule next_okI) simp_all
  then have "base ?d" "di_direction ?d = kForward" "next_ok (pos (di_iter ?d)) (pos (di_iter ?d)) False (di_saved_key ?d)"
    using b(1) it(2,3) by (simp_all add: base_def)
  from search_from [OF this] it show ?thesis by (simp add: DBIter_SeekToFirst_def ClearSavedValue_def Let_def)
qed

lemma DBIter_Seek_ok:
  assumes "dinv di" "uvalid t" "ok (InternalKey t q kValueTypeForSeek)"
  shows "\<exists>di'. DBIter_Seek ops ucmp q t di = Some di' \<and> dinv di' \<and> dpos di' = seek_pos (Compare ucmp) t view"
proof -
  have b: "base di" "I (di_iter di)" using assms(1) by (simp_all add: dinv_def base_def)
  let ?k = "InternalKey t q kValueTypeForSeek"
  let ?p = "seek_pos (Compare (InternalKeyComparator ucmp)) ?k entries"
  from seek [OF b(2) assms(3)] obtain it where it: "it_Seek ops ?k (di_iter di) = Some it" "I it" "pos it = ?p" by blast
  let ?d = "di\<lparr> di_direction := kForward, di_saved_value := [], di_saved_key := ?k, di_iter := it \<rparr>"
  have "base ?d" "di_direction ?d = kForward" "next_ok (pos (di_iter ?d)) (pos (di_iter ?d)) False (di_saved_key ?d)"
    using b(1) it(2,3) next_ok_seek [OF assms(2)] by (simp_all add: base_def)
  from search_from [OF this] it seek_view_pos [OF assms(2)] show ?thesis
    by (simp add: DBIter_Seek_def ClearSavedValue_def Let_def flip: InternalKey_def)
qed

lemma DBIter_SeekToLast_ok:
  assumes "dinv di"
  shows "\<exists>di'. DBIter_SeekToLast ops ucmp q di = Some di' \<and> dinv di' \<and> dpos di' = last_pos view"
proof -
  have b: "base di" "I (di_iter di)" using assms by (simp_all add: dinv_def base_def)
  from seek_last [OF b(2)] obtain it where it: "it_SeekToLast ops (di_iter di) = Some it" "I it" "pos it = last_pos entries" by blast
  let ?d = "di\<lparr> di_direction := kReverse, di_saved_value := [], di_iter := it \<rparr>"
  have "base ?d" "di_direction ?d = kReverse" using b(1) it(2) by (simp_all add: base_def)
  note f = FindPrevUserEntry_ok [OF this]
  have "bound it = length entries" using it(3) unfolding bound_def last_pos_def by (cases "entries = []") auto
  then have "prev_pos view (vpos (bound it)) = last_pos view" by (simp add: prev_pos_def last_pos_def)
  with f it(1) show ?thesis by (simp add: DBIter_SeekToLast_def ClearSavedValue_def)
qed

lemma db_list_iterator:
  "list_iterator (DBIter_ops ops ucmp q) (Compare ucmp) (\<lambda>t. uvalid t \<and> ok (InternalKey t q kValueTypeForSeek))
     dinv view dpos"
proof
  fix di :: "'s DBIter"
  assume d: "dinv di"
  note v = valid_dpos [OF d]
  show "dpos di \<le> length view" using v by (cases "di_valid di") (auto simp: dpos_def)
  show "it_Valid (DBIter_ops ops ucmp q) di \<longleftrightarrow> dpos di < length view" using v by (simp add: DBIter_ops_def)
  show "\<exists>s'. it_SeekToFirst (DBIter_ops ops ucmp q) di = Some s' \<and> dinv s' \<and> dpos s' = 0"
    using DBIter_SeekToFirst_ok [OF d] by (simp add: DBIter_ops_def)
  show "\<exists>s'. it_SeekToLast (DBIter_ops ops ucmp q) di = Some s' \<and> dinv s' \<and> dpos s' = last_pos view"
    using DBIter_SeekToLast_ok [OF d] by (simp add: DBIter_ops_def)
  show "\<exists>s'. it_Seek (DBIter_ops ops ucmp q) t di = Some s' \<and> dinv s' \<and> dpos s' = seek_pos (Compare ucmp) t view"
    if "uvalid t \<and> ok (InternalKey t q kValueTypeForSeek)" for t
    using DBIter_Seek_ok [OF d] that by (simp add: DBIter_ops_def)
  show "it_status (DBIter_ops ops ucmp q) di = OK"
    using d status_ok [of "di_iter di"] by (simp add: DBIter_ops_def DBIter_status_def dinv_def base_def)
  assume l: "dpos di < length view"
  then have dv: "di_valid di" using v by simp
  show "\<exists>s'. it_Next (DBIter_ops ops ucmp q) di = Some s' \<and> dinv s' \<and> dpos s' = Suc (dpos di)"
    using DBIter_Next_ok [OF d dv] by (simp add: DBIter_ops_def)
  show "\<exists>s'. it_Prev (DBIter_ops ops ucmp q) di = Some s' \<and> dinv s' \<and> dpos s' = prev_pos view (dpos di)"
    using DBIter_Prev_ok [OF d dv] by (simp add: DBIter_ops_def)
  obtain c where "c < length entries" "shows_at c" "vpos c = dpos di" "DBIter_key ops di = uk c" "DBIter_value ops di = snd (entries ! c)"
    using dinv_entry [OF d dv] by metis
  then show "it_key (DBIter_ops ops ucmp q) di = fst (view ! dpos di)" "it_value (DBIter_ops ops ucmp q) di = snd (view ! dpos di)"
    using view_pos_nth(2) [of q entries c] by (simp_all add: DBIter_ops_def)
qed

lemma dinv_new: "I it \<Longrightarrow> dinv (NewDBIterator it seed)"
  using Random_Next_eq [OF good_seed_new, of seed]
  by (simp add: dinv_def base_def NewDBIterator_def RandomPeriod_def Uniform_def split_beta)

lemma view_sorted: "sorted_run ucmp uvalid view"
proof -
  have less: "Compare ucmp (uk i) (uk j) < 0" if "i < j" "shows_at i" "shows_at j" "j < length entries" for i j
    using keys_sorted(1) [OF that(1,4)] that shown_vis [OF that(2)] users.compare_le_iff [of "uk i" "uk j"]
      entry_parse(2) [of i] entry_parse(2) [of j] by (auto simp: shown_def)
  have "sorted_wrt (<) (filter shows_at [0..<length entries])" by (simp add: sorted_wrt_filter)
  then have "sorted_wrt (\<lambda>i j. Compare ucmp (uk i) (uk j) < 0) (filter shows_at [0..<length entries])"
    by (rule sorted_wrt_mono_rel [rotated]) (use less in auto)
  then show ?thesis
    using entry_parse(2) by (auto simp: sorted_run_def sorted_entries_def user_view_def sorted_wrt_map)
qed

lemma view_iff:
  "(k, v) \<in> set view \<longleftrightarrow>
     (\<exists>s \<le> q. (InternalKey k s kTypeValue, v) \<in> set entries \<and>
       (\<forall>s' t v'. (InternalKey k s' t, v') \<in> set entries \<and> s' \<le> q \<longrightarrow> s' \<le> s))"
  (is "?L \<longleftrightarrow> ?R")
proof -
  have at: "\<exists>i < length entries. entries ! i = e \<and> uk i = k \<and> seq i = s \<and> typ i = t"
    if "e \<in> set entries" "fst e = InternalKey k s t" "s \<le> q" for e k s t
  proof -
    from that(1) obtain i where "i < length entries" "entries ! i = e" by (auto simp: in_set_conv_nth)
    with ParseInternalKey_InternalKey [of s k t] that sequence_le show ?thesis by (auto simp: entry_key_def)
  qed
  show ?thesis
  proof
    assume ?L
    then obtain i where i: "i < length entries" "shows_at i" "k = uk i" "v = snd (entries ! i)" by (auto simp: user_view_def)
    have "seq i \<le> q" "typ i = kTypeValue" using i(2) by (auto simp: shown_def sees_def)
    moreover have "(InternalKey k (seq i) kTypeValue, v) \<in> set entries"
      using i entry_parse(3) [OF i(1)] nth_mem [OF i(1)] \<open>typ i = kTypeValue\<close> by (metis prod.collapse)
    moreover have "s' \<le> seq i" if e: "(InternalKey k s' t, v') \<in> set entries" "s' \<le> q" for s' t v'
    proof -
      from at [OF e(1) _ e(2), of k t] obtain j where j: "j < length entries" "uk j = k" "seq j = s'" by auto
      have "\<not> j < i" using i(2,3) j e(2) by (auto simp: shown_def sees_def)
      then show ?thesis
      proof (cases "i = j")
        case False
        with \<open>\<not> j < i\<close> have "InternalKeyComparator_Compare ucmp (fst (entries ! i)) (fst (entries ! j)) < 0"
          using sorted_wrt_nth_less [OF sorted [unfolded sorted_entries_def], of i j] j(1) by simp
        then show ?thesis
          using key_less_iff [OF i(1) entry_parse(2,4) [OF j(1)], of "typ j"] entry_parse(3) [OF j(1)] i(3) j
            users.compare_less_irrefl [OF entry_parse(2) [OF j(1)]] by auto
      qed (use j in simp)
    qed
    ultimately show ?R by blast
  next
    assume ?R
    then obtain s where s: "s \<le> q" "(InternalKey k s kTypeValue, v) \<in> set entries"
      "\<forall>s' t v'. (InternalKey k s' t, v') \<in> set entries \<and> s' \<le> q \<longrightarrow> s' \<le> s" by blast
    from at [OF s(2) _ s(1), of k kTypeValue] obtain i where
      i: "i < length entries" "entries ! i = (InternalKey k s kTypeValue, v)" "uk i = k" "seq i = s" "typ i = kTypeValue" by auto
    have "\<not> vis j" if j: "j < i" "uk j = uk i" for j
    proof
      assume vj: "vis j"
      have jl: "j < length entries" using j(1) i(1) by simp
      have "(InternalKey k (seq j) (typ j), snd (entries ! j)) \<in> set entries"
        using entry_parse(3) [OF jl] nth_mem [OF jl] j(2) i(3) by (metis prod.collapse)
      with s(3) vj have "seq j \<le> s" by (auto simp: sees_def)
      moreover have "InternalKeyComparator_Compare ucmp (fst (entries ! j)) (fst (entries ! i)) < 0"
        using sorted_wrt_nth_less [OF sorted [unfolded sorted_entries_def] j(1) i(1)] by simp
      ultimately show False
        using key_less_iff [OF jl entry_parse(2,4) [OF i(1)], of kTypeValue] i j
          users.compare_less_irrefl [OF entry_parse(2) [OF i(1)]] by (cases "typ j") auto
    qed
    then have "shows_at i" using i s(1) by (auto simp: shown_def sees_def)
    with i show ?L by (auto simp: user_view_def intro!: image_eqI [of _ _ i])
  qed
qed

end

section \<open>Memtables as sources\<close>

lemma add_pair_iff:
  assumes "\<forall>a \<in> A. add_ok uvalid a" "s \<le> kMaxSequenceNumber"
  shows "(InternalKey k s t, v) \<in> add_pair ` A \<longleftrightarrow> (s, t, k, v) \<in> A"
proof
  assume "(InternalKey k s t, v) \<in> add_pair ` A"
  then obtain a where a: "a \<in> A" "(InternalKey k s t, v) = add_pair a" by blast
  obtain s' t' k' v' where p: "a = (s', t', k', v')" by (cases a)
  have e: "InternalKey k s t = InternalKey k' s' t'" "v = v'" using a(2) p by simp_all
  have "add_ok uvalid a" using assms(1) a(1) by blast
  then have "ParseInternalKey (InternalKey k s t) = Some \<lparr> pk_user_key = k', pk_sequence = s', pk_type = t' \<rparr>"
    unfolding e(1) p by (simp add: ParseInternalKey_InternalKey)
  then show "(s, t, k, v) \<in> A" using ParseInternalKey_InternalKey [OF assms(2), of k t] a(1) p e(2) by simp
next
  assume "(s, t, k, v) \<in> A"
  then show "(InternalKey k s t, v) \<in> add_pair ` A" by (intro image_eqI [of _ _ "(s, t, k, v)"]) simp_all
qed

text \<open>The value of \<open>k\<close> at sequence number \<open>q\<close> after some additions.\<close>

definition newest_value :: "u64 \<Rightarrow> add set \<Rightarrow> bytes \<Rightarrow> bytes \<Rightarrow> bool" where
  "newest_value q A k v \<longleftrightarrow> (\<exists>s \<le> q. (s, kTypeValue, k, v) \<in> A \<and> (\<forall>s' t v'. (s', t, k, v') \<in> A \<and> s' \<le> q \<longrightarrow> s' \<le> s))"

lemma newest_value_entries:
  assumes "\<forall>a \<in> A. add_ok uvalid a" "q \<le> kMaxSequenceNumber"
  shows "(\<exists>s \<le> q. (InternalKey k s kTypeValue, v) \<in> add_pair ` A \<and>
      (\<forall>s' t v'. (InternalKey k s' t, v') \<in> add_pair ` A \<and> s' \<le> q \<longrightarrow> s' \<le> s)) \<longleftrightarrow> newest_value q A k v"
proof -
  define X where "X = add_pair ` A"
  have e: "(InternalKey k s t, v) \<in> X \<longleftrightarrow> (s, t, k, v) \<in> A" if "s \<le> q" for s t v
    using add_pair_iff [OF assms(1) order_trans [OF that assms(2)]] by (simp add: X_def)
  have inner: "(\<forall>s' t v'. (InternalKey k s' t, v') \<in> X \<and> s' \<le> q \<longrightarrow> s' \<le> s) \<longleftrightarrow>
      (\<forall>s' t v'. (s', t, k, v') \<in> A \<and> s' \<le> q \<longrightarrow> s' \<le> s)" for s
    by (intro iff_allI) (use e in blast)
  show ?thesis unfolding newest_value_def X_def [symmetric] inner by (intro iff_exI conj_cong refl e)
qed

context memtable_order
begin

lemma memtable_source:
  assumes "holds m adds ns" "q \<le> kMaxSequenceNumber"
  shows "db_source (MemTableIterator ucmp m) ucmp uvalid (iter_ok uvalid) (node_inv ns)
    (map (node_entry m) ns) (node_pos ns) q"
proof (intro db_source.intro db_source_axioms.intro)
  show "list_iterator (MemTableIterator ucmp m) (Compare (InternalKeyComparator ucmp)) (iter_ok uvalid)
      (node_inv ns) (map (node_entry m) ns) (node_pos ns)" using memtable_iterator [OF assms(1)] by simp
  show "internal_key_order ucmp uvalid" by unfold_locales
  show "sorted_entries (Compare (InternalKeyComparator ucmp)) (map (node_entry m) ns)"
    using holds_entries(2) [OF assms(1)] by simp
  show "\<exists>p. ParseInternalKey (fst e) = Some p \<and> uvalid (pk_user_key p)" if "e \<in> set (map (node_entry m) ns)" for e
  proof -
    from that holds_entries(1) [OF assms(1)] obtain a where a: "a \<in> set adds" "e = add_pair a" by blast
    then have "add_ok uvalid a" using assms(1) by (simp add: holds_def)
    with a(2) show ?thesis by (cases a) (simp add: ParseInternalKey_InternalKey)
  qed
qed (fact assms(2))

end

definition example_adds :: "add list" where
  "example_adds = [(1, kTypeValue, cstr ''a'', cstr ''1''), (2, kTypeValue, cstr ''b'', cstr ''2''),
     (3, kTypeDeletion, cstr ''a'', []), (4, kTypeValue, cstr ''c'', cstr ''4'')]"

definition example_mem :: MemTable where
  "example_mem = the (MemTable_Adds BytewiseComparator example_adds MemTable_new)"

definition example_nodes :: "nat list" where
  "example_nodes = (SOME ns. bytewise_mt.holds example_mem (rev example_adds) ns)"

lemma example_mem_holds:
  "MemTable_Adds BytewiseComparator example_adds MemTable_new = Some example_mem"
  "bytewise_mt.holds example_mem (rev example_adds) example_nodes"
proof -
  have "\<forall>a \<in> set example_adds. add_ok (\<lambda>_. True) a" by (simp add: example_adds_def kMaxSequenceNumber_def)
  moreover have "distinct (map add_ikey example_adds)" by code_simp
  ultimately obtain m ns where
    m: "MemTable_Adds BytewiseComparator example_adds MemTable_new = Some m" "bytewise_mt.holds m (rev example_adds) ns"
    using bytewise_mt.holds_Adds [OF bytewise_mt.holds_new, of example_adds] by auto
  then have e: "m = example_mem" by (simp add: example_mem_def)
  show "MemTable_Adds BytewiseComparator example_adds MemTable_new = Some example_mem" using m(1) e by simp
  show "bytewise_mt.holds example_mem (rev example_adds) example_nodes"
    unfolding example_nodes_def using m(2) e by (metis someI)
qed

lemma example_newest:
  "newest_value 4 (set example_adds) k v \<longleftrightarrow> (k, v) = (cstr ''b'', cstr ''2'') \<or> (k, v) = (cstr ''c'', cstr ''4'')"
proof
  assume "newest_value 4 (set example_adds) k v"
  then obtain s where s: "(s, kTypeValue, k, v) \<in> set example_adds"
    "\<forall>s' t v'. (s', t, k, v') \<in> set example_adds \<and> s' \<le> 4 \<longrightarrow> s' \<le> s" unfolding newest_value_def by blast
  have "\<not> (s = 1 \<and> k = cstr ''a'')"
  proof
    assume "s = 1 \<and> k = cstr ''a''"
    with s(2) [rule_format, of 3 kTypeDeletion "[]"] show False by (simp add: example_adds_def word_le_nat_alt)
  qed
  with s(1) show "(k, v) = (cstr ''b'', cstr ''2'') \<or> (k, v) = (cstr ''c'', cstr ''4'')" by (auto simp: example_adds_def)
next
  have "newest_value 4 (set example_adds) (cstr ''b'') (cstr ''2'')" "newest_value 4 (set example_adds) (cstr ''c'') (cstr ''4'')"
    unfolding newest_value_def by (rule exI [of _ 2], simp add: example_adds_def) (rule exI [of _ 4], simp add: example_adds_def)
  then show "newest_value 4 (set example_adds) k v"
    if "(k, v) = (cstr ''b'', cstr ''2'') \<or> (k, v) = (cstr ''c'', cstr ''4'')" using that by auto
qed

interpretation mem_source: db_source "MemTableIterator BytewiseComparator example_mem" BytewiseComparator "\<lambda>_. True"
    "iter_ok (\<lambda>_. True)" "node_inv example_nodes" "map (node_entry example_mem) example_nodes" "node_pos example_nodes" 4
  by (rule bytewise_mt.memtable_source [OF example_mem_holds(2)]) (simp add: kMaxSequenceNumber_def)

section \<open>Correctness\<close>

text \<open>
  C4. The database iterator shows the user's view. Over any iterator on a sorted list of
  well-formed internal keys, whatever the random seed of the read samples, every operation of a
  new \<open>DBIter\<close> returns, and it is again an iterator over a sorted list, in both directions
  and with every change of direction: the list that has a user key with a value exactly when
  the newest entry of the key up to the sequence number is that value and not a deletion.
\<close>

theorem db_iterator_correct:
  assumes "list_iterator ops (Compare (InternalKeyComparator ucmp)) ok I entries pos" "I it"
    and "internal_key_order ucmp uvalid"
    and "sorted_entries (Compare (InternalKeyComparator ucmp)) entries"
    and "\<forall>e \<in> set entries. \<exists>p. ParseInternalKey (fst e) = Some p \<and> uvalid (pk_user_key p)"
    and "q \<le> kMaxSequenceNumber"
  shows "\<exists>dinv view dpos.
    list_iterator (DBIter_ops ops ucmp q) (Compare ucmp)
      (\<lambda>t. uvalid t \<and> ok (InternalKey t q kValueTypeForSeek)) dinv view dpos \<and>
    dinv (NewDBIterator it seed) \<and> sorted_run ucmp uvalid view \<and>
    (\<forall>k v. (k, v) \<in> set view \<longleftrightarrow>
       (\<exists>s \<le> q. (InternalKey k s kTypeValue, v) \<in> set entries \<and>
         (\<forall>s' t v'. (InternalKey k s' t, v') \<in> set entries \<and> s' \<le> q \<longrightarrow> s' \<le> s)))"
proof -
  have S: "db_source ops ucmp uvalid ok I entries pos q"
    using assms by (intro db_source.intro db_source_axioms.intro) auto
  show ?thesis
    by (rule exI [of _ "db_source.dinv I entries pos q"], rule exI [of _ "user_view q entries"],
        rule exI [of _ "db_source.dpos entries pos q"])
      (intro conjI allI db_source.db_list_iterator [OF S] db_source.dinv_new [OF S assms(2)]
        db_source.view_sorted [OF S] db_source.view_iff [OF S])
qed

theorem db_iterator_correct_witness:
  "it_forward (DBIter_ops (MemTableIterator BytewiseComparator example_mem) BytewiseComparator 4) 2
     (NewDBIterator MemTable_NewIterator 7) = Some [(cstr ''b'', cstr ''2''), (cstr ''c'', cstr ''4'')]"
proof -
  let ?ops = "MemTableIterator BytewiseComparator example_mem" and ?es = "map (node_entry example_mem) example_nodes"
  let ?l = "[(cstr ''b'', cstr ''2''), (cstr ''c'', cstr ''4'')]"
  have ok: "\<forall>a \<in> set (rev example_adds). add_ok (\<lambda>_. True) a" by (simp add: example_adds_def kMaxSequenceNumber_def)
  have nd: "node_inv example_nodes MemTable_NewIterator" by (simp add: node_inv_def MemTable_NewIterator_def)
  have le: "(4 :: u64) \<le> kMaxSequenceNumber" by (simp add: kMaxSequenceNumber_def)
  have ps: "\<forall>e \<in> set ?es. \<exists>p. ParseInternalKey (fst e) = Some p \<and> True" using mem_source.parses by blast
  from db_iterator_correct [OF mem_source.list_iterator_axioms nd bytewise_internal.internal_key_order_axioms
      mem_source.sorted ps le, of 7]
  obtain dinv view dpos where
    li: "list_iterator (DBIter_ops ?ops BytewiseComparator 4) (Compare BytewiseComparator)
        (\<lambda>t. True \<and> iter_ok (\<lambda>_. True) (InternalKey t 4 kValueTypeForSeek)) dinv view dpos"
      "dinv (NewDBIterator MemTable_NewIterator 7)" and srt: "sorted_run BytewiseComparator (\<lambda>_. True) view"
    and iff: "\<forall>k v. (k, v) \<in> set view \<longleftrightarrow> (\<exists>s \<le> 4. (InternalKey k s kTypeValue, v) \<in> set ?es \<and>
         (\<forall>s' t v'. (InternalKey k s' t, v') \<in> set ?es \<and> s' \<le> 4 \<longrightarrow> s' \<le> s))"
    by (elim exE conjE) (rule that; assumption)
  have E: "set ?es = add_pair ` set (rev example_adds)" by (rule bytewise_mt.holds_entries(1) [OF example_mem_holds(2)])
  have "(k, v) \<in> set view \<longleftrightarrow> newest_value 4 (set (rev example_adds)) k v" for k v
    unfolding iff [rule_format] E by (rule newest_value_entries [OF ok le])
  then have "e \<in> set view \<longleftrightarrow> e \<in> set ?l" for e
    using example_newest [of "fst e" "snd e"] by (cases e) (simp del: cstr_Cons)
  then have "set view = set ?l" by blast
  moreover have "sorted_run BytewiseComparator (\<lambda>_. True) ?l"
    by (simp add: sorted_run_def sorted_entries_def) code_simp
  ultimately have "view = ?l" using sorted_run_unique [OF bytewise.key_order_axioms srt] by blast
  with list_iterator.forward_scan [OF li(1,2), of 2] show ?thesis by simp
qed

end
