(* ===== verification/Db_View.thy ===== *)
theory Db_View
  imports Db_Iter Write_Batch
begin

text \<open>
  Write batches, the memtable and the database iterator together: what a reader sees at each
  sequence number is the map that the updates up to it make when they are applied one after
  the other.
\<close>

section \<open>Updates as a map\<close>

primrec run_update :: "update \<Rightarrow> (bytes \<rightharpoonup> bytes) \<Rightarrow> (bytes \<rightharpoonup> bytes)" where
  "run_update (Put k v) m = m(k \<mapsto> v)"
| "run_update (Delete k) m = m(k := None)"

definition run_updates :: "update list \<Rightarrow> (bytes \<rightharpoonup> bytes)" where
  "run_updates us = fold run_update us Map.empty"

primrec update_key :: "update \<Rightarrow> bytes" where
  "update_key (Put k v) = k"
| "update_key (Delete k) = k"

lemma run_updates_snoc: "run_updates (us @ [u]) = run_update u (run_updates us)"
  by (simp add: run_updates_def)

text \<open>The last update of a key decides.\<close>

lemma run_updates_last:
  "run_updates us k = Some v \<longleftrightarrow>
     (\<exists>j < length us. us ! j = Put k v \<and> (\<forall>i. j < i \<and> i < length us \<longrightarrow> update_key (us ! i) \<noteq> k))"
proof (induction us rule: rev_induct)
  case (snoc u us)
  define P where "P xs j \<longleftrightarrow> xs ! j = Put k v \<and> (\<forall>i. j < i \<and> i < length xs \<longrightarrow> update_key (xs ! i) \<noteq> k)" for xs j
  have old: "P (us @ [u]) j \<longleftrightarrow> P us j \<and> update_key u \<noteq> k" if "j < length us" for j
  proof -
    have "(\<forall>i. j < i \<and> i < Suc (length us) \<longrightarrow> update_key ((us @ [u]) ! i) \<noteq> k) \<longleftrightarrow>
        (\<forall>i. j < i \<and> i < length us \<longrightarrow> update_key ((us @ [u]) ! i) \<noteq> k) \<and> update_key u \<noteq> k"
      using that by (auto simp: less_Suc_eq)
    also have "(\<forall>i. j < i \<and> i < length us \<longrightarrow> update_key ((us @ [u]) ! i) \<noteq> k) \<longleftrightarrow>
        (\<forall>i. j < i \<and> i < length us \<longrightarrow> update_key (us ! i) \<noteq> k)"
      by (auto simp: nth_append)
    finally show ?thesis using that by (simp add: P_def nth_append)
  qed
  have new: "P (us @ [u]) (length us) \<longleftrightarrow> u = Put k v" by (auto simp: P_def)
  have IH: "run_updates us k = Some v \<longleftrightarrow> (\<exists>j < length us. P us j)" using snoc.IH by (simp add: P_def)
  have "(\<exists>j < length (us @ [u]). P (us @ [u]) j) \<longleftrightarrow> (\<exists>j < length us. P (us @ [u]) j) \<or> P (us @ [u]) (length us)"
    by (auto simp: less_Suc_eq)
  also have "\<dots> \<longleftrightarrow> (\<exists>j < length us. P us j) \<and> update_key u \<noteq> k \<or> u = Put k v"
    using old new by blast
  also have "\<dots> \<longleftrightarrow> run_updates (us @ [u]) k = Some v"
    unfolding IH [symmetric] by (cases u) (auto simp: run_updates_snoc)
  finally show ?case by (simp add: P_def)
qed (simp add: run_updates_def)

section \<open>Numbered updates\<close>

lemma length_number_from [simp]: "length (number_from s us) = length us"
  by (induction us arbitrary: s) simp_all

lemma nth_number_from: "j < length us \<Longrightarrow> number_from s us ! j = update_add (s + word_of_nat j) (us ! j)"
proof (induction us arbitrary: s j)
  case (Cons u us)
  then show ?case by (cases j) (simp_all add: add.assoc)
qed simp

lemma update_add_simps: "fst (update_add s u) = s" "fst (snd (snd (update_add s u))) = update_key u"
  by (cases u; simp)+

lemma update_add_Put: "update_add s u = (s', kTypeValue, k, v) \<longleftrightarrow> s' = s \<and> u = Put k v"
  by (cases u) auto

lemma number_in:
  "(s', t, k, v) \<in> set (number_from s us) \<longleftrightarrow>
     (\<exists>j < length us. update_add (s + word_of_nat j) (us ! j) = (s', t, k, v))"
  by (auto simp: in_set_conv_nth nth_number_from)

lemma unat_number:
  fixes s :: u64
  assumes "unat s + length us < 2 ^ 56" "j \<le> length us"
  shows "unat (s + word_of_nat j) = unat s + j"
  using assms unat_word_of_nat_small [where 'a = 64, of j] by (simp add: unat_word_ariths)

text \<open>The sequence number of the first \<open>n\<close> updates.\<close>

definition last_number :: "u64 \<Rightarrow> nat \<Rightarrow> u64" where
  "last_number s n = s + word_of_nat n - 1"

lemma number_le_last:
  assumes "unat s + length us < 2 ^ 56" "0 < unat s" "j \<le> length us" "n \<le> length us"
  shows "s + word_of_nat j \<le> last_number s n \<longleftrightarrow> j < n" "unat (last_number s n) = unat s + n - 1"
proof -
  have "1 \<le> s + word_of_nat n" using assms unat_number [OF assms(1,4)] by (simp add: word_le_nat_alt)
  then show u: "unat (last_number s n) = unat s + n - 1"
    using unat_number [OF assms(1,4)] by (simp add: last_number_def unat_sub)
  show "s + word_of_nat j \<le> last_number s n \<longleftrightarrow> j < n"
    unfolding word_le_nat_alt u unat_number [OF assms(1,3)] using assms(2) by linarith
qed

lemma newest_value_number:
  assumes "unat s + length us < 2 ^ 56" "0 < unat s" "n \<le> length us"
  shows "newest_value (last_number s n) (set (number_from s us)) k v \<longleftrightarrow> run_updates (take n us) k = Some v"
proof -
  note le = number_le_last(1) [OF assms(1,2) _ assms(3)]
  have mono: "s + word_of_nat i \<le> s + word_of_nat j \<longleftrightarrow> i \<le> j" if "i \<le> length us" "j \<le> length us" for i j
    using unat_number [OF assms(1)] that by (simp add: word_le_nat_alt)
  have all: "(\<forall>s' t v'. (s', t, k, v') \<in> set (number_from s us) \<and> s' \<le> last_number s n \<longrightarrow> s' \<le> s + word_of_nat j) \<longleftrightarrow>
      (\<forall>i. j < i \<and> i < n \<longrightarrow> update_key (us ! i) \<noteq> k)" if j: "j < length us" for j
  proof (intro iffI allI impI)
    fix i
    assume a: "\<forall>s' t v'. (s', t, k, v') \<in> set (number_from s us) \<and> s' \<le> last_number s n \<longrightarrow> s' \<le> s + word_of_nat j"
      and i: "j < i \<and> i < n"
    obtain t v' where u: "update_add (s + word_of_nat i) (us ! i) = (s + word_of_nat i, t, update_key (us ! i), v')"
      by (cases "us ! i") auto
    then have "(s + word_of_nat i, t, update_key (us ! i), v') \<in> set (number_from s us)"
      unfolding number_in using i assms(3) by (intro exI [of _ i]) simp
    moreover have "s + word_of_nat i \<le> last_number s n" using le [of i] i assms(3) by simp
    moreover have "\<not> s + word_of_nat i \<le> s + word_of_nat j" using mono [of i j] i j assms(3) by simp
    ultimately show "update_key (us ! i) \<noteq> k" using a by blast
  next
    fix s' t v'
    assume a: "\<forall>i. j < i \<and> i < n \<longrightarrow> update_key (us ! i) \<noteq> k"
      and m: "(s', t, k, v') \<in> set (number_from s us) \<and> s' \<le> last_number s n"
    then obtain i where i: "i < length us" "update_add (s + word_of_nat i) (us ! i) = (s', t, k, v')"
      unfolding number_in by blast
    have e: "s' = s + word_of_nat i" "update_key (us ! i) = k"
      using update_add_simps [of "s + word_of_nat i" "us ! i"] i(2) by simp_all
    then have "i < n" using m le [of i] i(1) by simp
    with a e(2) have "\<not> j < i" by blast
    then show "s' \<le> s + word_of_nat j" using e(1) mono [of i j] i(1) j by simp
  qed
  have put: "(s', kTypeValue, k, v) \<in> set (number_from s us) \<longleftrightarrow> (\<exists>j < length us. s' = s + word_of_nat j \<and> us ! j = Put k v)" for s'
    by (auto simp: number_in update_add_Put)
  have "newest_value (last_number s n) (set (number_from s us)) k v \<longleftrightarrow>
      (\<exists>j < length us. s + word_of_nat j \<le> last_number s n \<and> us ! j = Put k v \<and>
        (\<forall>s' t v'. (s', t, k, v') \<in> set (number_from s us) \<and> s' \<le> last_number s n \<longrightarrow> s' \<le> s + word_of_nat j))"
    unfolding newest_value_def put by blast
  also have "\<dots> \<longleftrightarrow> (\<exists>j < length us. j < n \<and> us ! j = Put k v \<and> (\<forall>i. j < i \<and> i < n \<longrightarrow> update_key (us ! i) \<noteq> k))"
    using le all by (intro iff_exI conj_cong refl) auto
  also have "\<dots> \<longleftrightarrow> run_updates (take n us) k = Some v"
    unfolding run_updates_last using assms(3) by (intro iff_exI) (auto simp: min_def)
  finally show ?thesis .
qed

section \<open>Batches in a memtable\<close>

lemma number_add_ok:
  assumes "\<forall>u \<in> set us. update_ok u" "unat s + length us < 2 ^ 56" "a \<in> set (number_from s us)"
  shows "add_ok (\<lambda>_. True) a"
proof -
  from assms(3) obtain j where j: "j < length us" "a = update_add (s + word_of_nat j) (us ! j)"
    by (auto simp: in_set_conv_nth nth_number_from)
  have "s + word_of_nat j \<le> kMaxSequenceNumber"
    using unat_number [OF assms(2), of j] j(1) assms(2) by (simp add: word_le_nat_alt unat_kMaxSequenceNumber)
  moreover have "update_ok (us ! j)" using assms(1) nth_mem [OF j(1)] by blast
  ultimately show ?thesis using j(2) by (cases "us ! j") auto
qed

lemma number_distinct:
  assumes "\<forall>u \<in> set us. update_ok u" "unat s + length us < 2 ^ 56"
  shows "distinct (map fst (number_from s us))" "distinct (map add_ikey (number_from s us))"
proof -
  have nth: "map fst (number_from s us) ! j = s + word_of_nat j" if "j < length us" for j
    using that by (simp add: nth_number_from update_add_simps)
  show d: "distinct (map fst (number_from s us))"
    unfolding distinct_conv_nth
  proof (intro allI impI)
    fix i j
    assume ij: "i < length (map fst (number_from s us))" "j < length (map fst (number_from s us))" "i \<noteq> j"
    then have "unat (s + word_of_nat i) \<noteq> unat (s + word_of_nat j)" using unat_number [OF assms(2)] by simp
    then show "map fst (number_from s us) ! i \<noteq> map fst (number_from s us) ! j" using nth ij by auto
  qed
  have "map (\<lambda>k. pk_sequence (the (ParseInternalKey k))) (map add_ikey (number_from s us)) = map fst (number_from s us)"
    using number_add_ok [OF assms] by (auto simp: ParseInternalKey_InternalKey)
  with d show "distinct (map add_ikey (number_from s us))" by (metis distinct_map)
qed

lemma number_keys_distinct:
  assumes "\<forall>u \<in> set us. update_ok u" "unat s + length us < 2 ^ 56"
  shows "distinct (map (\<lambda>(s, t, k, v). (k, s)) (rev (number_from s us)))"
proof -
  have "map snd (map (\<lambda>(s, t, k, v). (k, s)) (rev (number_from s us))) = rev (map fst (number_from s us))"
    by (simp add: rev_map comp_def split_beta)
  with number_distinct(1) [OF assms] show ?thesis by (metis distinct_map distinct_rev)
qed

text \<open>A memtable that holds the numbered updates shows their map at every sequence number.\<close>

lemma memtable_shows:
  assumes "\<forall>u \<in> set us. update_ok u" "unat s + length us < 2 ^ 56" "0 < unat s" "n \<le> length us"
    and "bytewise_mt.holds m (rev (number_from s us)) ns"
  defines "ops \<equiv> DBIter_ops (MemTableIterator BytewiseComparator m) BytewiseComparator (last_number s n)"
  obtains inv view pos where "list_iterator ops (Compare BytewiseComparator)
      (\<lambda>t. True \<and> iter_ok (\<lambda>_. True) (InternalKey t (last_number s n) kValueTypeForSeek)) inv view pos"
    "\<And>seed. inv (NewDBIterator MemTable_NewIterator seed)" "sorted_run BytewiseComparator (\<lambda>_. True) view"
    "length view \<le> length us"
    "\<And>k v. (k, v) \<in> set view \<longleftrightarrow> run_updates (take n us) k = Some v"
proof -
  let ?q = "last_number s n" and ?es = "map (node_entry m) ns"
  have q: "?q \<le> kMaxSequenceNumber"
    using number_le_last(2) [OF assms(2,3) order_refl assms(4)] assms(2,4)
    by (simp add: word_le_nat_alt unat_kMaxSequenceNumber)
  have ok: "\<forall>a \<in> set (rev (number_from s us)). add_ok (\<lambda>_. True) a" using number_add_ok [OF assms(1,2)] by simp
  note S = bytewise_mt.memtable_source [OF assms(5) q]
  have "node_inv ns MemTable_NewIterator" by (simp add: node_inv_def MemTable_NewIterator_def)
  note new = db_source.dinv_new [OF S this]
  have len: "length (user_view ?q ?es) \<le> length us"
    using bytewise_mt.holds_length [OF assms(5)] length_filter_le [of "shown ?q ?es" "[0..<length ?es]"]
    by (simp add: user_view_def)
  have "(k, v) \<in> set (user_view ?q ?es) \<longleftrightarrow> run_updates (take n us) k = Some v" for k v
    unfolding db_source.view_iff [OF S] bytewise_mt.holds_entries(1) [OF assms(5)] newest_value_entries [OF ok q]
    using newest_value_number [OF assms(2-4), of k v] by simp
  from that [OF db_source.db_list_iterator [OF S, folded ops_def] new db_source.view_sorted [OF S] len this] show thesis .
qed

lemma run_updates_absent: "\<forall>u \<in> set us. update_key u \<noteq> k \<Longrightarrow> run_updates us k = None"
proof (rule ccontr)
  assume a: "\<forall>u \<in> set us. update_key u \<noteq> k" "run_updates us k \<noteq> None"
  then obtain v j where "j < length us" "us ! j = Put k v" by (auto simp: run_updates_last)
  with a(1) nth_mem [of j us] show False by auto
qed

text \<open>
  A lookup at a number \<open>q\<close> that covers the first \<open>n\<close> updates finds the last of them for its key. If
  there is none, the memtable does not decide.
\<close>

definition get_result :: "update list \<Rightarrow> bytes \<Rightarrow> bytes \<Rightarrow> Status \<Rightarrow> bool \<times> bytes \<times> Status" where
  "get_result us k v0 st0 =
     (if list_ex (\<lambda>u. update_key u = k) us
      then (case run_updates us k of Some v \<Rightarrow> (True, v, st0) | None \<Rightarrow> (True, v0, NotFound [] []))
      else (False, v0, st0))"

lemma memtable_get_exact:
  assumes "\<forall>u \<in> set us. update_ok u" "unat s + length us < 2 ^ 56" "0 < unat s" "n \<le> length us"
    and "bytewise_mt.holds m (rev (number_from s us)) ns" "length k + 8 < 2 ^ 32"
    and q: "q \<le> kMaxSequenceNumber" and covers: "\<And>j. j < length us \<Longrightarrow> s + word_of_nat j \<le> q \<longleftrightarrow> j < n"
  shows "MemTable_Get BytewiseComparator (mkLookupKey k q) m v0 st0 = Some (get_result (take n us) k v0 st0)"
proof -
  let ?adds = "rev (number_from s us)"
  let ?J = "{j. j < n \<and> update_key (us ! j) = k}"
  have ex: "list_ex (\<lambda>u. update_key u = k) (take n us) \<longleftrightarrow> ?J \<noteq> {}"
    using assms(4) by (auto simp: list_ex_length)
  have at: "\<exists>j. j \<in> ?J \<and> s' = s + word_of_nat j" if "(s', t, k, v) \<in> set ?adds" "s' \<le> q" for s' t v
  proof -
    from that(1) obtain j where j: "j < length us" "update_add (s + word_of_nat j) (us ! j) = (s', t, k, v)"
      by (auto simp: number_in)
    with update_add_simps [of "s + word_of_nat j" "us ! j"] have "s' = s + word_of_nat j" "update_key (us ! j) = k" by simp_all
    with that(2) covers [OF j(1)] show ?thesis by auto
  qed
  show ?thesis
  proof (cases "?J = {}")
    case True
    have "\<forall>(s', t, k', v) \<in> set ?adds. k' = k \<longrightarrow> q < s'" using at True by (fastforce simp: not_le [symmetric])
    from bytewise_mt.MemTable_Get_absent [OF assms(5,6) TrueI q this] show ?thesis using True ex by (simp add: get_result_def)
  next
    case False
    define j where "j = Max ?J"
    have fin: "finite ?J" by simp
    have j: "j < n" "update_key (us ! j) = k" using Max_in [OF fin False] by (auto simp: j_def)
    have mx: "i \<le> j" if "i \<in> ?J" for i using Max_ge [OF fin that] by (simp add: j_def)
    obtain t v where u: "update_add (s + word_of_nat j) (us ! j) = (s + word_of_nat j, t, k, v)"
      using j(2) by (cases "us ! j") auto
    have mem: "(s + word_of_nat j, t, k, v) \<in> set ?adds"
      unfolding set_rev number_in using u j(1) assms(4) by (intro exI [of _ j]) simp
    have le: "s + word_of_nat j \<le> q" using covers [of j] j(1) assms(4) by simp
    have newest: "\<forall>(s', t', k', v') \<in> set ?adds. k' = k \<and> s' \<le> q \<longrightarrow> s' \<le> s + word_of_nat j"
    proof (clarify)
      fix s' t' v' assume a: "(s', t', k, v') \<in> set ?adds" "s' \<le> q"
      from at [OF a] obtain i where i: "i \<in> ?J" "s' = s + word_of_nat i" by blast
      then show "s' \<le> s + word_of_nat j"
        using mx [OF i(1)] unat_number [OF assms(2), of i] unat_number [OF assms(2), of j] j(1) assms(4) by (simp add: word_le_nat_alt)
    qed
    have "distinct (map (\<lambda>(s, t, k, v). (k, s)) ?adds)"
      by (rule number_keys_distinct [OF assms(1,2)])
    note get = bytewise_mt.MemTable_Get_newest [OF assms(5,6) TrueI q this mem le newest]
    have "\<not> (j < i \<and> update_key (us ! i) = k)" if "i < n" for i using mx [of i] that by auto
    then have later: "\<forall>i. j < i \<and> i < n \<longrightarrow> update_key (us ! i) \<noteq> k" by blast
    have run: "run_updates (take n us) k = Some w \<longleftrightarrow> us ! j = Put k w" for w
    proof
      assume "run_updates (take n us) k = Some w"
      then obtain i where i: "i < n" "us ! i = Put k w" "\<forall>l. i < l \<and> l < n \<longrightarrow> update_key (us ! l) \<noteq> k"
        using assms(4) unfolding run_updates_last by (auto simp: min_def split: if_splits)
      have "\<not> i < j" "\<not> j < i" using i j later by auto
      with i(2) show "us ! j = Put k w" by (simp add: not_less)
    next
      assume "us ! j = Put k w"
      with j(1) later assms(4) show "run_updates (take n us) k = Some w"
        unfolding run_updates_last by (intro exI [of _ j]) simp
    qed
    show ?thesis
    proof (cases "us ! j")
      case (Put k' w)
      then show ?thesis using get u j(2) run [of w] ex False by (auto simp: get_result_def)
    next
      case (Delete k')
      then have "run_updates (take n us) k = None" using run by (cases "run_updates (take n us) k") auto
      then show ?thesis using get u Delete ex False by (auto simp: get_result_def)
    qed
  qed
qed

lemma memtable_get:
  assumes "\<forall>u \<in> set us. update_ok u" "unat s + length us < 2 ^ 56" "0 < unat s" "n \<le> length us"
    and "bytewise_mt.holds m (rev (number_from s us)) ns" "length k + 8 < 2 ^ 32"
  shows "MemTable_Get BytewiseComparator (mkLookupKey k (last_number s n)) m v0 st0 \<in>
    (case run_updates (take n us) k of
       Some v \<Rightarrow> {Some (True, v, st0)}
     | None \<Rightarrow> {Some (False, v0, st0), Some (True, v0, NotFound [] [])})"
proof -
  have q: "last_number s n \<le> kMaxSequenceNumber"
    using number_le_last(2) [OF assms(2,3) order_refl assms(4)] assms(2,4)
    by (simp add: word_le_nat_alt unat_kMaxSequenceNumber)
  have covers: "s + word_of_nat j \<le> last_number s n \<longleftrightarrow> j < n" if "j < length us" for j
    using number_le_last(1) [OF assms(2,3) _ assms(4)] that by simp
  have "run_updates (take n us) k = None" if "\<not> list_ex (\<lambda>u. update_key u = k) (take n us)"
    using that by (intro run_updates_absent) (simp add: list_ex_iff)
  then show ?thesis
    using memtable_get_exact [OF assms q covers, of v0 st0]
    by (auto simp: get_result_def split: option.splits)
qed

section \<open>Correctness\<close>

text \<open>
  C3. Readers see snapshots. After a write batch has been inserted into an empty memtable, a
  database iterator at the sequence number of its \<open>n\<close>-th update shows exactly the map that the
  first \<open>n\<close> updates make, sorted by key and in both directions, and \<open>Get\<close> at that number agrees
  with it: it finds the value, or else nothing or a deletion. Later updates are not visible.
\<close>

theorem snapshot_reads:
  assumes "\<forall>u \<in> set us. update_ok u" "0 < unat s" "unat s + length us < 2 ^ 56"
  shows "\<exists>m. InsertInto BytewiseComparator (batch_of s us) MemTable_new = Some (m, OK) \<and>
    (\<forall>n \<le> length us. \<exists>view.
      sorted_run BytewiseComparator (\<lambda>_. True) view \<and>
      (\<forall>k v. (k, v) \<in> set view \<longleftrightarrow> run_updates (take n us) k = Some v) \<and>
      (\<forall>seed. it_forward (DBIter_ops (MemTableIterator BytewiseComparator m) BytewiseComparator (last_number s n))
          (length us) (NewDBIterator MemTable_NewIterator seed) = Some view) \<and>
      (\<forall>seed. it_backward (DBIter_ops (MemTableIterator BytewiseComparator m) BytewiseComparator (last_number s n))
          (length us) (NewDBIterator MemTable_NewIterator seed) = Some (rev view)) \<and>
      (\<forall>k v0 st0. length k + 8 < 2 ^ 32 \<longrightarrow>
        MemTable_Get BytewiseComparator (mkLookupKey k (last_number s n)) m v0 st0 \<in>
          (case run_updates (take n us) k of
             Some v \<Rightarrow> {Some (True, v, st0)}
           | None \<Rightarrow> {Some (False, v0, st0), Some (True, v0, NotFound [] [])})))"
proof -
  have ok: "\<forall>a \<in> set (number_from s us). add_ok (\<lambda>_. True) a" using number_add_ok [OF assms(1,3)] by blast
  from bytewise_mt.holds_Adds [OF bytewise_mt.holds_new ok] number_distinct(2) [OF assms(1,3)] obtain m ns where
    m: "MemTable_Adds BytewiseComparator (number_from s us) MemTable_new = Some m"
      "bytewise_mt.holds m (rev (number_from s us)) ns" by auto
  have "InsertInto BytewiseComparator (batch_of s us) MemTable_new = Some (m, OK)"
    using InsertInto_batch [OF assms(1)] m(1) by (simp add: batch_of_layout)
  moreover have "\<exists>view. sorted_run BytewiseComparator (\<lambda>_. True) view \<and>
      (\<forall>k v. (k, v) \<in> set view \<longleftrightarrow> run_updates (take n us) k = Some v) \<and>
      (\<forall>seed. it_forward (DBIter_ops (MemTableIterator BytewiseComparator m) BytewiseComparator (last_number s n))
          (length us) (NewDBIterator MemTable_NewIterator seed) = Some view) \<and>
      (\<forall>seed. it_backward (DBIter_ops (MemTableIterator BytewiseComparator m) BytewiseComparator (last_number s n))
          (length us) (NewDBIterator MemTable_NewIterator seed) = Some (rev view))" if n: "n \<le> length us" for n
  proof -
    obtain inv view pos where v: "list_iterator (DBIter_ops (MemTableIterator BytewiseComparator m) BytewiseComparator (last_number s n))
        (Compare BytewiseComparator) (\<lambda>t. True \<and> iter_ok (\<lambda>_. True) (InternalKey t (last_number s n) kValueTypeForSeek)) inv view pos"
      "\<And>seed. inv (NewDBIterator MemTable_NewIterator seed)" "sorted_run BytewiseComparator (\<lambda>_. True) view"
      "length view \<le> length us" "\<And>k v. (k, v) \<in> set view \<longleftrightarrow> run_updates (take n us) k = Some v"
      by (rule memtable_shows [OF assms(1,3,2) n m(2)]) blast
    show ?thesis
      by (rule exI [of _ view]) (intro conjI allI v(3,5) list_iterator.forward_scan [OF v(1,2,4)]
        list_iterator.backward_scan [OF v(1,2,4)])
  qed
  moreover note get = memtable_get [OF assms(1,3,2) _ m(2)]
  ultimately show ?thesis
  proof (intro exI [of _ m] conjI allI impI, goal_cases)
    case (2 n)
    from 2(2) [OF 2(4)] obtain view where "sorted_run BytewiseComparator (\<lambda>_. True) view \<and>
      (\<forall>k v. (k, v) \<in> set view \<longleftrightarrow> run_updates (take n us) k = Some v) \<and>
      (\<forall>seed. it_forward (DBIter_ops (MemTableIterator BytewiseComparator m) BytewiseComparator (last_number s n))
          (length us) (NewDBIterator MemTable_NewIterator seed) = Some view) \<and>
      (\<forall>seed. it_backward (DBIter_ops (MemTableIterator BytewiseComparator m) BytewiseComparator (last_number s n))
          (length us) (NewDBIterator MemTable_NewIterator seed) = Some (rev view))" by (elim exE)
    then show ?case using get [OF 2(4)] by (intro exI [of _ view] conjI allI impI) blast+
  qed
qed

theorem snapshot_reads_witness:
  "\<exists>m. InsertInto BytewiseComparator (batch_of 5 [Put (cstr ''a'') (cstr ''1''), Delete (cstr ''a'')]) MemTable_new =
      Some (m, OK) \<and>
    it_forward (DBIter_ops (MemTableIterator BytewiseComparator m) BytewiseComparator 5) 2
      (NewDBIterator MemTable_NewIterator 301) = Some [(cstr ''a'', cstr ''1'')] \<and>
    it_forward (DBIter_ops (MemTableIterator BytewiseComparator m) BytewiseComparator 6) 2
      (NewDBIterator MemTable_NewIterator 301) = Some []"
proof -
  let ?us = "[Put (cstr ''a'') (cstr ''1''), Delete (cstr ''a'')]"
  have "\<forall>u \<in> set ?us. update_ok u" "0 < unat (5 :: u64)" "unat (5 :: u64) + length ?us < 2 ^ 56" by simp_all
  from snapshot_reads [OF this] obtain m where
    m: "InsertInto BytewiseComparator (batch_of 5 ?us) MemTable_new = Some (m, OK)"
    and v: "\<forall>n \<le> length ?us. \<exists>view.
      sorted_run BytewiseComparator (\<lambda>_. True) view \<and>
      (\<forall>k v. (k, v) \<in> set view \<longleftrightarrow> run_updates (take n ?us) k = Some v) \<and>
      (\<forall>seed. it_forward (DBIter_ops (MemTableIterator BytewiseComparator m) BytewiseComparator (last_number 5 n))
          (length ?us) (NewDBIterator MemTable_NewIterator seed) = Some view) \<and>
      (\<forall>seed. it_backward (DBIter_ops (MemTableIterator BytewiseComparator m) BytewiseComparator (last_number 5 n))
          (length ?us) (NewDBIterator MemTable_NewIterator seed) = Some (rev view)) \<and>
      (\<forall>k v0 st0. length k + 8 < 2 ^ 32 \<longrightarrow>
        MemTable_Get BytewiseComparator (mkLookupKey k (last_number 5 n)) m v0 st0 \<in>
          (case run_updates (take n ?us) k of
             Some v \<Rightarrow> {Some (True, v, st0)}
           | None \<Rightarrow> {Some (False, v0, st0), Some (True, v0, NotFound [] [])}))"
    by (elim exE conjE) (rule that; assumption)
  have l: "last_number 5 1 = 5" "last_number 5 2 = 6" "(1 :: nat) \<le> length ?us" "(2 :: nat) \<le> length ?us" "length ?us = 2"
    by (simp_all add: last_number_def)
  from v [rule_format, OF l(3), unfolded l] obtain view where
    a: "\<forall>k v. (k, v) \<in> set view \<longleftrightarrow> run_updates (take 1 ?us) k = Some v" "sorted_run BytewiseComparator (\<lambda>_. True) view"
    "\<forall>seed. it_forward (DBIter_ops (MemTableIterator BytewiseComparator m) BytewiseComparator 5) 2
        (NewDBIterator MemTable_NewIterator seed) = Some view" by (elim exE conjE) (rule that; assumption)
  have r: "run_updates (take 1 ?us) k = Some w \<longleftrightarrow> k = cstr ''a'' \<and> w = cstr ''1''" "run_updates ?us k = None" for k w
    by (auto simp: run_updates_def simp del: cstr_Cons)
  have "set view = set [(cstr ''a'', cstr ''1'')]"
    using a(1) unfolding r by (auto simp del: cstr_Cons)
  then have "view = [(cstr ''a'', cstr ''1'')]"
    by (intro sorted_run_unique [OF bytewise.key_order_axioms a(2)]) (simp_all add: sorted_run_def sorted_entries_def)
  moreover from v [rule_format, OF l(4), unfolded l] obtain view' where
    b: "\<forall>k v. (k, v) \<in> set view' \<longleftrightarrow> run_updates (take 2 ?us) k = Some v"
    "\<forall>seed. it_forward (DBIter_ops (MemTableIterator BytewiseComparator m) BytewiseComparator 6) 2
        (NewDBIterator MemTable_NewIterator seed) = Some view'" by (elim exE conjE) (rule that; assumption)
  have "take 2 ?us = ?us" by simp
  then have "view' = []" using b(1) r(2) by (cases view') (auto simp del: cstr_Cons)
  ultimately show ?thesis using m a(3) b(2) by blast
qed

end
