(* ===== verification/Version_Edit.thy ===== *)
theory Version_Edit
  imports Dbformat Readers Status "HOL-Library.Product_Lexorder"
begin

text \<open>
  \<open>db/version_edit.h\<close>, \<open>db/version_edit.cc\<close>: the records of the manifest. An edit is a record
  of its fields; the ordered set of deleted files is the sorted list of its elements. An
  \<open>InternalKey\<close> is its string.
\<close>

section \<open>Edits\<close>

datatype Tag = kComparator | kLogNumber | kNextFileNumber | kLastSequence | kCompactPointer
  | kDeletedFile | kNewFile | kPrevLogNumber

primrec Tag_val :: "Tag \<Rightarrow> u32" where
  "Tag_val kComparator = 1"
| "Tag_val kLogNumber = 2"
| "Tag_val kNextFileNumber = 3"
| "Tag_val kLastSequence = 4"
| "Tag_val kCompactPointer = 5"
| "Tag_val kDeletedFile = 6"
| "Tag_val kNewFile = 7"
| "Tag_val kPrevLogNumber = 9"

definition Tag_of :: "u32 \<Rightarrow> Tag option" where
  "Tag_of tag = List.find (\<lambda>t. Tag_val t = tag)
     [kComparator, kLogNumber, kNextFileNumber, kLastSequence, kCompactPointer, kDeletedFile,
      kNewFile, kPrevLogNumber]"

definition kNumLevels :: u32 where "kNumLevels = 7"

record FileMetaData =
  fmd_refs :: int
  fmd_allowed_seeks :: int
  fmd_number :: u64
  fmd_file_size :: u64
  fmd_smallest :: bytes
  fmd_largest :: bytes

record VersionEdit =
  ve_comparator :: bytes
  ve_log_number :: u64
  ve_prev_log_number :: u64
  ve_next_file_number :: u64
  ve_last_sequence :: u64
  ve_has_comparator :: bool
  ve_has_log_number :: bool
  ve_has_prev_log_number :: bool
  ve_has_next_file_number :: bool
  ve_has_last_sequence :: bool
  ve_compact_pointers :: "(int \<times> bytes) list"
  ve_deleted_files :: "(int \<times> u64) list"
  ve_new_files :: "(int \<times> FileMetaData) list"

definition VersionEdit_Clear :: "VersionEdit \<Rightarrow> VersionEdit" where
  "VersionEdit_Clear e =
     e\<lparr> ve_comparator := [], ve_log_number := 0, ve_prev_log_number := 0, ve_last_sequence := 0,
        ve_next_file_number := 0, ve_has_comparator := False, ve_has_log_number := False,
        ve_has_prev_log_number := False, ve_has_next_file_number := False,
        ve_has_last_sequence := False, ve_deleted_files := [], ve_new_files := [] \<rparr>"

definition VersionEdit_new :: VersionEdit where
  "VersionEdit_new =
     \<lparr> ve_comparator = [], ve_log_number = 0, ve_prev_log_number = 0, ve_next_file_number = 0,
       ve_last_sequence = 0, ve_has_comparator = False, ve_has_log_number = False,
       ve_has_prev_log_number = False, ve_has_next_file_number = False, ve_has_last_sequence = False,
       ve_compact_pointers = [], ve_deleted_files = [], ve_new_files = [] \<rparr>"

definition SetComparatorName :: "bytes \<Rightarrow> VersionEdit \<Rightarrow> VersionEdit" where
  "SetComparatorName name e = e\<lparr> ve_has_comparator := True, ve_comparator := name \<rparr>"

definition SetLogNumber :: "u64 \<Rightarrow> VersionEdit \<Rightarrow> VersionEdit" where
  "SetLogNumber num e = e\<lparr> ve_has_log_number := True, ve_log_number := num \<rparr>"

definition SetPrevLogNumber :: "u64 \<Rightarrow> VersionEdit \<Rightarrow> VersionEdit" where
  "SetPrevLogNumber num e = e\<lparr> ve_has_prev_log_number := True, ve_prev_log_number := num \<rparr>"

definition SetNextFile :: "u64 \<Rightarrow> VersionEdit \<Rightarrow> VersionEdit" where
  "SetNextFile num e = e\<lparr> ve_has_next_file_number := True, ve_next_file_number := num \<rparr>"

definition SetLastSequence :: "u64 \<Rightarrow> VersionEdit \<Rightarrow> VersionEdit" where
  "SetLastSequence seq e = e\<lparr> ve_has_last_sequence := True, ve_last_sequence := seq \<rparr>"

definition SetCompactPointer :: "int \<Rightarrow> bytes \<Rightarrow> VersionEdit \<Rightarrow> VersionEdit" where
  "SetCompactPointer level key e = e\<lparr> ve_compact_pointers := ve_compact_pointers e @ [(level, key)] \<rparr>"

definition AddFile :: "int \<Rightarrow> u64 \<Rightarrow> u64 \<Rightarrow> bytes \<Rightarrow> bytes \<Rightarrow> VersionEdit \<Rightarrow> VersionEdit" where
  "AddFile level file file_size smallest largest e =
     e\<lparr> ve_new_files := ve_new_files e @
          [(level, \<lparr> fmd_refs = 0, fmd_allowed_seeks = 2 ^ 30, fmd_number = file, fmd_file_size = file_size,
                     fmd_smallest = smallest, fmd_largest = largest \<rparr>)] \<rparr>"

definition DeleteFile_edit :: "int \<Rightarrow> u64 \<Rightarrow> VersionEdit \<Rightarrow> VersionEdit" where
  "DeleteFile_edit level file e = e\<lparr> ve_deleted_files := insort_insert (level, file) (ve_deleted_files e) \<rparr>"

section \<open>Encoding\<close>

definition put_compact_pointer :: "int \<times> bytes \<Rightarrow> bytes \<Rightarrow> bytes" where
  "put_compact_pointer p dst =
     PutLengthPrefixedSlice
       (PutVarint32 (PutVarint32 dst (Tag_val kCompactPointer)) (word_of_int (fst p))) (snd p)"

definition put_deleted_file :: "int \<times> u64 \<Rightarrow> bytes \<Rightarrow> bytes" where
  "put_deleted_file p dst =
     PutVarint64 (PutVarint32 (PutVarint32 dst (Tag_val kDeletedFile)) (word_of_int (fst p))) (snd p)"

definition put_new_file :: "int \<times> FileMetaData \<Rightarrow> bytes \<Rightarrow> bytes" where
  "put_new_file p dst =
     (let f = snd p;
          dst = PutVarint32 dst (Tag_val kNewFile);
          dst = PutVarint32 dst (word_of_int (fst p));
          dst = PutVarint64 dst (fmd_number f);
          dst = PutVarint64 dst (fmd_file_size f);
          dst = PutLengthPrefixedSlice dst (fmd_smallest f)
      in PutLengthPrefixedSlice dst (fmd_largest f))"

definition VersionEdit_EncodeTo :: "VersionEdit \<Rightarrow> bytes \<Rightarrow> bytes" where
  "VersionEdit_EncodeTo e dst =
     (let dst = (if ve_has_comparator e
                 then PutLengthPrefixedSlice (PutVarint32 dst (Tag_val kComparator)) (ve_comparator e) else dst);
          dst = (if ve_has_log_number e
                 then PutVarint64 (PutVarint32 dst (Tag_val kLogNumber)) (ve_log_number e) else dst);
          dst = (if ve_has_prev_log_number e
                 then PutVarint64 (PutVarint32 dst (Tag_val kPrevLogNumber)) (ve_prev_log_number e) else dst);
          dst = (if ve_has_next_file_number e
                 then PutVarint64 (PutVarint32 dst (Tag_val kNextFileNumber)) (ve_next_file_number e) else dst);
          dst = (if ve_has_last_sequence e
                 then PutVarint64 (PutVarint32 dst (Tag_val kLastSequence)) (ve_last_sequence e) else dst);
          dst = fold put_compact_pointer (ve_compact_pointers e) dst;
          dst = fold put_deleted_file (ve_deleted_files e) dst
      in fold put_new_file (ve_new_files e) dst)"

section \<open>Decoding\<close>

definition GetInternalKey :: "bytes \<Rightarrow> (bytes \<times> bytes) option" where
  "GetInternalKey input = GetLengthPrefixedSlice input"

definition GetLevel :: "bytes \<Rightarrow> (int \<times> bytes) option" where
  "GetLevel input =
     (case GetVarint32 input of
        None \<Rightarrow> None
      | Some (v, input) \<Rightarrow> if v < kNumLevels then Some (uint v, input) else None)"

text \<open>One field behind its tag: the edit and the rest of the input, or \<open>msg\<close>.\<close>

definition or_msg :: "string \<Rightarrow> ('a \<times> bytes) option \<Rightarrow> ('a \<Rightarrow> VersionEdit) \<Rightarrow> bytes + VersionEdit \<times> bytes" where
  "or_msg msg r f = (case r of None \<Rightarrow> Inl (cstr msg) | Some (x, input) \<Rightarrow> Inr (f x, input))"

definition decode_field :: "u32 \<Rightarrow> VersionEdit \<Rightarrow> bytes \<Rightarrow> bytes + VersionEdit \<times> bytes" where
  "decode_field tag e input =
     (case Tag_of tag of
        Some kComparator \<Rightarrow>
          or_msg ''comparator name'' (GetLengthPrefixedSlice input) (\<lambda>str. SetComparatorName str e)
      | Some kLogNumber \<Rightarrow> or_msg ''log number'' (GetVarint64 input) (\<lambda>n. SetLogNumber n e)
      | Some kPrevLogNumber \<Rightarrow> or_msg ''previous log number'' (GetVarint64 input) (\<lambda>n. SetPrevLogNumber n e)
      | Some kNextFileNumber \<Rightarrow> or_msg ''next file number'' (GetVarint64 input) (\<lambda>n. SetNextFile n e)
      | Some kLastSequence \<Rightarrow> or_msg ''last sequence number'' (GetVarint64 input) (\<lambda>n. SetLastSequence n e)
      | Some kCompactPointer \<Rightarrow>
          or_msg ''compaction pointer''
            (Option.bind (GetLevel input) (\<lambda>(level, input).
             Option.bind (GetInternalKey input) (\<lambda>(key, input). Some ((level, key), input))))
            (\<lambda>(level, key). SetCompactPointer level key e)
      | Some kDeletedFile \<Rightarrow>
          or_msg ''deleted file''
            (Option.bind (GetLevel input) (\<lambda>(level, input).
             Option.bind (GetVarint64 input) (\<lambda>(number, input). Some ((level, number), input))))
            (\<lambda>(level, number). DeleteFile_edit level number e)
      | Some kNewFile \<Rightarrow>
          or_msg ''new-file entry''
            (Option.bind (GetLevel input) (\<lambda>(level, input).
             Option.bind (GetVarint64 input) (\<lambda>(number, input).
             Option.bind (GetVarint64 input) (\<lambda>(file_size, input).
             Option.bind (GetInternalKey input) (\<lambda>(smallest, input).
             Option.bind (GetInternalKey input) (\<lambda>(largest, input).
               Some ((level, number, file_size, smallest, largest), input)))))))
            (\<lambda>(level, number, file_size, smallest, largest). AddFile level number file_size smallest largest e)
      | None \<Rightarrow> Inl (cstr ''unknown tag''))"

lemma GetLevel_shorter: "GetLevel p = Some (l, q) \<Longrightarrow> length q < length p"
  using varint32.read_shorter [of p] by (auto simp: GetLevel_def split: option.splits if_splits)

lemma decode_field_shorter:
  assumes "decode_field tag e p = Inr (e', q)"
  shows "length q < length p"
proof -
  note sh = varint64.read_shorter prefixed.read_shorter GetLevel_shorter
  from assms show ?thesis
    by (cases "Tag_of tag")
      (auto simp: decode_field_def or_msg_def GetInternalKey_def bind_eq_Some_conv
        split: Tag.splits option.splits dest!: sh)
qed

text \<open>The loop returns the edit, \<open>msg\<close> if it is set, and the rest of the input.\<close>

function DecodeFrom_loop :: "VersionEdit \<Rightarrow> bytes \<Rightarrow> VersionEdit \<times> bytes option \<times> bytes" where
  "DecodeFrom_loop e input =
     (case GetVarint32 input of
        None \<Rightarrow> (e, None, input)
      | Some (tag, input) \<Rightarrow>
          (case decode_field tag e input of
             Inl msg \<Rightarrow> (e, Some msg, input)
           | Inr (e, input) \<Rightarrow> DecodeFrom_loop e input))"
  by pat_completeness auto
termination
  by (relation "measure (\<lambda>(e, input). length input)")
    (auto dest!: decode_field_shorter varint32.read_shorter)

declare DecodeFrom_loop.simps [simp del]

definition VersionEdit_DecodeFrom :: "bytes \<Rightarrow> VersionEdit \<Rightarrow> VersionEdit \<times> Status" where
  "VersionEdit_DecodeFrom src e =
     (case DecodeFrom_loop (VersionEdit_Clear e) src of
        (e, msg, input) \<Rightarrow>
          (let msg = (if msg = None \<and> input \<noteq> [] then Some (cstr ''invalid tag'') else msg) in
           (e, case msg of None \<Rightarrow> OK | Some m \<Rightarrow> Corruption (cstr ''VersionEdit'') m)))"

section \<open>Printing\<close>

definition debug_line :: "string \<Rightarrow> bytes \<Rightarrow> bytes" where
  "debug_line name r = r @ 10 # cstr name"

definition debug_number :: "bool \<Rightarrow> string \<Rightarrow> u64 \<Rightarrow> bytes \<Rightarrow> bytes" where
  "debug_number has name n r = (if has then AppendNumberTo (debug_line name r) n else r)"

definition debug_file :: "int \<times> FileMetaData \<Rightarrow> bytes \<Rightarrow> bytes" where
  "debug_file p r =
     (let f = snd p;
          r = AppendNumberTo (debug_line ''  AddFile: '' r) (word_of_int (fst p)) @ cstr '' '';
          r = AppendNumberTo r (fmd_number f) @ cstr '' '';
          r = AppendNumberTo r (fmd_file_size f) @ cstr '' ''
      in r @ InternalKey_DebugString (fmd_smallest f) @ cstr '' .. '' @ InternalKey_DebugString (fmd_largest f))"

definition VersionEdit_DebugString :: "VersionEdit \<Rightarrow> bytes" where
  "VersionEdit_DebugString e =
     (let r = cstr ''VersionEdit {'';
          r = (if ve_has_comparator e then debug_line ''  Comparator: '' r @ ve_comparator e else r);
          r = debug_number (ve_has_log_number e) ''  LogNumber: '' (ve_log_number e) r;
          r = debug_number (ve_has_prev_log_number e) ''  PrevLogNumber: '' (ve_prev_log_number e) r;
          r = debug_number (ve_has_next_file_number e) ''  NextFile: '' (ve_next_file_number e) r;
          r = debug_number (ve_has_last_sequence e) ''  LastSeq: '' (ve_last_sequence e) r;
          r = fold (\<lambda>p r. AppendNumberTo (debug_line ''  CompactPointer: '' r) (word_of_int (fst p)) @ cstr '' '' @
                InternalKey_DebugString (snd p)) (ve_compact_pointers e) r;
          r = fold (\<lambda>p r. AppendNumberTo (AppendNumberTo (debug_line ''  DeleteFile: '' r) (word_of_int (fst p)) @
                cstr '' '') (snd p)) (ve_deleted_files e) r;
          r = fold debug_file (ve_new_files e) r
      in r @ [10] @ cstr ''}'' @ [10])"

section \<open>Fields\<close>

text \<open>
  An encoded edit is a sequence of fields. Each field is decoded by one round of the loop,
  whatever follows it.
\<close>

datatype field = Comparator_field bytes | Log_field u64 | Prev_field u64 | Next_field u64 | Seq_field u64
  | Pointer_field int bytes | Deleted_field int u64 | File_field int u64 u64 bytes bytes

primrec field_ok :: "field \<Rightarrow> bool" where
  "field_ok (Comparator_field name) \<longleftrightarrow> length name < 2 ^ 32"
| "field_ok (Log_field n) \<longleftrightarrow> True"
| "field_ok (Prev_field n) \<longleftrightarrow> True"
| "field_ok (Next_field n) \<longleftrightarrow> True"
| "field_ok (Seq_field n) \<longleftrightarrow> True"
| "field_ok (Pointer_field l k) \<longleftrightarrow> 0 \<le> l \<and> l < 7 \<and> length k < 2 ^ 32"
| "field_ok (Deleted_field l n) \<longleftrightarrow> 0 \<le> l \<and> l < 7"
| "field_ok (File_field l n fs k k') \<longleftrightarrow> 0 \<le> l \<and> l < 7 \<and> length k < 2 ^ 32 \<and> length k' < 2 ^ 32"

primrec field_tag :: "field \<Rightarrow> u32" where
  "field_tag (Comparator_field name) = 1"
| "field_tag (Log_field n) = 2"
| "field_tag (Prev_field n) = 9"
| "field_tag (Next_field n) = 3"
| "field_tag (Seq_field n) = 4"
| "field_tag (Pointer_field l k) = 5"
| "field_tag (Deleted_field l n) = 6"
| "field_tag (File_field l n fs k k') = 7"

primrec field_payload :: "field \<Rightarrow> bytes" where
  "field_payload (Comparator_field name) = PutLengthPrefixedSlice [] name"
| "field_payload (Log_field n) = EncodeVarint64 n"
| "field_payload (Prev_field n) = EncodeVarint64 n"
| "field_payload (Next_field n) = EncodeVarint64 n"
| "field_payload (Seq_field n) = EncodeVarint64 n"
| "field_payload (Pointer_field l k) = EncodeVarint32 (word_of_int l) @ PutLengthPrefixedSlice [] k"
| "field_payload (Deleted_field l n) = EncodeVarint32 (word_of_int l) @ EncodeVarint64 n"
| "field_payload (File_field l n fs k k') = EncodeVarint32 (word_of_int l) @ EncodeVarint64 n @
     EncodeVarint64 fs @ PutLengthPrefixedSlice [] k @ PutLengthPrefixedSlice [] k'"

definition field_bytes :: "field \<Rightarrow> bytes" where
  "field_bytes f = EncodeVarint32 (field_tag f) @ field_payload f"

primrec field_apply :: "field \<Rightarrow> VersionEdit \<Rightarrow> VersionEdit" where
  "field_apply (Comparator_field name) e = SetComparatorName name e"
| "field_apply (Log_field n) e = SetLogNumber n e"
| "field_apply (Prev_field n) e = SetPrevLogNumber n e"
| "field_apply (Next_field n) e = SetNextFile n e"
| "field_apply (Seq_field n) e = SetLastSequence n e"
| "field_apply (Pointer_field l k) e = SetCompactPointer l k e"
| "field_apply (Deleted_field l n) e = DeleteFile_edit l n e"
| "field_apply (File_field l n fs k k') e = AddFile l n fs k k' e"

lemma PutLengthPrefixedSlice_split: "PutLengthPrefixedSlice dst v = dst @ PutLengthPrefixedSlice [] v"
  by (simp add: PutLengthPrefixedSlice_def PutVarint32_def)

lemma Tag_of_simps [simp]:
  "Tag_of 1 = Some kComparator" "Tag_of 2 = Some kLogNumber" "Tag_of 3 = Some kNextFileNumber"
  "Tag_of 4 = Some kLastSequence" "Tag_of 5 = Some kCompactPointer" "Tag_of 6 = Some kDeletedFile"
  "Tag_of 7 = Some kNewFile" "Tag_of 9 = Some kPrevLogNumber"
  by (simp_all add: Tag_of_def)

lemma GetLevel_put:
  assumes "0 \<le> l" "l < 7"
  shows "GetLevel (EncodeVarint32 (word_of_int l) @ rest) = Some (l, rest)"
proof -
  have u: "uint (word_of_int l :: u32) = l" using assms by (simp add: uint_word_of_int)
  then have "(word_of_int l :: u32) < 7" using assms by (simp add: word_less_def)
  with u show ?thesis by (simp add: GetLevel_def kNumLevels_def)
qed

lemma decode_field_bytes:
  assumes "field_ok f"
  shows "DecodeFrom_loop e (field_bytes f @ rest) = DecodeFrom_loop (field_apply f e) rest"
  using assms
  by (cases f; subst DecodeFrom_loop.simps)
    (simp_all add: field_bytes_def decode_field_def or_msg_def GetLengthPrefixedSlice_Put GetInternalKey_def GetLevel_put)

lemma decode_fields:
  "\<forall>f \<in> set fs. field_ok f \<Longrightarrow>
     DecodeFrom_loop e (concat (map field_bytes fs) @ rest) = DecodeFrom_loop (fold field_apply fs e) rest"
  by (induction fs arbitrary: e) (simp_all add: decode_field_bytes)

definition edit_fields :: "VersionEdit \<Rightarrow> field list" where
  "edit_fields e =
     (if ve_has_comparator e then [Comparator_field (ve_comparator e)] else []) @
     (if ve_has_log_number e then [Log_field (ve_log_number e)] else []) @
     (if ve_has_prev_log_number e then [Prev_field (ve_prev_log_number e)] else []) @
     (if ve_has_next_file_number e then [Next_field (ve_next_file_number e)] else []) @
     (if ve_has_last_sequence e then [Seq_field (ve_last_sequence e)] else []) @
     map (\<lambda>(l, k). Pointer_field l k) (ve_compact_pointers e) @
     map (\<lambda>(l, n). Deleted_field l n) (ve_deleted_files e) @
     map (\<lambda>(l, f). File_field l (fmd_number f) (fmd_file_size f) (fmd_smallest f) (fmd_largest f)) (ve_new_files e)"

lemma fold_put:
  assumes "\<And>x dst. put x dst = dst @ field_bytes (f x)"
  shows "fold put xs dst = dst @ concat (map field_bytes (map f xs))"
  by (induction xs arbitrary: dst) (simp_all add: assms)

lemma EncodeTo_fields: "VersionEdit_EncodeTo e dst = dst @ concat (map field_bytes (edit_fields e))"
proof -
  have p: "put_compact_pointer x dst = dst @ field_bytes ((\<lambda>(l, k). Pointer_field l k) x)" for x dst
    by (cases x) (simp add: field_bytes_def put_compact_pointer_def PutVarint32_def PutLengthPrefixedSlice_split [of "_ @ _"])
  have d: "put_deleted_file x dst = dst @ field_bytes ((\<lambda>(l, n). Deleted_field l n) x)" for x dst
    by (cases x) (simp add: field_bytes_def put_deleted_file_def PutVarint32_def PutVarint64_def)
  have n: "put_new_file x dst = dst @ field_bytes
      ((\<lambda>(l, f). File_field l (fmd_number f) (fmd_file_size f) (fmd_smallest f) (fmd_largest f)) x)" for x dst
    by (cases x) (simp add: field_bytes_def put_new_file_def PutVarint32_def PutVarint64_def Let_def PutLengthPrefixedSlice_split [of "_ @ _"])
  have c: "PutLengthPrefixedSlice (PutVarint32 dst 1) name = dst @ field_bytes (Comparator_field name)" for dst name
    by (simp add: field_bytes_def PutVarint32_def PutLengthPrefixedSlice_split [of "_ @ _"])
  show ?thesis
    unfolding VersionEdit_EncodeTo_def Let_def fold_put [of put_compact_pointer, OF p] fold_put [of put_deleted_file, OF d]
      fold_put [of put_new_file, OF n]
    by (simp add: edit_fields_def c) (simp add: field_bytes_def PutVarint32_def PutVarint64_def)
qed

text \<open>What the setters keep: unset fields are 0, levels are in range, the set is sorted, sizes fit.\<close>

definition edit_ok :: "VersionEdit \<Rightarrow> bool" where
  "edit_ok e \<longleftrightarrow>
     (\<not> ve_has_comparator e \<longrightarrow> ve_comparator e = []) \<and>
     (\<not> ve_has_log_number e \<longrightarrow> ve_log_number e = 0) \<and>
     (\<not> ve_has_prev_log_number e \<longrightarrow> ve_prev_log_number e = 0) \<and>
     (\<not> ve_has_next_file_number e \<longrightarrow> ve_next_file_number e = 0) \<and>
     (\<not> ve_has_last_sequence e \<longrightarrow> ve_last_sequence e = 0) \<and>
     sorted (ve_deleted_files e) \<and> distinct (ve_deleted_files e) \<and>
     (\<forall>p \<in> set (ve_new_files e). fmd_refs (snd p) = 0 \<and> fmd_allowed_seeks (snd p) = 2 ^ 30) \<and>
     (\<forall>f \<in> set (edit_fields e). field_ok f)"

lemma insort_insert_last: "\<forall>y \<in> set ys. y < x \<Longrightarrow> insort_insert x ys = ys @ [x]" for x :: "'a::linorder"
proof -
  assume less: "\<forall>y \<in> set ys. y < x"
  then have "insort x ys = ys @ [x]" by (induction ys) auto
  with less show ?thesis by (auto simp: insort_insert_key_def)
qed

lemma edit_ok_new: "edit_ok VersionEdit_new"
  by (simp add: edit_ok_def edit_fields_def VersionEdit_new_def)

lemma set_insort_insert: "set (insort_insert x xs) = insert x (set xs)" for x :: "'a::linorder"
  by (auto simp: insort_insert_key_def set_insort_key)

lemma edit_fields_ok:
  "(\<forall>f \<in> set (edit_fields e). field_ok f) \<longleftrightarrow>
     (ve_has_comparator e \<longrightarrow> length (ve_comparator e) < 2 ^ 32) \<and>
     (\<forall>p \<in> set (ve_compact_pointers e). field_ok (Pointer_field (fst p) (snd p))) \<and>
     (\<forall>p \<in> set (ve_deleted_files e). field_ok (Deleted_field (fst p) (snd p))) \<and>
     (\<forall>p \<in> set (ve_new_files e). field_ok (File_field (fst p) (fmd_number (snd p)) (fmd_file_size (snd p))
        (fmd_smallest (snd p)) (fmd_largest (snd p))))"
  by (simp add: edit_fields_def ball_Un split_beta)

lemma edit_ok_apply:
  assumes "edit_ok e" "field_ok f"
  shows "edit_ok (field_apply f e)"
proof (cases f)
  case (Deleted_field l n)
  have sd: "sorted (ve_deleted_files e)" "distinct (ve_deleted_files e)" using assms(1) by (simp_all add: edit_ok_def)
  have "sorted (insort_insert (l, n) (ve_deleted_files e))" "distinct (insort_insert (l, n) (ve_deleted_files e))"
    using sd by (simp_all add: sorted_insort distinct_insort insort_insert_key_def)
  with Deleted_field assms show ?thesis
    by (simp add: edit_ok_def edit_fields_ok DeleteFile_edit_def set_insort_insert)
qed (use assms in \<open>simp_all add: edit_ok_def edit_fields_ok ball_Un SetComparatorName_def SetLogNumber_def
  SetPrevLogNumber_def SetNextFile_def SetLastSequence_def SetCompactPointer_def AddFile_def\<close>)

lemma edit_ok_fold: "edit_ok e \<Longrightarrow> \<forall>f \<in> set fs. field_ok f \<Longrightarrow> edit_ok (fold field_apply fs e)"
  by (induction fs arbitrary: e) (simp_all add: edit_ok_apply)

lemma fold_pointers:
  "fold field_apply (map (\<lambda>(l, k). Pointer_field l k) ps) e = e\<lparr> ve_compact_pointers := ve_compact_pointers e @ ps \<rparr>"
  by (induction ps arbitrary: e) (auto simp: SetCompactPointer_def)

lemma fold_deleted:
  "sorted (ve_deleted_files e @ ds) \<Longrightarrow> distinct (ve_deleted_files e @ ds) \<Longrightarrow>
     fold field_apply (map (\<lambda>(l, n). Deleted_field l n) ds) e = e\<lparr> ve_deleted_files := ve_deleted_files e @ ds \<rparr>"
proof (induction ds arbitrary: e)
  case (Cons d ds)
  obtain l n where d: "d = (l, n)" by (cases d)
  have "\<forall>y \<in> set (ve_deleted_files e). y < (l, n)"
    using Cons.prems d by (force simp: sorted_append order.order_iff_strict)
  then have "DeleteFile_edit l n e = e\<lparr> ve_deleted_files := ve_deleted_files e @ [d] \<rparr>"
    using d by (simp add: DeleteFile_edit_def insort_insert_last)
  with d Cons.IH [of "e\<lparr> ve_deleted_files := ve_deleted_files e @ [d] \<rparr>"] Cons.prems show ?case by simp
qed simp

lemma fold_files:
  "\<forall>p \<in> set fs. fmd_refs (snd p) = 0 \<and> fmd_allowed_seeks (snd p) = 2 ^ 30 \<Longrightarrow>
     fold field_apply (map (\<lambda>(l, f). File_field l (fmd_number f) (fmd_file_size f) (fmd_smallest f) (fmd_largest f)) fs) e =
     e\<lparr> ve_new_files := ve_new_files e @ fs \<rparr>"
proof (induction fs arbitrary: e)
  case (Cons p fs)
  obtain l f where p: "p = (l, f)" by (cases p)
  have "AddFile l (fmd_number f) (fmd_file_size f) (fmd_smallest f) (fmd_largest f) e =
      e\<lparr> ve_new_files := ve_new_files e @ [p] \<rparr>"
    using Cons.prems p by (simp add: AddFile_def)
  with p Cons show ?case by simp
qed simp

lemma fold_edit_fields:
  assumes "edit_ok e"
  shows "fold field_apply (edit_fields e) (VersionEdit_Clear e0) =
    e\<lparr> ve_compact_pointers := ve_compact_pointers e0 @ ve_compact_pointers e \<rparr>"
proof -
  let ?head = "(if ve_has_comparator e then [Comparator_field (ve_comparator e)] else []) @
     (if ve_has_log_number e then [Log_field (ve_log_number e)] else []) @
     (if ve_has_prev_log_number e then [Prev_field (ve_prev_log_number e)] else []) @
     (if ve_has_next_file_number e then [Next_field (ve_next_file_number e)] else []) @
     (if ve_has_last_sequence e then [Seq_field (ve_last_sequence e)] else [])"
  let ?e1 = "e\<lparr> ve_compact_pointers := ve_compact_pointers e0, ve_deleted_files := [], ve_new_files := [] \<rparr>"
  have "fold field_apply ?head (VersionEdit_Clear e0) = ?e1"
    using assms by (auto simp: edit_ok_def VersionEdit_Clear_def SetComparatorName_def SetLogNumber_def
        SetPrevLogNumber_def SetNextFile_def SetLastSequence_def)
  then have "fold field_apply (edit_fields e) (VersionEdit_Clear e0) = fold field_apply
      (map (\<lambda>(l, f). File_field l (fmd_number f) (fmd_file_size f) (fmd_smallest f) (fmd_largest f)) (ve_new_files e))
      (fold field_apply (map (\<lambda>(l, n). Deleted_field l n) (ve_deleted_files e))
      (fold field_apply (map (\<lambda>(l, k). Pointer_field l k) (ve_compact_pointers e)) ?e1))"
    by (simp only: edit_fields_def fold_append comp_apply append_assoc)
  also have "\<dots> = e\<lparr> ve_compact_pointers := ve_compact_pointers e0 @ ve_compact_pointers e \<rparr>"
    using assms by (simp add: edit_ok_def fold_pointers fold_deleted fold_files)
  finally show ?thesis .
qed

section \<open>Truncated input\<close>

text \<open>Reading one value after the other keeps the contract of a reader.\<close>

definition read_pair :: "(bytes \<Rightarrow> ('a \<times> bytes) option) \<Rightarrow> (bytes \<Rightarrow> ('b \<times> bytes) option) \<Rightarrow>
    bytes \<Rightarrow> (('a \<times> 'b) \<times> bytes) option" where
  "read_pair r r' p = Option.bind (r p) (\<lambda>(a, p). Option.bind (r' p) (\<lambda>(b, p). Some ((a, b), p)))"

lemma byte_reader_pair:
  assumes "byte_reader r" "byte_reader r'"
  shows "byte_reader (read_pair r r')"
proof
  fix p v q w
  assume "read_pair r r' p = Some (v, q)"
  then obtain a p' b where s: "r p = Some (a, p')" "r' p' = Some (b, q)" "v = (a, b)"
    by (auto simp: read_pair_def bind_eq_Some_conv)
  from byte_reader.read_suffix [OF assms(1) s(1)] byte_reader.read_suffix [OF assms(2) s(2)]
  show "\<exists>c. p = c @ q \<and> c \<noteq> []" by auto
  from byte_reader.read_extend [OF assms(1) s(1)] byte_reader.read_extend [OF assms(2) s(2)] s(3)
  show "read_pair r r' (p @ w) = Some (v, q @ w)" by (simp add: read_pair_def)
qed

interpretation level: byte_reader GetLevel
proof
  fix p l q r
  assume "GetLevel p = Some (l, q)"
  then obtain v where v: "GetVarint32 p = Some (v, q)" "v < kNumLevels" "l = uint v"
    by (auto simp: GetLevel_def split: option.splits if_splits)
  from varint32.read_suffix [OF v(1)] show "\<exists>c. p = c @ q \<and> c \<noteq> []" .
  from varint32.read_extend [OF v(1)] v(2,3) show "GetLevel (p @ r) = Some (l, q @ r)" by (simp add: GetLevel_def)
qed

lemmas field_readers = byte_reader_pair [OF level.byte_reader_axioms prefixed.byte_reader_axioms]
  byte_reader_pair [OF level.byte_reader_axioms varint64.byte_reader_axioms]
  byte_reader_pair [OF level.byte_reader_axioms byte_reader_pair [OF varint64.byte_reader_axioms
    byte_reader_pair [OF varint64.byte_reader_axioms byte_reader_pair [OF prefixed.byte_reader_axioms prefixed.byte_reader_axioms]]]]

lemma tag_byte: "c < 128 \<Longrightarrow> EncodeVarint32 c = [ucast c]" for c :: u32
proof -
  assume "c < 128"
  then have "(ucast c :: u64) < 128" by (simp add: word_less_nat_alt)
  moreover have "(ucast (ucast c :: u64) :: byte) = ucast c" by (rule bit_word_eqI) (auto simp: bit_simps)
  ultimately show ?thesis by (simp add: EncodeVarint32_eq EncodeVarint64_small)
qed

lemma decode_new_file:
  "decode_field 7 e p = or_msg ''new-file entry''
     (read_pair GetLevel (read_pair GetVarint64 (read_pair GetVarint64
        (read_pair GetLengthPrefixedSlice GetLengthPrefixedSlice))) p)
     (\<lambda>(level, number, file_size, smallest, largest). AddFile level number file_size smallest largest e)"
  by (simp add: decode_field_def read_pair_def GetInternalKey_def case_prod_unfold Option.bind_assoc)

lemma or_msg_None [simp]: "or_msg msg None f = Inl (cstr msg)"
  by (simp add: or_msg_def)

lemma decode_field_truncated:
  assumes "field_ok f" "n < length (field_payload f)"
  shows "\<exists>msg. decode_field (field_tag f) e (take n (field_payload f)) = Inl msg"
proof -
  have v: "GetVarint64 (take n (EncodeVarint64 m)) = None" if "n < length (EncodeVarint64 m)" for m
    by (rule varint64.read_truncated [OF GetVarint64_EncodeVarint64 that])
  show ?thesis
  proof (cases f)
    case (Comparator_field name)
    then have "GetLengthPrefixedSlice (take n (PutLengthPrefixedSlice [] name)) = None"
      using prefixed.read_truncated [OF GetLengthPrefixedSlice_Put] assms by simp
    then show ?thesis by (simp add: Comparator_field decode_field_def)
  next
    case (Pointer_field l k)
    have "read_pair GetLevel GetLengthPrefixedSlice
        ((EncodeVarint32 (word_of_int l) @ PutLengthPrefixedSlice [] k) @ []) = Some ((l, k), [])"
      using assms(1) Pointer_field GetLengthPrefixedSlice_Put [of k "[]"] by (simp add: read_pair_def GetLevel_put)
    from byte_reader.read_truncated [OF field_readers(1) this, of n] assms(2)
    show ?thesis by (simp add: Pointer_field decode_field_def GetInternalKey_def read_pair_def)
  next
    case (Deleted_field l m)
    have "read_pair GetLevel GetVarint64
        ((EncodeVarint32 (word_of_int l) @ EncodeVarint64 m) @ []) = Some ((l, m), [])"
      using assms(1) Deleted_field GetVarint64_EncodeVarint64 [of m "[]"] by (simp add: read_pair_def GetLevel_put)
    from byte_reader.read_truncated [OF field_readers(2) this, of n] assms(2)
    show ?thesis by (simp add: Deleted_field decode_field_def read_pair_def)
  next
    case (File_field l m fs k k')
    let ?p = "EncodeVarint32 (word_of_int l) @ EncodeVarint64 m @ EncodeVarint64 fs @ PutLengthPrefixedSlice [] k @
      PutLengthPrefixedSlice [] k'"
    have "read_pair GetLevel (read_pair GetVarint64 (read_pair GetVarint64
        (read_pair GetLengthPrefixedSlice GetLengthPrefixedSlice))) (?p @ []) = Some ((l, m, fs, k, k'), [])"
      using assms(1) File_field GetLengthPrefixedSlice_Put [of k' "[]"]
      by (simp add: read_pair_def GetLevel_put GetLengthPrefixedSlice_Put)
    from byte_reader.read_truncated [OF field_readers(3) this, of n] assms(2)
    show ?thesis by (simp add: File_field decode_new_file del: take_append)
  qed (use assms v in \<open>simp_all add: decode_field_def\<close>)
qed

lemma DecodeFrom_loop_Nil: "DecodeFrom_loop e [] = (e, None, [])"
  by (subst DecodeFrom_loop.simps) (simp add: varint32.read_Nil)

lemma DecodeFrom_loop_truncated:
  assumes "field_ok f" "0 < r" "r < length (field_bytes f)"
  shows "\<exists>msg rest. DecodeFrom_loop e (take r (field_bytes f)) = (e, Some msg, rest)"
proof -
  have "field_tag f < 128" by (cases f) simp_all
  then have t: "EncodeVarint32 (field_tag f) = [ucast (field_tag f)]" by (rule tag_byte)
  then have n: "r - 1 < length (field_payload f)" using assms(2,3) by (simp add: field_bytes_def)
  have "take r (field_bytes f) = EncodeVarint32 (field_tag f) @ take (r - 1) (field_payload f)"
    using assms(2) by (cases r) (simp_all add: field_bytes_def t)
  moreover from decode_field_truncated [OF assms(1) n] obtain msg where
    "decode_field (field_tag f) e (take (r - 1) (field_payload f)) = Inl msg" by blast
  ultimately show ?thesis by (subst DecodeFrom_loop.simps) simp
qed

lemma cut_concat:
  "n \<le> length (concat xs) \<Longrightarrow> \<exists>i \<le> length xs. length (concat (take i xs)) \<le> n \<and>
     (i < length xs \<longrightarrow> n < length (concat (take (Suc i) xs))) \<and> (i = length xs \<longrightarrow> n = length (concat xs))"
proof (induction xs arbitrary: n)
  case (Cons x xs)
  show ?case
  proof (cases "n < length x")
    case True then show ?thesis by (intro exI [of _ 0]) simp
  next
    case False
    with Cons.prems have "n - length x \<le> length (concat xs)" by simp
    from Cons.IH [OF this] obtain i where "i \<le> length xs" "length (concat (take i xs)) \<le> n - length x"
      "i < length xs \<longrightarrow> n - length x < length (concat (take (Suc i) xs))"
      "i = length xs \<longrightarrow> n - length x = length (concat xs)" by blast
    with False show ?thesis by (intro exI [of _ "Suc i"]) auto
  qed
qed simp

section \<open>Correctness\<close>

text \<open>
  C25. Every edit that can be built with the setters survives the manifest: decoding its
  encoding succeeds and gives the same edit, whatever the decoding object held before, except
  that the compaction pointers it held are kept in front, because \<open>Clear\<close> does not remove
  them. An unknown tag behind the edit is reported as corruption.
\<close>

theorem version_edit_roundtrip:
  assumes "\<forall>f \<in> set fs. field_ok f" "Tag_of tag = None"
  shows "let e = fold field_apply fs VersionEdit_new;
      e' = e\<lparr> ve_compact_pointers := ve_compact_pointers e0 @ ve_compact_pointers e \<rparr> in
    VersionEdit_DecodeFrom (VersionEdit_EncodeTo e []) e0 = (e', OK) \<and>
    VersionEdit_DecodeFrom (VersionEdit_EncodeTo e [] @ EncodeVarint32 tag @ rest) e0 =
      (e', Corruption (cstr ''VersionEdit'') (cstr ''unknown tag''))"
proof -
  define e where "e = fold field_apply fs VersionEdit_new"
  have ok: "edit_ok e" unfolding e_def by (rule edit_ok_fold [OF edit_ok_new assms(1)])
  then have "DecodeFrom_loop (VersionEdit_Clear e0) (VersionEdit_EncodeTo e [] @ rest) =
      DecodeFrom_loop (e\<lparr> ve_compact_pointers := ve_compact_pointers e0 @ ve_compact_pointers e \<rparr>) rest" for rest
    by (simp add: EncodeTo_fields decode_fields edit_ok_def fold_edit_fields [OF ok])
  note loop = this this [of "[]"]
  have "DecodeFrom_loop x (EncodeVarint32 tag @ rest) = (x, Some (cstr ''unknown tag''), rest)" for x
    using assms(2) by (subst DecodeFrom_loop.simps) (simp add: decode_field_def)
  with loop show ?thesis
    unfolding e_def [symmetric] Let_def VersionEdit_DecodeFrom_def by (simp add: DecodeFrom_loop_Nil del: cstr_Cons)
qed

theorem version_edit_roundtrip_witness:
  "let e = AddFile 2 5 4096 (InternalKey (cstr ''a'') 1 kTypeValue) (InternalKey (cstr ''z'') 9 kTypeValue)
      (DeleteFile_edit 1 3 (SetLogNumber 7 VersionEdit_new)) in
    VersionEdit_DecodeFrom (VersionEdit_EncodeTo e []) VersionEdit_new = (e, OK) \<and>
    \<not> Status_ok (snd (VersionEdit_DecodeFrom (VersionEdit_EncodeTo e [] @ EncodeVarint32 8) VersionEdit_new))"
proof -
  let ?fs = "[Log_field 7, Deleted_field 1 3,
    File_field 2 5 4096 (InternalKey (cstr ''a'') 1 kTypeValue) (InternalKey (cstr ''z'') 9 kTypeValue)]"
  have "\<forall>f \<in> set ?fs. field_ok f" "Tag_of 8 = None" by (simp_all add: Tag_of_def)
  from version_edit_roundtrip [OF this, of VersionEdit_new "[]"] show ?thesis
    by (simp add: Let_def VersionEdit_new_def SetLogNumber_def DeleteFile_edit_def AddFile_def not_ok_constructors del: cstr_Cons)
qed

text \<open>
  C27. A manifest record that is cut off is never mistaken for another one: the fields that are
  complete in the remaining bytes are decoded, and the result is reported as corrupt unless the
  cut is exactly at the end of a field.
\<close>

theorem version_edit_truncated:
  assumes "\<forall>f \<in> set fs. field_ok f"
    and "e = fold field_apply fs VersionEdit_new" "n \<le> length (VersionEdit_EncodeTo e [])"
  shows "\<exists>i \<le> length (edit_fields e).
    length (concat (map field_bytes (take i (edit_fields e)))) \<le> n \<and>
    (i < length (edit_fields e) \<longrightarrow> n < length (concat (map field_bytes (take (Suc i) (edit_fields e))))) \<and>
    fst (VersionEdit_DecodeFrom (take n (VersionEdit_EncodeTo e [])) e0) =
      fold field_apply (take i (edit_fields e)) (VersionEdit_Clear e0) \<and>
    (Status_ok (snd (VersionEdit_DecodeFrom (take n (VersionEdit_EncodeTo e [])) e0)) \<longleftrightarrow>
      n = length (concat (map field_bytes (take i (edit_fields e)))))"
proof -
  let ?F = "edit_fields e" and ?L = "\<lambda>i. length (concat (map field_bytes (take i (edit_fields e))))"
  have ok: "\<forall>f \<in> set ?F. field_ok f" using edit_ok_fold [OF edit_ok_new assms(1)] assms(2) by (simp add: edit_ok_def)
  have b: "VersionEdit_EncodeTo e [] = concat (map field_bytes ?F)" by (simp add: EncodeTo_fields)
  from cut_concat [of n "map field_bytes ?F"] assms(3) obtain i where
    i: "i \<le> length ?F" "?L i \<le> n" "i < length ?F \<longrightarrow> n < ?L (Suc i)" "i = length ?F \<longrightarrow> n = ?L (length ?F)"
    by (auto simp: b take_map)
  define tail where "tail = concat (map field_bytes (drop i ?F))"
  have "concat (map field_bytes ?F) = concat (map field_bytes (take i ?F)) @ tail"
    unfolding tail_def by (metis append_take_drop_id concat_append map_append)
  then have "take n (VersionEdit_EncodeTo e []) = concat (map field_bytes (take i ?F)) @ take (n - ?L i) tail"
    using i(2) by (simp add: b)
  then have d: "DecodeFrom_loop (VersionEdit_Clear e0) (take n (VersionEdit_EncodeTo e [])) =
      DecodeFrom_loop (fold field_apply (take i ?F) (VersionEdit_Clear e0)) (take (n - ?L i) tail)"
    using ok by (simp add: decode_fields in_set_takeD [of _ i])
  show ?thesis
  proof (cases "n = ?L i")
    case True
    with d i show ?thesis by (intro exI [of _ i]) (simp add: VersionEdit_DecodeFrom_def DecodeFrom_loop_Nil)
  next
    case False
    then have il: "i < length ?F" using i(1,4) by (cases "i = length ?F") auto
    have L: "?L (Suc i) = ?L i + length (field_bytes (?F ! i))" using il by (simp add: take_Suc_conv_app_nth)
    have t: "tail = field_bytes (?F ! i) @ concat (map field_bytes (drop (Suc i) ?F))"
      using il unfolding tail_def by (metis Cons_nth_drop_Suc concat.simps(2) list.simps(9))
    have r: "0 < n - ?L i" "n - ?L i < length (field_bytes (?F ! i))" using False i(2,3) il L by auto
    then have "take (n - ?L i) tail = take (n - ?L i) (field_bytes (?F ! i))" by (simp add: t)
    moreover have "field_ok (?F ! i)" using ok il by simp
    from DecodeFrom_loop_truncated [OF this r] obtain msg rest where
      "DecodeFrom_loop (fold field_apply (take i ?F) (VersionEdit_Clear e0)) (take (n - ?L i) (field_bytes (?F ! i))) =
        (fold field_apply (take i ?F) (VersionEdit_Clear e0), Some msg, rest)" by blast
    ultimately show ?thesis using d i False
      by (intro exI [of _ i]) (simp add: VersionEdit_DecodeFrom_def not_ok_constructors)
  qed
qed

theorem version_edit_truncated_witness:
  "let e = SetLastSequence 300 (SetLogNumber 7 VersionEdit_new) in
    \<not> Status_ok (snd (VersionEdit_DecodeFrom (take 3 (VersionEdit_EncodeTo e [])) VersionEdit_new))"
proof -
  let ?fs = "[Log_field 7, Seq_field 300]"
  let ?e = "fold field_apply ?fs VersionEdit_new"
  have f: "edit_fields ?e = ?fs"
    by (simp add: edit_fields_def SetLastSequence_def SetLogNumber_def VersionEdit_new_def)
  have b: "field_bytes (Log_field 7) = [2, 7]" "field_bytes (Seq_field 300) = [4, 172, 2]" by code_simp+
  have n: "3 \<le> length (VersionEdit_EncodeTo ?e [])" unfolding EncodeTo_fields f by (simp add: b)
  from version_edit_truncated [of ?fs, OF _ refl n, of VersionEdit_new] obtain i where
    i: "i \<le> length (edit_fields ?e)"
      "Status_ok (snd (VersionEdit_DecodeFrom (take 3 (VersionEdit_EncodeTo ?e [])) VersionEdit_new)) \<longleftrightarrow>
        3 = length (concat (map field_bytes (take i (edit_fields ?e))))" by auto
  have "i = 0 \<or> i = 1 \<or> i = 2" using i(1) unfolding f by auto
  then show ?thesis using i(2) unfolding f by (auto simp: b Let_def)
qed

end
