(* ===== verification/Arena.thy ===== *)
theory Arena
  imports Prelude
begin

text \<open>
  \<open>util/arena.h\<close>, \<open>util/arena.cc\<close>: the bump allocator of the memtable. Addresses are natural
  numbers; the sums of sizes are computed modulo \<open>2^64\<close>, as \<open>size_t\<close> does. What \<open>new char[n]\<close> returns
  is a parameter, a function of the blocks handed out so far; its contract is the locale
  \<open>block_source\<close>. That \<open>new\<close> throws is not modelled. A pointer has eight bytes.
\<close>

section \<open>Operations\<close>

definition arena_kBlockSize :: nat where "arena_kBlockSize = 4096"

text \<open>\<open>ar_blocks\<close> is \<open>blocks_\<close>, each block with the size that \<open>new\<close> was called with.\<close>

record Arena =
  ar_alloc_ptr :: nat
  ar_alloc_bytes_remaining :: nat
  ar_blocks :: "(nat \<times> nat) list"
  ar_blocks_memory :: nat

type_synonym new_char = "(nat \<times> nat) list \<Rightarrow> nat \<Rightarrow> nat"

definition Arena_new :: Arena where
  "Arena_new = \<lparr> ar_alloc_ptr = 0, ar_alloc_bytes_remaining = 0, ar_blocks = [], ar_blocks_memory = 0 \<rparr>"

definition AllocateNewBlock :: "new_char \<Rightarrow> nat \<Rightarrow> Arena \<Rightarrow> nat \<times> Arena" where
  "AllocateNewBlock new block_bytes a =
     (let result = new (ar_blocks a) block_bytes in
      (result, a\<lparr> ar_blocks_memory := (ar_blocks_memory a + block_bytes) mod 2 ^ 64,
                  ar_blocks := ar_blocks a @ [(result, block_bytes)] \<rparr>))"

definition AllocateFallback :: "new_char \<Rightarrow> nat \<Rightarrow> Arena \<Rightarrow> nat \<times> Arena" where
  "AllocateFallback new bytes a =
     (if bytes > arena_kBlockSize div 4 then AllocateNewBlock new bytes a
      else
        (case AllocateNewBlock new arena_kBlockSize a of
           (p, a) \<Rightarrow> (p, a\<lparr> ar_alloc_ptr := p + bytes,
                             ar_alloc_bytes_remaining := arena_kBlockSize - bytes \<rparr>)))"

definition Allocate :: "new_char \<Rightarrow> nat \<Rightarrow> Arena \<Rightarrow> nat \<times> Arena" where
  "Allocate new bytes a =
     (if bytes \<le> ar_alloc_bytes_remaining a then
        (ar_alloc_ptr a,
         a\<lparr> ar_alloc_ptr := ar_alloc_ptr a + bytes,
            ar_alloc_bytes_remaining := ar_alloc_bytes_remaining a - bytes \<rparr>)
      else AllocateFallback new bytes a)"

definition AllocateAligned :: "new_char \<Rightarrow> nat \<Rightarrow> Arena \<Rightarrow> nat \<times> Arena" where
  "AllocateAligned new bytes a =
     (let align = 8;
          current_mod = ar_alloc_ptr a mod align;
          slop = (if current_mod = 0 then 0 else align - current_mod);
          needed = (bytes + slop) mod 2 ^ 64
      in if needed \<le> ar_alloc_bytes_remaining a then
           (ar_alloc_ptr a + slop,
            a\<lparr> ar_alloc_ptr := ar_alloc_ptr a + needed,
               ar_alloc_bytes_remaining := ar_alloc_bytes_remaining a - needed \<rparr>)
         else AllocateFallback new bytes a)"

text \<open>The capacity of the vector is chosen by the library.\<close>

definition MemoryUsage :: "(nat \<Rightarrow> nat) \<Rightarrow> Arena \<Rightarrow> nat" where
  "MemoryUsage capacity a = (ar_blocks_memory a + capacity (length (ar_blocks a)) * 8) mod 2 ^ 64"

text \<open>
  A sequence of requests: whether it is for aligned memory, and the size. A size is a \<open>size_t\<close>
  above 0, and leaves room for the padding of aligned memory.
\<close>

definition request_ok :: "bool \<times> nat \<Rightarrow> bool" where
  "request_ok r \<longleftrightarrow> 0 < snd r \<and> snd r < 2 ^ 64 \<and> (fst r \<longrightarrow> snd r + 7 < 2 ^ 64)"

definition allocate_one :: "new_char \<Rightarrow> bool \<times> nat \<Rightarrow> Arena \<Rightarrow> nat \<times> Arena" where
  "allocate_one new r a = (if fst r then AllocateAligned new (snd r) a else Allocate new (snd r) a)"

fun allocate_all :: "new_char \<Rightarrow> (bool \<times> nat) list \<Rightarrow> Arena \<Rightarrow> nat list \<times> Arena" where
  "allocate_all new [] a = ([], a)"
| "allocate_all new (r # rs) a =
     (case allocate_one new r a of (p, a) \<Rightarrow>
      case allocate_all new rs a of (ps, a) \<Rightarrow> (p # ps, a))"

section \<open>The invariant\<close>

definition region :: "nat \<Rightarrow> nat \<Rightarrow> nat set" where
  "region p n = {p..<p + n}"

definition in_block :: "Arena \<Rightarrow> nat \<Rightarrow> nat \<Rightarrow> bool" where
  "in_block a p n \<longleftrightarrow> (\<exists>(q, m) \<in> set (ar_blocks a). region p n \<subseteq> region q m)"

definition free :: "Arena \<Rightarrow> nat set" where
  "free a = region (ar_alloc_ptr a) (ar_alloc_bytes_remaining a)"

text \<open>
  The free rest lies in a block, the allocations so far (\<open>used\<close>) lie in blocks outside the free
  rest, and the memory count is right.
\<close>

definition arena_ok :: "(nat \<times> nat) list \<Rightarrow> Arena \<Rightarrow> bool" where
  "arena_ok used a \<longleftrightarrow>
     (free a = {} \<or> in_block a (ar_alloc_ptr a) (ar_alloc_bytes_remaining a)) \<and>
     (\<forall>x \<in> set used. in_block a (fst x) (snd x) \<and> region (fst x) (snd x) \<inter> free a = {}) \<and>
     sorted_wrt (\<lambda>x y. region (fst x) (snd x) \<inter> region (fst y) (snd y) = {}) used \<and>
     ar_blocks_memory a = (\<Sum>(q, m) \<leftarrow> ar_blocks a. m) mod 2 ^ 64"

lemma arena_ok_new: "arena_ok [] Arena_new"
  by (simp add: arena_ok_def Arena_new_def free_def region_def)

lemma in_block_mono: "in_block a p n \<Longrightarrow> region p' n' \<subseteq> region p n \<Longrightarrow> in_block a p' n'"
  unfolding in_block_def by blast

text \<open>An allocation from the free rest, behind a gap of \<open>k\<close> bytes.\<close>

lemma arena_ok_bump:
  assumes "arena_ok used a" "k + n \<le> ar_alloc_bytes_remaining a" "0 < n"
  shows "arena_ok ((ar_alloc_ptr a + k, n) # used)
    (a\<lparr> ar_alloc_ptr := ar_alloc_ptr a + (k + n), ar_alloc_bytes_remaining := ar_alloc_bytes_remaining a - (k + n) \<rparr>)"
proof -
  let ?p = "ar_alloc_ptr a" and ?m = "ar_alloc_bytes_remaining a"
  have parts: "region (?p + k) n \<subseteq> region ?p ?m" "region (?p + (k + n)) (?m - (k + n)) \<subseteq> region ?p ?m"
    "region (?p + k) n \<inter> region (?p + (k + n)) (?m - (k + n)) = {}" "region ?p ?m \<noteq> {}"
    using assms(2,3) by (auto simp: region_def)
  have u: "\<forall>x \<in> set used. in_block a (fst x) (snd x)" "\<forall>x \<in> set used. region (fst x) (snd x) \<inter> region ?p ?m = {}"
    and rest: "sorted_wrt (\<lambda>x y. region (fst x) (snd x) \<inter> region (fst y) (snd y) = {}) used"
      "ar_blocks_memory a = (\<Sum>(q, m) \<leftarrow> ar_blocks a. m) mod 2 ^ 64"
    using assms(1) by (simp_all add: arena_ok_def free_def)
  have b: "in_block a ?p ?m" using assms(1) parts(4) by (simp add: arena_ok_def free_def)
  have blocks: "in_block (a\<lparr> ar_alloc_ptr := x, ar_alloc_bytes_remaining := y \<rparr>) p n \<longleftrightarrow> in_block a p n" for x y p n
    by (simp add: in_block_def)
  have away: "\<forall>x \<in> set used. region (?p + k) n \<inter> region (fst x) (snd x) = {}"
    "\<forall>x \<in> set used. region (fst x) (snd x) \<inter> region (?p + (k + n)) (?m - (k + n)) = {}"
    using u(2) parts(1,2) by blast+
  show ?thesis
    unfolding arena_ok_def free_def Arena.simps Arena.update_convs blocks
    using u(1) away rest parts(3) in_block_mono [OF b parts(1)] in_block_mono [OF b parts(2)]
    by (simp add: Int_commute)
qed

section \<open>Memory from \<open>new\<close>\<close>

text \<open>What \<open>new char[n]\<close> promises: memory apart from all other blocks, aligned for any object.\<close>

locale block_source =
  fixes new :: new_char
  assumes fresh: "(q, m) \<in> set blocks \<Longrightarrow> region (new blocks n) n \<inter> region q m = {}"
    and aligned: "8 dvd new blocks n"
begin

lemma new_block_ok:
  assumes "arena_ok used a" "AllocateNewBlock new m a = (p, a')"
  shows "arena_ok used a'" "p = new (ar_blocks a) m" "in_block a' p m" "free a' = free a"
    and "region p m \<inter> free a = {}" "\<forall>x \<in> set used. region (fst x) (snd x) \<inter> region p m = {}" "8 dvd p"
proof -
  have a': "a' = a\<lparr> ar_blocks_memory := (ar_blocks_memory a + m) mod 2 ^ 64, ar_blocks := ar_blocks a @ [(p, m)] \<rparr>"
    and p: "p = new (ar_blocks a) m" using assms(2) by (auto simp: AllocateNewBlock_def Let_def)
  show "p = new (ar_blocks a) m" "8 dvd p" using p aligned by simp_all
  show "in_block a' p m" by (auto simp: a' in_block_def)
  show f: "free a' = free a" by (simp add: a' free_def)
  have old: "in_block a q n \<Longrightarrow> in_block a' q n" for q n by (auto simp: a' in_block_def)
  have away: "region q n \<inter> region p m = {}" if "in_block a q n" for q n
    using that fresh [of _ _ "ar_blocks a" m] unfolding in_block_def p by blast
  show "\<forall>x \<in> set used. region (fst x) (snd x) \<inter> region p m = {}"
    using assms(1) away unfolding arena_ok_def by blast
  show "region p m \<inter> free a = {}"
    using assms(1) away [of "ar_alloc_ptr a" "ar_alloc_bytes_remaining a"] unfolding arena_ok_def free_def by blast
  show "arena_ok used a'"
    using assms(1) old unfolding arena_ok_def f by (simp add: a' mod_add_left_eq) blast
qed

lemma AllocateFallback_ok:
  assumes "arena_ok used a" "0 < n" "AllocateFallback new n a = (p, a')"
  shows "arena_ok ((p, n) # used) a' \<and> 8 dvd p"
proof (cases "n > arena_kBlockSize div 4")
  case True
  then have e: "AllocateNewBlock new n a = (p, a')" using assms(3) by (simp add: AllocateFallback_def)
  note nb = new_block_ok [OF assms(1) e]
  have "\<forall>x \<in> set used. region p n \<inter> region (fst x) (snd x) = {}" using nb(6) by (simp add: Int_commute)
  with nb(1,3-5,7) show ?thesis by (simp add: arena_ok_def)
next
  case False
  obtain q b where e: "AllocateNewBlock new arena_kBlockSize a = (q, b)" by fastforce
  note nb = new_block_ok [OF assms(1) e]
  have n: "n \<le> arena_kBlockSize" using False by simp
  let ?c = "b\<lparr> ar_alloc_ptr := q, ar_alloc_bytes_remaining := arena_kBlockSize \<rparr>"
  have ib: "in_block ?c x m \<longleftrightarrow> in_block b x m" for x m by (simp add: in_block_def)
  have "free ?c = region q arena_kBlockSize" by (simp add: free_def)
  then have "arena_ok used ?c" using nb(1,3,6) unfolding arena_ok_def ib by simp
  from arena_ok_bump [OF this, of 0 n] n assms(2) have
    "arena_ok ((q, n) # used) (b\<lparr> ar_alloc_ptr := q + n, ar_alloc_bytes_remaining := arena_kBlockSize - n \<rparr>)" by simp
  with False e assms(3) nb(7) show ?thesis by (auto simp: AllocateFallback_def)
qed

lemma allocate_one_ok:
  assumes "arena_ok used a" "request_ok r" "allocate_one new r a = (p, a')"
  shows "arena_ok ((p, snd r) # used) a' \<and> (fst r \<longrightarrow> 8 dvd p)"
proof (cases "fst r")
  case True
  define slop where "slop = (if ar_alloc_ptr a mod 8 = 0 then 0 else 8 - ar_alloc_ptr a mod 8)"
  have e: "AllocateAligned new (snd r) a = (p, a')" using assms(3) True by (simp add: allocate_one_def)
  have pos: "0 < snd r" using assms(2) by (simp add: request_ok_def)
  have "slop \<le> 7" by (simp add: slop_def) presburger
  then have needed: "(snd r + slop) mod 2 ^ 64 = snd r + slop" using assms(2) True by (simp add: request_ok_def)
  have d: "8 dvd ar_alloc_ptr a + slop"
  proof -
    have "ar_alloc_ptr a + (8 - ar_alloc_ptr a mod 8) = 8 * (ar_alloc_ptr a div 8 + 1)"
      by presburger
    then show ?thesis by (cases "ar_alloc_ptr a mod 8 = 0") (simp_all add: slop_def dvd_eq_mod_eq_0)
  qed
  show ?thesis
  proof (cases "snd r + slop \<le> ar_alloc_bytes_remaining a")
    case fits: True
    with e have "p = ar_alloc_ptr a + slop" "a' = a\<lparr> ar_alloc_ptr := ar_alloc_ptr a + (slop + snd r),
        ar_alloc_bytes_remaining := ar_alloc_bytes_remaining a - (slop + snd r) \<rparr>"
      using needed by (auto simp: AllocateAligned_def Let_def slop_def [symmetric] add.commute)
    with arena_ok_bump [OF assms(1), of slop "snd r"] fits pos d show ?thesis by (simp add: add.commute)
  next
    case False
    with e needed have "AllocateFallback new (snd r) a = (p, a')" by (simp add: AllocateAligned_def Let_def slop_def [symmetric])
    from AllocateFallback_ok [OF assms(1) pos this] show ?thesis by simp
  qed
next
  case False
  then have e: "Allocate new (snd r) a = (p, a')" using assms(3) by (simp add: allocate_one_def)
  have pos: "0 < snd r" using assms(2) by (simp add: request_ok_def)
  show ?thesis
  proof (cases "snd r \<le> ar_alloc_bytes_remaining a")
    case True
    with e arena_ok_bump [OF assms(1), of 0 "snd r"] pos False show ?thesis by (auto simp: Allocate_def)
  next
    case full: False
    with e AllocateFallback_ok [OF assms(1) pos] False show ?thesis by (simp add: Allocate_def)
  qed
qed

lemma allocate_all_ok:
  assumes "arena_ok used a" "\<forall>r \<in> set rs. request_ok r" "allocate_all new rs a = (ps, a')"
  shows "length ps = length rs \<and> arena_ok (rev (zip ps (map snd rs)) @ used) a' \<and>
    (\<forall>i < length rs. fst (rs ! i) \<longrightarrow> 8 dvd ps ! i)"
  using assms
proof (induction rs arbitrary: used a ps)
  case (Cons r rs)
  obtain p b where one: "allocate_one new r a = (p, b)" by fastforce
  obtain qs c where all: "allocate_all new rs b = (qs, c)" by fastforce
  have e: "ps = p # qs" "a' = c" using Cons.prems(3) one all by auto
  have "request_ok r" "\<forall>r \<in> set rs. request_ok r" using Cons.prems(2) by simp_all
  note head = allocate_one_ok [OF Cons.prems(1) this(1) one] and rest = this(2)
  from Cons.IH [OF conjunct1 [OF head] rest all [folded e(2)]] head e show ?case
    by (auto simp: nth_Cons split: nat.splits)
qed simp

text \<open>A size near \<open>2^64\<close> wraps with the padding, and the rest of the block seems to be enough.\<close>

lemma oversized_request:
  "\<exists>p b. allocate_all new [(False, 5), (True, 2 ^ 64 - 3)] Arena_new = ([p, p + 8], b) \<and>
     \<not> in_block b (p + 8) (2 ^ 64 - 3)"
proof -
  obtain j where j: "new [] 4096 = 8 * j" using aligned by (rule dvdE)
  have "(8 * j + 5) mod 8 = 5" by presburger
  then show ?thesis
    by (simp add: j Arena_new_def allocate_one_def Allocate_def AllocateFallback_def AllocateNewBlock_def
        AllocateAligned_def arena_kBlockSize_def Let_def in_block_def region_def)
qed

end

text \<open>An instance of \<open>new\<close>: each block starts behind all others.\<close>

definition bump_new :: new_char where
  "bump_new blocks n = 8 * Suc (fold (\<lambda>b. max (fst b + snd b)) blocks 0)"

lemma bump_new_ge: "b \<in> set blocks \<Longrightarrow> fst b + snd b \<le> bump_new blocks n"
proof -
  have "i \<le> fold (\<lambda>b. max (fst b + snd b)) blocks i \<and>
      (b \<in> set blocks \<longrightarrow> fst b + snd b \<le> fold (\<lambda>b. max (fst b + snd b)) blocks i)" for i
  proof (induction blocks arbitrary: i)
    case (Cons c blocks)
    from Cons.IH [of "max (fst c + snd c) i"] show ?case by auto
  qed simp
  from this [of 0] show "b \<in> set blocks \<Longrightarrow> fst b + snd b \<le> bump_new blocks n" by (simp add: bump_new_def)
qed

interpretation bump: block_source bump_new
proof
  show "region (bump_new blocks n) n \<inter> region q m = {}" if "(q, m) \<in> set blocks" for q m blocks n
    using bump_new_ge [OF that, of n] by (auto simp: region_def)
  show "8 dvd bump_new blocks n" for blocks n by (simp add: bump_new_def)
qed

section \<open>Correctness\<close>

text \<open>
  C26. The arena hands out memory safely. For any sequence of requests for at least one byte, those
  for aligned memory at most \<open>2^64 - 8\<close> bytes, and whatever \<open>new\<close> returns within its contract, the
  regions that are handed out do not overlap, each lies inside one block that \<open>new\<close> has returned,
  those of \<open>AllocateAligned\<close> start at a multiple of eight, and \<open>blocks_memory_\<close> is the total size of
  the blocks modulo \<open>2^64\<close>. The bound is needed: after a request for 5 bytes, one for \<open>2^64 - 3\<close> aligned
  bytes wraps around to 0 and gets an address in a block of 4096 bytes.
\<close>

theorem arena_allocations:
  assumes "block_source new" "\<forall>r \<in> set rs. request_ok r" "allocate_all new rs Arena_new = (ps, a)"
  shows "length ps = length rs \<and>
    (\<forall>i j. i < j \<and> j < length rs \<longrightarrow> region (ps ! i) (snd (rs ! i)) \<inter> region (ps ! j) (snd (rs ! j)) = {}) \<and>
    (\<forall>i < length rs. in_block a (ps ! i) (snd (rs ! i)) \<and> (fst (rs ! i) \<longrightarrow> 8 dvd ps ! i)) \<and>
    ar_blocks_memory a = (\<Sum>(q, m) \<leftarrow> ar_blocks a. m) mod 2 ^ 64 \<and>
    (\<exists>p b. allocate_all new [(False, 5), (True, 2 ^ 64 - 3)] Arena_new = ([p, p + 8], b) \<and>
      \<not> in_block b (p + 8) (2 ^ 64 - 3))"
proof -
  from block_source.allocate_all_ok [OF assms(1) arena_ok_new assms(2,3)] have
    l: "length ps = length rs" and ok: "arena_ok (rev (zip ps (map snd rs))) a"
    and al: "\<forall>i < length rs. fst (rs ! i) \<longrightarrow> 8 dvd ps ! i" by simp_all
  let ?z = "zip ps (map snd rs)"
  have z: "?z ! i = (ps ! i, snd (rs ! i))" "?z ! i \<in> set ?z" if "i < length rs" for i
    using that l nth_mem [of i ?z] by simp_all
  have "sorted_wrt (\<lambda>y x. region (fst x) (snd x) \<inter> region (fst y) (snd y) = {}) ?z"
    using ok by (simp add: arena_ok_def sorted_wrt_rev)
  then have "region (ps ! i) (snd (rs ! i)) \<inter> region (ps ! j) (snd (rs ! j)) = {}" if "i < j" "j < length rs" for i j
    using sorted_wrt_nth_less [of "\<lambda>y x. region (fst x) (snd x) \<inter> region (fst y) (snd y) = {}" ?z i j] that l z(1) [of i] z(1) [of j]
    by (simp add: Int_commute)
  moreover have "in_block a (ps ! i) (snd (rs ! i))" if "i < length rs" for i
    using ok z(2) [OF that] unfolding arena_ok_def z(1) [OF that] set_rev by auto
  moreover have "ar_blocks_memory a = (\<Sum>(q, m) \<leftarrow> ar_blocks a. m) mod 2 ^ 64" using ok by (simp add: arena_ok_def)
  ultimately show ?thesis using l al block_source.oversized_request [OF assms(1)] by blast
qed

theorem arena_allocations_witness:
  "let (ps, a) = allocate_all bump_new [(False, 5), (True, 16), (True, 2000), (False, 7)] Arena_new in
     8 dvd ps ! 1 \<and> region (ps ! 0) 5 \<inter> region (ps ! 3) 7 = {} \<and> in_block a (ps ! 2) 2000"
proof -
  let ?rs = "[(False, 5), (True, 16), (True, 2000), (False, 7)] :: (bool \<times> nat) list"
  obtain ps a where r: "allocate_all bump_new ?rs Arena_new = (ps, a)" by fastforce
  have "\<forall>r \<in> set ?rs. request_ok r" by (simp add: request_ok_def)
  note t = arena_allocations [OF bump.block_source_axioms this r]
  have "region (ps ! 0) (snd (?rs ! 0)) \<inter> region (ps ! 3) (snd (?rs ! 3)) = {}"
    by (rule t [THEN conjunct2, THEN conjunct1, rule_format]) simp
  moreover note at = t [THEN conjunct2, THEN conjunct2, THEN conjunct1]
  have "in_block a (ps ! 2) (snd (?rs ! 2))" "8 dvd ps ! 1" using at [THEN spec, of 2] at [THEN spec, of 1] by simp_all
  ultimately show ?thesis unfolding r by simp
qed

end
