(* ===== verification/Memtable_Usage.thy ===== *)
theory Memtable_Usage
  imports Memtable Arena
begin

text \<open>
  \<open>MemTable::ApproximateMemoryUsage\<close> of \<open>db/memtable.cc\<close>. The model of the memtable has its entries
  and nodes in a store of its own and not in the arena. The requests that the code has made to the
  arena can be read off that store: one for the head of the skip list, and for each entry, in the
  order of insertion, one for its bytes and one for its node. The height of a node comes from the
  random numbers, which start from a fixed seed. The theory shows that these are the requests
  of the constructor and of \<open>Add\<close>.
\<close>

text \<open>\<open>NewNode\<close>: a node is a key and an array of pointers, of which the struct has one.\<close>

definition node_bytes :: "nat \<Rightarrow> nat" where
  "node_bytes height = 16 + 8 * (height - 1)"

text \<open>The heights of \<open>n\<close> nodes from the random seed \<open>rnd\<close> on, and the seed behind them.\<close>

fun node_heights :: "nat \<Rightarrow> u32 \<Rightarrow> nat list \<times> u32" where
  "node_heights 0 rnd = ([], rnd)"
| "node_heights (Suc n) rnd =
     (case node_heights n rnd of (hs, rnd) \<Rightarrow>
      case RandomHeight_loop 1 rnd of (h, rnd) \<Rightarrow> (hs @ [h], rnd))"

definition MemTable_requests :: "MemTable \<Rightarrow> (bool \<times> nat) list" where
  "MemTable_requests m =
     (let t = mt_table m; n = sl_alloc t - 1 in
      (True, node_bytes kMaxHeight) #
      concat (map (\<lambda>(i, h). [(False, length (sl_key t i)), (True, node_bytes h)])
        (zip [1..<Suc n] (fst (node_heights n (Random_new 0xdeadbeef))))))"

definition ApproximateMemoryUsage :: "new_char \<Rightarrow> (nat \<Rightarrow> nat) \<Rightarrow> MemTable \<Rightarrow> nat" where
  "ApproximateMemoryUsage new capacity m =
     MemoryUsage capacity (snd (allocate_all new (MemTable_requests m) Arena_new))"

section \<open>The requests are those of the code\<close>

lemma length_node_heights [simp]: "length (fst (node_heights n rnd)) = n"
  by (induction n) (simp_all add: split_beta)

text \<open>The random seed of a skip list is the one behind the heights of its nodes.\<close>

definition seed_ok :: "MemTable \<Rightarrow> bool" where
  "seed_ok m \<longleftrightarrow> 0 < sl_alloc (mt_table m) \<and>
     sl_rnd (mt_table m) = snd (node_heights (sl_alloc (mt_table m) - 1) (Random_new 0xdeadbeef))"

lemma link_levels_rnd: "sl_rnd (link_levels x prev is s) = sl_rnd s"
  by (induction "is" arbitrary: s) (simp_all add: node_SetNext_def)

lemma Insert_frame:
  assumes "Insert cmp key s = Some s'"
  shows "sl_alloc s' = Suc (sl_alloc s)" "sl_key s' = (sl_key s)(sl_alloc s := key)"
    and "sl_rnd s' = snd (RandomHeight_loop 1 (sl_rnd s))"
  using assms
  by (auto simp: Insert_def RandomHeight_def NewNode_def Let_def frame link_levels_rnd split: option.splits prod.splits if_splits)

lemma seed_ok_new: "seed_ok MemTable_new"
  by (simp add: seed_ok_def MemTable_new_def SkipList_new_def)

lemma MemTable_requests_new: "MemTable_requests MemTable_new = [(True, 104)]"
  by (simp add: MemTable_requests_def MemTable_new_def SkipList_new_def node_bytes_def kMaxHeight_def)

text \<open>\<open>Add\<close> asks for \<open>encoded_len\<close> bytes and then for a node of the height that \<open>Insert\<close> draws.\<close>

lemma MemTable_requests_Add:
  assumes "MemTable_Add cmp s type key val m = Some m'" "seed_ok m" "length key + 8 < 2 ^ 32" "length val < 2 ^ 32"
  shows "seed_ok m' \<and> MemTable_requests m' = MemTable_requests m @
    [(False, encoded_len key val), (True, node_bytes (snd (RandomHeight (mt_table m))))]"
proof -
  let ?t = "mt_table m" and ?e = "mem_entry s type key val"
  obtain t where t: "Insert (KeyComparator cmp) ?e ?t = Some t" "m' = m\<lparr> mt_table := t \<rparr>"
    using assms(1) by (auto simp: MemTable_Add_def)
  obtain n where n: "sl_alloc ?t = Suc n" using assms(2) by (cases "sl_alloc ?t") (simp_all add: seed_ok_def)
  obtain hs rnd where hs: "node_heights n (Random_new 0xdeadbeef) = (hs, rnd)" by fastforce
  obtain h rnd' where h: "RandomHeight_loop (Suc 0) rnd = (h, rnd')" by fastforce
  have rnd: "sl_rnd ?t = rnd" using assms(2) by (simp add: seed_ok_def n hs)
  have f: "sl_alloc t = Suc (Suc n)" "sl_key t = (sl_key ?t)(Suc n := ?e)" "sl_rnd t = rnd'"
    using Insert_frame [OF t(1)] by (simp_all add: n rnd h)
  have len: "length hs = n" using length_node_heights [of n "Random_new 0xdeadbeef"] by (simp add: hs)
  then have zip: "zip [1..<Suc (Suc n)] (hs @ [h]) = zip [1..<Suc n] hs @ [(Suc n, h)]" by simp
  have old: "map (\<lambda>(i, h). [(False, length (((sl_key ?t)(Suc n := ?e)) i)), (True, node_bytes h)]) (zip [1..<Suc n] hs) =
      map (\<lambda>(i, h). [(False, length (sl_key ?t i)), (True, node_bytes h)]) (zip [1..<Suc n] hs)"
    by (rule map_cong [OF refl]) (auto simp del: upt_Suc dest: set_zip_leftD)
  have heights: "fst (node_heights (Suc n) (Random_new 0xdeadbeef)) = hs @ [h]" by (simp add: hs h)
  have mt: "mt_table m' = t" by (simp add: t(2))
  have e: "length ?e = encoded_len key val" using assms(3,4) by (rule encoded_len_exact)
  have "MemTable_requests m' = MemTable_requests m @ [(False, length ?e), (True, node_bytes h)]"
    unfolding MemTable_requests_def Let_def mt f n diff_Suc_1 heights zip map_append old by (simp add: hs)
  moreover have "seed_ok m'" using f by (simp add: seed_ok_def t(2) hs h)
  moreover have "snd (RandomHeight ?t) = h" by (simp add: RandomHeight_def rnd h)
  ultimately show ?thesis by (simp add: e)
qed

end
