(* ===== verification/Recovery.thy ===== *)
theory Recovery
  imports Db_View Log_Correctness Memtable_Usage
begin

text \<open>
  The recovery of a log file, \<open>DBImpl::RecoverLogFile\<close> of \<open>db/db_impl.cc\<close>: the log reader, the
  write batches and the memtable together. Parameters are what opening the file returns, the
  flush \<open>WriteLevel0Table\<close>, which changes the state \<open>'d\<close> of the database, and the functions \<open>new\<close> and
  \<open>capacity\<close> of the C++ library on which the memory usage of a memtable depends. The messages to the
  information log and the freeing of memtables are left out.
\<close>

section \<open>Operations\<close>

record 'd recovery_env =
  re_paranoid_checks :: bool
  re_write_buffer_size :: nat
  re_new :: new_char
  re_capacity :: "nat \<Rightarrow> nat"
  re_WriteLevel0Table :: "MemTable \<Rightarrow> 'd \<Rightarrow> Status \<times> 'd"

definition MaybeIgnoreError :: "'d recovery_env \<Rightarrow> Status \<Rightarrow> Status" where
  "MaybeIgnoreError re s = (if Status_ok s \<or> re_paranoid_checks re then s else OK)"

text \<open>\<open>LogReporter::Corruption\<close>, once and for a list of calls.\<close>

definition reporter_Corruption :: "'d recovery_env \<Rightarrow> Status \<Rightarrow> Status \<Rightarrow> Status" where
  "reporter_Corruption re s status = (if re_paranoid_checks re \<and> Status_ok status then s else status)"

definition new_reports :: "'d recovery_env \<Rightarrow> 'f Reader \<Rightarrow> 'f Reader \<Rightarrow> Status \<Rightarrow> Status" where
  "new_reports re r r' status =
     fold (\<lambda>(n, s). reporter_Corruption re s) (drop (length (r_reports r)) (r_reports r')) status"

partial_function (option) recover_loop ::
  "Comparator \<Rightarrow> 'd recovery_env \<Rightarrow> 'f SequentialFile \<Rightarrow> 'f Reader \<Rightarrow> MemTable option \<Rightarrow> u64 \<Rightarrow> Status \<Rightarrow> 'd \<Rightarrow>
     (MemTable option \<times> u64 \<times> Status \<times> 'd) option" where
  "recover_loop cmp re sops r mem max_sequence status db =
     Option.bind (ReadRecord sops r) (\<lambda>(r', res).
       let status = new_reports re r r' status in
       case res of
         None \<Rightarrow> Some (mem, max_sequence, status, db)
       | Some record \<Rightarrow>
           if \<not> Status_ok status then Some (mem, max_sequence, status, db)
           else if length record < 12 then
             recover_loop cmp re sops r' mem max_sequence
               (reporter_Corruption re (Corruption (cstr ''log record too small'') []) status) db
           else
             Option.bind (InsertInto cmp (SetContents record)
                 (case mem of None \<Rightarrow> MemTable_Ref MemTable_new | Some m \<Rightarrow> m)) (\<lambda>(m, status).
               let status = MaybeIgnoreError re status in
               if \<not> Status_ok status then Some (Some m, max_sequence, status, db)
               else
                 let last_seq = Sequence (SetContents record) + scast (Count (SetContents record)) - 1;
                     max_sequence = (if last_seq > max_sequence then last_seq else max_sequence)
                 in if ApproximateMemoryUsage (re_new re) (re_capacity re) m > re_write_buffer_size re then
                      case re_WriteLevel0Table re m db of
                        (status, db) \<Rightarrow>
                          if \<not> Status_ok status then Some (Some m, max_sequence, status, db)
                          else recover_loop cmp re sops r' None max_sequence status db
                    else recover_loop cmp re sops r' (Some m) max_sequence status db))"

text \<open>What is done after the loop.\<close>

definition finish_recovery :: "'d recovery_env \<Rightarrow> MemTable option \<times> u64 \<times> Status \<times> 'd \<Rightarrow> Status \<times> u64 \<times> 'd" where
  "finish_recovery re r =
     (case r of (mem, max_sequence, status, db) \<Rightarrow>
        case mem of
          Some m \<Rightarrow>
            if Status_ok status then
              (case re_WriteLevel0Table re m db of (status, db) \<Rightarrow> (status, max_sequence, db))
            else (status, max_sequence, db)
        | None \<Rightarrow> (status, max_sequence, db))"


section \<open>A log of batches\<close>

text \<open>The batches of consecutive writes, as \<open>DBImpl::Write\<close> numbers them.\<close>

fun batches :: "u64 \<Rightarrow> update list list \<Rightarrow> bytes list" where
  "batches s [] = []"
| "batches s (us # uss) = batch_of s us # batches (s + word_of_nat (length us)) uss"

lemma number_from_append: "number_from s (us @ vs) = number_from s us @ number_from (s + word_of_nat (length us)) vs"
  by (induction us arbitrary: s) (simp_all add: add.assoc)

lemma length_batches [simp]: "length (batches s uss) = length uss"
  by (induction uss arbitrary: s) simp_all

lemma batch_of_length: "12 \<le> length (batch_of s us)"
  by (simp add: batch_of_layout wb_layout_def)

lemma scast_count:
  assumes "n < 2 ^ 31"
  shows "(scast (word_of_nat n :: u32) :: u64) = word_of_nat n"
proof -
  have "sint (word_of_nat n :: u32) = int n"
    using assms by (simp add: sint_uint unsigned_of_nat signed_take_bit_int_eq_self take_bit_nat_eq_self)
  then show ?thesis by (simp add: scast_eq)
qed

text \<open>The memtable that has been filled with the updates \<open>us\<close>, if there was a batch.\<close>

definition mem_holds :: "u64 \<Rightarrow> update list \<Rightarrow> MemTable option \<Rightarrow> bool" where
  "mem_holds s us mem \<longleftrightarrow>
     (case mem of None \<Rightarrow> us = [] | Some m \<Rightarrow> \<exists>ns. bytewise_mt.holds m (rev (number_from s us)) ns)"

lemma insert_next:
  assumes "mem_holds s us mem" "\<forall>u \<in> set (us @ vs). update_ok u" "unat s + length (us @ vs) < 2 ^ 56"
  shows "\<exists>m. InsertInto BytewiseComparator (batch_of (s + word_of_nat (length us)) vs)
      (case mem of None \<Rightarrow> MemTable_Ref MemTable_new | Some m \<Rightarrow> m) = Some (m, OK) \<and> mem_holds s (us @ vs) (Some m)"
proof -
  let ?m = "case mem of None \<Rightarrow> MemTable_Ref MemTable_new | Some m \<Rightarrow> m"
  let ?adds = "number_from (s + word_of_nat (length us)) vs"
  have "bytewise_mt.holds (MemTable_Ref MemTable_new) [] []"
    using bytewise_mt.holds_new by (simp add: bytewise_mt.holds_def MemTable_Ref_def)
  then obtain ns where h: "bytewise_mt.holds ?m (rev (number_from s us)) ns"
    using assms(1) by (cases mem) (auto simp: mem_holds_def)
  have ok: "\<forall>a \<in> set ?adds. add_ok (\<lambda>_. True) a"
    using number_add_ok [OF assms(2,3)] by (simp add: number_from_append)
  have "distinct (map add_ikey (?adds @ rev (number_from s us)))"
    using number_distinct(2) [OF assms(2,3)] by (auto simp: number_from_append rev_map [symmetric])
  from bytewise_mt.holds_Adds [OF h ok this] obtain m ns' where
    m: "MemTable_Adds BytewiseComparator ?adds ?m = Some m" "bytewise_mt.holds m (rev ?adds @ rev (number_from s us)) ns'"
    by blast
  have "\<forall>u \<in> set vs. update_ok u" using assms(2) by simp
  from InsertInto_batch [OF this] m show ?thesis
    by (auto simp: batch_of_layout mem_holds_def number_from_append)
qed

lemma last_number_max:
  assumes "unat s + length us + length vs < 2 ^ 56" "0 < unat s" "mx \<le> last_number s (length us)"
  shows "(if s + word_of_nat (length us) + word_of_nat (length vs) - 1 > mx
      then s + word_of_nat (length us) + word_of_nat (length vs) - 1 else mx) = last_number s (length (us @ vs))"
proof -
  have b: "unat s + length (us @ vs) < 2 ^ 56" using assms(1) by simp
  have "last_number s (length us) \<le> last_number s (length (us @ vs))"
    unfolding word_le_nat_alt number_le_last(2) [OF b assms(2) order_refl, of "length us", simplified]
      number_le_last(2) [OF b assms(2) order_refl order_refl] by simp
  with assms(3) show ?thesis by (auto simp: last_number_def add.assoc)
qed

text \<open>
  The specification of recovery. The batches are applied in groups; a group is the batches that
  one memtable holds when it is flushed. \<open>flush_all\<close> flushes memtables in order, where only the
  last flush may fail.
\<close>

fun flush_all :: "'d recovery_env \<Rightarrow> MemTable list \<Rightarrow> 'd \<Rightarrow> (Status \<times> 'd) option" where
  "flush_all re [] db = Some (OK, db)"
| "flush_all re (m # ms) db =
     (case re_WriteLevel0Table re m db of
        (st, db) \<Rightarrow> if Status_ok st then flush_all re ms db else if ms = [] then Some (st, db) else None)"

fun groups_hold :: "u64 \<Rightarrow> update list list list \<Rightarrow> MemTable list \<Rightarrow> bool" where
  "groups_hold s [] [] \<longleftrightarrow> True"
| "groups_hold s (g # gss) (m # ms) \<longleftrightarrow>
     mem_holds s (concat g) (Some m) \<and> groups_hold (s + word_of_nat (length (concat g))) gss ms"
| "groups_hold s _ _ \<longleftrightarrow> False"

text \<open>
  The result of recovering the batches \<open>bs\<close>: they have been put into memtables group by group and
  the memtables flushed in order; a flush that fails ends the recovery.
\<close>

definition recovers :: "'d recovery_env \<Rightarrow> u64 \<Rightarrow> u64 \<Rightarrow> update list list \<Rightarrow> 'd \<Rightarrow> (Status \<times> u64 \<times> 'd) option \<Rightarrow> bool" where
  "recovers re s mx bs db res \<longleftrightarrow>
     (\<exists>gss ms st db'. res = Some (st, if gss = [] then mx else last_number s (length (concat (concat gss))), db') \<and>
        flush_all re ms db = Some (st, db') \<and> groups_hold s gss ms \<and> (\<forall>g \<in> set gss. g \<noteq> []) \<and>
        prefix (concat gss) bs \<and> (Status_ok st \<longrightarrow> concat gss = bs))"

lemma recovers_stop:
  assumes "mem_holds s (concat cs) mem" "mem = None \<longleftrightarrow> cs = []" "cs \<noteq> [] \<longrightarrow> mx = last_number s (length (concat cs))"
  shows "recovers re s mx cs db (Some (finish_recovery re (mem, mx, OK, db)))"
proof (cases mem)
  case None
  then show ?thesis using assms(2) unfolding recovers_def
    by (intro exI [of _ "[]"] exI [of _ OK] exI [of _ db]) (simp add: finish_recovery_def)
next
  case (Some m)
  obtain st db' where f: "re_WriteLevel0Table re m db = (st, db')" by fastforce
  then have "flush_all re [m] db = Some (st, db')" by (simp add: Status_ok_def OK_def)
  with f Some assms show ?thesis unfolding recovers_def
    by (intro exI [of _ "[cs]"] exI [of _ "[m]"] exI [of _ st] exI [of _ db']) (simp add: finish_recovery_def)
qed

lemma recovers_fail:
  assumes "mem_holds s (concat g) (Some m)" "g \<noteq> []" "re_WriteLevel0Table re m db = (st, db')" "\<not> Status_ok st"
  shows "recovers re s mx (g @ bs) db (Some (finish_recovery re (Some m, last_number s (length (concat g)), st, db')))"
  using assms unfolding recovers_def
  by (intro exI [of _ "[g]"] exI [of _ "[m]"] exI [of _ st] exI [of _ db']) (simp add: finish_recovery_def)

lemma recovers_flush:
  assumes "mem_holds s (concat g) (Some m)" "g \<noteq> []" "re_WriteLevel0Table re m db = (st, db1)" "Status_ok st"
    and "recovers re (s + word_of_nat (length (concat g))) (last_number s (length (concat g))) bs db1 res"
  shows "recovers re s mx (g @ bs) db res"
proof -
  from assms(5) obtain gss ms st' db' where r: "res = Some (st', if gss = [] then last_number s (length (concat g))
        else last_number (s + word_of_nat (length (concat g))) (length (concat (concat gss))), db')"
      "flush_all re ms db1 = Some (st', db')" "groups_hold (s + word_of_nat (length (concat g))) gss ms" "\<forall>g \<in> set gss. g \<noteq> []"
      "prefix (concat gss) bs" "Status_ok st' \<longrightarrow> concat gss = bs"
    unfolding recovers_def by blast
  then show ?thesis using assms(1-4) unfolding recovers_def
    by (intro exI [of _ "g # gss"] exI [of _ "m # ms"] exI [of _ st'] exI [of _ db']) (simp add: last_number_def add.assoc)
qed

lemma recovers_max:
  assumes "bs \<noteq> []" "recovers re s q bs db res"
  shows "recovers re s mx bs db res"
proof -
  from assms(2) obtain gss ms st db' where r: "res = Some (st, if gss = [] then q else last_number s (length (concat (concat gss))), db')"
      "flush_all re ms db = Some (st, db')" "groups_hold s gss ms" "\<forall>g \<in> set gss. g \<noteq> []"
      "prefix (concat gss) bs" "Status_ok st \<longrightarrow> concat gss = bs"
    unfolding recovers_def by blast
  have "gss \<noteq> []"
  proof
    assume "gss = []"
    moreover from this r(3) have "ms = []" by (cases ms) simp_all
    ultimately show False using r(2,6) assms(1) by simp
  qed
  with r show ?thesis unfolding recovers_def
    by (intro exI [of _ gss] exI [of _ ms] exI [of _ st] exI [of _ db']) simp
qed

context sequential_file
begin

text \<open>One record that is a batch: the memtable is filled and flushed when it has become too large.\<close>

lemma recover_loop_record:
  assumes "ReadRecord sf r = Some (r', Some (batch_of (s + word_of_nat (length us)) vs))" "r_reports r' = r_reports r"
    and "mem_holds s us mem" "\<forall>u \<in> set (us @ vs). update_ok u" "unat s + length (us @ vs) < 2 ^ 56" "0 < unat s"
    and "length vs < 2 ^ 31" "mx \<le> last_number s (length us)"
  obtains m where "mem_holds s (us @ vs) (Some m)"
    "recover_loop BytewiseComparator re sf r mem mx OK db =
      (if ApproximateMemoryUsage (re_new re) (re_capacity re) m > re_write_buffer_size re then
         case re_WriteLevel0Table re m db of (st, db') \<Rightarrow>
           if \<not> Status_ok st then Some (Some m, last_number s (length (us @ vs)), st, db')
           else recover_loop BytewiseComparator re sf r' None (last_number s (length (us @ vs))) st db'
       else recover_loop BytewiseComparator re sf r' (Some m) (last_number s (length (us @ vs))) OK db)"
proof -
  let ?b = "batch_of (s + word_of_nat (length us)) vs"
  from insert_next [OF assms(3-5)] obtain m where
    m: "InsertInto BytewiseComparator ?b (case mem of None \<Rightarrow> MemTable_Ref MemTable_new | Some m \<Rightarrow> m) = Some (m, OK)"
      "mem_holds s (us @ vs) (Some m)" by blast
  have f: "Sequence ?b = s + word_of_nat (length us)" "Count ?b = word_of_nat (length vs)" by (simp_all add: batch_of_layout)
  have mxs: "(if Sequence ?b + scast (Count ?b) - 1 > mx then Sequence ?b + scast (Count ?b) - 1 else mx) = last_number s (length (us @ vs))"
    unfolding f scast_count [OF assms(7)] using assms(5,6,8) by (intro last_number_max) simp_all
  have l: "\<not> length ?b < 12" using batch_of_length [of _ vs] by (simp add: not_less)
  have n: "new_reports re r r' OK = OK" using assms(2) by (simp add: new_reports_def)
  obtain st db1 where w: "re_WriteLevel0Table re m db = (st, db1)" by fastforce
  show thesis
    by (rule that [OF m(2)], subst recover_loop.simps)
      (simp add: assms(1) n l m(1) mxs w SetContents_def MaybeIgnoreError_def Let_def del: length_append)
qed

lemma recover_loop_stop:
  assumes "ReadRecord sf r = Some (r', None)" "r_reports r' = r_reports r"
  shows "recover_loop cmp re sf r mem mx OK db = Some (mem, mx, OK, db)"
  using assms by (subst recover_loop.simps) (simp add: new_reports_def)

text \<open>The records of the log that are intact are applied in groups, and no others.\<close>

lemma recover_loop_ok:
  assumes "reader_at r off (take n (log_bytes off (batches (s + word_of_nat (length (concat cs))) uss)))"
    and "mem_holds s (concat cs) mem" "mem = None \<longleftrightarrow> cs = []"
    and "\<forall>us \<in> set (cs @ uss). length us < 2 ^ 31 \<and> (\<forall>u \<in> set us. update_ok u)"
    and "unat s + length (concat (cs @ uss)) < 2 ^ 56" "0 < unat s" "mx \<le> last_number s (length (concat cs))"
    and "cs \<noteq> [] \<longrightarrow> mx = last_number s (length (concat cs))"
  shows "\<exists>k \<le> length uss.
    intact off n (batches (s + word_of_nat (length (concat cs))) uss) = take k (batches (s + word_of_nat (length (concat cs))) uss) \<and>
    recovers re s mx (cs @ take k uss) db
      (map_option (finish_recovery re) (recover_loop BytewiseComparator re sf r mem mx OK db))"
  using assms
proof (induction uss arbitrary: r off n s cs mem mx db)
  case Nil
  have "strict_prefix [] (record_bytes off True [])"
    by (simp add: strict_prefix_def not_sym [OF record_bytes_not_Nil])
  with Nil(1) ReadRecord_truncated [of r off "[]" "[]"] obtain r1 where
    r1: "ReadRecord sf r = Some (r1, None)" "same_config r r1" by auto
  have "recover_loop BytewiseComparator re sf r mem mx OK db = Some (mem, mx, OK, db)"
    by (rule recover_loop_stop [OF r1(1)]) (use r1(2) in \<open>simp add: same_config_def\<close>)
  with recovers_stop [OF Nil(2,3,8), of re db] show ?case by simp
next
  case (Cons vs uss)
  let ?us = "concat cs" and ?cs = "cs @ [vs]" and ?s = "s + word_of_nat (length (concat cs))"
  let ?d = "batch_of ?s vs" and ?rest = "batches (?s + word_of_nat (length vs)) uss"
  let ?s' = "s + word_of_nat (length (concat ?cs))" and ?q = "last_number s (length (concat ?cs))"
  have nxt: "?s + word_of_nat (length vs) = ?s'" by (simp add: add.assoc)
  show ?case
  proof (cases "length (record_bytes off True ?d) \<le> n")
    case False
    then have "reader_at r off (take n (record_bytes off True ?d))" using Cons.prems(1) by simp
    moreover have "strict_prefix (take n (record_bytes off True ?d)) (record_bytes off True ?d)"
      using False by (simp add: strict_prefix_def take_is_prefix)
    ultimately obtain r1 where r1: "ReadRecord sf r = Some (r1, None)" "same_config r r1"
      using ReadRecord_truncated by blast
    have "recover_loop BytewiseComparator re sf r mem mx OK db = Some (mem, mx, OK, db)"
      by (rule recover_loop_stop [OF r1(1)]) (use r1(2) in \<open>simp add: same_config_def\<close>)
    with False recovers_stop [OF Cons.prems(2,3,8), of re db] show ?thesis by (intro exI [of _ 0]) simp
  next
    case True
    let ?n = "n - length (record_bytes off True ?d)" and ?off = "record_end off True ?d"
    from True have "reader_at r off (record_bytes off True ?d @ take ?n (log_bytes ?off ?rest))"
      using Cons.prems(1) by simp
    from ReadRecord_complete [OF this] obtain r1 where r1: "ReadRecord sf r = Some (r1, Some ?d)"
        "reader_at r1 ?off (take ?n (log_bytes ?off ?rest))" "same_config r r1" by blast
    have ok: "\<forall>u \<in> set (?us @ vs). update_ok u" "unat s + length (?us @ vs) < 2 ^ 56" "length vs < 2 ^ 31"
      "r_reports r1 = r_reports r" using Cons.prems r1(3) by (auto simp: same_config_def)
    obtain m where m: "mem_holds s (?us @ vs) (Some m)" and loop:
        "recover_loop BytewiseComparator re sf r mem mx OK db =
          (if ApproximateMemoryUsage (re_new re) (re_capacity re) m > re_write_buffer_size re then
             case re_WriteLevel0Table re m db of (st, db') \<Rightarrow>
               if \<not> Status_ok st then Some (Some m, last_number s (length (?us @ vs)), st, db')
               else recover_loop BytewiseComparator re sf r1 None (last_number s (length (?us @ vs))) st db'
           else recover_loop BytewiseComparator re sf r1 (Some m) (last_number s (length (?us @ vs))) OK db)"
      by (rule recover_loop_record [OF r1(1) ok(4) Cons.prems(2) ok(1,2) Cons.prems(6) ok(3) Cons.prems(7)])
    have mg: "mem_holds s (concat ?cs) (Some m)" "?us @ vs = concat ?cs" using m by simp_all
    obtain st db1 where w: "re_WriteLevel0Table re m db = (st, db1)" by fastforce
    have "\<exists>k \<le> length uss. intact ?off ?n ?rest = take k ?rest \<and> recovers re s mx (?cs @ take k uss) db
        (map_option (finish_recovery re) (recover_loop BytewiseComparator re sf r mem mx OK db))"
    proof (cases "ApproximateMemoryUsage (re_new re) (re_capacity re) m > re_write_buffer_size re")
      case full: True
      show ?thesis
      proof (cases "Status_ok st")
        case False
        obtain k where "intact ?off ?n ?rest = take k ?rest" "k \<le> length ?rest" using intact_prefix [of ?off ?n ?rest] by blast
        with loop w full False recovers_fail [OF mg(1) _ w False, of mx "take _ uss"] show ?thesis
          by (intro exI [of _ k]) simp
      next
        case ok': True
        have u: "unat ?s' = unat s + length (concat ?cs)"
          using Cons.prems(5) by (intro unat_number [where us = "concat (cs @ vs # uss)"]) simp_all
        have "\<exists>k \<le> length uss. intact ?off ?n (batches (?s' + word_of_nat (length (concat ([] :: update list list)))) uss) =
              take k (batches (?s' + word_of_nat (length (concat ([] :: update list list)))) uss) \<and>
            recovers re ?s' ?q ([] @ take k uss) db1
              (map_option (finish_recovery re) (recover_loop BytewiseComparator re sf r1 None ?q OK db1))"
          by (rule Cons.IH) (use r1(2) nxt u Cons.prems(4-6) in \<open>simp_all add: mem_holds_def last_number_def add.assoc ball_Un\<close>)
        then obtain k where k: "k \<le> length uss" "intact ?off ?n ?rest = take k ?rest" "recovers re ?s' ?q (take k uss) db1
              (map_option (finish_recovery re) (recover_loop BytewiseComparator re sf r1 None ?q OK db1))"
          unfolding nxt by auto
        have "recover_loop BytewiseComparator re sf r mem mx OK db = recover_loop BytewiseComparator re sf r1 None ?q OK db1"
          using loop w full ok' by (simp add: Status_ok_def OK_def)
        with k recovers_flush [OF mg(1) _ w ok' k(3), of mx] show ?thesis by (intro exI [of _ k]) simp
      qed
    next
      case room: False
      have "\<exists>k \<le> length uss. intact ?off ?n (batches ?s' uss) = take k (batches ?s' uss) \<and>
          recovers re s ?q (?cs @ take k uss) db
            (map_option (finish_recovery re) (recover_loop BytewiseComparator re sf r1 (Some m) ?q OK db))"
        by (rule Cons.IH) (use r1(2) nxt mg(1) Cons.prems(4-6) in \<open>simp_all add: add.assoc ball_Un\<close>)
      then obtain k where k: "k \<le> length uss" "intact ?off ?n ?rest = take k ?rest" "recovers re s ?q (?cs @ take k uss) db
            (map_option (finish_recovery re) (recover_loop BytewiseComparator re sf r1 (Some m) ?q OK db))"
        unfolding nxt by auto
      have "recover_loop BytewiseComparator re sf r mem mx OK db = recover_loop BytewiseComparator re sf r1 (Some m) ?q OK db"
        using loop room unfolding mg(2) by simp
      with k recovers_max [OF _ k(3), of mx] show ?thesis by (intro exI [of _ k]) simp
    qed
    then obtain k where "k \<le> length uss" "intact ?off ?n ?rest = take k ?rest" "recovers re s mx (?cs @ take k uss) db
        (map_option (finish_recovery re) (recover_loop BytewiseComparator re sf r mem mx OK db))" by blast
    with True show ?thesis by (intro exI [of _ "Suc k"]) simp
  qed
qed

end

section \<open>Reading what has been recovered\<close>








section \<open>Correctness\<close>






end
