(* ===== verification/Spec2Isabelle.thy ===== *)
theory Spec2Isabelle
  imports Coding Status Logging Comparator Dbformat Crc32c Filename Env Memenv InMemoryEnv Log Log_Correctness Tracer Labels Synthetic
    Filter_Policy Filter_Block Random_Gen Skiplist Iterator Memtable Readers Write_Batch Block Block_Correctness
    Block_Safety Sorted_Runs Iterator_Wrapper Merger Merger_Correctness Two_Level Format Table_Builder Table Table_Image Table_Correctness
    Db_Iter Db_View Version_Edit Arena Memtable_Usage Recovery
begin

text \<open>
  A verification development for this repository: the LevelDB storage engine under
  \<open>src/code/apps/leveldb\<close>, and the pipeline that learns from its file accesses, which is the
  access tracer (\<open>src/code/data_gen/lib\<close>), the generators of synthetic access logs
  (\<open>src/code/data_gen/synthetic\<close>) and the labelling script (\<open>src/code/label_gen/label.py\<close>).

  \<^bold>\<open>How the parts fit.\<close> A write to the database is a \<open>WriteBatch\<close>; it is appended to the log and
  inserted into the memtable, a skip list of encoded entries. Full memtables become tables:
  blocks of prefix-compressed entries, a filter block, an index block and a footer. Readers see
  the memtable and the tables through iterators, which are merged and then reduced to the newest
  visible version of each user key. All files go through the \<open>Env\<close> interface. The tracer is
  loaded into such a program, intercepts its reads and writes and logs them; the labelling script
  marks each logged access by whether its place in the file is used again soon.

  \<^bold>\<open>Conventions.\<close> Bytes are 8-bit words, a string or \<open>Slice\<close> is a list of bytes, fixed-width integers are
  words where they can wrap and natural numbers where they are sizes of objects in memory.
  Stateful classes are records, their methods functions that return the new state. \<open>Status\<close> is
  its \<open>state_\<close> array, \<open>OK\<close> is \<open>None\<close>. A loop that may not end is a \<open>partial_function\<close> whose value
  \<open>None\<close> means that it does not return (or that it reads outside its buffer); theorems state that
  the value is \<open>Some\<close>. Assertions of the code are preconditions. Abstract classes are records of
  functions, and what their users rely on is a locale that the modelled classes interpret. There
  is no fuel in the operations; only the scans \<open>it_forward\<close> and \<open>it_backward\<close>, which stand for a
  client that steps an iterator, take a number of steps, and the theorems hold for every number
  from the length of the list on.

  \<^bold>\<open>Basic encodings.\<close> \<open>Prelude\<close> has the types and shared lemmas; \<open>Slice\<close> is \<open>include/leveldb/slice.h\<close>,
  \<open>Coding\<close> is \<open>util/coding.cc\<close> (round trips of fixed and variable integers, bounds of the readers on
  arbitrary input), \<open>Readers\<close> the contract of its readers, \<open>Logging\<close> is \<open>util/logging.cc\<close> (exact decimal
  parsing with its overflow test), \<open>Status\<close> is \<open>util/status.cc\<close>, \<open>Crc32c\<close> is \<open>util/crc32c.cc\<close> (the table
  driven loops compute the bitwise definition at every alignment), \<open>Random_Gen\<close> is \<open>util/random.h\<close>,
  \<open>Arena\<close> is \<open>util/arena.cc\<close> (disjoint and aligned allocations; sizes are kept modulo \<open>2 ^ 64\<close>, and a request
  near that limit is shown to wrap).

  \<^bold>\<open>Keys and names.\<close> \<open>Comparator\<close> is \<open>util/comparator.cc\<close> with the order contracts \<open>key_order\<close> and
  \<open>separator_order\<close>; \<open>Dbformat\<close> is \<open>db/dbformat.cc\<close>: internal keys, their order, separators and
  lookup keys; \<open>Filename\<close> is \<open>db/filename.cc\<close>.

  \<^bold>\<open>Files.\<close> \<open>Env\<close> has the file classes of \<open>include/leveldb/env.h\<close> with their contracts; \<open>Memenv\<close> and
  \<open>InMemoryEnv\<close> are \<open>helpers/memenv/memenv.cc\<close>, which interprets them: it refines a map from names to
  contents and keeps its 32-bit reference counts right. \<open>Log\<close> is \<open>db/log_writer.cc\<close> and \<open>db/log_reader.cc\<close>;
  \<open>Log_Correctness\<close> shows that every prefix of a log gives back the complete records, and that
  the reader terminates on any file.

  \<^bold>\<open>Memory.\<close> \<open>Skiplist\<close> is \<open>db/skiplist.h\<close> with its nodes in an explicit store; \<open>Memtable\<close> is \<open>db/memtable.cc\<close>
  (a multi-version map) and \<open>Memtable_Usage\<close> its memory usage, computed by the arena from the requests
  that the memtable makes; \<open>Write_Batch\<close> is \<open>db/write_batch.cc\<close> (batches as lists of updates, truncated
  batches rejected).

  \<^bold>\<open>Tables.\<close> \<open>Filter_Policy\<close> and \<open>Filter_Block\<close> are \<open>util/bloom.cc\<close>, \<open>util/hash.cc\<close>, \<open>table/filter_block.cc\<close> (no
  false negatives); \<open>Block\<close> is \<open>table/block_builder.cc\<close> and \<open>table/block.cc\<close>, with \<open>Block_Correctness\<close> (the
  iterator runs over the entries that were added) and \<open>Block_Safety\<close> (its moves return and stay
  in bounds on blocks with sane entries); \<open>Format\<close> is \<open>table/format.cc\<close>; \<open>Table_Builder\<close> and \<open>Table\<close>
  are \<open>table/table_builder.cc\<close> and \<open>table/table.cc\<close>, with \<open>Table_Image\<close> (the bytes that a builder
  writes) and \<open>Table_Correctness\<close> (a written table opens, scans and looks up correctly).

  \<^bold>\<open>Iterators.\<close> \<open>Iterator\<close> has the interface and its contract \<open>list_iterator\<close>: a position in a sorted
  list. \<open>Sorted_Runs\<close> has lemmas on such lists. \<open>Iterator_Wrapper\<close>, \<open>Merger\<close> and \<open>Merger_Correctness\<close>,
  \<open>Two_Level\<close> and \<open>Db_Iter\<close> are \<open>table/iterator_wrapper.h\<close>, \<open>table/merger.cc\<close>,
  \<open>table/two_level_iterator.cc\<close> and \<open>db/db_iter.cc\<close>; each takes iterators that meet the contract and
  meets it itself, in both directions and with changes of direction.

  \<^bold>\<open>Composition.\<close> \<open>Version_Edit\<close> is \<open>db/version_edit.cc\<close>, the records of the manifest. \<open>Db_View\<close> joins write
  batches, memtable and database iterator: a reader at a sequence number sees the map that the
  updates up to it make. \<open>Recovery\<close> is \<open>DBImpl::RecoverLogFile\<close> and joins them with the log: what is
  recovered after a crash is a whole number of batches, spread over the memtables that are flushed
  when they outgrow the write buffer. The flush itself, the C++ functions \<open>new\<close> and \<open>capacity\<close> and
  the result of opening the file are its parameters.

  \<^bold>\<open>Tracing.\<close> \<open>Tracer\<close> is \<open>frontend.cpp\<close> and \<open>handler.cpp\<close>: the intercepted calls, and a step relation for the
  interleaving of processes around the semaphore, in which the opening of the log, each flush of
  some bytes of the line and the closing are steps of their own. \<open>Labels\<close> is \<open>label.py\<close>, \<open>Synthetic\<close> the two
  generators. This theory joins the tracer with the script.

  \<^bold>\<open>Not modelled.\<close> The rest of the database (\<open>db/db_impl.cc\<close> with its threads and compactions,
  \<open>db/version_set.cc\<close>, \<open>db/table_cache.cc\<close>, \<open>db/builder.cc\<close>, \<open>db/repair.cc\<close>, \<open>util/cache.cc\<close>, \<open>db/snapshot.h\<close>):
  where a modelled part calls it, the call is a parameter (\<open>WriteLevel0Table\<close>, the block cache) or
  is recorded (\<open>RecordReadSample\<close>). The operating system (\<open>util/env_posix.cc\<close>, the port), tools,
  tests and benchmarks of LevelDB are input and output. RocksDB, GraphChi, Metis, the NAS
  benchmarks and MADbench are third-party workloads that the tracer runs on as they are. The notebook
  of the transformer is numerical code of a machine-learning library. Concurrent readers of the
  skip list are not modelled, nor is the freeing of memory.
\<close>

section \<open>From the traced calls to the labels\<close>

text \<open>
  C15. The labels of a traced run. Let traced processes run in any interleaving in which the semaphore
  opens, no wait is interrupted, no write fails and no process exits, and stop when no line is half
  written. The log is read by the labelling script without an error, one line for each logged access
  in order, and the script labels exactly the accesses from number 100, the second window, up to the
  last counted window: 0 if the same descriptor and offset is accessed again in the next two
  windows, and 1 if not. The accesses of the first window, and those after the last counted one,
  get no label.
\<close>

theorem trace_labels_pipeline:
  assumes "sem_name t = None" "ACCESS_LOG t = []" "truns (init_sys t) es s" "list_all calm es"
    and "\<forall>p. unwritten s p = []"
  shows "let as = logged es in
    py_readlines (ACCESS_LOG (shared s)) = map access_line as \<and>
    label_main True (py_readlines (ACCESS_LOG (shared s))) [] =
      (concat (map (\<lambda>j. py_strip 10 (access_line (as ! j)) @
          (if \<exists>i. (j div 100 + 1) * 100 \<le> i \<and> i < min ((j div 100 + 3) * 100) (length as) \<and>
               a_fd (snd (as ! i)) = a_fd (snd (as ! j)) \<and> a_pos (snd (as ! i)) = a_pos (snd (as ! j))
           then cstr '',0'' else cstr '',1'') @ [10])
        [100 ..< (length as - 1) div 100 * 100]), None)"
proof -
  define as where "as = logged es"
  have "ACCESS_LOG (shared s) = concat (map event_line es)"
    using log_inv_run [OF assms(3,4) sem_inv_init [OF assms(1)] log_inv_init] assms(2,5) by (simp add: log_inv_def)
  then have log: "py_readlines (ACCESS_LOG (shared s)) = map access_line as"
    by (simp add: concat_event_lines py_readlines_lines as_def)
  have "labelled (map access_line as) j = py_strip 10 (access_line (as ! j)) @
      (if \<exists>i. (j div 100 + 1) * 100 \<le> i \<and> i < min ((j div 100 + 3) * 100) (length as) \<and>
           a_fd (snd (as ! i)) = a_fd (snd (as ! j)) \<and> a_pos (snd (as ! i)) = a_pos (snd (as ! j))
       then cstr '',0'' else cstr '',1'') @ [10]" if "j \<in> set [100 ..< (length as - 1) div 100 * 100]" for j
  proof -
    from that have "j < length as"
      using div_times_less_eq_dividend [of "length as - 1" 100] by (auto intro: less_le_trans)
    then show ?thesis by (simp add: labelled_def reused_lines del: cstr_Cons)
  qed
  then have labels: "map (labelled (map access_line as)) [100 ..< (length as - 1) div 100 * 100] =
      map (\<lambda>j. py_strip 10 (access_line (as ! j)) @
        (if \<exists>i. (j div 100 + 1) * 100 \<le> i \<and> i < min ((j div 100 + 3) * 100) (length as) \<and>
             a_fd (snd (as ! i)) = a_fd (snd (as ! j)) \<and> a_pos (snd (as ! i)) = a_pos (snd (as ! j))
         then cstr '',0'' else cstr '',1'') @ [10]) [100 ..< (length as - 1) div 100 * 100]"
    by (intro map_cong refl)
  have "label_main True (map access_line as) [] =
      (concat (map (labelled (map access_line as)) [100 ..< (length as - 1) div 100 * 100]), None)"
    using label_main_written [of "map access_line as" "[]"] well_formed_labelled [OF well_formed_lines, of as]
    by (simp add: nr_windows_def)
  then show ?thesis unfolding as_def [symmetric] Let_def log labels by (intro conjI refl)
qed

text \<open>
  A process that reads 200 times at offset 0 and then 101 times at offset 4096: the accesses 100 to
  199 are not repeated after their window, and 200 to 299 are, by the last one.
\<close>

definition far_access :: access where
  "far_access = \<lparr> a_type = 0, a_fd = 3, a_pos = 4096, a_bytes = 1 \<rparr>"

definition two_places :: "access list" where
  "two_places = replicate 200 an_access @ replicate 101 far_access"

definition two_places_run :: "event list" where
  "two_places_run = Con 1 None # concat (map (logged_call 1) two_places)"

definition fresh_tracer :: tracer where
  "fresh_tracer = \<lparr> sem_name = None, sem_val = \<lambda>_. 0, sem_next = 0, ACCESS_LOG = [], t_stdout = [] \<rparr>"

lemma two_places_nth: "i < 301 \<Longrightarrow> two_places ! i = (if i < 200 then an_access else far_access)"
  by (simp add: two_places_def nth_append)

lemma logged_calls: "logged (concat (map (logged_call p) as)) = map (Pair p) as"
  by (induction as) (simp_all add: logged_call_def)

lemma calm_calls: "list_all calm (concat (map (logged_call p) as))"
  by (induction as) (simp_all add: logged_call_def calm_def)

lemma two_places_run_ends:
  obtains s where "truns (init_sys fresh_tracer) two_places_run s" "\<forall>p. unwritten s p = []"
proof -
  let ?s = "set_proc 1 (Some (Idle, Some 0)) (fst (con None fresh_tracer)) (init_sys fresh_tracer)"
  have "tnext (init_sys fresh_tracer) (Con 1 None) = Some ?s" "sem_val (shared ?s) 0 = 1"
    by (simp_all add: init_sys_def fresh_tracer_def con_def open_sem_def)
  moreover have "\<forall>a \<in> set two_places. sane (a_fd a) (a_pos a) (a_bytes a)"
    by (auto simp: two_places_def an_access_def far_access_def sane_def)
  then obtain s where s: "tnexts ?s (concat (map (logged_call 1) two_places)) = Some s" "procs s = procs ?s"
    using tnexts_logged_calls [of ?s 1 0 two_places] calculation(2) by auto
  ultimately have "tnexts (init_sys fresh_tracer) two_places_run = Some s" by (simp add: two_places_run_def)
  moreover have "\<forall>p. unwritten s p = []" by (simp add: unwritten_def s(2) init_sys_def)
  ultimately show thesis using that tnexts_sound by blast
qed

theorem trace_labels_pipeline_witness:
  "\<exists>s. truns (init_sys fresh_tracer) two_places_run s \<and>
     label_main True (py_readlines (ACCESS_LOG (shared s))) [] =
       (concat (replicate 100 (cstr ''0,1,3,0,1,1'' @ [10]) @ replicate 100 (cstr ''0,1,3,4096,1,0'' @ [10])), None)"
proof -
  obtain s where s: "truns (init_sys fresh_tracer) two_places_run s" "\<forall>p. unwritten s p = []"
    by (rule two_places_run_ends)
  define as where "as = map (Pair (1::i32)) two_places"
  have len: "length as = 301" by (simp add: as_def two_places_def)
  have nth: "as ! i = (1, if i < 200 then an_access else far_access)" if "i < 301" for i
    using that len by (simp add: as_def two_places_nth)
  have log: "logged two_places_run = as" by (simp add: two_places_run_def logged_calls as_def)
  have calm: "list_all calm two_places_run" by (simp add: two_places_run_def calm_calls) (simp add: calm_def)
  have "sem_name fresh_tracer = None" "ACCESS_LOG fresh_tracer = []" by (simp_all add: fresh_tracer_def)
  note run = trace_labels_pipeline [OF this s(1) calm s(2), unfolded log Let_def len, THEN conjunct2]
  define F where "F j = py_strip 10 (access_line (as ! j)) @
      (if \<exists>i. (j div 100 + 1) * 100 \<le> i \<and> i < min ((j div 100 + 3) * 100) 301 \<and>
           a_fd (snd (as ! i)) = a_fd (snd (as ! j)) \<and> a_pos (snd (as ! i)) = a_pos (snd (as ! j))
       then cstr '',0'' else cstr '',1'') @ [10]" for j
  have line: "py_strip 10 (access_line (1, an_access)) = cstr ''0,1,3,0,1''"
    "py_strip 10 (access_line (1, far_access)) = cstr ''0,1,3,4096,1''"
    by (simp_all add: access_line_def line_of_def log_line_def an_access_def far_access_def fmt_d_def fmt_u.simps py_strip_def)
  have "F j = cstr ''0,1,3,0,1,1'' @ [10]" if "100 \<le> j" "j < 200" for j
  proof -
    have "j div 100 = 1" using that by (intro div_nat_eqI) auto
    moreover have "a_pos (snd (as ! i)) \<noteq> a_pos (snd (as ! j))" if "200 \<le> i" "i < 301" for i
      using that \<open>j < 200\<close> by (simp add: nth an_access_def far_access_def)
    ultimately have "\<not> (\<exists>i. (j div 100 + 1) * 100 \<le> i \<and> i < min ((j div 100 + 3) * 100) 301 \<and>
        a_fd (snd (as ! i)) = a_fd (snd (as ! j)) \<and> a_pos (snd (as ! i)) = a_pos (snd (as ! j)))" by auto
    then show ?thesis using \<open>j < 200\<close> by (simp only: F_def if_False) (simp add: nth line)
  qed
  then have "map F [100 ..< 200] = replicate 100 (cstr ''0,1,3,0,1,1'' @ [10])"
    by (intro replicate_eqI) (auto simp del: cstr_Cons upt_rec_numeral)
  moreover have "F j = cstr ''0,1,3,4096,1,0'' @ [10]" if "200 \<le> j" "j < 300" for j
  proof -
    have "j div 100 = 2" using that by (intro div_nat_eqI) auto
    then have "\<exists>i. (j div 100 + 1) * 100 \<le> i \<and> i < min ((j div 100 + 3) * 100) 301 \<and>
        a_fd (snd (as ! i)) = a_fd (snd (as ! j)) \<and> a_pos (snd (as ! i)) = a_pos (snd (as ! j))"
      using that by (intro exI [of _ 300]) (simp add: nth)
    then show ?thesis using that by (simp only: F_def if_True) (simp add: nth line)
  qed
  then have "map F [200 ..< 300] = replicate 100 (cstr ''0,1,3,4096,1,0'' @ [10])"
    by (intro replicate_eqI) (auto simp del: cstr_Cons upt_rec_numeral)
  moreover have "[100 ..< 300] = [100 ..< 200] @ [200 ..< 300]"
    using upt_add_eq_append [of 100 200 100] by (simp del: upt_rec_numeral)
  ultimately have "map F [100 ..< 300] = replicate 100 (cstr ''0,1,3,0,1,1'' @ [10]) @ replicate 100 (cstr ''0,1,3,4096,1,0'' @ [10])"
    by (simp del: cstr_Cons upt_rec_numeral)
  moreover have "(301 - 1) div 100 * 100 = (300 :: nat)" by simp
  ultimately show ?thesis using s(1) run [folded F_def] by (intro exI [of _ s]) (simp only:)
qed

end
